(* ===== verification/Golance_Prelude.thy ===== *)
theory Golance_Prelude
  imports Main "HOL-Library.Word" "HOL-Library.List_Lexorder" "HOL-Library.Char_ord"
    "HOL-Library.Multiset" "HOL-Library.Sublist"
begin

text \<open>
  Shared vocabulary of the development: Go results (a value, a returned error or a panic),
  byte strings, the fixed-width integer encodings of Go's \<open>encoding/binary\<close>, byte
  buffers written at an offset, and the list lemmas the components share.

  Go strings and \<open>[]byte\<close> values are both byte sequences; conversions between them copy
  the bytes, so both are modelled by \<open>bytes\<close>.
\<close>

section \<open>Collections of rewrite rules\<close>

named_theorems codec_simps "fixed-width integer encodings and buffer writes"
named_theorems go_simps "sequencing of Go results"

section \<open>Go results\<close>

text \<open>
  A Go call returns a value, returns a non-nil error, or panics (slice bounds, explicit
  \<open>panic\<close>). The three outcomes are kept apart, so that a theorem that a routine does not
  panic says something.
\<close>

datatype ('e, 'a) go = Ok 'a | Err 'e | Panic

fun go_bind :: "('e, 'a) go \<Rightarrow> ('a \<Rightarrow> ('e, 'b) go) \<Rightarrow> ('e, 'b) go" where
  "go_bind (Ok x) f = f x"
| "go_bind (Err e) f = Err e"
| "go_bind Panic f = Panic"

declare go_bind.simps [go_simps]

lemma go_bind_assoc: "go_bind (go_bind m f) g = go_bind m (\<lambda>x. go_bind (f x) g)"
  by (cases m) simp_all

lemma go_bind_eq_Ok: "go_bind m f = Ok y \<longleftrightarrow> (\<exists>x. m = Ok x \<and> f x = Ok y)"
  by (cases m) simp_all

lemma go_bind_eq_Panic:
  "go_bind m f = Panic \<longleftrightarrow> m = Panic \<or> (\<exists>x. m = Ok x \<and> f x = Panic)"
  by (cases m) simp_all

lemma go_bind_cong [fundef_cong]:
  "m = m' \<Longrightarrow> (\<And>x. m' = Ok x \<Longrightarrow> f x = f' x) \<Longrightarrow> go_bind m f = go_bind m' f'"
  by (cases m') simp_all

section \<open>Bytes and machine integers\<close>

type_synonym byte = "8 word"
type_synonym bytes = "byte list"
type_synonym u16 = "16 word"
type_synonym u32 = "32 word"
type_synonym u64 = "64 word"

text \<open>A string literal of the source as its bytes.\<close>

definition lit :: "string \<Rightarrow> bytes" where
  "lit s = map of_char s"

lemma length_lit [simp]: "length (lit s) = length s"
  by (simp add: lit_def)

text \<open>The ASCII part of case folding.\<close>

definition asciiLower :: "byte \<Rightarrow> byte" where
  "asciiLower c = (if 65 \<le> c \<and> c \<le> 90 then c + 32 else c)"

subsection \<open>Little-endian and big-endian integers\<close>

fun le_enc :: "nat \<Rightarrow> nat \<Rightarrow> bytes" where
  "le_enc 0 x = []"
| "le_enc (Suc n) x = of_nat (x mod 256) # le_enc n (x div 256)"

fun le_dec :: "bytes \<Rightarrow> nat" where
  "le_dec [] = 0"
| "le_dec (b # bs) = unat b + 256 * le_dec bs"

lemma length_le_enc [simp]: "length (le_enc n x) = n"
  by (induction n arbitrary: x) simp_all

lemma unat_byte_of_nat [simp]: "unat (of_nat (x mod 256) :: byte) = x mod 256"
  by (simp add: unat_of_nat)

lemma le_dec_enc [codec_simps]: "le_dec (le_enc n x) = x mod 256 ^ n"
proof (induction n arbitrary: x)
  case 0
  then show ?case by simp
next
  case (Suc n)
  have "x mod (256 * 256 ^ n) = 256 * (x div 256 mod 256 ^ n) + x mod 256"
    by (rule mod_mult2_eq)
  with Suc.IH show ?case by simp
qed

lemma unat_less: "unat (w :: 'a::len word) < 2 ^ LENGTH('a)"
  by (rule unsigned_less)

lemma unat_byte_less [simp]: "unat (b :: byte) < 256"
  using unat_less [of b] by simp

lemma le_dec_less: "le_dec bs < 256 ^ length bs"
proof (induction bs)
  case Nil
  then show ?case by simp
next
  case (Cons b bs)
  have "unat b + 256 * le_dec bs < 256 + 256 * le_dec bs" by simp
  also have "\<dots> = 256 * Suc (le_dec bs)" by simp
  also have "\<dots> \<le> 256 * 256 ^ length bs"
    using Cons.IH by (intro mult_le_mono2) simp
  finally show ?case by simp
qed

lemma le_enc_dec: "length bs = n \<Longrightarrow> le_enc n (le_dec bs) = bs"
  by (induction bs arbitrary: n) (auto simp: div_eq_0_iff mod_less)

definition put_u16 :: "u16 \<Rightarrow> bytes" where
  "put_u16 w = le_enc 2 (unat w)"

definition put_u32 :: "u32 \<Rightarrow> bytes" where
  "put_u32 w = le_enc 4 (unat w)"

definition put_u64 :: "u64 \<Rightarrow> bytes" where
  "put_u64 w = le_enc 8 (unat w)"

definition get_u16 :: "bytes \<Rightarrow> u16" where
  "get_u16 bs = of_nat (le_dec (take 2 bs))"

definition get_u32 :: "bytes \<Rightarrow> u32" where
  "get_u32 bs = of_nat (le_dec (take 4 bs))"

definition get_u64 :: "bytes \<Rightarrow> u64" where
  "get_u64 bs = of_nat (le_dec (take 8 bs))"

text \<open>\<open>binary.BigEndian\<close>, used for the database keys so that byte order is numeric order.\<close>

definition put_be64 :: "u64 \<Rightarrow> bytes" where
  "put_be64 w = rev (put_u64 w)"

definition get_be64 :: "bytes \<Rightarrow> u64" where
  "get_be64 bs = get_u64 (rev (take 8 bs))"

lemma length_put [simp]:
  "length (put_u16 x) = 2" "length (put_u32 y) = 4" "length (put_u64 z) = 8"
  "length (put_be64 z) = 8"
  by (simp_all add: put_u16_def put_u32_def put_u64_def put_be64_def)

lemma get_put_u16 [simp]: "get_u16 (put_u16 x @ r) = x"
  using unat_less [of x] by (simp add: get_u16_def put_u16_def codec_simps)

lemma get_put_u32 [simp]: "get_u32 (put_u32 x @ r) = x"
  using unat_less [of x] by (simp add: get_u32_def put_u32_def codec_simps)

lemma get_put_u64 [simp]: "get_u64 (put_u64 x @ r) = x"
  using unat_less [of x] by (simp add: get_u64_def put_u64_def codec_simps)

lemma get_put_be64 [simp]: "get_be64 (put_be64 x @ r) = x"
  using get_put_u64 [of x "[]"] by (simp add: get_be64_def put_be64_def)

lemma get_put_nil [simp]:
  "get_u16 (put_u16 a) = a" "get_u32 (put_u32 b) = b" "get_u64 (put_u64 c) = c"
  "get_be64 (put_be64 c) = c"
  using get_put_u16 [of a "[]"] get_put_u32 [of b "[]"] get_put_u64 [of c "[]"]
    get_put_be64 [of c "[]"] by simp_all

lemma put_inject [simp]:
  "put_u32 a = put_u32 b \<longleftrightarrow> a = b" "put_u64 c = put_u64 d \<longleftrightarrow> c = d"
  "put_be64 c = put_be64 d \<longleftrightarrow> c = d"
  by (metis get_put_nil)+

lemma put_be64_get: "length bs = 8 \<Longrightarrow> put_be64 (get_be64 bs) = bs"
proof -
  assume len: "length bs = 8"
  have "le_dec (rev bs) < 2 ^ 64"
    using le_dec_less [of "rev bs"] len by simp
  then have "unat (get_be64 bs) = le_dec (rev bs)"
    using len by (simp add: get_be64_def get_u64_def unat_of_nat)
  then show ?thesis
    using len by (simp add: put_be64_def put_u64_def le_enc_dec)
qed

section \<open>Lists\<close>

text \<open>
  Go's \<open>sort.SliceStable\<close> with a \<open>less\<close> function: the stable sort, which is
  unique. (\<open>sort.Slice\<close> and \<open>sort.Strings\<close> are used where equal elements are
  indistinguishable.)
\<close>

fun insert_by :: "('a \<Rightarrow> 'a \<Rightarrow> bool) \<Rightarrow> 'a \<Rightarrow> 'a list \<Rightarrow> 'a list" where
  "insert_by lt x [] = [x]"
| "insert_by lt x (y # ys) = (if lt y x then y # insert_by lt x ys else x # y # ys)"

definition sort_by :: "('a \<Rightarrow> 'a \<Rightarrow> bool) \<Rightarrow> 'a list \<Rightarrow> 'a list" where
  "sort_by lt xs = foldr (insert_by lt) xs []"

lemma insert_by_key:
  "(\<And>a b. lt a b \<longleftrightarrow> f a < f b) \<Longrightarrow> insert_by lt x ys = insort_key f x ys"
  for f :: "'a \<Rightarrow> 'k::linorder"
  by (induction ys) (auto simp: not_less)

lemma sort_by_key:
  fixes f :: "'a \<Rightarrow> 'k::linorder"
  assumes "\<And>a b. lt a b \<longleftrightarrow> f a < f b"
  shows "sort_by lt xs = sort_key f xs"
proof -
  have "insert_by lt = insort_key f"
    using assms by (intro ext insert_by_key) blast
  then show ?thesis by (simp add: sort_by_def sort_key_def)
qed

lemma chunk_nth:
  "list_all (\<lambda>x. length x = k) xs \<Longrightarrow> i < length xs \<Longrightarrow>
    take k (drop (i * k) (concat xs)) = xs ! i"
proof (induction xs arbitrary: i)
  case Nil
  then show ?case by simp
next
  case (Cons x xs)
  then show ?case
    by (cases i) auto
qed

lemma length_chunks: "list_all (\<lambda>x. length x = k) xs \<Longrightarrow> length (concat xs) = length xs * k"
  by (induction xs) auto

text \<open>\<open>sort.Search\<close>: the least index where a monotone predicate holds, by bisection.\<close>

function search :: "(nat \<Rightarrow> bool) \<Rightarrow> nat \<Rightarrow> nat \<Rightarrow> nat" where
  "search p i j =
     (if i < j then (let h = (i + j) div 2 in if \<not> p h then search p (h + 1) j else search p i h)
      else i)"
  by pat_completeness auto
termination by (relation "measure (\<lambda>(p, i, j). j - i)") auto

declare search.simps [simp del]

lemma search_correct:
  assumes "i \<le> j" and "\<And>k. k < i \<Longrightarrow> \<not> p k" and "\<And>k. j \<le> k \<Longrightarrow> k < n \<Longrightarrow> p k"
    and "\<And>k l. k \<le> l \<Longrightarrow> l < n \<Longrightarrow> p k \<Longrightarrow> p l" and "j \<le> n"
  shows "search p i j \<le> n \<and> (\<forall>k < search p i j. \<not> p k)
    \<and> (\<forall>k. search p i j \<le> k \<and> k < n \<longrightarrow> p k)"
  using assms
proof (induction p i j rule: search.induct)
  case (1 p i j)
  show ?case
  proof (cases "i < j")
    case False
    then have "search p i j = i" by (simp add: search.simps [of p i j])
    with False "1.prems"(1,2,3,5) show ?thesis by auto
  next
    case True
    let ?h = "(i + j) div 2"
    have h: "?h < j" "i \<le> ?h" using True by auto
    show ?thesis
    proof (cases "p ?h")
      case True
      have "search p i j = search p i ?h"
        using True \<open>i < j\<close> by (simp add: search.simps [of p i j] Let_def)
      moreover have "search p i ?h \<le> n \<and> (\<forall>k < search p i ?h. \<not> p k)
          \<and> (\<forall>k. search p i ?h \<le> k \<and> k < n \<longrightarrow> p k)"
        using \<open>i < j\<close> True h "1.prems" by (intro "1.IH"(2)) auto
      ultimately show ?thesis by simp
    next
      case False
      have "search p i j = search p (?h + 1) j"
        using False \<open>i < j\<close> by (simp add: search.simps [of p i j] Let_def)
      moreover have "\<not> p k" if "k < ?h + 1" for k
        using that False h "1.prems"(4) [of k ?h] "1.prems"(5) by auto
      then have "search p (?h + 1) j \<le> n \<and> (\<forall>k < search p (?h + 1) j. \<not> p k)
          \<and> (\<forall>k. search p (?h + 1) j \<le> k \<and> k < n \<longrightarrow> p k)"
        using \<open>i < j\<close> False h "1.prems" by (intro "1.IH"(1)) auto
      ultimately show ?thesis by simp
    qed
  qed
qed

lemma filter_update_length:
  assumes "i < length xs"
  shows "length (filter P (xs[i := y])) + of_bool (P (xs ! i)) = length (filter P xs) + of_bool (P y)"
  using assms
proof (induction xs arbitrary: i)
  case (Cons x xs)
  then show ?case by (cases i) auto
qed simp

end
