(* ===== verification/Line_Diff.thy ===== *)
theory Line_Diff
  imports Golance_Prelude
begin

text \<open>
  The line diff of \<open>internal/diff/diff.go\<close>: Myers' greedy shortest edit script over the
  lines of two texts, the backtracking over its recorded arrays, and the byte-range edits made
  from the script. Slice accesses that Go checks at run time are \<open>Panic\<close> out of range.
\<close>

section \<open>Definitions\<close>

type_synonym line = bytes
type_synonym 'a run = "(unit, 'a) go"

record edit =
  edStart :: nat
  edEnd :: nat
  edNew :: bytes

definition newline :: byte where
  "newline = 10"

text \<open>The loop of \<open>splitLines\<close>: \<open>start\<close> is the current line's offset, \<open>i\<close> the scan position.\<close>

fun splitLoop :: "bytes \<Rightarrow> nat \<Rightarrow> nat \<Rightarrow> bytes \<Rightarrow> line list \<Rightarrow> nat list \<Rightarrow> line list \<times> nat list" where
  "splitLoop text start i [] lines offsets =
     (if start < length text then (lines @ [drop start text], offsets @ [length text])
      else (lines, offsets))"
| "splitLoop text start i (b # bs) lines offsets =
     (if b = newline
      then splitLoop text (i + 1) (i + 1) bs (lines @ [take (i + 1 - start) (drop start text)])
             (offsets @ [i + 1])
      else splitLoop text start (i + 1) bs lines offsets)"

definition splitLines :: "bytes \<Rightarrow> line list \<times> nat list" where
  "splitLines text = splitLoop text 0 0 text [] [0]"

datatype op = OpEqual (opA: int) (opB: int) | OpDelete (opA: int) | OpInsert (opB: int)

definition idx :: "'a list \<Rightarrow> int \<Rightarrow> 'a run" where
  "idx xs i = (if 0 \<le> i \<and> i < int (length xs) then Ok (xs ! nat i) else Panic)"

definition set_idx :: "'a list \<Rightarrow> int \<Rightarrow> 'a \<Rightarrow> 'a list run" where
  "set_idx xs i x = (if 0 \<le> i \<and> i < int (length xs) then Ok (xs[nat i := x]) else Panic)"

subsection \<open>The greedy search\<close>

text \<open>\<open>for x < n && y < m && a[x] == b[y]\<close>\<close>

function snake :: "line list \<Rightarrow> line list \<Rightarrow> int \<Rightarrow> int \<Rightarrow> (int \<times> int) run" where
  "snake a b x y =
     (if x < int (length a) \<and> y < int (length b)
      then go_bind (idx a x) (\<lambda>l. go_bind (idx b y) (\<lambda>r.
             if l = r then snake a b (x + 1) (y + 1) else Ok (x, y)))
      else Ok (x, y))"
  by pat_completeness auto
termination by (relation "measure (\<lambda>(a, b, x, y). nat (int (length a) - x))") auto

declare snake.simps [simp del]

text \<open>\<open>k == -d || (k != d \&\& v[offset+k-1] < v[offset+k+1])\<close>\<close>

definition goDown :: "int list \<Rightarrow> int \<Rightarrow> int \<Rightarrow> int \<Rightarrow> bool run" where
  "goDown v offset d k =
     (if k = - d then Ok True
      else if k = d then Ok False
      else go_bind (idx v (offset + k - 1)) (\<lambda>l.
           go_bind (idx v (offset + k + 1)) (\<lambda>r. Ok (l < r))))"

text \<open>The inner loop over the diagonals of depth \<open>d\<close>; the flag says that the end was reached.\<close>

function diagonals :: "line list \<Rightarrow> line list \<Rightarrow> int \<Rightarrow> int \<Rightarrow> int \<Rightarrow> int list \<Rightarrow> (bool \<times> int list) run" where
  "diagonals a b offset d k v =
     (if k \<le> d then
        go_bind (goDown v offset d k) (\<lambda>down.
        go_bind (if down then idx v (offset + k + 1)
                 else go_bind (idx v (offset + k - 1)) (\<lambda>x. Ok (x + 1))) (\<lambda>x0.
        go_bind (snake a b x0 (x0 - k)) (\<lambda>(x, y).
        go_bind (set_idx v (offset + k) x) (\<lambda>v'.
        if x \<ge> int (length a) \<and> y \<ge> int (length b) then Ok (True, v')
        else diagonals a b offset d (k + 2) v'))))
      else Ok (False, v))"
  by pat_completeness auto
termination by (relation "measure (\<lambda>(a, b, offset, d, k, v). nat (d + 1 - k))") auto

declare diagonals.simps [simp del]

text \<open>The outer loop, with \<open>r\<close> depths left; \<open>trace\<close> collects the array as it stood before each depth.\<close>

fun depths :: "line list \<Rightarrow> line list \<Rightarrow> int \<Rightarrow> nat \<Rightarrow> int \<Rightarrow> int list \<Rightarrow> int list list \<Rightarrow> int list list run" where
  "depths a b offset 0 d v trace = Ok trace"
| "depths a b offset (Suc r) d v trace =
     go_bind (diagonals a b offset d (- d) v) (\<lambda>(found, v').
       if found then Ok (trace @ [v]) else depths a b offset r (d + 1) v' (trace @ [v]))"

definition shortestEditTrace :: "line list \<Rightarrow> line list \<Rightarrow> (int list list \<times> int) run" where
  "shortestEditTrace a b =
     (let maxD = length a + length b
      in if maxD = 0 then Ok ([], 0)
         else go_bind (depths a b (int maxD) (Suc maxD) 0 (replicate (2 * maxD + 1) 0) []) (\<lambda>trace.
              Ok (trace, int maxD)))"

subsection \<open>Backtracking\<close>

text \<open>\<open>for x > prevX && y > prevY\<close>, with the operations in the order they are appended.\<close>

function equalOps :: "int \<Rightarrow> int \<Rightarrow> int \<Rightarrow> int \<Rightarrow> op list \<times> int \<times> int" where
  "equalOps prevX prevY x y =
     (if x > prevX \<and> y > prevY
      then let (ops, x', y') = equalOps prevX prevY (x - 1) (y - 1)
           in (OpEqual (x - 1) (y - 1) # ops, x', y')
      else ([], x, y))"
  by pat_completeness auto
termination by (relation "measure (\<lambda>(px, py, x, y). nat (x - px))") auto

declare equalOps.simps [simp del]

text \<open>The loop from depth \<open>d - 1\<close> down to 0.\<close>

fun backtrackLoop :: "int list list \<Rightarrow> int \<Rightarrow> nat \<Rightarrow> int \<Rightarrow> int \<Rightarrow> op list run" where
  "backtrackLoop trace offset 0 x y = Ok []"
| "backtrackLoop trace offset (Suc d) x y =
     go_bind (idx trace (int d)) (\<lambda>v.
     let k = x - y in
     go_bind (goDown v offset (int d) k) (\<lambda>down.
     let prevK = (if down then k + 1 else k - 1) in
     go_bind (idx v (offset + prevK)) (\<lambda>prevX.
     let prevY = prevX - prevK;
         (eqs, x', y') = equalOps prevX prevY x y
     in if 0 < d
        then go_bind (backtrackLoop trace offset d prevX prevY) (\<lambda>rest.
             Ok (eqs @ (if x' = prevX then OpInsert (y' - 1) else OpDelete (x' - 1)) # rest))
        else go_bind (backtrackLoop trace offset d x' y') (\<lambda>rest. Ok (eqs @ rest)))))"

definition backtrack :: "nat \<Rightarrow> nat \<Rightarrow> int list list \<Rightarrow> int \<Rightarrow> op list run" where
  "backtrack n m trace offset =
     go_bind (backtrackLoop trace offset (length trace) (int n) (int m)) (\<lambda>ops. Ok (rev ops))"

definition diffLines :: "line list \<Rightarrow> line list \<Rightarrow> op list run" where
  "diffLines a b =
     go_bind (shortestEditTrace a b) (\<lambda>(trace, offset). backtrack (length a) (length b) trace offset)"

subsection \<open>Edits\<close>

record edits_state =
  esEdits :: "edit list"
  esPending :: "(nat \<times> nat) option"
  esLines :: "line list"
  esLastAEnd :: int

definition flush :: "edits_state \<Rightarrow> edits_state" where
  "flush s =
     (case esPending s of
        None \<Rightarrow> s
      | Some (st, en) \<Rightarrow> s\<lparr>esEdits := esEdits s @ [\<lparr>edStart = st, edEnd = en, edNew = concat (esLines s)\<rparr>],
          esPending := None, esLines := []\<rparr>)"

fun editStep :: "line list \<Rightarrow> nat list \<Rightarrow> op \<Rightarrow> edits_state \<Rightarrow> edits_state run" where
  "editStep afterLines offs (OpEqual i j) s = Ok ((flush s)\<lparr>esLastAEnd := i + 1\<rparr>)"
| "editStep afterLines offs (OpDelete i) s =
     go_bind (idx offs (i + 1)) (\<lambda>en.
     case esPending s of
       None \<Rightarrow> go_bind (idx offs i) (\<lambda>st. Ok (s\<lparr>esPending := Some (st, en)\<rparr>))
     | Some (st, _) \<Rightarrow> Ok (s\<lparr>esPending := Some (st, en)\<rparr>))"
| "editStep afterLines offs (OpInsert j) s =
     go_bind (case esPending s of
         None \<Rightarrow> go_bind (idx offs (esLastAEnd s)) (\<lambda>st. Ok (st, st))
       | Some p \<Rightarrow> Ok p) (\<lambda>p.
     go_bind (idx afterLines j) (\<lambda>l.
     Ok (s\<lparr>esPending := Some p, esLines := esLines s @ [l]\<rparr>)))"

fun editLoop :: "line list \<Rightarrow> nat list \<Rightarrow> op list \<Rightarrow> edits_state \<Rightarrow> edits_state run" where
  "editLoop afterLines offs [] s = Ok s"
| "editLoop afterLines offs (o' # ops) s =
     go_bind (editStep afterLines offs o' s) (editLoop afterLines offs ops)"

definition editsFromOps :: "op list \<Rightarrow> line list \<Rightarrow> nat list \<Rightarrow> edit list run" where
  "editsFromOps ops afterLines beforeOffsets =
     go_bind (editLoop afterLines beforeOffsets ops
         \<lparr>esEdits = [], esPending = None, esLines = [], esLastAEnd = 0\<rparr>) (\<lambda>s.
     Ok (esEdits (flush s)))"

definition Lines :: "bytes \<Rightarrow> bytes \<Rightarrow> edit list run" where
  "Lines before after =
     (let (beforeLines, beforeOffsets) = splitLines before;
          (afterLines, _) = splitLines after
      in go_bind (diffLines beforeLines afterLines) (\<lambda>ops.
         editsFromOps ops afterLines beforeOffsets))"

section \<open>Furthest reaching points\<close>

text \<open>The same search without arrays: where a snake ends, and the furthest point of each diagonal.\<close>

function slide :: "line list \<Rightarrow> line list \<Rightarrow> int \<Rightarrow> int \<Rightarrow> int" where
  "slide a b x y =
     (if x < int (length a) \<and> y < int (length b) \<and> a ! nat x = b ! nat y
      then slide a b (x + 1) (y + 1) else x)"
  by pat_completeness auto
termination by (relation "measure (\<lambda>(a, b, x, y). nat (int (length a) - x))") auto

declare slide.simps [simp del]

lemma slide_step:
  "x < int (length a) \<and> y < int (length b) \<and> a ! nat x = b ! nat y \<Longrightarrow>
    slide a b x y = slide a b (x + 1) (y + 1)"
  by (subst slide.simps) simp

lemma slide_stop:
  "\<not> (x < int (length a) \<and> y < int (length b) \<and> a ! nat x = b ! nat y) \<Longrightarrow> slide a b x y = x"
  by (subst slide.simps) auto

lemma snake_slide:
  "0 \<le> x \<Longrightarrow> 0 \<le> y \<Longrightarrow> snake a b x y = Ok (slide a b x y, slide a b x y - (x - y))"
proof (induction a b x y rule: slide.induct)
  case (1 a b x y)
  then show ?case
    by (subst snake.simps, subst slide.simps, subst (2) slide.simps) (auto simp: idx_def)
qed

lemma slide_ge: "x \<le> slide a b x y"
proof (induction a b x y rule: slide.induct)
  case (1 a b x y)
  then show ?case by (subst slide.simps) auto
qed

lemma slide_inside: "slide a b x y = x \<or> (slide a b x y \<le> int (length a)
    \<and> slide a b x y - (x - y) \<le> int (length b))"
proof (induction a b x y rule: slide.induct)
  case (1 a b x y)
  show ?case
  proof (cases "x < int (length a) \<and> y < int (length b) \<and> a ! nat x = b ! nat y")
    case True
    then have "slide a b x y = slide a b (x + 1) (y + 1)" by (rule slide_step)
    then show ?thesis using "1.IH" [OF True] True by auto
  qed (simp add: slide_stop)
qed

lemma slide_match:
  "x \<le> z \<Longrightarrow> z < slide a b x y \<Longrightarrow> a ! nat z = b ! nat (z - (x - y))
    \<and> z < int (length a) \<and> z - (x - y) < int (length b)"
proof (induction a b x y rule: slide.induct)
  case (1 a b x y)
  show ?case
  proof (cases "x < int (length a) \<and> y < int (length b) \<and> a ! nat x = b ! nat y")
    case True
    then have "slide a b x y = slide a b (x + 1) (y + 1)" by (rule slide_step)
    then show ?thesis using "1.IH" [OF True] True "1.prems" by (cases "z = x") auto
  next
    case False
    then have "slide a b x y = x" by (rule slide_stop)
    then show ?thesis using "1.prems" by simp
  qed
qed

lemma slide_maximal:
  "slide a b x y < int (length a) \<Longrightarrow> slide a b x y - (x - y) < int (length b) \<Longrightarrow>
    a ! nat (slide a b x y) \<noteq> b ! nat (slide a b x y - (x - y))"
proof (induction a b x y rule: slide.induct)
  case (1 a b x y)
  show ?case
  proof (cases "x < int (length a) \<and> y < int (length b) \<and> a ! nat x = b ! nat y")
    case True
    then have "slide a b x y = slide a b (x + 1) (y + 1)" by (rule slide_step)
    then show ?thesis using "1.IH" [OF True] "1.prems" by simp
  next
    case False
    then have "slide a b x y = x" by (rule slide_stop)
    then show ?thesis using False "1.prems" by auto
  qed
qed

fun far :: "line list \<Rightarrow> line list \<Rightarrow> nat \<Rightarrow> int \<Rightarrow> int" where
  "far a b 0 k = slide a b 0 0"
| "far a b (Suc d) k =
     (let x = (if k = - int (Suc d) \<or> (k \<noteq> int (Suc d) \<and> far a b d (k - 1) < far a b d (k + 1))
               then far a b d (k + 1) else far a b d (k - 1) + 1)
      in slide a b x (x - k))"

definition downAt :: "line list \<Rightarrow> line list \<Rightarrow> nat \<Rightarrow> int \<Rightarrow> bool" where
  "downAt a b d k \<longleftrightarrow> k = - int (Suc d) \<or> (k \<noteq> int (Suc d) \<and> far a b d (k - 1) < far a b d (k + 1))"

definition entry :: "line list \<Rightarrow> line list \<Rightarrow> nat \<Rightarrow> int \<Rightarrow> int" where
  "entry a b d k = (if downAt a b d k then far a b d (k + 1) else far a b d (k - 1) + 1)"

lemma far_Suc: "far a b (Suc d) k = slide a b (entry a b d k) (entry a b d k - k)"
  by (simp add: entry_def downAt_def Let_def)

declare far.simps(2) [simp del]

text \<open>The diagonals of depth \<open>d\<close>.\<close>

definition diag :: "nat \<Rightarrow> int \<Rightarrow> bool" where
  "diag d k \<longleftrightarrow> \<bar>k\<bar> \<le> int d \<and> 2 dvd (int d + k)"

lemma diag_0 [simp]: "diag 0 k \<longleftrightarrow> k = 0"
  by (auto simp: diag_def)

lemma diag_neighbours:
  assumes "diag (Suc d) k"
  shows "k \<noteq> - int (Suc d) \<Longrightarrow> diag d (k - 1)" and "k \<noteq> int (Suc d) \<Longrightarrow> diag d (k + 1)"
  using assms by (auto simp: diag_def) presburger+

lemma diag_step: "diag d k \<Longrightarrow> diag (Suc d) (k + 1) \<and> diag (Suc d) (k - 1)"
  by (auto simp: diag_def)

lemma entry_right:
  assumes "diag d k" shows "far a b d k + 1 \<le> entry a b d (k + 1)"
proof -
  have "k + 1 \<noteq> - int (Suc d)" using assms by (auto simp: diag_def)
  then show ?thesis by (auto simp: entry_def downAt_def)
qed

lemma entry_down:
  assumes "diag d k" shows "far a b d k \<le> entry a b d (k - 1)"
proof -
  have "k - 1 \<noteq> int (Suc d)" using assms by (auto simp: diag_def)
  then show ?thesis by (auto simp: entry_def downAt_def)
qed

lemma far_right: "diag d k \<Longrightarrow> far a b d k + 1 \<le> far a b (Suc d) (k + 1)"
  using entry_right [of d k a b] slide_ge order_trans unfolding far_Suc by blast

lemma far_down: "diag d k \<Longrightarrow> far a b d k \<le> far a b (Suc d) (k - 1)"
  using entry_down [of d k a b] slide_ge order_trans unfolding far_Suc by blast

lemma far_nonneg: "diag d k \<Longrightarrow> 0 \<le> far a b d k \<and> k \<le> far a b d k"
proof (induction d arbitrary: k)
  case 0
  then show ?case using slide_ge [of 0 a b 0] by simp
next
  case (Suc d)
  have "0 \<le> entry a b d k \<and> k \<le> entry a b d k"
  proof (cases "downAt a b d k")
    case True
    then have "k \<noteq> int (Suc d)" by (auto simp: downAt_def)
    then show ?thesis using True Suc.IH diag_neighbours(2) [OF Suc.prems] by (force simp: entry_def)
  next
    case False
    then have "k \<noteq> - int (Suc d)" by (auto simp: downAt_def)
    then show ?thesis using False Suc.IH diag_neighbours(1) [OF Suc.prems] by (force simp: entry_def)
  qed
  then show ?case using slide_ge [of "entry a b d k" a b "entry a b d k - k"] by (simp add: far_Suc)
qed

section \<open>The end point is reached, first and exactly\<close>

definition reached :: "line list \<Rightarrow> line list \<Rightarrow> nat \<Rightarrow> int \<Rightarrow> bool" where
  "reached a b d k \<longleftrightarrow> diag d k \<and> int (length a) \<le> far a b d k \<and> int (length b) \<le> far a b d k - k"

lemma far_Suc_entry:
  assumes "int (length a) < far a b (Suc d) k \<or> int (length b) < far a b (Suc d) k - k"
  shows "far a b (Suc d) k = entry a b d k"
  using assms slide_inside [of a b "entry a b d k" "entry a b d k - k"]
  by (auto simp: far_Suc)

text \<open>A point \<open>e\<close> columns right of the grid goes back to one on the border, \<open>e\<close> steps earlier.\<close>

lemma beyond_right:
  "diag d k \<Longrightarrow> far a b d k = int (length a) + int e \<Longrightarrow> 0 < e \<Longrightarrow>
    \<exists>d'. d' + e = d \<and> diag d' (k - int e) \<and> int (length a) \<le> far a b d' (k - int e)"
proof (induction d arbitrary: k e)
  case 0
  then show ?case using slide_inside [of a b 0 0] by auto
next
  case (Suc d)
  have x: "far a b (Suc d) k = entry a b d k" using Suc.prems by (intro far_Suc_entry) simp
  show ?case
  proof (cases "downAt a b d k")
    case True
    then have up: "diag d (k + 1)" using diag_neighbours(2) [OF Suc.prems(1)] by (auto simp: downAt_def)
    have "far a b d (k + 1) = int (length a) + int e" using x True Suc.prems(2) by (simp add: entry_def)
    from Suc.IH [OF up this Suc.prems(3)] obtain d' where d': "d' + e = d" "diag d' (k + 1 - int e)"
      "int (length a) \<le> far a b d' (k + 1 - int e)" by blast
    then have "int (length a) \<le> far a b (Suc d') (k - int e)"
      using far_down [OF d'(2), of a b] by (simp add: algebra_simps)
    moreover have "diag (Suc d') (k - int e)" using diag_step [OF d'(2)] by (simp add: algebra_simps)
    ultimately show ?thesis using d'(1) by (intro exI [of _ "Suc d'"]) simp
  next
    case False
    then have left: "diag d (k - 1)" using diag_neighbours(1) [OF Suc.prems(1)] by (auto simp: downAt_def)
    have val: "far a b d (k - 1) = int (length a) + int (e - 1)"
      using x False Suc.prems by (simp add: entry_def of_nat_diff)
    show ?thesis
    proof (cases "e = 1")
      case True
      then show ?thesis using left val by (intro exI [of _ d]) simp
    next
      case False
      then have "0 < e - 1" using Suc.prems(3) by simp
      from Suc.IH [OF left val this] obtain d' where "d' + (e - 1) = d" "diag d' (k - 1 - int (e - 1))"
        "int (length a) \<le> far a b d' (k - 1 - int (e - 1))" by blast
      then show ?thesis using Suc.prems(3) by (intro exI [of _ d']) (simp add: of_nat_diff)
    qed
  qed
qed

lemma beyond_below:
  "diag d k \<Longrightarrow> far a b d k - k = int (length b) + int e \<Longrightarrow> 0 < e \<Longrightarrow>
    \<exists>d'. d' + e = d \<and> diag d' (k + int e) \<and> int (length b) \<le> far a b d' (k + int e) - (k + int e)"
proof (induction d arbitrary: k e)
  case 0
  then show ?case using slide_inside [of a b 0 0] by auto
next
  case (Suc d)
  have x: "far a b (Suc d) k = entry a b d k" using Suc.prems by (intro far_Suc_entry) simp
  show ?case
  proof (cases "downAt a b d k")
    case True
    then have up: "diag d (k + 1)" using diag_neighbours(2) [OF Suc.prems(1)] by (auto simp: downAt_def)
    have val: "far a b d (k + 1) - (k + 1) = int (length b) + int (e - 1)"
      using x True Suc.prems by (simp add: entry_def of_nat_diff)
    show ?thesis
    proof (cases "e = 1")
      case True
      then show ?thesis using up val by (intro exI [of _ d]) simp
    next
      case False
      then have "0 < e - 1" using Suc.prems(3) by simp
      from Suc.IH [OF up val this] obtain d' where "d' + (e - 1) = d" "diag d' (k + 1 + int (e - 1))"
        "int (length b) \<le> far a b d' (k + 1 + int (e - 1)) - (k + 1 + int (e - 1))" by blast
      then show ?thesis using Suc.prems(3) by (intro exI [of _ d']) (simp add: of_nat_diff)
    qed
  next
    case False
    then have left: "diag d (k - 1)" using diag_neighbours(1) [OF Suc.prems(1)] by (auto simp: downAt_def)
    have "far a b d (k - 1) - (k - 1) = int (length b) + int e"
      using x False Suc.prems(2) by (simp add: entry_def)
    from Suc.IH [OF left this Suc.prems(3)] obtain d' where d': "d' + e = d" "diag d' (k - 1 + int e)"
      "int (length b) \<le> far a b d' (k - 1 + int e) - (k - 1 + int e)" by blast
    then have "int (length b) \<le> far a b (Suc d') (k + int e) - (k + int e)"
      using far_right [OF d'(2), of a b] by (simp add: algebra_simps)
    moreover have "diag (Suc d') (k + int e)" using diag_step [OF d'(2)] by (simp add: algebra_simps)
    ultimately show ?thesis using d'(1) by (intro exI [of _ "Suc d'"]) simp
  qed
qed

lemma reached_exact:
  assumes r: "reached a b d k" and first: "\<And>d' k'. d' < d \<Longrightarrow> \<not> reached a b d' k'"
  shows "far a b d k = int (length a)" and "k = int (length a) - int (length b)"
proof -
  have d: "diag d k" and x: "int (length a) \<le> far a b d k" and y: "int (length b) \<le> far a b d k - k"
    using r by (simp_all add: reached_def)
  show n: "far a b d k = int (length a)"
  proof (rule ccontr)
    assume "far a b d k \<noteq> int (length a)"
    then obtain e where e: "far a b d k = int (length a) + int e" "0 < e"
      using x zle_iff_zadd [of "int (length a)" "far a b d k"] by auto
    from beyond_right [OF d e] obtain d' where "d' + e = d" "diag d' (k - int e)"
      "int (length a) \<le> far a b d' (k - int e)" by blast
    then have "reached a b d' (k - int e)" "d' < d" using e y by (simp_all add: reached_def)
    then show False using first by blast
  qed
  show "k = int (length a) - int (length b)"
  proof (rule ccontr)
    assume "k \<noteq> int (length a) - int (length b)"
    then obtain e where e: "far a b d k - k = int (length b) + int e" "0 < e"
      using y n zle_iff_zadd [of "int (length b)" "far a b d k - k"] by auto
    from beyond_below [OF d e] obtain d' where "d' + e = d" "diag d' (k + int e)"
      "int (length b) \<le> far a b d' (k + int e) - (k + int e)" by blast
    then have "reached a b d' (k + int e)" "d' < d" using e n by (simp_all add: reached_def)
    then show False using first by blast
  qed
qed

lemma far_diagonal: "int d \<le> far a b d (int d)"
proof (induction d)
  case (Suc d)
  have "diag d (int d)" by (simp add: diag_def)
  from far_right [OF this, of a b] show ?case using Suc.IH by (simp add: add.commute)
qed (use slide_ge [of 0 a b 0] in simp)

lemma far_border: "int n \<le> far a b (n + j) (int n - int j) \<and> diag (n + j) (int n - int j)"
proof (induction j)
  case 0
  then show ?case using far_diagonal [of n a b] by (simp add: diag_def)
next
  case (Suc j)
  then show ?case
    using far_down [of "n + j" "int n - int j" a b] diag_step [of "n + j" "int n - int j"]
    by (simp add: algebra_simps)
qed

lemma reached_by_end: "reached a b (length a + length b) (int (length a) - int (length b))"
  using far_border [of "length a" a b "length b"] by (simp add: reached_def)

section \<open>The arrays hold the furthest points\<close>

definition startX :: "line list \<Rightarrow> line list \<Rightarrow> nat \<Rightarrow> int \<Rightarrow> int" where
  "startX a b d k = (case d of 0 \<Rightarrow> 0 | Suc d' \<Rightarrow> entry a b d' k)"

definition downX :: "line list \<Rightarrow> line list \<Rightarrow> nat \<Rightarrow> int \<Rightarrow> bool" where
  "downX a b d k = (case d of 0 \<Rightarrow> True | Suc d' \<Rightarrow> downAt a b d' k)"

lemma far_startX: "diag d k \<Longrightarrow> far a b d k = slide a b (startX a b d k) (startX a b d k - k)"
  by (cases d) (simp_all add: startX_def far_Suc)

lemma startX_nonneg: "diag d k \<Longrightarrow> 0 \<le> startX a b d k \<and> k \<le> startX a b d k"
proof (cases d)
  case (Suc d')
  assume d: "diag d k"
  then have "downAt a b d' k \<Longrightarrow> diag d' (k + 1)" "\<not> downAt a b d' k \<Longrightarrow> diag d' (k - 1)"
    using diag_neighbours [of d' k] Suc by (auto simp: downAt_def)
  then show ?thesis
    using far_nonneg [of d' "k + 1" a b] far_nonneg [of d' "k - 1" a b]
    by (auto simp: startX_def Suc entry_def)
qed (simp add: startX_def)

text \<open>\<open>v\<close> is the array before depth \<open>d\<close> (for texts of \<open>M\<close> lines together).\<close>

definition level :: "line list \<Rightarrow> line list \<Rightarrow> nat \<Rightarrow> nat \<Rightarrow> int list \<Rightarrow> bool" where
  "level a b M d v \<longleftrightarrow> length v = 2 * M + 1
     \<and> (case d of
          0 \<Rightarrow> v ! (M + 1) = 0
        | Suc d' \<Rightarrow> \<forall>j. diag d' j \<longrightarrow> v ! nat (int M + j) = far a b d' j)"

lemma goDown_level:
  assumes v: "level a b M d v" and d: "d \<le> M" "diag d k" and M: "0 < M"
  shows "goDown v (int M) (int d) k = Ok (downX a b d k)"
    and "downX a b d k \<Longrightarrow> idx v (int M + k + 1) = Ok (startX a b d k)"
    and "\<not> downX a b d k \<Longrightarrow> idx v (int M + k - 1) = Ok (startX a b d k - 1)"
proof -
  have len: "length v = 2 * M + 1" using v by (simp add: level_def)
  have k: "\<bar>k\<bar> \<le> int d" using d(2) by (simp add: diag_def)
  have read: "idx v (int M + j) = Ok (far a b d' j)" if "d = Suc d'" "diag d' j" for d' j
    using v d(1) that len by (auto simp: level_def idx_def diag_def)
  have left: "idx v (int M + k - 1) = Ok (far a b d' (k - 1))" if "d = Suc d'" "k \<noteq> - int d" for d'
    using read [OF that(1), of "k - 1"] diag_neighbours(1) [of d' k] d(2) that by (simp add: algebra_simps)
  have right: "idx v (int M + k + 1) = Ok (far a b d' (k + 1))" if "d = Suc d'" "k \<noteq> int d" for d'
    using read [OF that(1), of "k + 1"] diag_neighbours(2) [of d' k] d(2) that by (simp add: algebra_simps)
  show "goDown v (int M) (int d) k = Ok (downX a b d k)"
  proof (cases d)
    case 0
    then show ?thesis using k by (simp add: goDown_def downX_def)
  next
    case (Suc d')
    then show ?thesis
      using left [OF Suc] right [OF Suc] by (auto simp: goDown_def downX_def downAt_def)
  qed
  show "idx v (int M + k + 1) = Ok (startX a b d k)" if dn: "downX a b d k"
  proof (cases d)
    case 0
    then have "nat (int M + k + 1) = M + 1" using k by simp
    then show ?thesis using 0 v k len M by (simp add: idx_def startX_def level_def)
  next
    case (Suc d')
    then have "k \<noteq> int d" using dn k by (auto simp: downX_def downAt_def)
    then show ?thesis using right [OF Suc] dn by (simp add: startX_def entry_def downX_def Suc)
  qed
  show "idx v (int M + k - 1) = Ok (startX a b d k - 1)" if dn: "\<not> downX a b d k"
  proof (cases d)
    case 0
    then show ?thesis using dn by (simp add: downX_def)
  next
    case (Suc d')
    then have "k \<noteq> - int d" using dn by (auto simp: downX_def downAt_def)
    then show ?thesis using left [OF Suc] dn by (simp add: startX_def entry_def downX_def Suc)
  qed
qed

text \<open>Writing an entry of depth \<open>d\<close> leaves the entries of depth \<open>d - 1\<close> alone.\<close>

lemma level_update:
  assumes v: "level a b M d v" and d: "d \<le> M" "diag d k"
  shows "level a b M d (v[nat (int M + k) := x])"
proof (cases d)
  case 0
  then show ?thesis using v d by (simp add: level_def)
next
  case (Suc d')
  have "nat (int M + j) \<noteq> nat (int M + k)" if "diag d' j" for j
  proof -
    have "j \<noteq> k" using that d(2) Suc by (auto simp: diag_def)
    moreover have "0 \<le> int M + j" "0 \<le> int M + k" using that d Suc by (auto simp: diag_def)
    ultimately show ?thesis by linarith
  qed
  then have "v[nat (int M + k) := x] ! nat (int M + j) = v ! nat (int M + j)" if "diag d' j" for j
    using that by (metis nth_list_update_neq)
  then show ?thesis using v Suc by (simp add: level_def)
qed

lemma diagonals_level:
  assumes d: "d \<le> M" and M: "0 < M" "M = length a + length b"
  shows "level a b M d v \<Longrightarrow> 2 dvd (int d + k) \<Longrightarrow> - int d \<le> k \<Longrightarrow>
    (\<And>j. diag d j \<Longrightarrow> j < k \<Longrightarrow> v ! nat (int M + j) = far a b d j) \<Longrightarrow>
    \<exists>v'. diagonals a b (int M) (int d) k v = Ok (\<exists>j \<ge> k. reached a b d j, v')
      \<and> ((\<forall>j \<ge> k. \<not> reached a b d j) \<longrightarrow> level a b M (Suc d) v')"
proof (induction "nat (int d + 2 - k)" arbitrary: k v rule: less_induct)
  case less
  show ?case
  proof (cases "k \<le> int d")
    case False
    then have none: "\<not> (\<exists>j \<ge> k. reached a b d j)" by (auto simp: reached_def diag_def)
    have "j < k" if "diag d j" for j using that False by (auto simp: diag_def)
    then have "level a b M (Suc d) v" using less.prems by (simp add: level_def)
    then show ?thesis using False none by (subst diagonals.simps) auto
  next
    case True
    have k: "diag d k" using True less.prems by (auto simp: diag_def)
    let ?x = "far a b d k"
    let ?v = "v[nat (int M + k) := ?x]"
    note go = goDown_level [OF less.prems(1) d k M(1)]
    have sl: "snake a b (startX a b d k) (startX a b d k - k) = Ok (?x, ?x - k)"
      using snake_slide [of "startX a b d k" "startX a b d k - k" a b] startX_nonneg [OF k, of a b]
      by (simp add: far_startX [OF k])
    have st: "set_idx v (int M + k) ?x = Ok ?v"
      using k d less.prems(1) by (auto simp: set_idx_def level_def diag_def)
    have unfold: "diagonals a b (int M) (int d) k v =
        (if reached a b d k then Ok (True, ?v) else diagonals a b (int M) (int d) (k + 2) ?v)"
      using go sl st True k
      by (subst diagonals.simps, cases "downX a b d k") (auto simp: reached_def)
    show ?thesis
    proof (cases "reached a b d k")
      case True
      then show ?thesis using unfold by auto
    next
      case False
      have next': "(\<exists>j \<ge> k. reached a b d j) \<longleftrightarrow> (\<exists>j \<ge> k + 2. reached a b d j)"
      proof -
        have "k + 2 \<le> j" if "k \<le> j" "reached a b d j" for j
        proof -
          have "j \<noteq> k" using that False by auto
          moreover have "j \<noteq> k + 1" using that k by (auto simp: reached_def diag_def)
          ultimately show ?thesis using that by simp
        qed
        moreover have "k \<le> j" if "k + 2 \<le> j" for j using that by simp
        ultimately show ?thesis by blast
      qed
      have vals: "?v ! nat (int M + j) = far a b d j" if "diag d j" "j < k + 2" for j
      proof (cases "j = k")
        case True
        then show ?thesis using st by (auto simp: set_idx_def split: if_splits)
      next
        case False
        have "j \<noteq> k + 1" using that k by (auto simp: diag_def)
        then have "j < k" using False that by simp
        moreover have "nat (int M + j) \<noteq> nat (int M + k)" using \<open>j < k\<close> that k d by (auto simp: diag_def)
        ultimately show ?thesis using less.prems(4) that by simp
      qed
      have "\<exists>v'. diagonals a b (int M) (int d) (k + 2) ?v = Ok (\<exists>j \<ge> k + 2. reached a b d j, v')
          \<and> ((\<forall>j \<ge> k + 2. \<not> reached a b d j) \<longrightarrow> level a b M (Suc d) v')"
        using less.prems vals True by (intro less.hyps level_update d k) auto
      then show ?thesis using unfold False next' by auto
    qed
  qed
qed

lemma depths_level:
  assumes M: "0 < M" "M = length a + length b" and D: "D \<le> M" "\<exists>k. reached a b D k"
    "\<And>d' k'. d' < D \<Longrightarrow> \<not> reached a b d' k'"
  shows "level a b M d v \<Longrightarrow> d \<le> D \<Longrightarrow> d + r = Suc M \<Longrightarrow> length trace = d \<Longrightarrow>
    (\<And>i. i < d \<Longrightarrow> level a b M i (trace ! i)) \<Longrightarrow>
    \<exists>tr. depths a b (int M) r (int d) v trace = Ok tr \<and> length tr = Suc D
      \<and> (\<forall>i \<le> D. level a b M i (tr ! i))"
proof (induction r arbitrary: d v trace)
  case 0
  then show ?case using D(1) by simp
next
  case (Suc r)
  have dM: "d \<le> M" using Suc.prems(2) D(1) by simp
  obtain v' where v': "diagonals a b (int M) (int d) (- int d) v = Ok (\<exists>j \<ge> - int d. reached a b d j, v')"
    "(\<forall>j \<ge> - int d. \<not> reached a b d j) \<longrightarrow> level a b M (Suc d) v'"
    using diagonals_level [OF dM M Suc.prems(1), of "- int d"] by (auto simp: diag_def)
  have all: "(\<exists>j \<ge> - int d. reached a b d j) \<longleftrightarrow> (\<exists>j. reached a b d j)"
  proof -
    have "- int d \<le> j" if "reached a b d j" for j using that by (auto simp: reached_def diag_def)
    then show ?thesis by blast
  qed
  have tr: "level a b M i ((trace @ [v]) ! i)" if "i < Suc d" for i
    using that Suc.prems(1,4,5) by (cases "i = d") (auto simp: nth_append)
  show ?case
  proof (cases "d = D")
    case True
    then show ?thesis using v'(1) D(2) all tr Suc.prems(4) by (auto simp: less_Suc_eq_le)
  next
    case False
    then have "\<not> (\<exists>j. reached a b d j)" "Suc d \<le> D" using D(3) Suc.prems(2) by auto
    then have "depths a b (int M) (Suc r) (int d) v trace = depths a b (int M) r (int (Suc d)) v' (trace @ [v])"
      using v'(1) all by (simp add: add.commute)
    moreover have "\<exists>tr. depths a b (int M) r (int (Suc d)) v' (trace @ [v]) = Ok tr \<and> length tr = Suc D
        \<and> (\<forall>i \<le> D. level a b M i (tr ! i))"
      using \<open>\<not> (\<exists>j. reached a b d j)\<close> \<open>Suc d \<le> D\<close> v'(2) tr Suc.prems(3,4) by (intro Suc.IH) auto
    ultimately show ?thesis by simp
  qed
qed

lemma shortestEditTrace_level:
  assumes M: "0 < M" "M = length a + length b"
  obtains tr D where "shortestEditTrace a b = Ok (tr, int M)" "length tr = Suc D" "D \<le> M"
    "\<And>i. i \<le> D \<Longrightarrow> level a b M i (tr ! i)"
    "far a b D (int (length a) - int (length b)) = int (length a)"
    "diag D (int (length a) - int (length b))"
    "\<And>d' k'. d' < D \<Longrightarrow> \<not> reached a b d' k'"
proof -
  define D where "D = (LEAST d. \<exists>k. reached a b d k)"
  have ex: "\<exists>k. reached a b M k" using reached_by_end [of a b] M(2) by auto
  have D: "\<exists>k. reached a b D k" unfolding D_def by (rule LeastI [of _ M]) (rule ex)
  have min: "\<not> reached a b d' k'" if "d' < D" for d' k'
    using that not_less_Least unfolding D_def by blast
  have DM: "D \<le> M" unfolding D_def by (rule Least_le) (rule ex)
  obtain k where k: "reached a b D k" using D by blast
  note exact = reached_exact [OF k min]
  have start: "level a b M 0 (replicate (2 * M + 1) 0)" using M(1) by (simp add: level_def)
  obtain tr where "depths a b (int M) (Suc M) 0 (replicate (2 * M + 1) 0) [] = Ok tr"
    "length tr = Suc D" "\<And>i. i \<le> D \<Longrightarrow> level a b M i (tr ! i)"
    using depths_level [OF M DM D min start, of "Suc M" "[]"] by auto
  then show thesis
    using M k exact DM min by (intro that [of tr D]) (auto simp: shortestEditTrace_def reached_def Let_def)
qed

section \<open>Edit scripts\<close>

text \<open>Running a script from a point of the grid: every operation must fit where it is.\<close>

fun runs :: "line list \<Rightarrow> line list \<Rightarrow> op list \<Rightarrow> int \<times> int \<Rightarrow> (int \<times> int) option" where
  "runs a b [] p = Some p"
| "runs a b (OpEqual i j # ops) (x, y) =
     (if i = x \<and> j = y \<and> 0 \<le> x \<and> x < int (length a) \<and> 0 \<le> y \<and> y < int (length b) \<and> a ! nat x = b ! nat y
      then runs a b ops (x + 1, y + 1) else None)"
| "runs a b (OpDelete i # ops) (x, y) =
     (if i = x \<and> 0 \<le> x \<and> x < int (length a) then runs a b ops (x + 1, y) else None)"
| "runs a b (OpInsert j # ops) (x, y) =
     (if j = y \<and> 0 \<le> y \<and> y < int (length b) then runs a b ops (x, y + 1) else None)"

fun isEqual :: "op \<Rightarrow> bool" where
  "isEqual (OpEqual i j) = True"
| "isEqual _ = False"

definition cost :: "op list \<Rightarrow> nat" where
  "cost ops = length (filter (\<lambda>o'. \<not> isEqual o') ops)"

lemma runs_append: "runs a b (xs @ ys) p = Option.bind (runs a b xs p) (runs a b ys)"
  by (induction a b xs p rule: runs.induct) simp_all

lemma equalOps_end:
  "equalOps px py x y = (ops, x', y') \<Longrightarrow> px \<le> x \<Longrightarrow> py \<le> y \<Longrightarrow>
    x' = max px (py + (x - y)) \<and> y' = x' - (x - y) \<and> cost ops = 0"
proof (induction px py x y arbitrary: ops x' y' rule: equalOps.induct)
  case (1 px py x y)
  show ?case
  proof (cases "x > px \<and> y > py")
    case True
    obtain ops1 where ops1: "equalOps px py (x - 1) (y - 1) = (ops1, x', y')" "ops = OpEqual (x - 1) (y - 1) # ops1"
      using "1.prems"(1) True by (subst (asm) equalOps.simps) (auto split: prod.splits)
    then show ?thesis using "1.IH" [OF True ops1(1)] True by (auto simp: cost_def)
  next
    case False
    then show ?thesis using "1.prems" by (subst (asm) equalOps.simps) (auto simp: cost_def)
  qed
qed

lemma equalOps_runs:
  "equalOps px py x y = (ops, x', y') \<Longrightarrow>
    (\<And>z. x' \<le> z \<Longrightarrow> z < x \<Longrightarrow> 0 \<le> z \<and> 0 \<le> z - (x - y) \<and> z < int (length a) \<and> z - (x - y) < int (length b)
        \<and> a ! nat z = b ! nat (z - (x - y))) \<Longrightarrow>
    x' \<le> x \<and> runs a b (rev ops) (x', y') = Some (x, y)"
proof (induction px py x y arbitrary: ops x' y' rule: equalOps.induct)
  case (1 px py x y)
  show ?case
  proof (cases "x > px \<and> y > py")
    case True
    obtain ops1 where ops1: "equalOps px py (x - 1) (y - 1) = (ops1, x', y')" "ops = OpEqual (x - 1) (y - 1) # ops1"
      using "1.prems"(1) True by (subst (asm) equalOps.simps) (auto split: prod.splits)
    have IH: "x' \<le> x - 1 \<and> runs a b (rev ops1) (x', y') = Some (x - 1, y - 1)"
      using "1.prems"(2) by (intro "1.IH" [OF True ops1(1)]) auto
    then show ?thesis using "1.prems"(2) [of "x - 1"] by (simp add: ops1(2) runs_append algebra_simps)
  next
    case False
    then show ?thesis using "1.prems" by (subst (asm) equalOps.simps) auto
  qed
qed

lemma backtrackLoop_runs:
  assumes M: "0 < M" and tr: "length tr = Suc D" "D \<le> M" "\<And>i. i \<le> D \<Longrightarrow> level a b M i (tr ! i)"
  shows "d \<le> D \<Longrightarrow> diag d k \<Longrightarrow> far a b d k \<le> int (length a) \<Longrightarrow> far a b d k - k \<le> int (length b) \<Longrightarrow>
    \<exists>ops. backtrackLoop tr (int M) (Suc d) (far a b d k) (far a b d k - k) = Ok ops
      \<and> runs a b (rev ops) (0, 0) = Some (far a b d k, far a b d k - k) \<and> cost ops = d"
proof (induction d arbitrary: k)
  case 0
  let ?x = "far a b 0 k"
  have lv: "level a b M 0 (tr ! 0)" using tr(3) by simp
  obtain ops x' y' where eq: "equalOps 0 (- 1) ?x (?x - k) = (ops, x', y')" by (metis prod_cases3)
  have k: "k = 0" using 0 by simp
  have x: "0 \<le> ?x" using far_nonneg [of 0 0 a b] k by simp
  have e: "x' = 0" "y' = 0" "cost ops = 0" using equalOps_end [OF eq] x k by auto
  have "x' \<le> ?x \<and> runs a b (rev ops) (x', y') = Some (?x, ?x - k)"
    using e k slide_match [of 0 _ a b 0] by (intro equalOps_runs [OF eq]) auto
  then show ?case
    using e eq k goDown_level(1,2) [OF lv, of 0] M tr(1)
    by (simp add: idx_def [of tr] downX_def startX_def Let_def)
next
  case (Suc d)
  let ?x = "far a b (Suc d) k"
  let ?down = "downAt a b d k"
  define pk where "pk = (if ?down then k + 1 else k - 1)"
  define px where "px = far a b d pk"
  have lv: "level a b M (Suc d) (tr ! Suc d)" using tr(3) Suc.prems(1) by simp
  have dM: "Suc d \<le> M" using Suc.prems(1) tr(2) by simp
  have pdiag: "diag d pk"
    using diag_neighbours [OF Suc.prems(2)] by (auto simp: pk_def downAt_def)
  have entry: "entry a b d k = (if ?down then px else px + 1)" by (simp add: entry_def px_def pk_def)
  have ge: "entry a b d k \<le> ?x" by (simp add: far_Suc slide_ge)
  obtain ops x' y' where eq: "equalOps px (px - pk) ?x (?x - k) = (ops, x', y')" by (metis prod_cases3)
  have e: "x' = entry a b d k" "y' = x' - k" "cost ops = 0"
    using equalOps_end [OF eq] ge entry by (auto simp: pk_def split: if_splits)
  have nn: "0 \<le> px" "pk \<le> px" using far_nonneg [OF pdiag, of a b] by (simp_all add: px_def)
  have "x' \<le> ?x \<and> runs a b (rev ops) (x', y') = Some (?x, ?x - k)"
  proof (rule equalOps_runs [OF eq])
    fix z assume z: "x' \<le> z" "z < ?x"
    then show "0 \<le> z \<and> 0 \<le> z - (?x - (?x - k)) \<and> z < int (length a) \<and> z - (?x - (?x - k)) < int (length b)
        \<and> a ! nat z = b ! nat (z - (?x - (?x - k)))"
      using slide_match [of "entry a b d k" z a b "entry a b d k - k"] nn e entry
      by (auto simp: far_Suc pk_def split: if_splits)
  qed
  note snake = conjunct2 [OF this] and le = conjunct1 [OF this]
  have bound: "px \<le> int (length a)" "px - pk \<le> int (length b)"
    using ge entry Suc.prems(3,4) by (auto simp: pk_def split: if_splits)
  obtain rest where rest: "backtrackLoop tr (int M) (Suc d) px (px - pk) = Ok rest"
    "runs a b (rev rest) (0, 0) = Some (px, px - pk)" "cost rest = d"
    using Suc.IH [of pk] pdiag bound Suc.prems(1) by (auto simp: px_def)
  define o' where "o' = (if x' = px then OpInsert (y' - 1) else OpDelete (x' - 1))"
  have o': "runs a b [o'] (px, px - pk) = Some (x', y')" "\<not> isEqual o'"
    using e entry nn ge Suc.prems(3,4) by (auto simp: o'_def pk_def split: if_splits)
  have read: "idx (tr ! Suc d) (int M + pk) = Ok px"
    using goDown_level(2,3) [OF lv dM Suc.prems(2) M] entry
    by (auto simp: pk_def downX_def startX_def algebra_simps split: if_splits)
  have idx: "idx tr (int (Suc d)) = Ok (tr ! Suc d)" unfolding idx_def
    using tr(1) Suc.prems(1) by (simp del: of_nat_Suc)
  have goDown: "goDown (tr ! Suc d) (int M) (int (Suc d)) k = Ok ?down"
    using goDown_level(1) [OF lv dM Suc.prems(2) M] by (simp add: downX_def)
  have "backtrackLoop tr (int M) (Suc (Suc d)) ?x (?x - k) = Ok (ops @ o' # rest)"
    unfolding backtrackLoop.simps(2) [of tr "int M" "Suc d"] idx go_bind.simps Let_def
      diff_diff_eq2 add_diff_cancel_left' goDown pk_def [symmetric] read eq prod.case rest(1) o'_def
    by simp
  moreover have "runs a b (rev (ops @ o' # rest)) (0, 0) = Some (?x, ?x - k)"
    using rest(2) o'(1) snake runs_append [of a b "[o']" "rev ops" "(px, px - pk)"] by (simp add: runs_append)
  moreover have "cost (ops @ o' # rest) = Suc d" using e(3) rest(3) o'(2) by (simp add: cost_def)
  ultimately show ?case by blast
qed

lemma runs_far:
  "runs a b ops (0, 0) = Some (x, y) \<Longrightarrow> diag (cost ops) (x - y) \<and> x \<le> far a b (cost ops) (x - y)
    \<and> 0 \<le> x \<and> 0 \<le> y"
proof (induction ops arbitrary: x y rule: rev_induct)
  case Nil
  then show ?case using slide_ge [of 0 a b 0] by (simp add: cost_def)
next
  case (snoc o' ops)
  obtain p q where pq: "runs a b ops (0, 0) = Some (p, q)" "runs a b [o'] (p, q) = Some (x, y)"
    using snoc.prems by (auto simp: runs_append bind_eq_Some_conv)
  have IH: "diag (cost ops) (p - q)" "p \<le> far a b (cost ops) (p - q)" "0 \<le> p" "0 \<le> q"
    using snoc.IH [OF pq(1)] by auto
  show ?case
  proof (cases o')
    case (OpEqual i j)
    then have s: "x = p + 1" "y = q + 1" "p < int (length a)" "q < int (length b)" "a ! nat p = b ! nat q"
      using pq(2) by (auto split: if_splits)
    have "p \<noteq> far a b (cost ops) (p - q)"
      using slide_maximal [of a b "startX a b (cost ops) (p - q)" "startX a b (cost ops) (p - q) - (p - q)"] s
      by (auto simp: far_startX [OF IH(1)])
    then show ?thesis using IH s OpEqual by (simp add: cost_def)
  next
    case (OpDelete i)
    then have s: "x = p + 1" "y = q" using pq(2) by (auto split: if_splits)
    then show ?thesis
      using IH OpDelete far_right [OF IH(1), of a b] diag_step [OF IH(1)] by (simp add: cost_def algebra_simps)
  next
    case (OpInsert j)
    then have s: "x = p" "y = q + 1" using pq(2) by (auto split: if_splits)
    then show ?thesis
      using IH OpInsert far_down [OF IH(1), of a b] diag_step [OF IH(1)] by (simp add: cost_def algebra_simps)
  qed
qed

lemma cost_rev [simp]: "cost (rev ops) = cost ops"
  by (simp add: cost_def flip: rev_filter)

lemma diffLines_shortest:
  "\<exists>ops. diffLines a b = Ok ops \<and> runs a b ops (0, 0) = Some (int (length a), int (length b))
    \<and> (\<forall>ops'. runs a b ops' (0, 0) = Some (int (length a), int (length b)) \<longrightarrow> cost ops \<le> cost ops')"
proof (cases "length a + length b = 0")
  case True
  then show ?thesis
    by (intro exI [of _ "[]"]) (simp add: diffLines_def shortestEditTrace_def backtrack_def cost_def)
next
  case False
  define M where "M = length a + length b"
  have M: "0 < M" using False by (simp add: M_def)
  let ?k = "int (length a) - int (length b)"
  obtain tr D where tr: "shortestEditTrace a b = Ok (tr, int M)" "length tr = Suc D" "D \<le> M"
    "\<And>i. i \<le> D \<Longrightarrow> level a b M i (tr ! i)" "far a b D ?k = int (length a)" "diag D ?k"
    "\<And>d' k'. d' < D \<Longrightarrow> \<not> reached a b d' k'"
    using shortestEditTrace_level [OF M M_def] by metis
  obtain ops where ops: "backtrackLoop tr (int M) (Suc D) (int (length a)) (int (length b)) = Ok ops"
    "runs a b (rev ops) (0, 0) = Some (int (length a), int (length b))" "cost ops = D"
    using backtrackLoop_runs [OF M tr(2-4) order_refl tr(6)] tr(5) by auto
  have min: "D \<le> cost ops'" if "runs a b ops' (0, 0) = Some (int (length a), int (length b))" for ops'
  proof -
    have "reached a b (cost ops') ?k" using runs_far [OF that] by (simp add: reached_def)
    then show ?thesis using tr(7) by (metis not_le)
  qed
  have "diffLines a b = Ok (rev ops)"
    using tr(1,2) ops(1) by (simp add: diffLines_def backtrack_def del: backtrackLoop.simps)
  then show ?thesis using ops(2,3) min by (intro exI [of _ "rev ops"]) simp
qed

section \<open>Lines and offsets\<close>

definition offsetsOf :: "line list \<Rightarrow> nat list" where
  "offsetsOf ls = map (\<lambda>i. length (concat (take i ls))) [0..<Suc (length ls)]"

lemma offsetsOf_snoc: "offsetsOf (ls @ [l]) = offsetsOf ls @ [length (concat ls) + length l]"
  by (simp add: offsetsOf_def)

lemma splitLoop_correct:
  "start \<le> i \<Longrightarrow> drop i text = rest \<Longrightarrow> i \<le> length text \<Longrightarrow> concat lines = take start text \<Longrightarrow>
    splitLoop text start i rest lines (offsetsOf lines) = (ls, offs) \<Longrightarrow>
    concat ls = text \<and> offs = offsetsOf ls"
proof (induction rest arbitrary: start i lines)
  case Nil
  then show ?case by (auto simp: offsetsOf_snoc min_def split: if_splits)
next
  case (Cons c cs)
  have i: "i < length text" using Cons.prems(2,3) by (cases "i < length text") auto
  then have cs: "drop (i + 1) text = cs"
    using Cons.prems(2) by (metis Cons_nth_drop_Suc Suc_eq_plus1 list.inject)
  show ?case
  proof (cases "c = newline")
    case True
    let ?l = "take (i + 1 - start) (drop start text)"
    have con: "concat (lines @ [?l]) = take (i + 1) text"
      using Cons.prems(1,4) i by (simp add: Suc_diff_le flip: take_add)
    have "length (concat lines) + length ?l = i + 1" using Cons.prems(1,4) i by simp
    then have "splitLoop text (i + 1) (i + 1) cs (lines @ [?l]) (offsetsOf (lines @ [?l])) = (ls, offs)"
      using Cons.prems(5) True by (simp add: offsetsOf_snoc)
    from Cons.IH [OF _ cs _ con this] i show ?thesis by simp
  next
    case False
    then show ?thesis using Cons.IH [of start "i + 1" lines] Cons.prems cs i by simp
  qed
qed

lemma splitLines_correct: "splitLines text = (ls, offs) \<Longrightarrow> concat ls = text \<and> offs = offsetsOf ls"
  using splitLoop_correct [of 0 0 "text" "text" "[]" ls offs] by (simp add: splitLines_def offsetsOf_def)

section \<open>Applying edits\<close>

text \<open>What a client does with the edits: copy up to an edit, insert its text, skip what it replaces.\<close>

fun applyEdits :: "nat \<Rightarrow> bytes \<Rightarrow> edit list \<Rightarrow> bytes" where
  "applyEdits pos before [] = drop pos before"
| "applyEdits pos before (e # es) =
     take (edStart e - pos) (drop pos before) @ edNew e @ applyEdits (edEnd e) before es"

text \<open>Edits in order, without overlap and inside a text of the given length, from \<open>pos\<close> on.\<close>

fun editsOk :: "nat \<Rightarrow> nat \<Rightarrow> edit list \<Rightarrow> bool" where
  "editsOk pos len [] \<longleftrightarrow> pos \<le> len"
| "editsOk pos len (e # es) \<longleftrightarrow> pos \<le> edStart e \<and> edStart e \<le> edEnd e \<and> editsOk (edEnd e) len es"

definition seg :: "bytes \<Rightarrow> nat \<Rightarrow> nat \<Rightarrow> bytes" where
  "seg t p q = take (q - p) (drop p t)"

lemma seg_append: "p \<le> q \<Longrightarrow> q \<le> r \<Longrightarrow> seg t p q @ seg t q r = seg t p r"
proof -
  assume "p \<le> q" "q \<le> r"
  then obtain i j where "q = p + i" "r = p + i + j" by (metis le_Suc_ex)
  then show ?thesis by (simp add: seg_def take_add add.commute)
qed

lemma seg_same [simp]: "seg t p p = []"
  by (simp add: seg_def)

text \<open>The part of the result the edits have produced, and how far into the old text they reach.\<close>

fun emitted :: "bytes \<Rightarrow> edit list \<Rightarrow> bytes \<Rightarrow> nat \<Rightarrow> bytes \<times> nat" where
  "emitted before [] out pos = (out, pos)"
| "emitted before (e # es) out pos = emitted before es (out @ seg before pos (edStart e) @ edNew e) (edEnd e)"

lemma emitted_append:
  "emitted before (es @ fs) out pos = (case emitted before es out pos of (o', p) \<Rightarrow> emitted before fs o' p)"
  by (induction es arbitrary: out pos) simp_all

lemma applyEdits_emitted:
  "emitted before es out pos = (o', p) \<Longrightarrow> out @ applyEdits pos before es = o' @ drop p before"
proof (induction es arbitrary: out pos)
  case (Cons e es)
  then show ?case using Cons.IH [of "out @ seg before pos (edStart e) @ edNew e" "edEnd e"]
    by (simp add: seg_def)
qed simp

lemma editsOk_snoc:
  "editsOk pos len es \<Longrightarrow> emitted before es out pos = (o', p) \<Longrightarrow> p \<le> edStart e \<Longrightarrow> edStart e \<le> edEnd e \<Longrightarrow>
    edEnd e \<le> len \<Longrightarrow> editsOk pos len (es @ [e])"
  by (induction es arbitrary: out pos) auto

lemma editsOk_le: "editsOk pos len es \<Longrightarrow> emitted before es out pos = (o', p) \<Longrightarrow> p \<le> len"
  by (induction es arbitrary: out pos) auto

text \<open>
  The invariant of the loop, at line \<open>x\<close> of the old and line \<open>y\<close> of the new text: the edits so
  far, the text copied after them and the pending edit make up the first \<open>y\<close> new lines.
\<close>

definition editInv :: "line list \<Rightarrow> line list \<Rightarrow> nat \<Rightarrow> nat \<Rightarrow> edits_state \<Rightarrow> bool" where
  "editInv A B x y s \<longleftrightarrow> x \<le> length A \<and> y \<le> length B \<and>
     (\<exists>out pos. emitted (concat A) (esEdits s) [] 0 = (out, pos) \<and> editsOk 0 (length (concat A)) (esEdits s)
       \<and> (case esPending s of
            None \<Rightarrow> esLines s = [] \<and> esLastAEnd s = int x \<and> pos \<le> length (concat (take x A))
              \<and> out @ seg (concat A) pos (length (concat (take x A))) = concat (take y B)
          | Some (st, en) \<Rightarrow> pos \<le> st \<and> st \<le> en \<and> en = length (concat (take x A))
              \<and> out @ seg (concat A) pos st @ concat (esLines s) = concat (take y B)))"

lemma length_concat_take_le: "length (concat (take x A)) \<le> length (concat A)"
  by (metis append_take_drop_id concat_append le_add1 length_append)

lemma flush_inv:
  assumes "editInv A B x y s"
  shows "editInv A B x y ((flush s)\<lparr>esLastAEnd := int x\<rparr>)" and "esPending (flush s) = None"
proof -
  obtain out pos where *: "x \<le> length A" "y \<le> length B" "emitted (concat A) (esEdits s) [] 0 = (out, pos)"
    "editsOk 0 (length (concat A)) (esEdits s)"
    "case esPending s of
            None \<Rightarrow> esLines s = [] \<and> esLastAEnd s = int x \<and> pos \<le> length (concat (take x A))
              \<and> out @ seg (concat A) pos (length (concat (take x A))) = concat (take y B)
          | Some (st, en) \<Rightarrow> pos \<le> st \<and> st \<le> en \<and> en = length (concat (take x A))
              \<and> out @ seg (concat A) pos st @ concat (esLines s) = concat (take y B)"
    using assms by (auto simp: editInv_def)
  show "esPending (flush s) = None" by (auto simp: flush_def split: option.splits prod.splits)
  show "editInv A B x y ((flush s)\<lparr>esLastAEnd := int x\<rparr>)"
  proof (cases "esPending s")
    case None
    then show ?thesis using * by (simp add: flush_def editInv_def)
  next
    case (Some p)
    obtain st en where p: "p = (st, en)" by (cases p)
    let ?e = "\<lparr>edStart = st, edEnd = en, edNew = concat (esLines s)\<rparr>"
    have b: "pos \<le> st" "st \<le> en" "en = length (concat (take x A))" "en \<le> length (concat A)"
      "out @ seg (concat A) pos st @ concat (esLines s) = concat (take y B)"
      using *(5) Some p length_concat_take_le [of x A] by auto
    have "editsOk 0 (length (concat A)) (esEdits s @ [?e])"
      using editsOk_snoc [OF *(4,3), of ?e] b by simp
    moreover have "emitted (concat A) (esEdits s @ [?e]) [] 0 = (concat (take y B), en)"
      using *(3) b(5) by (simp add: emitted_append)
    ultimately show ?thesis using Some p *(1,2) b(3) by (simp add: flush_def editInv_def)
  qed
qed

lemma idx_offsets: "x \<le> length A \<Longrightarrow> idx (offsetsOf A) (int x) = Ok (length (concat (take x A)))"
  by (simp add: idx_def offsetsOf_def del: upt_Suc)

lemma concat_take_Suc: "x < length A \<Longrightarrow> concat (take (Suc x) A) = concat (take x A) @ A ! x"
  by (simp add: take_Suc_conv_app_nth)

lemma seg_line:
  "x < length A \<Longrightarrow> seg (concat A) (length (concat (take x A))) (length (concat (take (Suc x) A))) = A ! x"
proof -
  assume x: "x < length A"
  have "concat A = concat (take x A) @ A ! x @ concat (drop (Suc x) A)"
    using x by (metis append.assoc append_take_drop_id concat_append concat_take_Suc)
  then have "drop (length (concat (take x A))) (concat A) = A ! x @ concat (drop (Suc x) A)"
    by (metis append_eq_conv_conj)
  then show ?thesis using x by (simp add: seg_def concat_take_Suc)
qed

lemma editStep_equal:
  assumes inv: "editInv A B x y s" and x: "x < length A" "y < length B" "A ! x = B ! y"
  shows "editInv A B (Suc x) (Suc y) ((flush s)\<lparr>esLastAEnd := int (Suc x)\<rparr>)"
proof -
  let ?s = "(flush s)\<lparr>esLastAEnd := int x\<rparr>"
  let ?p = "length (concat (take x A))" and ?q = "length (concat (take (Suc x) A))"
  obtain out pos where *: "emitted (concat A) (esEdits (flush s)) [] 0 = (out, pos)"
    "editsOk 0 (length (concat A)) (esEdits (flush s))" "esLines (flush s) = []" "pos \<le> ?p"
    "out @ seg (concat A) pos ?p = concat (take y B)"
    using flush_inv [OF inv] by (auto simp: editInv_def)
  have le: "?p \<le> ?q" using x by (simp add: concat_take_Suc)
  have "out @ seg (concat A) pos ?q = concat (take (Suc y) B)"
    using *(5) seg_append [OF *(4) le, of "concat A", symmetric] seg_line [OF x(1)] x
    by (simp add: concat_take_Suc [of y B] flip: append_assoc)
  moreover have "pos \<le> ?q" using *(4) le by simp
  ultimately show ?thesis using * x flush_inv(2) [OF inv] by (simp add: editInv_def)
qed

lemma editStep_delete:
  assumes inv: "editInv A B x y s" and x: "x < length A"
  shows "\<exists>s'. editStep B (offsetsOf A) (OpDelete (int x)) s = Ok s' \<and> editInv A B (Suc x) y s'"
proof -
  let ?p = "length (concat (take x A))" and ?q = "length (concat (take (Suc x) A))"
  have o1: "idx (offsetsOf A) (int x) = Ok ?p" using x by (intro idx_offsets) simp
  have o2: "idx (offsetsOf A) (int x + 1) = Ok ?q"
    using idx_offsets [of "Suc x" A] x by (simp add: add.commute)
  have le: "?p \<le> ?q" using x by (simp add: concat_take_Suc)
  show ?thesis
  proof (cases "esPending s")
    case None
    then show ?thesis using inv x o1 o2 le by (auto simp: editInv_def)
  next
    case (Some p)
    then show ?thesis using inv x o1 o2 le by (cases p) (auto simp: editInv_def)
  qed
qed

lemma editStep_insert:
  assumes inv: "editInv A B x y s" and y: "y < length B"
  shows "\<exists>s'. editStep B (offsetsOf A) (OpInsert (int y)) s = Ok s' \<and> editInv A B x (Suc y) s'"
proof -
  have l: "idx B (int y) = Ok (B ! y)" using y by (simp add: idx_def)
  have o1: "idx (offsetsOf A) (int x) = Ok (length (concat (take x A)))"
    using inv by (intro idx_offsets) (simp add: editInv_def)
  show ?thesis
  proof (cases "esPending s")
    case None
    then show ?thesis using inv y l o1 by (auto simp: editInv_def concat_take_Suc)
  next
    case (Some p)
    obtain st en where "p = (st, en)" by (cases p)
    then show ?thesis using inv y l Some
      by (auto simp: editInv_def concat_take_Suc simp flip: append_assoc)
  qed
qed

lemma editLoop_correct:
  "editInv A B x y s \<Longrightarrow> runs A B ops (int x, int y) = Some (int x', int y') \<Longrightarrow>
    \<exists>s'. editLoop B (offsetsOf A) ops s = Ok s' \<and> editInv A B x' y' s'"
proof (induction ops arbitrary: x y s)
  case Nil
  then show ?case by simp
next
  case (Cons o' ops)
  show ?case
  proof (cases o')
    case (OpEqual i j)
    then have "x < length A" "y < length B" "A ! x = B ! y"
      "runs A B ops (int (Suc x), int (Suc y)) = Some (int x', int y')" "i + 1 = int (Suc x)"
      using Cons.prems(2) by (auto simp: add.commute split: if_splits)
    then show ?thesis
      using editStep_equal [OF Cons.prems(1)] Cons.IH [of "Suc x" "Suc y" "(flush s)\<lparr>esLastAEnd := i + 1\<rparr>"]
        OpEqual by (simp add: add.commute [of "int x" 1])
  next
    case (OpDelete i)
    then have "x < length A" "runs A B ops (int (Suc x), int y) = Some (int x', int y')" "i = int x"
      using Cons.prems(2) by (auto simp: add.commute split: if_splits)
    then show ?thesis
      using editStep_delete [OF Cons.prems(1)] Cons.IH OpDelete by (metis editLoop.simps(2) go_bind.simps(1))
  next
    case (OpInsert j)
    then have "y < length B" "runs A B ops (int x, int (Suc y)) = Some (int x', int y')" "j = int y"
      using Cons.prems(2) by (auto simp: add.commute split: if_splits)
    then show ?thesis
      using editStep_insert [OF Cons.prems(1)] Cons.IH OpInsert by (metis editLoop.simps(2) go_bind.simps(1))
  qed
qed

lemma editsFromOps_correct:
  assumes "runs A B ops (0, 0) = Some (int (length A), int (length B))"
  shows "\<exists>es. editsFromOps ops B (offsetsOf A) = Ok es \<and> applyEdits 0 (concat A) es = concat B
    \<and> editsOk 0 (length (concat A)) es"
proof -
  let ?s0 = "\<lparr>esEdits = [], esPending = None, esLines = [], esLastAEnd = 0\<rparr>"
  have "editInv A B 0 0 ?s0" by (simp add: editInv_def)
  from editLoop_correct [OF this, of ops "length A" "length B"] assms
  obtain s where s: "editLoop B (offsetsOf A) ops ?s0 = Ok s" "editInv A B (length A) (length B) s" by auto
  obtain out pos where *: "emitted (concat A) (esEdits (flush s)) [] 0 = (out, pos)"
    "editsOk 0 (length (concat A)) (esEdits (flush s))"
    "out @ seg (concat A) pos (length (concat A)) = concat B"
    using flush_inv [OF s(2)] by (auto simp: editInv_def)
  have "applyEdits 0 (concat A) (esEdits (flush s)) = concat B"
    using applyEdits_emitted [OF *(1)] *(3) by (simp add: seg_def)
  then show ?thesis using s(1) *(2) by (simp add: editsFromOps_def)
qed

lemma runs_same: "k \<le> length a \<Longrightarrow>
    runs a a (map (\<lambda>i. OpEqual (int i) (int i)) [0..<k]) (0, 0) = Some (int k, int k)"
  by (induction k) (simp_all add: runs_append add.commute)

lemma editLoop_no_cost:
  "cost ops = 0 \<Longrightarrow> esEdits s = [] \<Longrightarrow> esPending s = None \<Longrightarrow>
    \<exists>s'. editLoop B offs ops s = Ok s' \<and> esEdits s' = [] \<and> esPending s' = None"
proof (induction ops arbitrary: s)
  case (Cons o' ops)
  then obtain i j where o': "o' = OpEqual i j" by (cases o') (auto simp: cost_def)
  have "flush s = s" using Cons.prems(3) by (simp add: flush_def)
  then show ?case using Cons.IH [of "s\<lparr>esLastAEnd := i + 1\<rparr>"] Cons.prems o' by (simp add: cost_def)
qed simp

lemma Lines_correct:
  "\<exists>es. Lines before after = Ok es \<and> applyEdits 0 before es = after \<and> editsOk 0 (length before) es"
proof -
  obtain A offs B offs' where s: "splitLines before = (A, offs)" "splitLines after = (B, offs')" by fastforce
  note A = splitLines_correct [OF s(1)] and B = splitLines_correct [OF s(2)]
  obtain ops where "diffLines A B = Ok ops" "runs A B ops (0, 0) = Some (int (length A), int (length B))"
    using diffLines_shortest [of A B] by blast
  then show ?thesis using editsFromOps_correct [of A B ops] A B s by (auto simp: Lines_def)
qed

lemma Lines_same: "Lines t t = Ok []"
proof -
  obtain A offs where s: "splitLines t = (A, offs)" by fastforce
  obtain ops where ops: "diffLines A A = Ok ops"
    "\<And>ops'. runs A A ops' (0, 0) = Some (int (length A), int (length A)) \<Longrightarrow> cost ops \<le> cost ops'"
    using diffLines_shortest [of A A] by blast
  have "cost (map (\<lambda>i. OpEqual (int i) (int i)) [0..<length A]) = 0" by (simp add: cost_def o_def)
  then have "cost ops = 0" using ops(2) [OF runs_same [OF order_refl]] by simp
  then show ?thesis
    using editLoop_no_cost [of ops "\<lparr>esEdits = [], esPending = None, esLines = [], esLastAEnd = 0\<rparr>" A offs] s ops(1)
    by (auto simp: Lines_def editsFromOps_def flush_def)
qed

section \<open>The diff's contract\<close>

text \<open>
  C16. \<open>Lines\<close> never panics, and its edits are what a client needs: they are in order, do not
  overlap, stay inside the old text, and applying them to it gives exactly the new text.
\<close>

theorem lines_edits_correct:
  "\<exists>es. Lines before after = Ok es \<and> applyEdits 0 before es = after \<and> editsOk 0 (length before) es"
  by (rule Lines_correct)

text \<open>
  C17. The script \<open>diffLines\<close> finds is a shortest one: it turns the old lines into the new
  lines, and no sequence of equal, delete and insert operations that does so has fewer deletes
  and inserts.
\<close>

theorem diff_lines_shortest:
  "\<exists>ops. diffLines a b = Ok ops \<and> runs a b ops (0, 0) = Some (int (length a), int (length b))
    \<and> (\<forall>ops'. runs a b ops' (0, 0) = Some (int (length a), int (length b)) \<longrightarrow> cost ops \<le> cost ops')"
  by (rule diffLines_shortest)

theorem diff_lines_shortest_witness:
  "\<exists>ops. diffLines [[1], [2]] [[2]] = Ok ops \<and> cost ops \<le> 1"
proof -
  let ?a = "[[1], [2]] :: line list" and ?b = "[[2]] :: line list"
  have script: "runs ?a ?b [OpDelete 0, OpEqual 1 0] (0, 0) = Some (int (length ?a), int (length ?b))" by simp
  obtain ops where "diffLines ?a ?b = Ok ops"
    "\<forall>ops'. runs ?a ?b ops' (0, 0) = Some (int (length ?a), int (length ?b)) \<longrightarrow> cost ops \<le> cost ops'"
    using diff_lines_shortest [of ?a ?b] by blast
  moreover from this have "cost ops \<le> cost [OpDelete 0, OpEqual 1 0]" using script by blast
  ultimately show ?thesis by (auto simp: cost_def)
qed

text \<open>\<open>Lines\<close> returns no edit exactly when the two texts are the same.\<close>

lemma lines_no_edits_iff: "Lines before after = Ok [] \<longleftrightarrow> before = after"
  using Lines_correct [of before after] Lines_same by auto

end
