(* ===== verification/Position.thy ===== *)
theory Position
  imports Golance_Prelude
begin

text \<open>
  Text positions: the conversions between byte offsets, LSP positions (UTF-16 code units) and
  1-based line/byte-column coordinates of \<open>internal/overlay/position.go\<close> and
  \<open>internal/server/position.go\<close>. A loop that walks \<open>text[i:]\<close> rune by rune takes that
  suffix and \<open>i\<close> as arguments.
\<close>

section \<open>Runes\<close>

type_synonym rune = nat

definition RuneError :: rune where
  "RuneError = 65533"

definition between :: "nat \<Rightarrow> byte \<Rightarrow> nat \<Rightarrow> bool" where
  "between lo b hi \<longleftrightarrow> lo \<le> unat b \<and> unat b \<le> hi"

definition cont :: "byte \<Rightarrow> bool" where
  "cont b \<longleftrightarrow> between 128 b 191"

text \<open>The range the second byte must lie in, for a leading byte of a three- or four-byte rune.\<close>

definition second_lo :: "byte \<Rightarrow> nat" where
  "second_lo b = (if unat b = 224 then 160 else if unat b = 240 then 144 else 128)"

definition second_hi :: "byte \<Rightarrow> nat" where
  "second_hi b = (if unat b = 237 then 159 else if unat b = 244 then 143 else 191)"

text \<open>
  Go's \<open>utf8.DecodeRune\<close>: the first rune and its width in bytes; an invalid or truncated
  encoding (overlong forms, surrogates and values over U+10FFFF included) is
  \<open>(RuneError, 1)\<close>, no bytes at all \<open>(RuneError, 0)\<close>.
\<close>

definition DecodeRune :: "bytes \<Rightarrow> rune \<times> nat" where
  "DecodeRune p =
     (case p of
        [] \<Rightarrow> (RuneError, 0)
      | b0 # t \<Rightarrow>
          if unat b0 < 128 then (unat b0, 1)
          else if between 194 b0 223 then
            (case t of
               b1 # _ \<Rightarrow> if cont b1 then ((unat b0 - 192) * 64 + (unat b1 - 128), 2) else (RuneError, 1)
             | _ \<Rightarrow> (RuneError, 1))
          else if between 224 b0 239 then
            (case t of
               b1 # b2 # _ \<Rightarrow>
                 if between (second_lo b0) b1 (second_hi b0) \<and> cont b2
                 then ((unat b0 - 224) * 4096 + (unat b1 - 128) * 64 + (unat b2 - 128), 3)
                 else (RuneError, 1)
             | _ \<Rightarrow> (RuneError, 1))
          else if between 240 b0 244 then
            (case t of
               b1 # b2 # b3 # _ \<Rightarrow>
                 if between (second_lo b0) b1 (second_hi b0) \<and> cont b2 \<and> cont b3
                 then ((unat b0 - 240) * 262144 + (unat b1 - 128) * 4096 + (unat b2 - 128) * 64
                        + (unat b3 - 128), 4)
                 else (RuneError, 1)
             | _ \<Rightarrow> (RuneError, 1))
          else (RuneError, 1))"

lemma DecodeRune_size:
  assumes "p \<noteq> []"
  shows "0 < snd (DecodeRune p)" and "snd (DecodeRune p) \<le> length p"
  using assms by (auto simp: DecodeRune_def split: list.splits)

lemma DecodeRune_shrinks: "(r, n) = DecodeRune p \<Longrightarrow> p \<noteq> [] \<Longrightarrow> 0 < n \<and> n \<le> length p"
  using DecodeRune_size [of p] by (metis snd_conv)

lemma three_byte_bound:
  "between 224 b0 239 \<Longrightarrow> between l b1 (second_hi b0) \<Longrightarrow> cont b2 \<Longrightarrow>
    (unat b0 - 224) * 4096 + (unat b1 - 128) * 64 + (unat b2 - 128) \<le> 65535"
proof -
  assume *: "between 224 b0 239" "between l b1 (second_hi b0)" "cont b2"
  have "second_hi b0 \<le> 191" by (simp add: second_hi_def)
  then have "unat b0 - 224 \<le> 15" "unat b1 - 128 \<le> 63" "unat b2 - 128 \<le> 63"
    using * unfolding between_def cont_def by linarith+
  then show ?thesis by linarith
qed

lemma two_byte_bound:
  "between 194 b0 223 \<Longrightarrow> cont b1 \<Longrightarrow> (unat b0 - 192) * 64 + (unat b1 - 128) \<le> 65535"
  unfolding between_def cont_def by linarith

definition utf16Units :: "rune \<Rightarrow> u32" where
  "utf16Units r = (if r > 65535 then 2 else 1)"

text \<open>A line feed.\<close>

definition nl :: rune where
  "nl = 10"

text \<open>The four shapes of a decoded rune.\<close>

lemma DecodeRune_cases:
  assumes "p \<noteq> []"
  obtains (ascii) b0 t where "p = b0 # t" "unat b0 < 128" "DecodeRune p = (unat b0, 1)"
  | (invalid) "DecodeRune p = (RuneError, 1)"
  | (two) b0 b1 t where "p = b0 # b1 # t" "between 194 b0 223" "cont b1"
      "DecodeRune p = ((unat b0 - 192) * 64 + (unat b1 - 128), 2)"
  | (three) b0 b1 b2 t where "p = b0 # b1 # b2 # t" "between 224 b0 239"
      "between (second_lo b0) b1 (second_hi b0)" "cont b2"
      "DecodeRune p = ((unat b0 - 224) * 4096 + (unat b1 - 128) * 64 + (unat b2 - 128), 3)"
  | (four) b0 b1 b2 b3 t where "p = b0 # b1 # b2 # b3 # t" "between 240 b0 244"
      "between (second_lo b0) b1 (second_hi b0)" "cont b2" "cont b3"
      "DecodeRune p = ((unat b0 - 240) * 262144 + (unat b1 - 128) * 4096 + (unat b2 - 128) * 64
         + (unat b3 - 128), 4)"
proof -
  obtain b0 t where p: "p = b0 # t" using assms by (cases p) auto
  consider "unat b0 < 128" | "\<not> unat b0 < 128" "between 194 b0 223"
    | "\<not> unat b0 < 128" "\<not> between 194 b0 223" "between 224 b0 239"
    | "\<not> unat b0 < 128" "\<not> between 194 b0 223" "\<not> between 224 b0 239" by blast
  then show thesis
  proof cases
    case 1
    then show thesis using ascii [OF p] by (simp add: DecodeRune_def p)
  next
    case 2
    show thesis
    proof (cases "\<exists>b1 u. t = b1 # u \<and> cont b1")
      case True
      then show thesis using 2 two [of b0] by (auto simp: DecodeRune_def p)
    next
      case False
      then have "DecodeRune p = (RuneError, 1)" using 2 by (auto simp: DecodeRune_def p split: list.splits)
      then show thesis by (rule invalid)
    qed
  next
    case 3
    show thesis
    proof (cases "\<exists>b1 b2 u. t = b1 # b2 # u \<and> between (second_lo b0) b1 (second_hi b0) \<and> cont b2")
      case True
      then show thesis using 3 three [of b0] by (auto simp: DecodeRune_def p)
    next
      case False
      then have "DecodeRune p = (RuneError, 1)" using 3 by (auto simp: DecodeRune_def p split: list.splits)
      then show thesis by (rule invalid)
    qed
  next
    case 4
    show thesis
    proof (cases "between 240 b0 244 \<and> (\<exists>b1 b2 b3 u. t = b1 # b2 # b3 # u
        \<and> between (second_lo b0) b1 (second_hi b0) \<and> cont b2 \<and> cont b3)")
      case True
      then show thesis using 4 four [of b0] by (auto simp: DecodeRune_def p)
    next
      case False
      then have "DecodeRune p = (RuneError, 1)" using 4 by (auto simp: DecodeRune_def p split: list.splits)
      then show thesis by (rule invalid)
    qed
  qed
qed

lemma second_lo_ge: "128 \<le> second_lo b"
  by (simp add: second_lo_def)

lemma newline_width:
  assumes "p \<noteq> []" and "fst (DecodeRune p) = nl"
  shows "snd (DecodeRune p) = 1"
  using assms(1)
proof (cases rule: DecodeRune_cases)
  case (two b0 b1 t)
  have "2 \<le> unat b0 - 192" using two(2) unfolding between_def by linarith
  then show ?thesis using two(4) assms(2) by (simp add: nl_def)
next
  case (three b0 b1 b2 t)
  have "1 \<le> unat b0 - 224 \<or> 32 \<le> unat b1 - 128"
    using three(2,3) unfolding between_def second_lo_def by (auto split: if_splits)
  then have "10 < (unat b0 - 224) * 4096 + (unat b1 - 128) * 64" by linarith
  then show ?thesis using three(5) assms(2) by (simp add: nl_def)
next
  case (four b0 b1 b2 b3 t)
  have "1 \<le> unat b0 - 240 \<or> 16 \<le> unat b1 - 128"
    using four(2,3) unfolding between_def second_lo_def by (auto split: if_splits)
  then have "10 < (unat b0 - 240) * 262144 + (unat b1 - 128) * 4096" by linarith
  then show ?thesis using four(6) assms(2) by (simp add: nl_def)
qed simp_all

lemma DecodeRune_wide: "65535 < fst (DecodeRune p) \<Longrightarrow> snd (DecodeRune p) = 4"
proof (cases "p = []")
  case False
  assume wide: "65535 < fst (DecodeRune p)"
  from False show ?thesis
  proof (cases rule: DecodeRune_cases)
    case (two b0 b1 t)
    then show ?thesis using wide two_byte_bound by fastforce
  next
    case (three b0 b1 b2 t)
    then show ?thesis using wide three_byte_bound by fastforce
  qed (use wide in \<open>simp_all add: RuneError_def\<close>)
qed (simp add: DecodeRune_def RuneError_def)

section \<open>LSP positions\<close>

record position =
  poLine :: u32
  poCharacter :: u32

text \<open>\<open>for line := uint32(0); line < pos.Line;\<close>: skips whole lines.\<close>

function skipLines :: "bytes \<Rightarrow> nat \<Rightarrow> u32 \<Rightarrow> u32 \<Rightarrow> (bytes \<times> nat) option" where
  "skipLines rest i line target =
     (if \<not> line < target then Some (rest, i)
      else if rest = [] then None
      else let (r, size') = DecodeRune rest
           in skipLines (drop size' rest) (i + size') (if r = nl then line + 1 else line) target)"
  by pat_completeness auto
termination
  by (relation "measure (\<lambda>(rest, i, line, target). length rest)")
    (auto dest: DecodeRune_shrinks)

text \<open>\<open>for i < len(text)\<close>: walks the characters of one line.\<close>

function seekColumn :: "bytes \<Rightarrow> nat \<Rightarrow> u32 \<Rightarrow> u32 \<Rightarrow> nat option" where
  "seekColumn rest i col target =
     (if rest = [] then (if col = target then Some i else None)
      else let (r, size') = DecodeRune rest
           in if r = nl then (if col = target then Some i else None)
              else if col = target then Some i
              else if col + utf16Units r > target then None
              else seekColumn (drop size' rest) (i + size') (col + utf16Units r) target)"
  by pat_completeness auto
termination
  by (relation "measure (\<lambda>(rest, i, col, target). length rest)")
    (auto dest: DecodeRune_shrinks)

declare skipLines.simps [simp del] seekColumn.simps [simp del]

definition byteOffsetForUTF16Position :: "bytes \<Rightarrow> position \<Rightarrow> nat option" where
  "byteOffsetForUTF16Position text' pos =
     (case skipLines text' 0 0 (poLine pos) of
        None \<Rightarrow> None
      | Some (rest, i) \<Rightarrow> seekColumn rest i 0 (poCharacter pos))"

text \<open>The two loops of \<open>UTF16PositionForByteOffset\<close>, with \<open>n\<close> bytes to go to the offset.\<close>

function countLines :: "bytes \<Rightarrow> nat \<Rightarrow> nat \<Rightarrow> u32 \<Rightarrow> nat \<Rightarrow> u32 \<times> nat" where
  "countLines rest i n line lineStart =
     (if n = 0 \<or> rest = [] then (line, lineStart)
      else let (r, size') = DecodeRune rest
           in if r = nl then countLines (drop size' rest) (i + size') (n - size') (line + 1) (i + size')
              else countLines (drop size' rest) (i + size') (n - size') line lineStart)"
  by pat_completeness auto
termination
  by (relation "measure (\<lambda>(rest, i, n, line, ls). length rest)")
    (auto dest: DecodeRune_shrinks)

function countColumns :: "bytes \<Rightarrow> nat \<Rightarrow> u32 \<Rightarrow> u32" where
  "countColumns rest n col =
     (if n = 0 \<or> rest = [] then col
      else let (r, size') = DecodeRune rest
           in countColumns (drop size' rest) (n - size') (col + utf16Units r))"
  by pat_completeness auto
termination
  by (relation "measure (\<lambda>(rest, n, col). length rest)")
    (auto dest: DecodeRune_shrinks)

declare countLines.simps [simp del] countColumns.simps [simp del]

definition UTF16PositionForByteOffset :: "bytes \<Rightarrow> int \<Rightarrow> position option" where
  "UTF16PositionForByteOffset text' offset =
     (if offset < 0 \<or> offset > int (length text') then None
      else let (line, lineStart) = countLines text' 0 (nat offset) 0 0;
               col = countColumns (drop lineStart text') (nat offset - lineStart) 0
           in Some \<lparr>poLine = line, poCharacter = col\<rparr>)"

section \<open>The converter\<close>

record converter =
  cvText :: bytes
  cvPos :: nat
  cvLine :: u32
  cvCol :: u32

definition NewUTF16PositionConverter :: "bytes \<Rightarrow> converter" where
  "NewUTF16PositionConverter text' = \<lparr>cvText = text', cvPos = 0, cvLine = 0, cvCol = 0\<rparr>"

text \<open>\<open>for c.pos < offset\<close>\<close>

function advance :: "bytes \<Rightarrow> nat \<Rightarrow> nat \<Rightarrow> u32 \<Rightarrow> u32 \<Rightarrow> nat \<times> u32 \<times> u32" where
  "advance rest pos offset line col =
     (if \<not> pos < offset \<or> rest = [] then (pos, line, col)
      else let (r, size') = DecodeRune rest
           in if r = nl then advance (drop size' rest) (pos + size') offset (line + 1) 0
              else advance (drop size' rest) (pos + size') offset line (col + utf16Units r))"
  by pat_completeness auto
termination
  by (relation "measure (\<lambda>(rest, pos, offset, line, col). length rest)")
    (auto dest: DecodeRune_shrinks)

declare advance.simps [simp del]

definition Position :: "converter \<Rightarrow> int \<Rightarrow> position option \<times> converter" where
  "Position c offset =
     (if offset < 0 \<or> offset > int (length (cvText c)) then (None, c)
      else let c1 = (if offset < int (cvPos c) then c\<lparr>cvPos := 0, cvLine := 0, cvCol := 0\<rparr> else c);
               (pos, line, col) = advance (drop (cvPos c1) (cvText c1)) (cvPos c1) (nat offset) (cvLine c1) (cvCol c1)
           in (Some \<lparr>poLine = line, poCharacter = col\<rparr>,
               c1\<lparr>cvPos := pos, cvLine := line, cvCol := col\<rparr>))"

section \<open>Line and column coordinates\<close>

text \<open>The copy of the conversion in \<open>internal/server/position.go\<close>.\<close>

definition byteOffsetForPosition :: "bytes \<Rightarrow> position \<Rightarrow> nat option" where
  "byteOffsetForPosition text' pos =
     (case skipLines text' 0 0 (poLine pos) of
        None \<Rightarrow> None
      | Some (rest, i) \<Rightarrow> seekColumn rest i 0 (poCharacter pos))"

text \<open>The loop over the bytes before \<open>offset\<close>: line number and start of the line.\<close>

fun lineLoop :: "bytes \<Rightarrow> nat \<Rightarrow> u32 \<Rightarrow> nat \<Rightarrow> u32 \<times> nat" where
  "lineLoop [] i line lineStart = (line, lineStart)"
| "lineLoop (b # bs) i line lineStart =
     (if b = 10 then lineLoop bs (i + 1) (line + 1) (i + 1) else lineLoop bs (i + 1) line lineStart)"

definition lineColForByteOffset :: "bytes \<Rightarrow> nat \<Rightarrow> u32 \<times> u32" where
  "lineColForByteOffset text' offset =
     (let (line, lineStart) = lineLoop (take offset text') 0 1 0;
          d = int offset - int lineStart;
          d = (if d < 0 then 0 else d);
          d = (if d > 2 ^ 32 - 1 then 2 ^ 32 - 1 else d)
      in (line, of_int d + 1))"

text \<open>\<open>bytes.IndexByte\<close> for a line feed.\<close>

fun indexNewline :: "bytes \<Rightarrow> nat option" where
  "indexNewline [] = None"
| "indexNewline (b # bs) = (if b = 10 then Some 0 else map_option Suc (indexNewline bs))"

fun lineStartOf :: "bytes \<Rightarrow> nat \<Rightarrow> nat \<Rightarrow> nat option" where
  "lineStartOf rest i 0 = Some i"
| "lineStartOf rest i (Suc k) =
     (case indexNewline rest of
        None \<Rightarrow> None
      | Some j \<Rightarrow> lineStartOf (drop (j + 1) rest) (i + j + 1) k)"

definition byteOffsetForLineCol :: "bytes \<Rightarrow> u32 \<Rightarrow> u32 \<Rightarrow> nat option" where
  "byteOffsetForLineCol text' line col =
     (if line = 0 \<or> col = 0 then None
      else case lineStartOf text' 0 (unat line - 1) of
        None \<Rightarrow> None
      | Some i \<Rightarrow>
          let lineEnd = (case indexNewline (drop i text') of Some j \<Rightarrow> i + j | None \<Rightarrow> length text');
              offset = int i + int (unat col) - 1
          in if offset < int i \<or> offset > int lineEnd then None else Some (nat offset))"

fun lineStartsLoop :: "bytes \<Rightarrow> nat \<Rightarrow> nat list" where
  "lineStartsLoop [] i = []"
| "lineStartsLoop (b # bs) i =
     (if b = 10 then (i + 1) # lineStartsLoop bs (i + 1) else lineStartsLoop bs (i + 1))"

definition buildLineStarts :: "bytes \<Rightarrow> nat list" where
  "buildLineStarts text' = 0 # lineStartsLoop text' 0"

definition offsetForLineCol :: "nat list \<Rightarrow> nat \<Rightarrow> u32 \<Rightarrow> u32 \<Rightarrow> nat option" where
  "offsetForLineCol lineStarts textLen line col =
     (if line = 0 \<or> col = 0 then None
      else let idx = int (unat line) - 1
           in if idx < 0 \<or> idx \<ge> int (length lineStarts) then None
              else let lineStart = lineStarts ! nat idx;
                       lineEnd = (if idx + 1 < int (length lineStarts)
                                  then int (lineStarts ! nat (idx + 1)) - 1 else int textLen);
                       offset = int lineStart + int (unat col) - 1
                   in if offset < int lineStart \<or> offset > lineEnd then None else Some (nat offset))"

definition positionToXref :: "bytes \<Rightarrow> position \<Rightarrow> (nat \<times> nat) option" where
  "positionToXref text' pos =
     (case byteOffsetForPosition text' pos of
        None \<Rightarrow> None
      | Some offset \<Rightarrow> let (l, c) = lineColForByteOffset text' offset in Some (unat l, unat c))"

record lsp_range =
  raStart :: position
  raEnd :: position

definition offsetRangeToLSP :: "bytes \<Rightarrow> int \<Rightarrow> int \<Rightarrow> lsp_range option" where
  "offsetRangeToLSP text' start end' =
     (case UTF16PositionForByteOffset text' start of
        None \<Rightarrow> None
      | Some sp \<Rightarrow> (case UTF16PositionForByteOffset text' end' of
          None \<Rightarrow> None
        | Some ep \<Rightarrow> Some \<lparr>raStart = sp, raEnd = ep\<rparr>))"

definition xrefRangeToLSP :: "bytes \<Rightarrow> u32 \<Rightarrow> u32 \<Rightarrow> u32 \<Rightarrow> lsp_range option" where
  "xrefRangeToLSP text' line col endCol =
     (case byteOffsetForLineCol text' line col of
        None \<Rightarrow> None
      | Some startOff \<Rightarrow> (case byteOffsetForLineCol text' line endCol of
          None \<Rightarrow> None
        | Some endOff \<Rightarrow> (case UTF16PositionForByteOffset text' (int startOff) of
            None \<Rightarrow> None
          | Some start \<Rightarrow> (case UTF16PositionForByteOffset text' (int endOff) of
              None \<Rightarrow> None
            | Some end' \<Rightarrow> Some \<lparr>raStart = start, raEnd = end'\<rparr>))))"

section \<open>Scanning whole runes\<close>

text \<open>\<open>n\<close> bytes of \<open>rest\<close> are a sequence of whole runes.\<close>

function whole :: "bytes \<Rightarrow> nat \<Rightarrow> bool" where
  "whole rest n =
     (if n = 0 then True else if rest = [] then False
      else snd (DecodeRune rest) \<le> n \<and> whole (drop (snd (DecodeRune rest)) rest) (n - snd (DecodeRune rest)))"
  by pat_completeness auto
termination
  by (relation "measure (\<lambda>(rest, n). length rest)") (use DecodeRune_size(1) in auto)

declare whole.simps [simp del]

lemma whole_0 [simp]: "whole rest 0"
  by (subst whole.simps) simp

lemma whole_Nil [simp]: "whole [] n \<longleftrightarrow> n = 0"
  by (subst whole.simps) simp

lemma whole_step:
  "rest \<noteq> [] \<Longrightarrow> 0 < n \<Longrightarrow> whole rest n \<longleftrightarrow> snd (DecodeRune rest) \<le> n
    \<and> whole (drop (snd (DecodeRune rest)) rest) (n - snd (DecodeRune rest))"
  by (subst whole.simps) simp

lemma whole_le: "whole rest n \<Longrightarrow> n \<le> length rest"
proof (induction rest n rule: whole.induct)
  case (1 rest n)
  then show ?case
    using DecodeRune_size(2) [of rest] by (cases "n = 0 \<or> rest = []") (auto simp: whole_step)
qed

lemma whole_append: "whole rest m \<Longrightarrow> whole (drop m rest) n \<Longrightarrow> whole rest (m + n)"
proof (induction rest m rule: whole.induct)
  case (1 rest m)
  show ?case
  proof (cases "m = 0 \<or> rest = []")
    case True
    then show ?thesis using "1.prems" by auto
  next
    case False
    let ?s = "snd (DecodeRune rest)"
    have s: "?s \<le> m" "whole (drop ?s rest) (m - ?s)" "0 < ?s"
      using False "1.prems"(1) DecodeRune_size(1) by (simp_all add: whole_step)
    have "whole (drop ?s rest) (m - ?s + n)"
      using "1.IH" [OF _ _ s(2)] "1.prems"(2) False s(1) by simp
    then show ?thesis using False s by (simp add: whole_step)
  qed
qed

text \<open>One step of each loop, as an equation over the decoded rune.\<close>

abbreviation runeAt :: "bytes \<Rightarrow> rune" where "runeAt rest \<equiv> fst (DecodeRune rest)"
abbreviation widthAt :: "bytes \<Rightarrow> nat" where "widthAt rest \<equiv> snd (DecodeRune rest)"

lemma rune_induct [case_names rune]:
  assumes "\<And>rest. (rest \<noteq> [] \<Longrightarrow> P (drop (widthAt rest) rest)) \<Longrightarrow> P rest"
  shows "P rest"
proof (induction rest rule: length_induct)
  case (1 rest)
  show ?case
  proof (rule assms)
    assume "rest \<noteq> []"
    then show "P (drop (widthAt rest) rest)" using 1 DecodeRune_size [of rest] by simp
  qed
qed

lemma advance_stop: "offset \<le> pos \<or> rest = [] \<Longrightarrow> advance rest pos offset line col = (pos, line, col)"
  by (subst advance.simps) auto

lemma advance_step:
  "pos < offset \<Longrightarrow> rest \<noteq> [] \<Longrightarrow> advance rest pos offset line col =
    (if runeAt rest = nl then advance (drop (widthAt rest) rest) (pos + widthAt rest) offset (line + 1) 0
     else advance (drop (widthAt rest) rest) (pos + widthAt rest) offset line (col + utf16Units (runeAt rest)))"
  by (subst advance.simps) (simp add: case_prod_beta Let_def)

lemma countLines_stop: "n = 0 \<or> rest = [] \<Longrightarrow> countLines rest i n line ls = (line, ls)"
  by (subst countLines.simps) auto

lemma countLines_step:
  "0 < n \<Longrightarrow> rest \<noteq> [] \<Longrightarrow> countLines rest i n line ls =
    (if runeAt rest = nl
     then countLines (drop (widthAt rest) rest) (i + widthAt rest) (n - widthAt rest) (line + 1) (i + widthAt rest)
     else countLines (drop (widthAt rest) rest) (i + widthAt rest) (n - widthAt rest) line ls)"
  by (subst countLines.simps) (simp add: case_prod_beta Let_def)

lemma countColumns_stop: "n = 0 \<or> rest = [] \<Longrightarrow> countColumns rest n col = col"
  by (subst countColumns.simps) auto

lemma countColumns_step:
  "0 < n \<Longrightarrow> rest \<noteq> [] \<Longrightarrow> countColumns rest n col =
    countColumns (drop (widthAt rest) rest) (n - widthAt rest) (col + utf16Units (runeAt rest))"
  by (subst countColumns.simps) (simp add: case_prod_beta Let_def)

lemma countColumns_append:
  "whole rest m \<Longrightarrow> countColumns rest (m + n) col = countColumns (drop m rest) n (countColumns rest m col)"
proof (induction rest m arbitrary: col rule: whole.induct)
  case (1 rest m)
  show ?case
  proof (cases "m = 0 \<or> rest = []")
    case True
    then show ?thesis using "1.prems" by (auto simp: countColumns_stop)
  next
    case False
    then have s: "widthAt rest \<le> m" "whole (drop (widthAt rest) rest) (m - widthAt rest)"
      using "1.prems" by (simp_all add: whole_step)
    then show ?thesis
      using "1.IH" [of "col + utf16Units (runeAt rest)"] False by (simp add: countColumns_step)
  qed
qed

text \<open>
  The cursor of the converter agrees with the two separate loops: starting from a line start
  that lies \<open>m\<close> whole-rune bytes back, with the columns of those bytes counted.
\<close>

lemma advance_count:
  "i + length rest = length t \<Longrightarrow> drop i t = rest \<Longrightarrow> ls \<le> i \<Longrightarrow> whole (drop ls t) (i - ls) \<Longrightarrow>
    i \<le> offset \<Longrightarrow> offset \<le> length t \<Longrightarrow> col = countColumns (drop ls t) (i - ls) 0 \<Longrightarrow>
    \<exists>pos. advance rest i offset line col = (pos,
      fst (countLines rest i (offset - i) line ls),
      countColumns (drop (snd (countLines rest i (offset - i) line ls)) t)
        (offset - snd (countLines rest i (offset - i) line ls)) 0)
      \<and> offset \<le> pos"
proof (induction "length rest" arbitrary: rest i line col ls rule: less_induct)
  case less
  show ?case
  proof (cases "i = offset")
    case True
    then show ?thesis using less.prems by (simp add: advance_stop countLines_stop)
  next
    case False
    then have i: "i < offset" and ne: "rest \<noteq> []" using less.prems by auto
    let ?w = "widthAt rest" and ?r = "runeAt rest"
    have w: "0 < ?w" "?w \<le> length rest" using DecodeRune_size [OF ne] by auto
    have rest': "i + ?w + length (drop ?w rest) = length t" "drop (i + ?w) t = drop ?w rest"
      using less.prems w by (auto simp: add.commute)
    show ?thesis
    proof (cases "offset < i + ?w")
      case True
      text \<open>The offset is inside this rune: both scans stop after it.\<close>
      have "?r \<noteq> nl" using newline_width [OF ne] True i by auto
      moreover have "countColumns (drop ls t) (offset - ls) 0 = col + utf16Units ?r"
      proof -
        have "offset - ls = (i - ls) + (offset - i)" using less.prems(3) i by simp
        then have "countColumns (drop ls t) (offset - ls) 0 = countColumns rest (offset - i) col"
          using countColumns_append [OF less.prems(4), of "offset - i" 0] less.prems(2,3,7) by simp
        then show ?thesis using True i ne by (simp add: countColumns_step countColumns_stop)
      qed
      ultimately show ?thesis
        using True i ne by (auto simp: advance_step advance_stop countLines_step countLines_stop)
    next
      case False
      then have le: "i + ?w \<le> offset" by simp
      have sub: "offset - i - ?w = offset - (i + ?w)" by simp
      have len: "length (drop ?w rest) < length rest" using w by simp
      show ?thesis
      proof (cases "?r = nl")
        case True
        then show ?thesis
          using less.hyps [OF len rest' order_refl _ le less.prems(6), of 0 "line + 1"] i ne
          by (simp add: advance_step countLines_step sub countColumns_stop)
      next
        case False
        have whole: "whole (drop ls t) (i + ?w - ls)"
          using whole_append [OF less.prems(4), of ?w] less.prems(2,3) ne w
          by (simp add: whole_step)
        have col: "col + utf16Units ?r = countColumns (drop ls t) (i + ?w - ls) 0"
          using countColumns_append [OF less.prems(4), of ?w 0] less.prems(2,3,7) ne w
          by (simp add: countColumns_step countColumns_stop)
        show ?thesis
          using less.hyps [OF len rest' _ whole le less.prems(6) col, of line] less.prems(3) i ne False
          by (simp add: advance_step countLines_step sub)
      qed
    qed
  qed
qed

lemma UTF16Position_advance:
  assumes "n \<le> length t"
  shows "UTF16PositionForByteOffset t (int n) =
    Some \<lparr>poLine = fst (snd (advance t 0 n 0 0)), poCharacter = snd (snd (advance t 0 n 0 0))\<rparr>"
proof -
  have "\<exists>pos. advance t 0 n 0 0 = (pos, fst (countLines t 0 (n - 0) 0 0),
      countColumns (drop (snd (countLines t 0 (n - 0) 0 0)) t) (n - snd (countLines t 0 (n - 0) 0 0)) 0)
      \<and> n \<le> pos"
    using assms by (intro advance_count) (simp_all add: countColumns_stop)
  then show ?thesis using assms by (auto simp: UTF16PositionForByteOffset_def case_prod_beta Let_def)
qed

text \<open>The cursor always stops on a rune boundary, where a later call can resume.\<close>

lemma advance_stops:
  "advance rest i offset line col = (pos, l, c) \<Longrightarrow> i \<le> offset \<Longrightarrow> offset \<le> i + length rest \<Longrightarrow>
    i \<le> pos \<and> offset \<le> pos \<and> pos \<le> i + length rest \<and> whole rest (pos - i)"
proof (induction rest arbitrary: i line col rule: rune_induct)
  case (rune rest)
  show ?case
  proof (cases "\<not> i < offset \<or> rest = []")
    case True
    then show ?thesis using rune.prems by (auto simp: advance_stop)
  next
    case False
    let ?w = "widthAt rest"
    have w: "0 < ?w" "?w \<le> length rest" using DecodeRune_size [of rest] False by auto
    obtain l' c' where step: "advance (drop ?w rest) (i + ?w) offset l' c' = (pos, l, c)"
      using rune.prems(1) False by (auto simp: advance_step split: if_splits)
    show ?thesis
    proof (cases "i + ?w \<le> offset")
      case True
      then have "i + ?w \<le> pos \<and> offset \<le> pos \<and> pos \<le> i + ?w + length (drop ?w rest)
          \<and> whole (drop ?w rest) (pos - (i + ?w))"
        using rune.IH [OF _ step] rune.prems(3) False w by auto
      then show ?thesis using w False by (auto simp: whole_step)
    next
      case over: False
      then have "pos = i + ?w" using step by (simp add: advance_stop)
      then show ?thesis using over w False rune.prems(2) by (auto simp: whole_step)
    qed
  qed
qed

lemma advance_resume:
  "whole rest m \<Longrightarrow> i + m \<le> offset \<Longrightarrow> advance rest i offset line col =
    (case advance rest i (i + m) line col of (pos, l, c) \<Rightarrow> advance (drop m rest) (i + m) offset l c)"
proof (induction rest m arbitrary: i line col rule: whole.induct)
  case (1 rest m)
  show ?case
  proof (cases "m = 0 \<or> rest = []")
    case True
    then show ?thesis using "1.prems" by (auto simp: advance_stop [of i i])
  next
    case False
    then have s: "widthAt rest \<le> m" "whole (drop (widthAt rest) rest) (m - widthAt rest)"
      using "1.prems"(1) by (simp_all add: whole_step)
    have w: "0 < widthAt rest" using DecodeRune_size [of rest] False by auto
    show ?thesis
      using False s "1.prems"(2) "1.IH" [of "i + widthAt rest"] by (simp add: advance_step)
  qed
qed

lemma advance_pos:
  "whole rest m \<Longrightarrow> fst (advance rest i (i + m) line col) = i + m"
proof (induction rest m arbitrary: i line col rule: whole.induct)
  case (1 rest m)
  show ?case
  proof (cases "m = 0 \<or> rest = []")
    case True
    then show ?thesis using "1.prems" by (auto simp: advance_stop)
  next
    case False
    then have s: "widthAt rest \<le> m" "whole (drop (widthAt rest) rest) (m - widthAt rest)"
      using "1.prems"(1) by (simp_all add: whole_step)
    then show ?thesis using False "1.IH" [of "i + widthAt rest"] by (simp add: advance_step)
  qed
qed

text \<open>Going to the boundary the cursor stopped on ends in the same state.\<close>

lemma advance_ge: "i \<le> fst (advance rest i offset line col)"
proof (induction rest arbitrary: i line col rule: rune_induct)
  case (rune rest)
  show ?case
  proof (cases "\<not> i < offset \<or> rest = []")
    case False
    then have "i + widthAt rest \<le> fst (advance rest i offset line col)"
      using rune.IH [of "i + widthAt rest"] by (simp add: advance_step)
    then show ?thesis by simp
  qed (auto simp: advance_stop)
qed

lemma advance_past:
  "advance rest i offset line col = (pos, l, c) \<Longrightarrow> advance rest i pos line col = (pos, l, c)"
proof (induction rest arbitrary: i line col rule: rune_induct)
  case (rune rest)
  show ?case
  proof (cases "\<not> i < offset \<or> rest = []")
    case True
    then show ?thesis using rune.prems by (auto simp: advance_stop)
  next
    case False
    let ?w = "widthAt rest"
    let ?l = "if runeAt rest = nl then line + 1 else line"
    let ?c = "if runeAt rest = nl then 0 else col + utf16Units (runeAt rest)"
    have eq: "advance rest i n line col = advance (drop ?w rest) (i + ?w) n ?l ?c" if "i < n" for n
      using that False by (simp add: advance_step)
    have step: "advance (drop ?w rest) (i + ?w) offset ?l ?c = (pos, l, c)"
      using rune.prems False by (simp add: eq)
    have "i < pos"
      using advance_ge [of "i + ?w" "drop ?w rest" offset ?l ?c] step DecodeRune_size [of rest] False by simp
    then show ?thesis using rune.IH [OF _ step] False by (simp add: eq)
  qed
qed

section \<open>The converter agrees with the direct conversion\<close>

definition converterOk :: "bytes \<Rightarrow> converter \<Rightarrow> bool" where
  "converterOk t c \<longleftrightarrow> cvText c = t \<and> whole t (cvPos c)
     \<and> advance t 0 (cvPos c) 0 0 = (cvPos c, cvLine c, cvCol c)"

lemma NewUTF16PositionConverter_ok: "converterOk t (NewUTF16PositionConverter t)"
  by (simp add: converterOk_def NewUTF16PositionConverter_def advance_stop)

lemma Position_ok:
  assumes ok: "converterOk t c"
  shows "fst (Position c offset) = UTF16PositionForByteOffset t offset"
    and "converterOk t (snd (Position c offset))"
proof -
  have t: "cvText c = t" using ok by (simp add: converterOk_def)
  have "fst (Position c offset) = UTF16PositionForByteOffset t offset
    \<and> converterOk t (snd (Position c offset))"
  proof (cases "offset < 0 \<or> offset > int (length t)")
    case True
    then show ?thesis using ok by (auto simp: Position_def t UTF16PositionForByteOffset_def)
  next
    case False
    define n where "n = nat offset"
    have n: "offset = int n" "n \<le> length t" using False by (auto simp: n_def)
    define c1 where "c1 = (if offset < int (cvPos c) then c\<lparr>cvPos := 0, cvLine := 0, cvCol := 0\<rparr> else c)"
    have c1: "converterOk t c1" "cvPos c1 \<le> n"
      using ok n by (auto simp: c1_def converterOk_def advance_stop)
    obtain pos l k where adv: "advance (drop (cvPos c1) t) (cvPos c1) n (cvLine c1) (cvCol c1) = (pos, l, k)"
      by (metis prod_cases3)
    have full: "advance t 0 n 0 0 = (pos, l, k)"
      using advance_resume [of t "cvPos c1" 0 n 0 0] c1 adv by (simp add: converterOk_def)
    have stop: "n \<le> pos" "pos \<le> length t" "whole t pos" using advance_stops [OF full] n by auto
    have "advance t 0 pos 0 0 = (pos, l, k)" using full by (rule advance_past)
    then have "converterOk t (c1\<lparr>cvPos := pos, cvLine := l, cvCol := k\<rparr>)"
      using c1(1) stop(3) by (simp add: converterOk_def)
    moreover have "Position c offset = (Some \<lparr>poLine = l, poCharacter = k\<rparr>,
        c1\<lparr>cvPos := pos, cvLine := l, cvCol := k\<rparr>)"
    proof -
      have "cvText c1 = t" using c1(1) by (simp add: converterOk_def)
      then show ?thesis
        using False adv n unfolding Position_def c1_def [symmetric] Let_def t by simp
    qed
    ultimately show ?thesis using UTF16Position_advance [OF n(2)] full n(1) by simp
  qed
  then show "fst (Position c offset) = UTF16PositionForByteOffset t offset"
    and "converterOk t (snd (Position c offset))" by auto
qed

fun convertAll :: "converter \<Rightarrow> int list \<Rightarrow> position option list" where
  "convertAll c [] = []"
| "convertAll c (offset # os) = (let (r, c') = Position c offset in r # convertAll c' os)"

lemma convertAll_ok: "converterOk t c \<Longrightarrow> convertAll c os = map (UTF16PositionForByteOffset t) os"
  by (induction os arbitrary: c) (simp_all add: Position_ok case_prod_beta)

section \<open>Positions and offsets are inverse\<close>

lemma skipLines_stop: "\<not> line < target \<Longrightarrow> skipLines rest i line target = Some (rest, i)"
  by (subst skipLines.simps) simp

lemma skipLines_step:
  "line < target \<Longrightarrow> skipLines rest i line target = (if rest = [] then None
    else skipLines (drop (widthAt rest) rest) (i + widthAt rest)
      (if runeAt rest = nl then line + 1 else line) target)"
  by (subst skipLines.simps) (simp add: case_prod_beta Let_def)

lemma seekColumn_stop:
  "rest = [] \<or> runeAt rest = nl \<or> col = target \<Longrightarrow>
    seekColumn rest i col target = (if col = target then Some i else None)"
  by (subst seekColumn.simps) (auto simp: case_prod_beta Let_def)

lemma seekColumn_step:
  "rest \<noteq> [] \<Longrightarrow> runeAt rest \<noteq> nl \<Longrightarrow> col \<noteq> target \<Longrightarrow> seekColumn rest i col target =
    (if col + utf16Units (runeAt rest) > target then None
     else seekColumn (drop (widthAt rest) rest) (i + widthAt rest) (col + utf16Units (runeAt rest)) target)"
  by (subst seekColumn.simps) (simp add: case_prod_beta Let_def)

lemma inc_le: "l < k \<Longrightarrow> l + 1 \<le> k" for l k :: u32
  by (rule inc_le)

lemma skipLines_advance:
  "skipLines rest i line target = Some (rest', i') \<Longrightarrow> line \<le> target \<Longrightarrow>
    i \<le> i' \<and> i' \<le> i + length rest \<and> rest' = drop (i' - i) rest \<and>
    (\<forall>offset col. i' \<le> offset \<longrightarrow> (line < target \<or> col = 0) \<longrightarrow>
      advance rest i offset line col = advance rest' i' offset target 0)"
proof (induction rest arbitrary: i line rule: rune_induct)
  case (rune rest)
  show ?case
  proof (cases "line < target")
    case False
    then show ?thesis using rune.prems by (auto simp: skipLines_stop)
  next
    case True
    let ?w = "widthAt rest" and ?l = "if runeAt rest = nl then line + 1 else line"
    have ne: "rest \<noteq> []" and eq: "skipLines (drop ?w rest) (i + ?w) ?l target = Some (rest', i')"
      using rune.prems(1) unfolding skipLines_step [OF True] by (simp_all split: if_splits)
    have w: "0 < ?w" "?w \<le> length rest" using DecodeRune_size [OF ne] by auto
    have "?l \<le> target" using True inc_le [OF True] by auto
    note IH = rune.IH [OF ne eq this]
    have "rest' = drop (i' - i) rest" using IH w by (auto simp: add.commute)
    moreover have "advance rest i offset line col = advance rest' i' offset target 0"
      if "i' \<le> offset" for offset col
      using IH that w ne True by (auto simp: advance_step)
    ultimately show ?thesis using IH w by auto
  qed
qed

lemma seekColumn_advance:
  "seekColumn rest i col target = Some i' \<Longrightarrow>
    i \<le> i' \<and> i' \<le> i + length rest \<and> advance rest i i' line col = (i', line, target)"
proof (induction rest arbitrary: i col rule: rune_induct)
  case (rune rest)
  show ?case
  proof (cases "rest = [] \<or> runeAt rest = nl \<or> col = target")
    case True
    then show ?thesis using rune.prems by (auto simp: seekColumn_stop advance_stop split: if_splits)
  next
    case False
    let ?w = "widthAt rest"
    have w: "0 < ?w" "?w \<le> length rest" using DecodeRune_size [of rest] False by auto
    have eq: "seekColumn (drop ?w rest) (i + ?w) (col + utf16Units (runeAt rest)) target = Some i'"
      using rune.prems False by (auto simp: seekColumn_step split: if_splits)
    from rune.IH [OF _ eq] False w show ?thesis by (auto simp: advance_step)
  qed
qed

lemma byteOffset_position:
  assumes "byteOffsetForUTF16Position t pos = Some i"
  shows "i \<le> length t" and "UTF16PositionForByteOffset t (int i) = Some pos"
proof -
  obtain rest k where s: "skipLines t 0 0 (poLine pos) = Some (rest, k)" "seekColumn rest k 0 (poCharacter pos) = Some i"
    using assms by (auto simp: byteOffsetForUTF16Position_def split: option.splits)
  note sk = skipLines_advance [OF s(1) word_zero_le]
  note se = seekColumn_advance [OF s(2), of "poLine pos"]
  show "i \<le> length t" using sk se by auto
  have "advance t 0 i 0 0 = (i, poLine pos, poCharacter pos)" using sk se by auto
  then show "UTF16PositionForByteOffset t (int i) = Some pos"
    using UTF16Position_advance [of i t] \<open>i \<le> length t\<close> by simp
qed

lemma units_width: "rest \<noteq> [] \<Longrightarrow> 0 < unat (utf16Units (runeAt rest)) \<and> unat (utf16Units (runeAt rest)) \<le> widthAt rest"
  using DecodeRune_wide [of rest] DecodeRune_size [of rest] by (auto simp: utf16Units_def)

lemma advance_seek:
  "whole rest n \<Longrightarrow> unat line + length rest < 2 ^ 32 \<Longrightarrow> unat col + length rest < 2 ^ 32 \<Longrightarrow>
    advance rest i (i + n) line col = (p, L, C) \<Longrightarrow>
    (L = line \<and> col \<le> C \<and> seekColumn rest i col C = Some (i + n))
    \<or> (line < L \<and> (\<exists>rest' i'. skipLines rest i line L = Some (rest', i') \<and> seekColumn rest' i' 0 C = Some (i + n)))"
proof (induction rest arbitrary: i n line col rule: rune_induct)
  case (rune rest)
  show ?case
  proof (cases "n = 0")
    case True
    then show ?thesis using rune.prems(4) by (auto simp: advance_stop seekColumn_stop)
  next
    case False
    have ne: "rest \<noteq> []" using rune.prems(1) False by auto
    let ?w = "widthAt rest" and ?u = "utf16Units (runeAt rest)"
    have w: "0 < ?w" "?w \<le> length rest" using DecodeRune_size [OF ne] by auto
    have wn: "?w \<le> n" "whole (drop ?w rest) (n - ?w)" using rune.prems(1) False ne by (simp_all add: whole_step)
    have idx: "i + ?w + (n - ?w) = i + n" using wn by simp
    have line1: "unat (line + 1) = unat line + 1"
      using rune.prems(2) w by (intro unat_plus_simple [THEN iffD1, THEN trans]) (auto simp: word_le_nat_alt unat_word_ariths)
    have col1: "unat (col + ?u) = unat col + unat ?u"
      using rune.prems(3) w units_width [OF ne] by (simp add: unat_word_ariths)
    have lt: "col < col + ?u" using col1 units_width [OF ne] by (simp add: word_less_nat_alt)
    have ll: "line < line + 1" using line1 by (simp add: word_less_nat_alt)
    show ?thesis
    proof (cases "runeAt rest = nl")
      case True
      have "advance (drop ?w rest) (i + ?w) (i + ?w + (n - ?w)) (line + 1) 0 = (p, L, C)"
        using rune.prems(4) False ne True idx by (simp add: advance_step)
      from rune.IH [OF ne wn(2) _ _ this] rune.prems(2,3) w line1
      have "(L = line + 1 \<and> seekColumn (drop ?w rest) (i + ?w) 0 C = Some (i + n))
        \<or> (line + 1 < L \<and> (\<exists>rest' i'. skipLines (drop ?w rest) (i + ?w) (line + 1) L = Some (rest', i')
             \<and> seekColumn rest' i' 0 C = Some (i + n)))" by (auto simp: idx)
      moreover have "skipLines rest i line L = skipLines (drop ?w rest) (i + ?w) (line + 1) L" if "line < L"
        using skipLines_step [OF that] ne True by simp
      ultimately show ?thesis using ll by (auto simp: skipLines_stop dest: order_less_trans)
    next
      case nonl: False
      have "advance (drop ?w rest) (i + ?w) (i + ?w + (n - ?w)) line (col + ?u) = (p, L, C)"
        using rune.prems(4) False ne nonl idx by (simp add: advance_step)
      from rune.IH [OF ne wn(2) _ _ this] rune.prems(2,3) w units_width [OF ne] col1
      have "(L = line \<and> col + ?u \<le> C \<and> seekColumn (drop ?w rest) (i + ?w) (col + ?u) C = Some (i + n))
        \<or> (line < L \<and> (\<exists>rest' i'. skipLines (drop ?w rest) (i + ?w) line L = Some (rest', i')
             \<and> seekColumn rest' i' 0 C = Some (i + n)))" by (auto simp: idx)
      moreover have "skipLines rest i line L = skipLines (drop ?w rest) (i + ?w) line L" if "line < L"
        using skipLines_step [OF that] ne nonl by simp
      moreover have "seekColumn rest i col C = seekColumn (drop ?w rest) (i + ?w) (col + ?u) C"
        if "col + ?u \<le> C"
        using seekColumn_step [OF ne nonl, of col C i] that lt by auto
      ultimately show ?thesis using lt by auto
    qed
  qed
qed

lemma position_byteOffset:
  assumes "whole t n" and "length t < 2 ^ 32"
  shows "\<exists>pos. UTF16PositionForByteOffset t (int n) = Some pos \<and> byteOffsetForUTF16Position t pos = Some n"
proof -
  obtain p L C where adv: "advance t 0 n 0 0 = (p, L, C)" by (metis prod_cases3)
  have "byteOffsetForUTF16Position t \<lparr>poLine = L, poCharacter = C\<rparr> = Some n"
    using advance_seek [OF assms(1), of 0 0 0 p L C] assms(2) adv
    by (auto simp: byteOffsetForUTF16Position_def skipLines_stop)
  then show ?thesis using UTF16Position_advance [OF whole_le [OF assms(1)]] adv by simp
qed

section \<open>Lines and byte columns\<close>

lemma lineStartsLoop_append:
  "lineStartsLoop (xs @ ys) i = lineStartsLoop xs i @ lineStartsLoop ys (i + length xs)"
  by (induction xs arbitrary: i) simp_all

lemma lineStartsLoop_range: "s \<in> set (lineStartsLoop xs i) \<Longrightarrow> i < s \<and> s \<le> i + length xs"
  by (induction xs arbitrary: i) (fastforce split: if_splits)+

lemma length_lineStartsLoop: "length (lineStartsLoop xs i) \<le> length xs"
  by (induction xs arbitrary: i) (simp_all add: le_SucI)

lemma lineStartsLoop_index:
  "lineStartsLoop xs i = (case indexNewline xs of None \<Rightarrow> []
    | Some j \<Rightarrow> (i + j + 1) # lineStartsLoop (drop (j + 1) xs) (i + j + 1))"
  by (induction xs arbitrary: i) (auto split: option.splits)

lemma lineStartOf_nth:
  "lineStartOf rest i k =
    (if k < length (i # lineStartsLoop rest i) then Some ((i # lineStartsLoop rest i) ! k) else None)"
proof (induction rest i k rule: lineStartOf.induct)
  case (2 rest i k)
  show ?case
  proof (cases "indexNewline rest")
    case None
    then show ?thesis by (simp add: lineStartsLoop_index [of rest])
  next
    case (Some j)
    then show ?thesis using "2.IH" [OF Some] by (simp add: lineStartsLoop_index [of rest])
  qed
qed simp

lemma lineStarts_drop:
  "k < length (i # lineStartsLoop rest i) \<Longrightarrow>
    drop (Suc k) (i # lineStartsLoop rest i) =
      lineStartsLoop (drop ((i # lineStartsLoop rest i) ! k - i) rest) ((i # lineStartsLoop rest i) ! k)"
proof (induction rest i k rule: lineStartOf.induct)
  case (2 rest i k)
  then obtain j where j: "indexNewline rest = Some j" by (auto simp: lineStartsLoop_index [of rest] split: option.splits)
  let ?r = "drop (j + 1) rest" and ?i = "i + j + 1"
  have eq: "i # lineStartsLoop rest i = i # ?i # lineStartsLoop ?r ?i"
    using j by (simp add: lineStartsLoop_index [of rest])
  have k: "k < length (?i # lineStartsLoop ?r ?i)" using "2.prems" unfolding eq by simp
  define x where "x = (?i # lineStartsLoop ?r ?i) ! k"
  have "?i \<le> x"
    using k nth_mem [OF k] lineStartsLoop_range [of _ ?r ?i] by (fastforce simp: x_def)
  then have "drop (x - ?i) ?r = drop (x - i) rest" by (simp add: add.commute Suc_diff_Suc)
  then show ?case using "2.IH" [OF j k] 
    unfolding eq nth_Cons_Suc drop_Suc_Cons x_def [symmetric] by simp
qed simp

lemma lineEnd_starts:
  assumes "k < length (buildLineStarts t)"
  shows "(case indexNewline (drop (buildLineStarts t ! k) t) of Some j \<Rightarrow> int (buildLineStarts t ! k + j)
      | None \<Rightarrow> int (length t)) =
    (if k + 1 < length (buildLineStarts t) then int (buildLineStarts t ! (k + 1)) - 1 else int (length t))"
proof -
  let ?s = "buildLineStarts t ! k"
  have d: "drop (Suc k) (buildLineStarts t) = lineStartsLoop (drop ?s t) ?s"
    using lineStarts_drop [of k 0 t] assms by (simp add: buildLineStarts_def)
  show ?thesis
  proof (cases "indexNewline (drop ?s t)")
    case None
    then have "drop (Suc k) (buildLineStarts t) = []" using d by (simp add: lineStartsLoop_index)
    then show ?thesis using None by simp
  next
    case (Some j)
    then have "drop (Suc k) (buildLineStarts t) \<noteq> [] \<and> hd (drop (Suc k) (buildLineStarts t)) = ?s + j + 1"
      using d by (simp add: lineStartsLoop_index)
    then have "Suc k < length (buildLineStarts t)" "buildLineStarts t ! Suc k = ?s + j + 1"
      by (auto simp: hd_drop_conv_nth)
    then show ?thesis using Some by simp
  qed
qed

lemma offsetForLineCol_eq:
  "offsetForLineCol (buildLineStarts t) (length t) line col = byteOffsetForLineCol t line col"
proof (cases "line = 0 \<or> col = 0")
  case True
  then show ?thesis by (auto simp: offsetForLineCol_def byteOffsetForLineCol_def)
next
  case False
  define k where "k = unat line - 1"
  have "0 < unat line" using False by (simp add: unat_gt_0)
  then have line: "int (unat line) - 1 = int k" by (simp add: k_def)
  have start: "lineStartOf t 0 k = (if k < length (buildLineStarts t) then Some (buildLineStarts t ! k) else None)"
    unfolding buildLineStarts_def by (rule lineStartOf_nth)
  show ?thesis
  proof (cases "k < length (buildLineStarts t)")
    case False
    then show ?thesis
      unfolding offsetForLineCol_def byteOffsetForLineCol_def line Let_def using start by (simp add: k_def)
  next
    case True
    note le = lineEnd_starts [OF True]
    have n: "nat (int k + 1) = k + 1" by simp
    show ?thesis
      unfolding offsetForLineCol_def byteOffsetForLineCol_def line Let_def k_def [symmetric] start n
      using True le \<open>\<not> (line = 0 \<or> col = 0)\<close> by (auto split: option.splits)
  qed
qed

lemma lineLoop_starts:
  "lineLoop bs i line ls = (line + of_nat (length (lineStartsLoop bs i)), last (ls # lineStartsLoop bs i))"
  by (induction bs arbitrary: i line ls) (simp_all add: add.assoc)

lemma lineCol_roundtrip:
  assumes o: "n \<le> length t" and len: "length t < 2 ^ 32 - 1"
  shows "byteOffsetForLineCol t (fst (lineColForByteOffset t n)) (snd (lineColForByteOffset t n)) = Some n"
proof -
  let ?pre = "lineStartsLoop (take n t) 0" and ?S = "buildLineStarts t"
  define k where "k = length ?pre"
  define ls where "ls = last (0 # ?pre)"
  have S: "?S = 0 # ?pre @ lineStartsLoop (drop n t) n"
    unfolding buildLineStarts_def using lineStartsLoop_append [of "take n t" "drop n t" 0] o by simp
  have k: "k \<le> n" using length_lineStartsLoop [of "take n t" 0] o by (simp add: k_def)
  have ls: "ls \<le> n" "?S ! k = ls"
  proof -
    show "ls \<le> n" using lineStartsLoop_range [of "last ?pre" "take n t" 0] last_in_set [of ?pre] o
      by (cases "?pre = []") (auto simp: ls_def)
    have "?S ! k = (0 # ?pre) ! k" unfolding S k_def by (simp add: nth_Cons nth_append split: nat.splits)
    then show "?S ! k = ls" by (simp add: ls_def k_def last_conv_nth)
  qed
  have end': "int n \<le> (if k + 1 < length ?S then int (?S ! (k + 1)) - 1 else int (length t))"
  proof (cases "k + 1 < length ?S")
    case True
    then have "?S ! (k + 1) \<in> set (lineStartsLoop (drop n t) n)"
      unfolding S k_def by (auto simp: nth_append)
    then show ?thesis using True lineStartsLoop_range by fastforce
  qed (use o in simp)
  have lc: "lineColForByteOffset t n = (1 + of_nat k, of_int (int n - int ls) + 1)"
    using ls(1) o len by (simp add: lineColForByteOffset_def lineLoop_starts k_def ls_def Let_def)
  have line: "unat (1 + of_nat k :: u32) = k + 1"
    using k o len by (simp add: unat_word_ariths unat_of_nat)
  have "of_int (int n - int ls) = (of_nat (n - ls) :: u32)" using ls(1) by (simp add: of_nat_diff)
  then have col: "unat (of_int (int n - int ls) + 1 :: u32) = n - ls + 1"
    using o len by (simp add: unat_word_ariths unat_of_nat)
  have nz: "(1 + of_nat k :: u32) \<noteq> 0" "(of_int (int n - int ls) + 1 :: u32) \<noteq> 0"
    using line col by (auto simp: unat_eq_zero [symmetric])
  have "k < length ?S" by (simp add: S k_def)
  then have "offsetForLineCol ?S (length t) (1 + of_nat k) (of_int (int n - int ls) + 1) = Some n"
    unfolding offsetForLineCol_def line col Let_def using nz ls end' by (auto simp: nat_add_distrib)
  then show ?thesis by (simp add: lc offsetForLineCol_eq)
qed

section \<open>The contract of the conversions\<close>

text \<open>
  C18. The two conversions are inverse to each other, for a text whose length fits 32 bits: a
  position denotes the byte offset \<open>i\<close> exactly when \<open>i\<close> is a rune boundary of the text and
  the position is the one reported for \<open>i\<close>.
\<close>

theorem utf16_position_inverse:
  assumes "length t < 2 ^ 32"
  shows "byteOffsetForUTF16Position t pos = Some i \<longleftrightarrow>
    whole t i \<and> UTF16PositionForByteOffset t (int i) = Some pos"
proof
  assume b: "byteOffsetForUTF16Position t pos = Some i"
  obtain rest k where s: "skipLines t 0 0 (poLine pos) = Some (rest, k)" "seekColumn rest k 0 (poCharacter pos) = Some i"
    using b by (auto simp: byteOffsetForUTF16Position_def split: option.splits)
  have "advance t 0 i 0 0 = (i, poLine pos, poCharacter pos)"
    using skipLines_advance [OF s(1) word_zero_le] seekColumn_advance [OF s(2), of "poLine pos"] by auto
  then show "whole t i \<and> UTF16PositionForByteOffset t (int i) = Some pos"
    using advance_stops [of t 0 i 0 0 i] byteOffset_position [OF b] by auto
next
  assume "whole t i \<and> UTF16PositionForByteOffset t (int i) = Some pos"
  then show "byteOffsetForUTF16Position t pos = Some i"
    using position_byteOffset [of t i] assms by auto
qed

theorem utf16_position_inverse_witness:
  "length (lit ''a'') < 2 ^ 32 \<and> byteOffsetForUTF16Position (lit ''a'') \<lparr>poLine = 0, poCharacter = 1\<rparr> = Some 1"
proof -
  have w: "whole (lit ''a'') 1"
    by (subst whole.simps) (simp add: lit_def DecodeRune_def)
  have a: "advance (lit ''a'') 0 1 0 0 = (1, 0, 1)"
    by (subst advance_step) (simp_all add: lit_def DecodeRune_def nl_def utf16Units_def advance_stop)
  have "UTF16PositionForByteOffset (lit ''a'') (int 1) = Some \<lparr>poLine = 0, poCharacter = 1\<rparr>"
    using UTF16Position_advance [of 1 "lit ''a''"] a by simp
  then show ?thesis
    using utf16_position_inverse [of "lit ''a''" "\<lparr>poLine = 0, poCharacter = 1\<rparr>" 1] w by simp
qed

text \<open>
  The amortised converter gives the same answers as converting each offset from scratch,
  for every sequence of offsets: increasing or not, out of range or inside a multi-byte rune.
\<close>

lemma converter_equivalent:
  "convertAll (NewUTF16PositionConverter t) os = map (UTF16PositionForByteOffset t) os"
  by (rule convertAll_ok [OF NewUTF16PositionConverter_ok])

text \<open>
  A byte offset converted to a 1-based line and byte column comes back unchanged, for every
  offset of a text (its end included) whose length and columns fit 32 bits.
\<close>

lemma line_col_roundtrip:
  assumes "n \<le> length t" and "length t < 2 ^ 32 - 1"
  shows "byteOffsetForLineCol t (fst (lineColForByteOffset t n)) (snd (lineColForByteOffset t n)) = Some n"
  using assms by (rule lineCol_roundtrip)

lemma line_col_roundtrip_witness:
  "(2 :: nat) \<le> length [97, 10, 98 :: byte] \<and> length [97, 10, 98 :: byte] < 2 ^ 32 - 1
    \<and> byteOffsetForLineCol [97, 10, 98] (fst (lineColForByteOffset [97, 10, 98] 2))
        (snd (lineColForByteOffset [97, 10, 98] 2)) = Some 2"
  using line_col_roundtrip [of 2 "[97, 10, 98]"] by simp

text \<open>
  Looking a line and column up in the precomputed table of line starts gives exactly the
  answer of the scan over the text, validation included.
\<close>

lemma line_starts_equivalent:
  "offsetForLineCol (buildLineStarts t) (length t) line col = byteOffsetForLineCol t line col"
  by (rule offsetForLineCol_eq)

end
