(* ===== verification/Overlay.thy ===== *)
theory Overlay
  imports Position
begin

text \<open>
  The editor overlay of \<open>internal/overlay\<close> (open documents and the content changes applied to
  them) and the line corrections of \<open>internal/server/dirty.go\<close> for documents whose buffer
  differs from the file the facts were computed from.

  Parameters: \<open>sum256\<close> is the digest function (\<open>crypto/sha256\<close>), \<open>uriFile\<close> the
  conversion of a file path to a URI (\<open>go.lsp.dev/uri\<close>), and \<open>disk\<close> what reading the cleaned
  path from disk returns at that moment.
\<close>

section \<open>Content changes\<close>

datatype overlay_error = NotOpen | InvalidStart | InvalidEnd | UnsupportedChange | DiskError nat

datatype content_change = WholeDocument bytes | Partial lsp_range bytes | OtherChange

fun applyContentChanges :: "bytes \<Rightarrow> content_change list \<Rightarrow> (overlay_error, bytes) go" where
  "applyContentChanges text' [] = Ok text'"
| "applyContentChanges text' (WholeDocument new # changes) = applyContentChanges new changes"
| "applyContentChanges text' (Partial r new # changes) =
     (case byteOffsetForUTF16Position text' (raStart r) of
        None \<Rightarrow> Err InvalidStart
      | Some start \<Rightarrow>
          (case byteOffsetForUTF16Position text' (raEnd r) of
             None \<Rightarrow> Err InvalidEnd
           | Some end' \<Rightarrow>
               if end' < start then Err InvalidEnd
               else applyContentChanges (take start text' @ new @ drop end' text') changes))"
| "applyContentChanges text' (OtherChange # changes) = Err UnsupportedChange"

section \<open>Open documents\<close>

type_synonym uri = bytes

record overlay_doc =
  odVersion :: int
  odText :: bytes
  odHash :: bytes

type_synonym overlay = "uri \<rightharpoonup> overlay_doc"

definition New :: overlay where
  "New = Map.empty"

definition ReadFile :: "(bytes \<Rightarrow> uri) \<Rightarrow> (bytes \<Rightarrow> (overlay_error, bytes) go) \<Rightarrow> overlay \<Rightarrow> bytes
    \<Rightarrow> (overlay_error, bytes) go" where
  "ReadFile uriFile disk o' path =
     (case o' (uriFile path) of Some doc \<Rightarrow> Ok (odText doc) | None \<Rightarrow> disk path)"

definition Get :: "overlay \<Rightarrow> uri \<Rightarrow> (bytes \<times> int \<times> bytes) option" where
  "Get o' u = (case o' u of None \<Rightarrow> None | Some doc \<Rightarrow> Some (odText doc, odVersion doc, odHash doc))"

definition IsOpen :: "(bytes \<Rightarrow> uri) \<Rightarrow> overlay \<Rightarrow> bytes \<Rightarrow> bool" where
  "IsOpen uriFile o' path \<longleftrightarrow> o' (uriFile path) \<noteq> None"

text \<open>\<open>us\<close> is the order in which Go enumerates the open documents.\<close>

definition OpenFiles :: "(uri \<Rightarrow> bytes) \<Rightarrow> uri list \<Rightarrow> bytes list" where
  "OpenFiles fsPath us = map fsPath us"

definition OpenFilesInDir :: "(uri \<Rightarrow> bytes) \<Rightarrow> (bytes \<Rightarrow> bytes) \<Rightarrow> uri list \<Rightarrow> bytes \<Rightarrow> bytes list" where
  "OpenFilesInDir fsPath dirOf us dir = filter (\<lambda>path. dirOf path = dir) (map fsPath us)"

definition DidOpen :: "(bytes \<Rightarrow> bytes) \<Rightarrow> uri \<Rightarrow> int \<Rightarrow> bytes \<Rightarrow> overlay \<Rightarrow> overlay" where
  "DidOpen sum256 u version text' o' =
     o'(u \<mapsto> \<lparr>odVersion = version, odText = text', odHash = sum256 text'\<rparr>)"

definition DidChange :: "(bytes \<Rightarrow> bytes) \<Rightarrow> uri \<Rightarrow> int \<Rightarrow> content_change list \<Rightarrow> overlay
    \<Rightarrow> overlay_error option \<times> overlay" where
  "DidChange sum256 u version changes o' =
     (case o' u of
        None \<Rightarrow> (Some NotOpen, o')
      | Some doc \<Rightarrow>
          (case applyContentChanges (odText doc) changes of
             Ok text' \<Rightarrow> (None, o'(u \<mapsto> \<lparr>odVersion = version, odText = text', odHash = sum256 text'\<rparr>))
           | Err e \<Rightarrow> (Some e, o'(u := None))
           | Panic \<Rightarrow> (None, o')))"

definition DidSave :: "(bytes \<Rightarrow> bytes) \<Rightarrow> uri \<Rightarrow> bytes option \<Rightarrow> overlay
    \<Rightarrow> overlay_error option \<times> overlay" where
  "DidSave sum256 u text' o' =
     (case text' of
        None \<Rightarrow> (None, o')
      | Some new \<Rightarrow>
          (case o' u of
             None \<Rightarrow> (Some NotOpen, o')
           | Some doc \<Rightarrow> (None, o'(u \<mapsto> doc\<lparr>odText := new, odHash := sum256 new\<rparr>))))"

definition DidClose :: "uri \<Rightarrow> overlay \<Rightarrow> overlay" where
  "DidClose u o' = o'(u := None)"

section \<open>Line corrections\<close>

text \<open>\<open>bytes.Split(text, "\n")\<close>\<close>

fun splitNewline :: "bytes \<Rightarrow> bytes list" where
  "splitNewline [] = [[]]"
| "splitNewline (b # bs) =
     (if b = 10 then [] # splitNewline bs
      else (case splitNewline bs of l # ls \<Rightarrow> (b # l) # ls | [] \<Rightarrow> [[b]]))"

fun commonLines :: "bytes list \<Rightarrow> bytes list \<Rightarrow> nat" where
  "commonLines (x # xs) (y # ys) = (if x = y then Suc (commonLines xs ys) else 0)"
| "commonLines _ _ = 0"

definition mappedLine :: "int \<Rightarrow> int \<Rightarrow> int \<Rightarrow> u32 option" where
  "mappedLine mapped boundary toLineCount =
     (if mapped < boundary then None
      else if mapped \<ge> toLineCount then None
      else if mapped < 0 then None
      else if mapped > 2 ^ 32 - 1 then None
      else Some (of_int mapped + 1))"

definition dirtyLineMap :: "bytes \<Rightarrow> bytes \<Rightarrow> u32 \<Rightarrow> u32 option" where
  "dirtyLineMap from' to' line =
     (let fromLines = splitNewline from'; toLines = splitNewline to';
          boundary = commonLines fromLines toLines;
          idx = int (unat line) - 1
      in if idx < 0 then None
         else if idx < int boundary then Some line
         else mappedLine (idx + (int (length toLines) - int (length fromLines))) (int boundary)
                (int (length toLines)))"

definition dirtyLines :: "(bytes \<Rightarrow> bytes) \<Rightarrow> (bytes \<Rightarrow> uri) \<Rightarrow> (bytes \<Rightarrow> (overlay_error, bytes) go)
    \<Rightarrow> overlay \<Rightarrow> bytes \<Rightarrow> (bytes \<times> bytes) option" where
  "dirtyLines sum256 uriFile disk o' path =
     (case Get o' (uriFile path) of
        None \<Rightarrow> None
      | Some (text', version, hash) \<Rightarrow>
          (case disk path of
             Ok d \<Rightarrow> if sum256 d = hash then None else Some (d, text')
           | _ \<Rightarrow> None))"

definition correctQueryLine :: "(bytes \<Rightarrow> bytes) \<Rightarrow> (bytes \<Rightarrow> uri) \<Rightarrow> (bytes \<Rightarrow> (overlay_error, bytes) go)
    \<Rightarrow> overlay \<Rightarrow> bytes \<Rightarrow> u32 \<Rightarrow> u32" where
  "correctQueryLine sum256 uriFile disk o' path line =
     (case dirtyLines sum256 uriFile disk o' path of
        None \<Rightarrow> line
      | Some (saved, dirty) \<Rightarrow>
          (case dirtyLineMap dirty saved line of Some mapped \<Rightarrow> mapped | None \<Rightarrow> line))"

text \<open>\<open>fs\<close> is the order in which Go enumerates the edited files.\<close>

definition dirtyRenameFiles :: "(bytes \<Rightarrow> bytes) \<Rightarrow> (bytes \<Rightarrow> uri) \<Rightarrow> (bytes \<Rightarrow> (overlay_error, bytes) go)
    \<Rightarrow> overlay \<Rightarrow> bytes list \<Rightarrow> bytes list" where
  "dirtyRenameFiles sum256 uriFile disk o' fs =
     sort (filter (\<lambda>file. dirtyLines sum256 uriFile disk o' file \<noteq> None) fs)"

definition correctResultRange :: "(bytes \<Rightarrow> bytes) \<Rightarrow> (bytes \<Rightarrow> uri) \<Rightarrow> (bytes \<Rightarrow> (overlay_error, bytes) go)
    \<Rightarrow> overlay \<Rightarrow> bytes \<Rightarrow> u32 \<Rightarrow> u32 \<Rightarrow> u32 \<Rightarrow> lsp_range option" where
  "correctResultRange sum256 uriFile disk o' file line col endCol =
     (let line' = (case dirtyLines sum256 uriFile disk o' file of
             None \<Rightarrow> line
           | Some (saved, dirty) \<Rightarrow>
               (case dirtyLineMap saved dirty line of Some mapped \<Rightarrow> mapped | None \<Rightarrow> line))
      in case ReadFile uriFile disk o' file of
           Ok text' \<Rightarrow> xrefRangeToLSP text' line' col endCol
         | _ \<Rightarrow> None)"

text \<open>The cached variant of \<open>toLSPLocations\<close> (\<open>internal/server/position.go\<close>).\<close>

record xref_file_entry =
  xeText :: bytes
  xeLineStarts :: "nat list"
  xeConv :: converter
  xeDirty :: "(bytes \<times> bytes) option"

definition xrefFileEntryFor :: "(bytes \<Rightarrow> bytes) \<Rightarrow> (bytes \<Rightarrow> uri) \<Rightarrow> (bytes \<Rightarrow> (overlay_error, bytes) go)
    \<Rightarrow> overlay \<Rightarrow> bytes \<Rightarrow> (bytes \<rightharpoonup> xref_file_entry option) \<Rightarrow>
    xref_file_entry option \<times> (bytes \<rightharpoonup> xref_file_entry option)" where
  "xrefFileEntryFor sum256 uriFile disk o' file cache =
     (case cache file of
        Some e \<Rightarrow> (e, cache)
      | None \<Rightarrow>
          let d = dirtyLines sum256 uriFile disk o' file;
              text' = (case d of Some (saved, dirty) \<Rightarrow> Ok dirty | None \<Rightarrow> ReadFile uriFile disk o' file)
          in case text' of
               Ok t \<Rightarrow>
                 let e = \<lparr>xeText = t, xeLineStarts = buildLineStarts t,
                           xeConv = NewUTF16PositionConverter t, xeDirty = d\<rparr>
                 in (Some e, cache(file \<mapsto> Some e))
             | _ \<Rightarrow> (None, cache(file \<mapsto> None)))"

definition rangeFor :: "xref_file_entry \<Rightarrow> u32 \<Rightarrow> u32 \<Rightarrow> u32 \<Rightarrow> lsp_range option \<times> xref_file_entry" where
  "rangeFor e line col endCol =
     (let line' = (case xeDirty e of
             None \<Rightarrow> line
           | Some (saved, dirty) \<Rightarrow>
               (case dirtyLineMap saved dirty line of Some mapped \<Rightarrow> mapped | None \<Rightarrow> line))
      in case offsetForLineCol (xeLineStarts e) (length (xeText e)) line' col of
           None \<Rightarrow> (None, e)
         | Some startOff \<Rightarrow>
             (case offsetForLineCol (xeLineStarts e) (length (xeText e)) line' endCol of
                None \<Rightarrow> (None, e)
              | Some endOff \<Rightarrow>
                  (case Position (xeConv e) (int startOff) of
                     (None, c1) \<Rightarrow> (None, e\<lparr>xeConv := c1\<rparr>)
                   | (Some start, c1) \<Rightarrow>
                       (case Position c1 (int endOff) of
                          (None, c2) \<Rightarrow> (None, e\<lparr>xeConv := c2\<rparr>)
                        | (Some end', c2) \<Rightarrow>
                            (Some \<lparr>raStart = start, raEnd = end'\<rparr>, e\<lparr>xeConv := c2\<rparr>)))))"

section \<open>Locations\<close>

record xref_location =
  xlFile :: bytes
  xlLine :: u32
  xlCol :: u32
  xlEndCol :: u32

record lsp_location =
  llURI :: uri
  llRange :: lsp_range

definition xrefCancelCheckInterval :: nat where
  "xrefCancelCheckInterval = 1024"

text \<open>\<open>cancelled n\<close> is what \<open>ctx.Err()\<close> says before the \<open>n\<close>-th location of the file.\<close>

fun locationLoop :: "(bytes \<Rightarrow> uri) \<Rightarrow> (nat \<Rightarrow> bool) \<Rightarrow> xref_location list \<Rightarrow> nat \<Rightarrow> nat list \<Rightarrow> xref_file_entry
    \<Rightarrow> lsp_location option list \<Rightarrow> lsp_location option list option" where
  "locationLoop uriFile cancelled locs n [] e out = Some out"
| "locationLoop uriFile cancelled locs n (idx # idxs) e out =
     (if n mod xrefCancelCheckInterval = 0 \<and> cancelled n then None
      else let loc = locs ! idx; (r, e') = rangeFor e (xlLine loc) (xlCol loc) (xlEndCol loc)
           in case r of
                None \<Rightarrow> locationLoop uriFile cancelled locs (n + 1) idxs e' out
              | Some rng \<Rightarrow> locationLoop uriFile cancelled locs (n + 1) idxs e'
                  (out[idx := Some \<lparr>llURI = uriFile (xlFile loc), llRange = rng\<rparr>]))"

definition toLSPLocationsForFile :: "(bytes \<Rightarrow> bytes) \<Rightarrow> (bytes \<Rightarrow> uri) \<Rightarrow> (bytes \<Rightarrow> (overlay_error, bytes) go)
    \<Rightarrow> overlay \<Rightarrow> (nat \<Rightarrow> bool) \<Rightarrow> bool \<Rightarrow> bytes \<Rightarrow> nat list \<Rightarrow> xref_location list
    \<Rightarrow> lsp_location option list \<Rightarrow> lsp_location option list option" where
  "toLSPLocationsForFile sum256 uriFile disk o' cancelled before file idxs locs out =
     (if before then None
      else case fst (xrefFileEntryFor sum256 uriFile disk o' file Map.empty) of
             None \<Rightarrow> Some out
           | Some e \<Rightarrow> locationLoop uriFile cancelled locs 0 idxs e out)"

definition groupByFile :: "xref_location list \<Rightarrow> bytes \<Rightarrow> nat list" where
  "groupByFile locs = fold (\<lambda>(i, loc) m. m(xlFile loc := m (xlFile loc) @ [i])) (enumerate 0 locs) (\<lambda>_. [])"

text \<open>
  The goroutines write disjoint entries of the shared result, so they are run one after the
  other, in an arbitrary order \<open>fs\<close> of the files.
\<close>

fun filesLoop :: "(bytes \<Rightarrow> bytes) \<Rightarrow> (bytes \<Rightarrow> uri) \<Rightarrow> (bytes \<Rightarrow> (overlay_error, bytes) go)
    \<Rightarrow> overlay \<Rightarrow> (bytes \<Rightarrow> nat \<Rightarrow> bool) \<Rightarrow> (bytes \<Rightarrow> bool) \<Rightarrow> bytes list \<Rightarrow> xref_location list
    \<Rightarrow> lsp_location option list \<Rightarrow> lsp_location option list option" where
  "filesLoop sum256 uriFile disk o' cancelled before [] locs out = Some out"
| "filesLoop sum256 uriFile disk o' cancelled before (file # fs) locs out =
     (case toLSPLocationsForFile sum256 uriFile disk o' (cancelled file) (before file) file
             (groupByFile locs file) locs out of
        None \<Rightarrow> None
      | Some out' \<Rightarrow> filesLoop sum256 uriFile disk o' cancelled before fs locs out')"

definition toLSPLocations :: "(bytes \<Rightarrow> bytes) \<Rightarrow> (bytes \<Rightarrow> uri) \<Rightarrow> (bytes \<Rightarrow> (overlay_error, bytes) go)
    \<Rightarrow> overlay \<Rightarrow> (bytes \<Rightarrow> nat \<Rightarrow> bool) \<Rightarrow> (bytes \<Rightarrow> bool) \<Rightarrow> bytes list \<Rightarrow> xref_location list
    \<Rightarrow> lsp_location list" where
  "toLSPLocations sum256 uriFile disk o' cancelled before fs locs =
     (case filesLoop sum256 uriFile disk o' cancelled before fs locs (replicate (length locs) None) of
        None \<Rightarrow> []
      | Some results \<Rightarrow> map the (filter (\<lambda>r. r \<noteq> None) results))"

definition correctResultLocation :: "(bytes \<Rightarrow> bytes) \<Rightarrow> (bytes \<Rightarrow> uri) \<Rightarrow> (bytes \<Rightarrow> (overlay_error, bytes) go)
    \<Rightarrow> overlay \<Rightarrow> xref_location \<Rightarrow> lsp_location option" where
  "correctResultLocation sum256 uriFile disk o' loc =
     (case correctResultRange sum256 uriFile disk o' (xlFile loc) (xlLine loc) (xlCol loc) (xlEndCol loc) of
        None \<Rightarrow> None
      | Some rng \<Rightarrow> Some \<lparr>llURI = uriFile (xlFile loc), llRange = rng\<rparr>)"

section \<open>The overlay refines a map from documents to texts\<close>

lemma byteOffset_le: "byteOffsetForUTF16Position t pos = Some i \<Longrightarrow> i \<le> length t"
  by (rule byteOffset_position)

lemma applyContentChanges_no_panic: "applyContentChanges t cs \<noteq> Panic"
  by (induction t cs rule: applyContentChanges.induct) (auto split: option.splits)

definition contents :: "overlay \<Rightarrow> uri \<rightharpoonup> bytes" where
  "contents o' u = map_option odText (o' u)"

text \<open>Every tracked document carries the digest of its text.\<close>

definition hashesOk :: "(bytes \<Rightarrow> bytes) \<Rightarrow> overlay \<Rightarrow> bool" where
  "hashesOk sum256 o' \<longleftrightarrow> (\<forall>u doc. o' u = Some doc \<longrightarrow> odHash doc = sum256 (odText doc))"

datatype event = EvOpen uri int bytes | EvChange uri int "content_change list" | EvSave uri "bytes option" | EvClose uri

fun overlayStep :: "(bytes \<Rightarrow> bytes) \<Rightarrow> event \<Rightarrow> overlay \<Rightarrow> overlay" where
  "overlayStep sum256 (EvOpen u v t) o' = DidOpen sum256 u v t o'"
| "overlayStep sum256 (EvChange u v cs) o' = snd (DidChange sum256 u v cs o')"
| "overlayStep sum256 (EvSave u t) o' = snd (DidSave sum256 u t o')"
| "overlayStep sum256 (EvClose u) o' = DidClose u o'"

text \<open>The specification: what the editor's buffers hold, without versions and digests.\<close>

fun buffersStep :: "event \<Rightarrow> (uri \<rightharpoonup> bytes) \<Rightarrow> uri \<rightharpoonup> bytes" where
  "buffersStep (EvOpen u v t) b = b(u \<mapsto> t)"
| "buffersStep (EvChange u v cs) b =
     (case b u of
        None \<Rightarrow> b
      | Some t \<Rightarrow> (case applyContentChanges t cs of Ok t' \<Rightarrow> b(u \<mapsto> t') | _ \<Rightarrow> b(u := None)))"
| "buffersStep (EvSave u t) b = (if b u = None then b else case t of None \<Rightarrow> b | Some t' \<Rightarrow> b(u \<mapsto> t'))"
| "buffersStep (EvClose u) b = b(u := None)"

lemma overlayStep_refines:
  "contents (overlayStep sum256 ev o') = buffersStep ev (contents o')"
  using applyContentChanges_no_panic
  by (cases ev) (auto simp: contents_def DidOpen_def DidChange_def DidSave_def DidClose_def fun_eq_iff
      split: option.splits go.splits)

lemma overlayStep_hashes: "hashesOk sum256 o' \<Longrightarrow> hashesOk sum256 (overlayStep sum256 ev o')"
  by (cases ev) (auto simp: hashesOk_def DidOpen_def DidChange_def DidSave_def DidClose_def
      split: option.splits go.splits)

section \<open>Line corrections keep the line's text\<close>

lemma commonLines_bounds: "commonLines xs ys \<le> length xs \<and> commonLines xs ys \<le> length ys"
  by (induction xs ys rule: commonLines.induct) auto

lemma commonLines_nth: "k < commonLines xs ys \<Longrightarrow> xs ! k = ys ! k"
proof (induction xs ys arbitrary: k rule: commonLines.induct)
  case (1 x xs y ys)
  then show ?case by (cases k) (auto split: if_splits)
qed simp_all

lemma commonLines_prefix: "length p \<le> commonLines (p @ xs) (p @ ys)"
  by (induction p) simp_all

lemma dirtyLineMap_shift:
  assumes F: "splitNewline from' = p @ m @ q" and T: "splitNewline to' = p @ m' @ q"
    and fit: "length (splitNewline to') < 2 ^ 32"
    and r: "dirtyLineMap from' to' line = Some line'"
    and i: "unat line = Suc i" "i < length p \<or> (length p + length m \<le> i \<and> i < length (splitNewline from'))"
  shows "\<exists>j < length (splitNewline to'). unat line' = Suc j \<and> splitNewline to' ! j = splitNewline from' ! i"
proof (cases "i < commonLines (splitNewline from') (splitNewline to')")
  case True
  then have "line' = line" using r i(1) by (simp add: dirtyLineMap_def Let_def)
  moreover have "i < length (splitNewline to')"
    using True commonLines_bounds [of "splitNewline from'" "splitNewline to'"] by simp
  ultimately show ?thesis using i(1) commonLines_nth [OF True] by (intro exI [of _ i]) simp
next
  case False
  have i2: "length p + length m \<le> i" "i < length p + length m + length q"
    using i(2) False commonLines_prefix [of p "m @ q" "m' @ q"] F T by auto
  then obtain r where ri: "i = length p + length m + r" "r < length q"
    by (metis add_less_cancel_left le_Suc_ex)
  define j where "j = length p + length m' + r"
  have j: "int i + (int (length (splitNewline to')) - int (length (splitNewline from'))) = int j"
    using ri F T by (simp add: j_def)
  have jl: "j < length (splitNewline to')" using ri T by (simp add: j_def)
  have "line' = of_int (int j) + 1"
    using r False i(1) j by (auto simp: dirtyLineMap_def Let_def mappedLine_def split: if_splits)
  then have "unat line' = Suc j"
    using jl fit by (simp add: unat_word_ariths unat_of_nat)
  moreover have "splitNewline to' ! j = splitNewline from' ! i"
    by (simp add: F T j_def ri(1) nth_append)
  ultimately show ?thesis using jl by blast
qed

section \<open>The cached conversion of locations\<close>

lemma ReadFile_open: "Get o' (uriFile path) = Some (t, v, h) \<Longrightarrow> ReadFile uriFile disk o' path = Ok t"
  by (auto simp: Get_def ReadFile_def split: option.splits)

definition entryOk :: "(bytes \<Rightarrow> bytes) \<Rightarrow> (bytes \<Rightarrow> uri) \<Rightarrow> (bytes \<Rightarrow> (overlay_error, bytes) go)
    \<Rightarrow> overlay \<Rightarrow> bytes \<Rightarrow> xref_file_entry \<Rightarrow> bool" where
  "entryOk sum256 uriFile disk o' file e \<longleftrightarrow> ReadFile uriFile disk o' file = Ok (xeText e)
     \<and> xeLineStarts e = buildLineStarts (xeText e) \<and> converterOk (xeText e) (xeConv e)
     \<and> xeDirty e = dirtyLines sum256 uriFile disk o' file"

lemma xrefFileEntryFor_ok:
  "case fst (xrefFileEntryFor sum256 uriFile disk o' file Map.empty) of
     Some e \<Rightarrow> entryOk sum256 uriFile disk o' file e
   | None \<Rightarrow> (\<nexists>t. ReadFile uriFile disk o' file = Ok t)"
proof (cases "dirtyLines sum256 uriFile disk o' file")
  case None
  then show ?thesis
    by (simp add: xrefFileEntryFor_def entryOk_def NewUTF16PositionConverter_ok Let_def split: go.splits)
next
  case (Some p)
  then obtain saved dirty where p: "p = (saved, dirty)" by (cases p)
  then have "ReadFile uriFile disk o' file = Ok dirty"
    using Some by (auto simp: dirtyLines_def split: option.splits go.splits if_splits intro: ReadFile_open)
  then show ?thesis
    using Some p by (simp add: xrefFileEntryFor_def entryOk_def NewUTF16PositionConverter_ok Let_def)
qed

lemma rangeFor_ok:
  assumes ok: "entryOk sum256 uriFile disk o' file e"
  shows "fst (rangeFor e line col endCol) = correctResultRange sum256 uriFile disk o' file line col endCol"
    and "entryOk sum256 uriFile disk o' file (snd (rangeFor e line col endCol))"
proof -
  let ?t = "xeText e"
  obtain line' where line': "line' = (case xeDirty e of None \<Rightarrow> line | Some (saved, dirty) \<Rightarrow>
      (case dirtyLineMap saved dirty line of Some mapped \<Rightarrow> mapped | None \<Rightarrow> line))" by blast
  have conv: "converterOk ?t (xeConv e)" using ok by (simp add: entryOk_def)
  have step: "\<exists>c'. Position c off = (UTF16PositionForByteOffset ?t off, c') \<and> converterOk ?t c'"
    if "converterOk ?t c" for c off
    using Position_ok [OF that, of off] by (metis prod.collapse)
  have starts: "xeLineStarts e = buildLineStarts ?t" using ok by (simp add: entryOk_def)
  have lhs: "rangeFor e line col endCol =
     (case byteOffsetForLineCol ?t line' col of
           None \<Rightarrow> (None, e)
         | Some startOff \<Rightarrow>
             (case byteOffsetForLineCol ?t line' endCol of
                None \<Rightarrow> (None, e)
              | Some endOff \<Rightarrow>
                  (case Position (xeConv e) (int startOff) of
                     (None, c1) \<Rightarrow> (None, e\<lparr>xeConv := c1\<rparr>)
                   | (Some start, c1) \<Rightarrow>
                       (case Position c1 (int endOff) of
                          (None, c2) \<Rightarrow> (None, e\<lparr>xeConv := c2\<rparr>)
                        | (Some end', c2) \<Rightarrow>
                            (Some \<lparr>raStart = start, raEnd = end'\<rparr>, e\<lparr>xeConv := c2\<rparr>)))))"
    unfolding rangeFor_def Let_def line' [symmetric] starts offsetForLineCol_eq by (rule refl)
  have rhs: "correctResultRange sum256 uriFile disk o' file line col endCol = xrefRangeToLSP ?t line' col endCol"
    using ok by (simp add: correctResultRange_def entryOk_def line' Let_def)
  have keep: "entryOk sum256 uriFile disk o' file (e\<lparr>xeConv := c\<rparr>)" if "converterOk ?t c" for c
    using ok that by (simp add: entryOk_def)
  have "fst (rangeFor e line col endCol) = xrefRangeToLSP ?t line' col endCol
    \<and> entryOk sum256 uriFile disk o' file (snd (rangeFor e line col endCol))"
  proof (cases "byteOffsetForLineCol ?t line' col")
    case None
    then show ?thesis using ok by (simp add: lhs xrefRangeToLSP_def)
  next
    case (Some s)
    show ?thesis
    proof (cases "byteOffsetForLineCol ?t line' endCol")
      case None
      then show ?thesis using ok Some by (simp add: lhs xrefRangeToLSP_def)
    next
      case (Some d)
      obtain c1 where c1: "Position (xeConv e) (int s) = (UTF16PositionForByteOffset ?t (int s), c1)" "converterOk ?t c1"
        using step [OF conv] by blast
      obtain c2 where c2: "Position c1 (int d) = (UTF16PositionForByteOffset ?t (int d), c2)" "converterOk ?t c2"
        using step [OF c1(2)] by blast
      show ?thesis
        unfolding lhs xrefRangeToLSP_def
        using \<open>byteOffsetForLineCol ?t line' col = Some s\<close> Some c1 c2 keep
        by (simp split: option.splits)
    qed
  qed
  then show "fst (rangeFor e line col endCol) = correctResultRange sum256 uriFile disk o' file line col endCol"
    and "entryOk sum256 uriFile disk o' file (snd (rangeFor e line col endCol))" by (simp_all add: rhs)
qed

lemma groupByFile_eq: "groupByFile locs file = filter (\<lambda>i. xlFile (locs ! i) = file) [0..<length locs]"
proof -
  have "fold (\<lambda>(i, loc) m. m(xlFile loc := m (xlFile loc) @ [i])) (enumerate 0 ls) (\<lambda>_. []) file
      = filter (\<lambda>i. xlFile (ls ! i) = file) [0..<length ls]" for ls
  proof (induction ls rule: rev_induct)
    case (snoc l ls)
    have "filter (\<lambda>i. xlFile ((ls @ [l]) ! i) = file) [0..<length ls] = filter (\<lambda>i. xlFile (ls ! i) = file) [0..<length ls]"
      by (rule filter_cong) (auto simp: nth_append)
    then show ?case using snoc.IH by (cases "file = xlFile l") (simp_all add: enumerate_append_eq)
  qed simp
  then show ?thesis by (simp add: groupByFile_def)
qed

lemma locationLoop_ok:
  assumes "\<And>n. \<not> cancelled n"
  shows "entryOk sum256 uriFile disk o' file e \<Longrightarrow> \<forall>idx \<in> set idxs. xlFile (locs ! idx) = file \<Longrightarrow>
    \<exists>out'. locationLoop uriFile cancelled locs n idxs e out = Some out' \<and> length out' = length out
      \<and> (\<forall>i < length out. out' ! i = (if i \<in> set idxs
           then (case correctResultLocation sum256 uriFile disk o' (locs ! i) of None \<Rightarrow> out ! i | Some l \<Rightarrow> Some l)
           else out ! i))"
proof (induction idxs arbitrary: n e out)
  case (Cons idx idxs)
  let ?loc = "locs ! idx"
  obtain r e' where r: "rangeFor e (xlLine ?loc) (xlCol ?loc) (xlEndCol ?loc) = (r, e')" by fastforce
  have r_eq: "r = correctResultRange sum256 uriFile disk o' file (xlLine ?loc) (xlCol ?loc) (xlEndCol ?loc)"
    and e': "entryOk sum256 uriFile disk o' file e'"
    using rangeFor_ok [OF Cons.prems(1), of "xlLine ?loc" "xlCol ?loc" "xlEndCol ?loc"] r by simp_all
  have crl: "correctResultLocation sum256 uriFile disk o' ?loc =
      map_option (\<lambda>rng. \<lparr>llURI = uriFile (xlFile ?loc), llRange = rng\<rparr>) r"
    using Cons.prems(2) by (simp add: correctResultLocation_def r_eq option.case_eq_if map_option_case)
  define out1 where "out1 = (case r of None \<Rightarrow> out
      | Some rng \<Rightarrow> out[idx := Some \<lparr>llURI = uriFile (xlFile ?loc), llRange = rng\<rparr>])"
  have step: "locationLoop uriFile cancelled locs n (idx # idxs) e out =
      locationLoop uriFile cancelled locs (n + 1) idxs e' out1"
    using assms r by (cases r) (simp_all add: out1_def)
  have out1: "length out1 = length out" "out1 ! i = (if i = idx then (case correctResultLocation sum256 uriFile disk o' ?loc of
      None \<Rightarrow> out ! i | Some l \<Rightarrow> Some l) else out ! i)" if "i < length out" for i
    using that by (auto simp: out1_def crl nth_list_update split: option.splits)
  have len1: "length out1 = length out" by (simp add: out1_def split: option.splits)
  from Cons.IH [OF e', of "n + 1" out1] Cons.prems(2) obtain out' where
    "locationLoop uriFile cancelled locs (n + 1) idxs e' out1 = Some out'" "length out' = length out1"
    "\<forall>i < length out1. out' ! i = (if i \<in> set idxs
           then (case correctResultLocation sum256 uriFile disk o' (locs ! i) of None \<Rightarrow> out1 ! i | Some l \<Rightarrow> Some l)
           else out1 ! i)" by auto
  then show ?case
    using step len1 out1(2) by (auto split: option.splits)
qed simp

lemma forFile_ok:
  assumes "\<And>n. \<not> cancelled n"
  shows "\<exists>out'. toLSPLocationsForFile sum256 uriFile disk o' cancelled False file (groupByFile locs file) locs out = Some out'
      \<and> length out' = length out
      \<and> (length out = length locs \<longrightarrow> (\<forall>i < length out. out' ! i = (if xlFile (locs ! i) = file
           then (case correctResultLocation sum256 uriFile disk o' (locs ! i) of None \<Rightarrow> out ! i | Some l \<Rightarrow> Some l)
           else out ! i)))"
proof (cases "fst (xrefFileEntryFor sum256 uriFile disk o' file Map.empty)")
  case None
  then have "ReadFile uriFile disk o' file \<noteq> Ok t" for t
    using xrefFileEntryFor_ok [of "uriFile" "disk" "o'" "file" "sum256"] by simp
  then have "correctResultLocation sum256 uriFile disk o' loc = None" if "xlFile loc = file" for loc
    using that by (simp add: correctResultLocation_def correctResultRange_def Let_def split: go.splits)
  then show ?thesis using None by (simp add: toLSPLocationsForFile_def)
next
  case (Some e)
  then have ok: "entryOk sum256 uriFile disk o' file e"
    using xrefFileEntryFor_ok [of "uriFile" "disk" "o'" "file" "sum256"] by simp
  have "\<forall>idx \<in> set (groupByFile locs file). xlFile (locs ! idx) = file" by (simp add: groupByFile_eq)
  from locationLoop_ok [where cancelled = cancelled, OF assms ok this, where n = 0 and out = out] show ?thesis
    using Some by (auto simp: toLSPLocationsForFile_def groupByFile_eq)
qed

lemma filesLoop_ok:
  assumes "\<And>f n. \<not> cancelled f n" and "\<And>f. \<not> before f"
  shows "length out = length locs \<Longrightarrow> distinct fs \<Longrightarrow>
    (\<And>i. i < length locs \<Longrightarrow> xlFile (locs ! i) \<in> set fs \<Longrightarrow> out ! i = None) \<Longrightarrow>
    \<exists>out'. filesLoop sum256 uriFile disk o' cancelled before fs locs out = Some out' \<and> length out' = length locs
      \<and> (\<forall>i < length locs. out' ! i = (if xlFile (locs ! i) \<in> set fs
           then correctResultLocation sum256 uriFile disk o' (locs ! i) else out ! i))"
proof (induction fs arbitrary: out)
  case (Cons f fs)
  obtain out1 where out1: "toLSPLocationsForFile sum256 uriFile disk o' (cancelled f) (before f) f (groupByFile locs f) locs out = Some out1"
    "length out1 = length out" "\<forall>i < length out. out1 ! i = (if xlFile (locs ! i) = f
           then (case correctResultLocation sum256 uriFile disk o' (locs ! i) of None \<Rightarrow> out ! i | Some l \<Rightarrow> Some l)
           else out ! i)"
    using forFile_ok [of "cancelled f" "sum256" "uriFile" "disk" "o'" "f" "locs" "out", OF assms(1)]
      assms(2) [of f] Cons.prems(1) by (simp only: simp_thms) blast
  have "\<exists>out'. filesLoop sum256 uriFile disk o' cancelled before fs locs out1 = Some out' \<and> length out' = length locs
      \<and> (\<forall>i < length locs. out' ! i = (if xlFile (locs ! i) \<in> set fs
           then correctResultLocation sum256 uriFile disk o' (locs ! i) else out1 ! i))"
    using Cons.prems out1(2,3) by (intro Cons.IH) auto
  then obtain out' where out': "filesLoop sum256 uriFile disk o' cancelled before fs locs out1 = Some out'"
    "length out' = length locs" "\<And>i. i < length locs \<Longrightarrow> out' ! i = (if xlFile (locs ! i) \<in> set fs
           then correctResultLocation sum256 uriFile disk o' (locs ! i) else out1 ! i)" by blast
  have "out' ! i = (if xlFile (locs ! i) \<in> set (f # fs)
      then correctResultLocation sum256 uriFile disk o' (locs ! i) else out ! i)" if "i < length locs" for i
    using out'(3) [OF that] out1(3) Cons.prems(1,2) Cons.prems(3) [OF that] that
    by (auto split: option.splits)
  then show ?case using out1(1) out'(1,2) by auto
qed simp

section \<open>Properties\<close>

definition overlayRun :: "(bytes \<Rightarrow> bytes) \<Rightarrow> event list \<Rightarrow> overlay" where
  "overlayRun sum256 evs = fold (overlayStep sum256) evs New"

lemma fold_overlayStep:
  "hashesOk sum256 o' \<Longrightarrow> hashesOk sum256 (fold (overlayStep sum256) evs o') \<and>
     contents (fold (overlayStep sum256) evs o') = fold buffersStep evs (contents o')"
proof (induction evs arbitrary: o')
  case (Cons ev evs)
  then show ?case using overlayStep_hashes [OF Cons.prems] by (simp add: overlayStep_refines)
qed simp


text \<open>
  A partial content change whose range runs between two positions computed from byte offsets of
  the document at character boundaries replaces exactly the bytes between these offsets.\<close>
lemma content_change_splices:
  assumes "whole t i" "whole t j" "i \<le> j" "length t < 2 ^ 32"
    and "UTF16PositionForByteOffset t (int i) = Some p" "UTF16PositionForByteOffset t (int j) = Some q"
  shows "applyContentChanges t [Partial \<lparr>raStart = p, raEnd = q\<rparr> new] = Ok (take i t @ new @ drop j t)"
proof -
  have "byteOffsetForUTF16Position t p = Some i" "byteOffsetForUTF16Position t q = Some j"
    using position_byteOffset [of t i] position_byteOffset [of t j] assms by auto
  then show ?thesis using assms(3) by simp
qed

lemma content_change_splices_witness:
  "applyContentChanges (lit ''a'') [Partial \<lparr>raStart = \<lparr>poLine = 0, poCharacter = 0\<rparr>, raEnd = \<lparr>poLine = 0, poCharacter = 1\<rparr>\<rparr> (lit ''XY'')]
     = Ok (lit ''XY'')"
proof -
  have w: "whole (lit ''a'') 0" "whole (lit ''a'') 1"
    by (subst whole.simps, simp add: lit_def DecodeRune_def)+
  have "advance (lit ''a'') 0 0 0 0 = (0, 0, 0)" by (simp add: advance_stop)
  moreover have "advance (lit ''a'') 0 1 0 0 = (1, 0, 1)"
    by (subst advance_step) (simp_all add: lit_def DecodeRune_def nl_def utf16Units_def advance_stop)
  ultimately have p: "UTF16PositionForByteOffset (lit ''a'') (int 0) = Some \<lparr>poLine = 0, poCharacter = 0\<rparr>"
    "UTF16PositionForByteOffset (lit ''a'') (int 1) = Some \<lparr>poLine = 0, poCharacter = 1\<rparr>"
    using UTF16Position_advance [of 0 "lit ''a''"] UTF16Position_advance [of 1 "lit ''a''"] by simp_all
  show ?thesis
    using content_change_splices [OF w _ _ p, of "lit ''XY''"] by (simp add: lit_def)
qed

text \<open>
  C20. The line correction for a document edited in one place: when the buffer differs from the file
  by the replacement of some lines \<open>m\<close> by \<open>m'\<close>, a line outside the replaced ones that is mapped
  is mapped to a line of the other text with the same content.\<close>
theorem dirty_line_map_keeps_text:
  assumes "splitNewline from' = p @ m @ q" "splitNewline to' = p @ m' @ q"
    and "length (splitNewline to') < 2 ^ 32"
    and "dirtyLineMap from' to' line = Some line'"
    and "unat line = Suc i" "i < length p \<or> (length p + length m \<le> i \<and> i < length (splitNewline from'))"
  shows "\<exists>j < length (splitNewline to'). unat line' = Suc j \<and> splitNewline to' ! j = splitNewline from' ! i"
  using assms by (rule dirtyLineMap_shift)

theorem dirty_line_map_keeps_text_witness:
  "dirtyLineMap [97, 10, 98, 10, 99] [97, 10, 100, 10, 100, 10, 99] 3 = Some 4 \<and>
   (\<exists>j < length (splitNewline [97, 10, 100, 10, 100, 10, 99]). unat (4 :: u32) = Suc j
      \<and> splitNewline [97, 10, 100, 10, 100, 10, 99] ! j = splitNewline [97, 10, 98, 10, 99] ! 2)"
proof -
  have r: "dirtyLineMap [97, 10, 98, 10, 99] [97, 10, 100, 10, 100, 10, 99] 3 = Some 4" by code_simp
  show ?thesis
    using dirty_line_map_keeps_text [OF _ _ _ r, of "[[97]]" "[[98]]" "[[99]]" "[[100], [100]]" 2] r by simp
qed

text \<open>
  C21. The batch conversion of cross-reference locations (one pass per file over a cached text, line
  index and incremental converter, files handled in any order) gives the same locations, in the
  same order, as converting each location on its own; locations that cannot be converted are
  dropped.\<close>
theorem to_lsp_locations_equivalent:
  assumes "distinct fs" "xlFile ` set locs \<subseteq> set fs" "\<And>f n. \<not> cancelled f n" "\<And>f. \<not> before f"
  shows "toLSPLocations sum256 uriFile disk o' cancelled before fs locs =
    List.map_filter (correctResultLocation sum256 uriFile disk o') locs"
proof -
  let ?f = "correctResultLocation sum256 uriFile disk o'"
  have "\<exists>out'. filesLoop sum256 uriFile disk o' cancelled before fs locs (replicate (length locs) None) = Some out'
      \<and> length out' = length locs \<and> (\<forall>i < length locs. out' ! i = (if xlFile (locs ! i) \<in> set fs
           then ?f (locs ! i) else replicate (length locs) None ! i))"
    using assms(1,3,4) by (intro filesLoop_ok) auto
  then obtain out' where out': "filesLoop sum256 uriFile disk o' cancelled before fs locs (replicate (length locs) None) = Some out'"
    "length out' = length locs" "\<And>i. i < length locs \<Longrightarrow> out' ! i = (if xlFile (locs ! i) \<in> set fs
           then ?f (locs ! i) else replicate (length locs) None ! i)" by blast
  have "out' = map ?f locs"
    using out'(2,3) assms(2) by (intro nth_equalityI) (auto simp: image_subset_iff)
  then show ?thesis
    using out'(1) by (simp add: toLSPLocations_def map_filter_def filter_map o_def)
qed

definition sampleDisk :: "bytes \<Rightarrow> (overlay_error, bytes) go" where
  "sampleDisk path = (if path = [1] then Ok [97, 98, 10] else Err (DiskError 2))"

theorem to_lsp_locations_equivalent_witness:
  "toLSPLocations id id sampleDisk New (\<lambda>f n. False) (\<lambda>f. False) [[1], [2]]
      [\<lparr>xlFile = [2], xlLine = 1, xlCol = 1, xlEndCol = 2\<rparr>, \<lparr>xlFile = [1], xlLine = 1, xlCol = 1, xlEndCol = 2\<rparr>] =
    List.map_filter (correctResultLocation id id sampleDisk New)
      [\<lparr>xlFile = [2], xlLine = 1, xlCol = 1, xlEndCol = 2\<rparr>, \<lparr>xlFile = [1], xlLine = 1, xlCol = 1, xlEndCol = 2\<rparr>]"
  by (rule to_lsp_locations_equivalent) simp_all

end
