(* ===== verification/Framing.thy ===== *)
theory Framing
  imports Golance_Prelude
begin

text \<open>
  The message framing of \<open>internal/rpc/framing.go\<close>: header lines ending in a blank line, a
  \<open>Content-Length\<close> header, and a body of that many bytes. The input is the byte sequence the
  peer sends before it closes its side. \<open>trim\<close> stands for \<open>strings.TrimSpace\<close> on strings with
  bytes outside ASCII at a boundary, where it consults the Unicode tables; \<open>maxAlloc\<close> is the
  largest slice the Go runtime allocates.
\<close>

section \<open>Strings\<close>

fun readLine :: "bytes \<Rightarrow> bytes \<times> bool \<times> bytes" where
  "readLine [] = ([], False, [])"
| "readLine (b # bs) =
     (if b = 10 then ([b], True, bs) else case readLine bs of (l, found, r) \<Rightarrow> (b # l, found, r))"

definition trimRightCRLF :: "bytes \<Rightarrow> bytes" where
  "trimRightCRLF s = rev (dropWhile (\<lambda>b. b = 13 \<or> b = 10) (rev s))"

definition cutColon :: "bytes \<Rightarrow> (bytes \<times> bytes) option" where
  "cutColon s = (if 58 \<in> set s then Some (takeWhile (\<lambda>b. b \<noteq> 58) s, tl (dropWhile (\<lambda>b. b \<noteq> 58) s)) else None)"

definition asciiSpace :: "byte \<Rightarrow> bool" where
  "asciiSpace c \<longleftrightarrow> c = 9 \<or> c = 10 \<or> c = 11 \<or> c = 12 \<or> c = 13 \<or> c = 32"

definition trimSpace :: "(bytes \<Rightarrow> bytes) \<Rightarrow> bytes \<Rightarrow> bytes" where
  "trimSpace trim s =
     (let s1 = dropWhile asciiSpace s
      in if s1 \<noteq> [] \<and> hd s1 \<ge> 128 then trim s1
         else let r1 = dropWhile asciiSpace (rev s1)
              in if r1 \<noteq> [] \<and> hd r1 \<ge> 128 then trim (rev r1) else rev r1)"

text \<open>\<open>strings.EqualFold(s, "Content-Length")\<close>: no letter of the name folds outside ASCII.\<close>

definition isContentLength :: "bytes \<Rightarrow> bool" where
  "isContentLength s \<longleftrightarrow> map asciiLower s = lit ''content-length''"

definition isDigit :: "byte \<Rightarrow> bool" where
  "isDigit c \<longleftrightarrow> 48 \<le> c \<and> c \<le> 57"

definition decVal :: "bytes \<Rightarrow> nat" where
  "decVal ds = foldl (\<lambda>n c. 10 * n + (unat c - 48)) 0 ds"

text \<open>\<open>strconv.Atoi\<close>\<close>

definition atoi :: "bytes \<Rightarrow> int option" where
  "atoi s =
     (let (neg, ds) = (case s of c # cs \<Rightarrow> if c = 45 then (True, cs) else if c = 43 then (False, cs) else (False, s)
                              | [] \<Rightarrow> (False, []))
      in if ds = [] \<or> \<not> list_all isDigit ds then None
         else let v = (if neg then - int (decVal ds) else int (decVal ds))
              in if - (2 ^ 63) \<le> v \<and> v < 2 ^ 63 then Some v else None)"

text \<open>\<open>fmt.Fprintf("%d", n)\<close>\<close>

fun decimal :: "nat \<Rightarrow> bytes" where
  "decimal n = (if n < 10 then [of_nat (48 + n)] else decimal (n div 10) @ [of_nat (48 + n mod 10)])"

declare decimal.simps [simp del]

section \<open>Frames\<close>

definition errContextBytes :: nat where "errContextBytes = 200"

definition appendCapped :: "bytes \<Rightarrow> bytes \<Rightarrow> nat \<Rightarrow> bytes" where
  "appendCapped dst add capBytes =
     (if length dst \<ge> capBytes then dst
      else let remaining = capBytes - length dst
           in dst @ (if length add > remaining then take remaining add else add))"

text \<open>The errors; \<open>seen\<close> is the header context carried in the message.\<close>

datatype frame_error =
    EOF
  | HeaderUnexpectedEOF bytes
  | InvalidLength bytes
  | MissingLength bytes
  | BodyUnexpectedEOF nat bytes

lemma readLine_shorter: "readLine r = (line, True, rest) \<Longrightarrow> length rest < length r"
  by (induction r arbitrary: line) (auto split: if_splits prod.splits)

function headerLoop :: "(bytes \<Rightarrow> bytes) \<Rightarrow> bytes \<Rightarrow> int \<Rightarrow> bool \<Rightarrow> bytes
    \<Rightarrow> (frame_error, int \<times> bytes \<times> bytes) go" where
  "headerLoop trim r len first seen =
     (case readLine r of
        (line, found, rest) \<Rightarrow>
          let seen' = appendCapped seen line errContextBytes in
          if \<not> found then (if first \<and> line = [] then Err EOF else Err (HeaderUnexpectedEOF seen'))
          else let l = trimRightCRLF line in
            if l = [] then Ok (len, seen', rest)
            else (case cutColon l of
                    None \<Rightarrow> headerLoop trim rest len False seen'
                  | Some (k, v) \<Rightarrow>
                      if \<not> isContentLength (trimSpace trim k) then headerLoop trim rest len False seen'
                      else (case atoi (trimSpace trim v) of
                              None \<Rightarrow> Err (InvalidLength v)
                            | Some n \<Rightarrow> headerLoop trim rest n False seen')))"
  by pat_completeness auto
termination
  by (relation "measure (\<lambda>(trim, r, len, first, seen). length r)")
    (auto dest: readLine_shorter [OF sym])

declare headerLoop.simps [simp del]

definition readFrame :: "nat \<Rightarrow> (bytes \<Rightarrow> bytes) \<Rightarrow> bytes \<Rightarrow> (frame_error, bytes \<times> bytes) go" where
  "readFrame maxAlloc trim r =
     go_bind (headerLoop trim r (-1) True []) (\<lambda>(len, seen, rest).
       if len < 0 then Err (MissingLength seen)
       else if len > int maxAlloc then Panic
       else if length rest < nat len then Err (BodyUnexpectedEOF (nat len) seen)
       else Ok (take (nat len) rest, drop (nat len) rest))"

text \<open>\<open>conn.write\<close>: the bytes of one framed message.\<close>

definition writeFrame :: "bytes \<Rightarrow> bytes" where
  "writeFrame body = lit ''Content-Length: '' @ decimal (length body) @ [13, 10, 13, 10] @ body"

lemma headerLoop_more:
  assumes "readLine r = (line, True, rest)" "trimRightCRLF line \<noteq> []"
  shows "headerLoop trim r len first seen =
    (case cutColon (trimRightCRLF line) of
       None \<Rightarrow> headerLoop trim rest len False (appendCapped seen line errContextBytes)
     | Some (k, v) \<Rightarrow>
         if \<not> isContentLength (trimSpace trim k) then headerLoop trim rest len False (appendCapped seen line errContextBytes)
         else (case atoi (trimSpace trim v) of
                 None \<Rightarrow> Err (InvalidLength v)
               | Some n \<Rightarrow> headerLoop trim rest n False (appendCapped seen line errContextBytes)))"
  using assms by (subst headerLoop.simps) (simp add: Let_def)

lemma headerLoop_end:
  assumes "readLine r = (line, found, rest)" "\<not> found \<or> trimRightCRLF line = []"
  shows "headerLoop trim r len first seen =
    (if found then Ok (len, appendCapped seen line errContextBytes, rest)
     else if first \<and> line = [] then Err EOF else Err (HeaderUnexpectedEOF (appendCapped seen line errContextBytes)))"
  using assms by (subst headerLoop.simps) (auto simp: Let_def)

lemma headerLoop_shorter: "headerLoop trim r len first seen = Ok (n, seen', rest) \<Longrightarrow> length rest < length r"
proof (induction "length r" arbitrary: r len first seen rule: less_induct)
  case less
  obtain line found rest' where rl: "readLine r = (line, found, rest')" by (metis prod_cases3)
  show ?case
  proof (cases "\<not> found \<or> trimRightCRLF line = []")
    case True
    then show ?thesis using less.prems headerLoop_end [OF rl True] readLine_shorter [of r line rest'] rl by (auto split: if_splits)
  next
    case False
    then have sh: "length rest' < length r" using rl readLine_shorter [of r line rest'] by simp
    moreover have "length rest < length rest'"
      using less.prems less.hyps [OF sh] headerLoop_more [of r line rest' trim len first seen] rl False
      by (auto split: option.splits prod.splits if_splits)
    ultimately show ?thesis by simp
  qed
qed

lemma readFrame_shorter: "readFrame maxAlloc trim r = Ok (body, rest) \<Longrightarrow> length rest < length r"
  by (auto simp: readFrame_def go_bind_eq_Ok dest!: headerLoop_shorter split: if_splits)

text \<open>\<open>Serve\<close>'s read loop on a stream, until it ends or a frame cannot be read.\<close>

function readFrames :: "nat \<Rightarrow> (bytes \<Rightarrow> bytes) \<Rightarrow> bytes \<Rightarrow> bytes list \<times> (frame_error, unit) go" where
  "readFrames maxAlloc trim r =
     (case readFrame maxAlloc trim r of
        Ok (body, rest) \<Rightarrow> (case readFrames maxAlloc trim rest of (bs, e) \<Rightarrow> (body # bs, e))
      | Err e \<Rightarrow> ([], if e = EOF then Ok () else Err e)
      | Panic \<Rightarrow> ([], Panic))"
  by pat_completeness auto
termination
  by (relation "measure (\<lambda>(m, t, r). length r)") (auto dest: readFrame_shorter)

declare readFrames.simps [simp del]

section \<open>Decimal numbers\<close>

lemma unat_digit: "d < 10 \<Longrightarrow> unat (of_nat (48 + d) :: byte) = 48 + d"
  by (simp add: unat_of_nat del: of_nat_add)

lemma isDigit_of: "d < 10 \<Longrightarrow> isDigit (of_nat (48 + d))"
  using unat_digit [of d] by (simp add: isDigit_def word_le_nat_alt del: of_nat_add)

lemma decVal_snoc: "decVal (ds @ [c]) = 10 * decVal ds + (unat c - 48)"
  by (simp add: decVal_def)

lemma decimal_correct: "decVal (decimal n) = n \<and> list_all isDigit (decimal n) \<and> decimal n \<noteq> []"
proof (induction n rule: decimal.induct)
  case (1 n)
  show ?case
  proof (cases "n < 10")
    case True
    then show ?thesis using isDigit_of [OF True] unat_digit [OF True]
      by (subst decimal.simps, subst decimal.simps, subst decimal.simps) (simp add: decVal_def del: of_nat_add)
  next
    case False
    have d: "decimal n = decimal (n div 10) @ [of_nat (48 + n mod 10)]" using False by (subst decimal.simps) simp
    have m: "n mod 10 < 10" by simp
    show ?thesis
      using "1.IH" [OF False] isDigit_of [OF m] unat_digit [OF m] unfolding d decVal_snoc by (simp del: of_nat_add)
  qed
qed

lemma isDigit_range: "isDigit c \<Longrightarrow> c \<noteq> 45 \<and> c \<noteq> 43 \<and> c \<noteq> 10 \<and> c \<noteq> 13 \<and> c \<noteq> 58 \<and> \<not> asciiSpace c \<and> c < 128"
  by (auto simp: isDigit_def asciiSpace_def word_le_nat_alt word_less_nat_alt)

lemma atoi_decimal: "int n < 2 ^ 63 \<Longrightarrow> atoi (decimal n) = Some (int n)"
  using decimal_correct [of n] isDigit_range
  by (cases "decimal n") (auto simp: atoi_def)

section \<open>Reading back a written frame\<close>

lemma readLine_append: "10 \<notin> set xs \<Longrightarrow> readLine (xs @ 10 # r) = (xs @ [10], True, r)"
  by (induction xs) auto

lemma readLine_none: "10 \<notin> set xs \<Longrightarrow> readLine xs = (xs, False, [])"
  by (induction xs) auto

definition headerLine :: "nat \<Rightarrow> bytes" where
  "headerLine n = lit ''Content-Length: '' @ decimal n"

lemma headerLine_bytes: "10 \<notin> set (headerLine n)" "13 \<notin> set (headerLine n)"
  using decimal_correct [of n] isDigit_range
  by (auto simp: headerLine_def lit_def list_all_iff)

lemma dropWhile_space_digits: "list_all isDigit ds \<Longrightarrow> dropWhile asciiSpace ds = ds"
  using isDigit_range by (cases ds) auto

lemma trimSpace_digits: "list_all isDigit ds \<Longrightarrow> trimSpace trim (32 # ds) = ds"
proof -
  assume d: "list_all isDigit ds"
  then have r: "list_all isDigit (rev ds)" by simp
  have h: "\<not> (xs \<noteq> [] \<and> hd xs \<ge> 128)" if "list_all isDigit xs" for xs
    using that isDigit_range by (cases xs) (auto simp: not_le)
  have "dropWhile asciiSpace (32 # ds) = ds" using dropWhile_space_digits [OF d] by (simp add: asciiSpace_def)
  then show ?thesis
    unfolding trimSpace_def Let_def using h [OF d] h [OF r] dropWhile_space_digits [OF r] by auto
qed

lemma header_fields:
  "trimRightCRLF (headerLine n @ [13, 10]) = headerLine n"
  "cutColon (headerLine n) = Some (lit ''Content-Length'', 32 # decimal n)"
  "isContentLength (trimSpace trim (lit ''Content-Length''))"
proof -
  have "hd (rev (headerLine n)) \<noteq> 13 \<and> hd (rev (headerLine n)) \<noteq> 10"
    using headerLine_bytes [of n] hd_in_set [of "rev (headerLine n)"]
    by (metis headerLine_def list.distinct(1) lit_def rev_is_Nil_conv set_rev append_is_Nil_conv list.map_disc_iff)
  then have "dropWhile (\<lambda>b. b = 13 \<or> b = 10) (rev (headerLine n)) = rev (headerLine n)"
    by (simp add: dropWhile_eq_self_iff)
  then show "trimRightCRLF (headerLine n @ [13, 10]) = headerLine n"
    by (simp add: trimRightCRLF_def)
  show "cutColon (headerLine n) = Some (lit ''Content-Length'', 32 # decimal n)"
    by (simp add: cutColon_def headerLine_def lit_def)
  show "isContentLength (trimSpace trim (lit ''Content-Length''))"
    by (simp add: isContentLength_def trimSpace_def lit_def asciiSpace_def asciiLower_def Let_def)
qed

lemma readLine_header: "readLine (headerLine n @ 13 # 10 # r) = (headerLine n @ [13, 10], True, r)"
  using readLine_append [of "headerLine n @ [13]" r] headerLine_bytes(1) by simp

lemma headerLine_nonempty [simp]: "headerLine n \<noteq> []"
  by (simp add: headerLine_def lit_def)

lemma headerLoop_header:
  assumes "int n < 2 ^ 63"
  shows "\<exists>seen'. headerLoop trim (headerLine n @ [13, 10] @ r) len first seen = headerLoop trim r (int n) False seen'"
  using headerLoop_more [OF readLine_header, of n trim r len first seen] decimal_correct [of n]
    trimSpace_digits [of "decimal n" trim] atoi_decimal [OF assms]
  by (simp add: header_fields) blast

lemma headerLoop_blank:
  "\<exists>seen'. headerLoop trim ([13, 10] @ r) len first seen = Ok (len, seen', r)"
  by (subst headerLoop.simps) (simp add: Let_def trimRightCRLF_def)

lemma writeFrame_header: "writeFrame body = headerLine (length body) @ [13, 10] @ [13, 10] @ body"
  by (simp add: writeFrame_def headerLine_def)

lemma readFrame_written:
  assumes "int (length body) < 2 ^ 63" "length body \<le> maxAlloc"
  shows "readFrame maxAlloc trim (writeFrame body @ rest) = Ok (body, rest)"
proof -
  obtain s1 where "headerLoop trim (writeFrame body @ rest) (-1) True [] =
      headerLoop trim ([13, 10] @ body @ rest) (int (length body)) False s1"
    using headerLoop_header [OF assms(1), of trim "[13, 10] @ body @ rest" "-1" True "[]"]
    by (auto simp: writeFrame_header)
  moreover obtain s2 where "headerLoop trim ([13, 10] @ body @ rest) (int (length body)) False s1 = Ok (int (length body), s2, body @ rest)"
    using headerLoop_blank [of trim "body @ rest" "int (length body)" False s1] by blast
  ultimately show ?thesis using assms(2) by (simp add: readFrame_def)
qed

section \<open>Truncated frames\<close>

lemma strict_prefix_append_cases:
  "strict_prefix p (a @ b) \<longleftrightarrow> strict_prefix p a \<or> (\<exists>q. p = a @ q \<and> strict_prefix q b)"
  by (auto simp: strict_prefix_def prefix_append)

lemma readFrame_header_truncated:
  assumes "strict_prefix p (headerLine n @ [13, 10])" "p \<noteq> []"
  shows "\<exists>seen. readFrame maxAlloc trim p = Err (HeaderUnexpectedEOF seen)"
proof -
  have "prefix p ((headerLine n @ [13]) @ [10])" "p \<noteq> (headerLine n @ [13]) @ [10]"
    using assms(1) by (auto simp: strict_prefix_def)
  then have "prefix p (headerLine n @ [13])" unfolding prefix_snoc by blast
  then have "set p \<subseteq> set (headerLine n @ [13])" by (rule set_mono_prefix)
  then have "10 \<notin> set p" using headerLine_bytes(1) [of n] by auto
  then show ?thesis
    using headerLoop_end [OF readLine_none, of p trim "-1" True "[]"] assms(2) by (simp add: readFrame_def)
qed

lemma readFrame_blank_truncated:
  assumes "int n < 2 ^ 63" "strict_prefix q [13, 10]"
  shows "\<exists>seen. readFrame maxAlloc trim (headerLine n @ [13, 10] @ q) = Err (HeaderUnexpectedEOF seen)"
proof -
  obtain s1 where s1: "headerLoop trim (headerLine n @ [13, 10] @ q) (-1) True [] = headerLoop trim q (int n) False s1"
    using headerLoop_header [OF assms(1)] by blast
  have "q = [] \<or> q = [13]" using assms(2) by (auto simp: strict_prefix_def prefix_Cons)
  then have "readLine q = (q, False, [])" by auto
  then have "\<exists>seen. headerLoop trim q (int n) False s1 = Err (HeaderUnexpectedEOF seen)"
    using headerLoop_end [of q q False "[]" trim "int n" False s1] by simp
  then show ?thesis using s1 by (auto simp: readFrame_def)
qed

lemma readFrame_body_truncated:
  assumes "int (length body) < 2 ^ 63" "length body \<le> maxAlloc" "strict_prefix q body"
  shows "\<exists>seen. readFrame maxAlloc trim (headerLine (length body) @ [13, 10] @ [13, 10] @ q) = Err (BodyUnexpectedEOF (length body) seen)"
proof -
  obtain s1 where s1: "headerLoop trim (headerLine (length body) @ [13, 10] @ [13, 10] @ q) (-1) True [] =
      headerLoop trim ([13, 10] @ q) (int (length body)) False s1"
    using headerLoop_header [OF assms(1)] by blast
  obtain s2 where s2: "headerLoop trim ([13, 10] @ q) (int (length body)) False s1 = Ok (int (length body), s2, q)"
    using headerLoop_blank by blast
  have "length q < length body" using assms(3) by (rule prefix_length_less)
  then show ?thesis using s1 s2 assms(2) by (simp add: readFrame_def)
qed

lemma readFrame_truncated:
  assumes "int (length body) < 2 ^ 63" "length body \<le> maxAlloc" "strict_prefix p (writeFrame body)" "p \<noteq> []"
  shows "\<exists>e. readFrame maxAlloc trim p = Err e \<and> e \<noteq> EOF"
proof -
  have "strict_prefix p ((headerLine (length body) @ [13, 10]) @ [13, 10] @ body)"
    using assms(3) by (simp add: writeFrame_header)
  then consider "strict_prefix p (headerLine (length body) @ [13, 10])"
    | q where "p = (headerLine (length body) @ [13, 10]) @ q" "strict_prefix q [13, 10]"
    | q where "p = (headerLine (length body) @ [13, 10]) @ [13, 10] @ q" "strict_prefix q body"
    unfolding strict_prefix_append_cases by blast
  then show ?thesis
  proof cases
    case 1
    then show ?thesis using readFrame_header_truncated [OF 1 assms(4)] by blast
  next
    case 2
    then show ?thesis using readFrame_blank_truncated [OF assms(1) 2(2)] by fastforce
  next
    case 3
    then show ?thesis using readFrame_body_truncated [OF assms(1,2) 3(2)] by fastforce
  qed
qed

lemma readFrame_empty: "readFrame maxAlloc trim [] = Err EOF"
  using headerLoop_end [of "[]" "[]" False "[]" trim "-1" True "[]"] by (simp add: readFrame_def)

section \<open>Error context\<close>

fun errorContext :: "frame_error \<Rightarrow> bytes" where
  "errorContext EOF = []"
| "errorContext (HeaderUnexpectedEOF seen) = seen"
| "errorContext (InvalidLength v) = []"
| "errorContext (MissingLength seen) = seen"
| "errorContext (BodyUnexpectedEOF n seen) = seen"

lemma appendCapped_bound: "length dst \<le> n \<Longrightarrow> length (appendCapped dst add n) \<le> n"
  by (auto simp: appendCapped_def Let_def)

lemma headerLoop_context:
  "length seen \<le> errContextBytes \<Longrightarrow>
    (case headerLoop trim r len first seen of Ok (n, seen', rest) \<Rightarrow> length seen' \<le> errContextBytes
     | Err e \<Rightarrow> length (errorContext e) \<le> errContextBytes | Panic \<Rightarrow> False)"
proof (induction "length r" arbitrary: r len first seen rule: less_induct)
  case less
  obtain line found rest where rl: "readLine r = (line, found, rest)" by (metis prod_cases3)
  have b: "length (appendCapped seen line errContextBytes) \<le> errContextBytes"
    using appendCapped_bound [OF less.prems] .
  show ?case
  proof (cases "\<not> found \<or> trimRightCRLF line = []")
    case True
    then show ?thesis using headerLoop_end [OF rl True, of trim len first seen] b by (auto simp: errContextBytes_def)
  next
    case False
    then have sh: "length rest < length r" using rl readLine_shorter [of r line rest] by simp
    note ih = less.hyps [OF sh b]
    show ?thesis
      using headerLoop_more [of r line rest trim len first seen] rl False ih
      by (auto simp: errContextBytes_def split: option.splits prod.splits)
  qed
qed

section \<open>Properties\<close>

text \<open>
  C31. Reading back what \<open>conn.write\<close> wrote gives the same messages in the same order, and the
  session ends cleanly exactly when the stream ends between two frames: a stream that stops in
  the middle of a frame, whether in its header or its body, delivers the complete messages and
  then an error other than end of file.\<close>
theorem frame_stream_roundtrip:
  assumes "\<forall>b \<in> set (body # bodies). int (length b) < 2 ^ 63 \<and> length b \<le> maxAlloc" and "strict_prefix p (writeFrame body)"
  shows "\<exists>e. readFrames maxAlloc trim (concat (map writeFrame bodies) @ p) = (bodies, if p = [] then Ok () else Err e) \<and> e \<noteq> EOF"
  using assms(1)
proof (induction bodies)
  case Nil
  then show ?case
    using readFrame_truncated [OF _ _ assms(2), of maxAlloc trim] readFrame_empty [of maxAlloc trim]
    by (cases "p = []") (auto simp: readFrames.simps [of maxAlloc trim p] readFrames.simps [of maxAlloc trim "[]"])
next
  case (Cons b bs)
  then obtain e where e: "readFrames maxAlloc trim (concat (map writeFrame bs) @ p) = (bs, if p = [] then Ok () else Err e)" "e \<noteq> EOF"
    by auto
  have "readFrame maxAlloc trim (writeFrame b @ concat (map writeFrame bs) @ p) = Ok (b, concat (map writeFrame bs) @ p)"
    using Cons.prems by (intro readFrame_written) auto
  then show ?case using e by (subst readFrames.simps) auto
qed

theorem frame_stream_roundtrip_witness:
  "\<exists>e. readFrames 100 id (concat (map writeFrame [lit ''a'', []]) @ lit ''Con'') = ([lit ''a'', []], Err e) \<and> e \<noteq> EOF"
proof -
  have "strict_prefix (lit ''Con'') (writeFrame [])" by (simp add: writeFrame_def lit_def strict_prefix_def)
  then show ?thesis
    using frame_stream_roundtrip [of "[]" "[lit ''a'', []]" 100 "lit ''Con''" id] by (simp add: lit_def)
qed

text \<open>
  Whatever bytes arrive, the header text that \<open>readFrame\<close> quotes in an error is at most
  \<open>errContextBytes\<close> long, and its only panic is the allocation of a body whose announced length
  exceeds what the runtime can allocate.\<close>
lemma frame_errors_bounded:
  "case readFrame maxAlloc trim r of
     Ok (body, rest) \<Rightarrow> length body \<le> maxAlloc \<and> length rest < length r
   | Err e \<Rightarrow> length (errorContext e) \<le> errContextBytes
   | Panic \<Rightarrow> (\<exists>n seen rest. headerLoop trim r (-1) True [] = Ok (n, seen, rest) \<and> n > int maxAlloc)"
proof -
  note c = headerLoop_context [of "[]" trim r "-1" True]
  show ?thesis
  proof (cases "headerLoop trim r (-1) True []")
    case (Ok x)
    obtain n seen rest where x: "x = (n, seen, rest)" by (metis prod_cases3)
    have "length rest < length r" using headerLoop_shorter Ok x by blast
    then show ?thesis using Ok x c by (auto simp: readFrame_def errContextBytes_def)
  qed (use c in \<open>auto simp: readFrame_def errContextBytes_def\<close>)
qed

end
