(* ===== verification/Rpc_Server.thy ===== *)
theory Rpc_Server
  imports Framing
begin

text \<open>
  The JSON-RPC server of \<open>internal/rpc\<close>: the lifecycle of \<open>lifecycle.go\<close>, the dispatch of
  \<open>server.go\<close>, the per-document queues of \<open>notifyqueue.go\<close>, the worker pools of
  \<open>priority.go\<close> and the cancellation registry of \<open>cancel.go\<close>, as a step relation whose steps are
  the actions between two lock releases: the read loop dispatching one message, a queue's drain
  goroutine taking or finishing a function, and the phases of a request's goroutine.

  A message is given by the fields the dispatcher reads, its JSON already decoded: \<open>mKey\<close> is
  \<open>params.textDocument.uri\<close> (empty when absent) and \<open>mCancelID\<close> the identifier in the parameters
  of a cancellation. What a handler returns is an argument of the step that ends it.
\<close>

section \<open>Messages\<close>

record message =
  mID :: "bytes option"
  mMethod :: bytes
  mKey :: bytes
  mCancelID :: "bytes option"

definition isRequest :: "message \<Rightarrow> bool" where
  "isRequest m \<longleftrightarrow> mMethod m \<noteq> [] \<and> mID m \<noteq> None"

definition isNotification :: "message \<Rightarrow> bool" where
  "isNotification m \<longleftrightarrow> mMethod m \<noteq> [] \<and> mID m = None"

definition isResponse :: "message \<Rightarrow> bool" where
  "isResponse m \<longleftrightarrow> mMethod m = [] \<and> mID m \<noteq> None"

definition methodNotFoundCode :: int where "methodNotFoundCode = - 32601"
definition serverNotInitializedCode :: int where "serverNotInitializedCode = - 32002"
definition invalidRequestCode :: int where "invalidRequestCode = - 32600"
definition internalErrorCode :: int where "internalErrorCode = - 32603"
definition requestCancelledCode :: int where "requestCancelledCode = - 32800"

section \<open>State\<close>

datatype lifecycleState = Uninitialized | Initialized | ShuttingDown | Exited

datatype priority = Interactive | Background

text \<open>A queued function: a notification's handler, or the barrier of request \<open>i\<close>.\<close>

datatype job = Notif bytes | Join nat

record notif_queue =
  nqPending :: "job list"
  nqRunning :: bool
  nqCurrent :: "job option"     \<comment> \<open>the function the drain goroutine is running\<close>

datatype phase =
    Queued      \<comment> \<open>the goroutine waits for a token of its pool\<close>
  | Holding     \<comment> \<open>it waits for the barrier\<close>
  | Handling    \<comment> \<open>the handler runs\<close>
  | Answered    \<comment> \<open>the response is written\<close>
  | Retired     \<comment> \<open>the deferred calls have run and the token is returned\<close>

datatype response = RespResult | RespError int

record request =
  rqID :: bytes
  rqKey :: bytes
  rqPriority :: priority
  rqPhase :: phase
  rqCancelled :: bool

text \<open>
  \<open>svPending\<close> maps the identifier of a call of \<open>Request\<close> awaiting its response to the call's
  number, and \<open>svDelivered\<close> lists the calls whose response was delivered.
  Accepted requests are numbered in arrival order. \<open>svSent\<close> lists the responses written, with the
  number of the request when a handler produced them; \<open>svPushed\<close> and \<open>svDone\<close> record, for
  every queue, the functions pushed and finished so far.
\<close>

record server =
  svState :: lifecycleState
  svExitCode :: "nat option"
  svQueues :: "bytes \<Rightarrow> notif_queue"
  svRequests :: "request list"
  svCancels :: "bytes \<rightharpoonup> nat"
  svTokens :: "priority \<Rightarrow> nat"
  svNextID :: nat
  svPending :: "bytes \<rightharpoonup> nat"
  svDelivered :: "nat list"
  svSent :: "(nat option \<times> bytes \<times> response) list"
  svPushed :: "bytes \<Rightarrow> job list"
  svDone :: "bytes \<Rightarrow> job list"

record config =
  cfHandlers :: "bytes \<rightharpoonup> priority"
  cfNotifications :: "bytes \<Rightarrow> bool"
  cfPool :: "priority \<Rightarrow> nat option"     \<comment> \<open>\<open>None\<close> is unbounded\<close>

text \<open>\<open>newPool\<close>: a size that is not positive means unbounded.\<close>

definition newPool :: "int \<Rightarrow> nat option" where
  "newPool sz = (if sz \<le> 0 then None else Some (nat sz))"

definition defaultBackgroundWorkers :: "int \<Rightarrow> int" where
  "defaultBackgroundWorkers numCPU = (if numCPU > 4 then numCPU else 4)"

definition NewServer :: server where
  "NewServer = \<lparr>svState = Uninitialized, svExitCode = None,
     svQueues = (\<lambda>_. \<lparr>nqPending = [], nqRunning = False, nqCurrent = None\<rparr>), svRequests = [],
     svCancels = Map.empty, svTokens = (\<lambda>_. 0), svNextID = 0,
     svPending = Map.empty, svDelivered = [], svSent = [],
     svPushed = (\<lambda>_. []), svDone = (\<lambda>_. [])\<rparr>"

section \<open>Dispatch\<close>

text \<open>\<open>queueFor(key).push\<close>: appends the function and starts a drain goroutine if none runs.\<close>

definition push :: "bytes \<Rightarrow> job \<Rightarrow> server \<Rightarrow> server" where
  "push key j s =
     (let q = svQueues s key
      in s\<lparr>svQueues := (svQueues s)(key := q\<lparr>nqPending := nqPending q @ [j], nqRunning := True\<rparr>),
           svPushed := (svPushed s)(key := svPushed s key @ [j])\<rparr>)"

definition respond :: "nat option \<Rightarrow> bytes \<Rightarrow> response \<Rightarrow> server \<Rightarrow> server" where
  "respond i id' r s = s\<lparr>svSent := svSent s @ [(i, id', r)]\<rparr>"

text \<open>The lifecycle changes of \<open>dispatchRequest\<close>.\<close>

definition enterState :: "bytes \<Rightarrow> server \<Rightarrow> server" where
  "enterState method s =
     (if method = lit ''initialize'' then s\<lparr>svState := Initialized\<rparr>
      else if method = lit ''shutdown'' then s\<lparr>svState := ShuttingDown\<rparr> else s)"

text \<open>The registry of cancel functions, by request identifier.\<close>

definition registerCancel :: "bytes \<Rightarrow> nat \<Rightarrow> server \<Rightarrow> server" where
  [simp]: "registerCancel id' i s = s\<lparr>svCancels := (svCancels s)(id' \<mapsto> i)\<rparr>"

definition unregisterCancel :: "bytes \<Rightarrow> server \<Rightarrow> server" where
  [simp]: "unregisterCancel id' s = s\<lparr>svCancels := (svCancels s)(id' := None)\<rparr>"

definition cancelByID :: "bytes \<Rightarrow> server \<Rightarrow> server" where
  [simp]: "cancelByID id' s =
     (case svCancels s id' of
        None \<Rightarrow> s
      | Some i \<Rightarrow> s\<lparr>svRequests := (svRequests s)[i := (svRequests s ! i)\<lparr>rqCancelled := True\<rparr>]\<rparr>)"

definition acceptRequest :: "bytes \<Rightarrow> bytes \<Rightarrow> priority \<Rightarrow> server \<Rightarrow> server" where
  "acceptRequest id' key prio s =
     (let i = length (svRequests s)
      in push key (Join i)
           (registerCancel id' i
              (s\<lparr>svRequests := svRequests s @ [\<lparr>rqID = id', rqKey = key, rqPriority = prio, rqPhase = Queued, rqCancelled = False\<rparr>]\<rparr>)))"

definition dispatchRequest :: "config \<Rightarrow> bytes \<Rightarrow> message \<Rightarrow> server \<Rightarrow> server" where
  "dispatchRequest cf id' m s =
     (case cfHandlers cf (mMethod m) of
        None \<Rightarrow> respond None id' (RespError methodNotFoundCode) s
      | Some prio \<Rightarrow>
          if svState s = Uninitialized \<and> mMethod m \<noteq> lit ''initialize''
          then respond None id' (RespError serverNotInitializedCode) s
          else if svState s = ShuttingDown \<or> svState s = Exited
          then respond None id' (RespError invalidRequestCode) s
          else acceptRequest id' (mKey m) prio (enterState (mMethod m) s))"

definition handleCancelRequest :: "message \<Rightarrow> server \<Rightarrow> server" where
  "handleCancelRequest m s =
     (case mCancelID m of
        None \<Rightarrow> s
      | Some id' \<Rightarrow> cancelByID id' s)"

definition handleExit :: "server \<Rightarrow> server" where
  "handleExit s = s\<lparr>svExitCode := Some (if svState s = ShuttingDown then 0 else 1), svState := Exited\<rparr>"

definition dispatchNotification :: "config \<Rightarrow> message \<Rightarrow> server \<Rightarrow> server" where
  "dispatchNotification cf m s =
     (if mMethod m = lit ''$/cancelRequest'' then handleCancelRequest m s
      else if mMethod m = lit ''exit'' then handleExit s
      else if svState s \<noteq> Initialized then s
      else if \<not> cfNotifications cf (mMethod m) then s
      else push (mKey m) (Notif (mMethod m)) s)"

definition dispatchResponse :: "bytes \<Rightarrow> server \<Rightarrow> server" where
  "dispatchResponse id' s =
     (let s' = s\<lparr>svPending := (svPending s)(id' := None)\<rparr>
      in case svPending s id' of None \<Rightarrow> s' | Some c \<Rightarrow> s'\<lparr>svDelivered := svDelivered s @ [c]\<rparr>)"

text \<open>
  \<open>Request\<close> up to the write of its message, and its deferred clean-up when it returns, with the
  response or because its context ended.
\<close>

definition RequestCall :: "server \<Rightarrow> server" where
  "RequestCall s =
     (let n = svNextID s + 1 in s\<lparr>svNextID := n, svPending := (svPending s)(decimal n \<mapsto> n)\<rparr>)"

definition RequestReturn :: "bytes \<Rightarrow> server \<Rightarrow> server" where
  "RequestReturn key s = s\<lparr>svPending := (svPending s)(key := None)\<rparr>"

text \<open>One iteration of \<open>Serve\<close>'s loop.\<close>

definition dispatch :: "config \<Rightarrow> message \<Rightarrow> server \<Rightarrow> server" where
  "dispatch cf m s =
     (case mID m of
        Some id' \<Rightarrow> if isRequest m then dispatchRequest cf id' m s else dispatchResponse id' s
      | None \<Rightarrow> if isNotification m then dispatchNotification cf m s else s)"

section \<open>Goroutines\<close>

definition setQueue :: "bytes \<Rightarrow> notif_queue \<Rightarrow> server \<Rightarrow> server" where
  "setQueue key q s = s\<lparr>svQueues := (svQueues s)(key := q)\<rparr>"

definition setPhase :: "nat \<Rightarrow> phase \<Rightarrow> server \<Rightarrow> server" where
  "setPhase i p s = s\<lparr>svRequests := (svRequests s)[i := (svRequests s ! i)\<lparr>rqPhase := p\<rparr>]\<rparr>"

definition addToken :: "config \<Rightarrow> priority \<Rightarrow> server \<Rightarrow> server" where
  "addToken cf p s = (if cfPool cf p = None then s else s\<lparr>svTokens := (svTokens s)(p := svTokens s p + 1)\<rparr>)"

definition dropToken :: "config \<Rightarrow> priority \<Rightarrow> server \<Rightarrow> server" where
  "dropToken cf p s = (if cfPool cf p = None then s else s\<lparr>svTokens := (svTokens s)(p := svTokens s p - 1)\<rparr>)"

definition tokenFree :: "config \<Rightarrow> priority \<Rightarrow> server \<Rightarrow> bool" where
  "tokenFree cf p s = (case cfPool cf p of None \<Rightarrow> True | Some n \<Rightarrow> svTokens s p < n)"

text \<open>What \<open>callRequestHandler\<close> and the marshalling of the result give.\<close>

datatype outcome = HandlerOk | MarshalError | HandlerCancelled | HandlerError int | HandlerPanic

fun responseOf :: "outcome \<Rightarrow> response" where
  "responseOf HandlerOk = RespResult"
| "responseOf MarshalError = RespError internalErrorCode"
| "responseOf HandlerCancelled = RespError requestCancelledCode"
| "responseOf (HandlerError c) = RespError c"
| "responseOf HandlerPanic = RespError internalErrorCode"

definition answer :: "nat \<Rightarrow> outcome \<Rightarrow> server \<Rightarrow> server" where
  "answer i out s = setPhase i Answered (respond (Some i) (rqID (svRequests s ! i)) (responseOf out) s)"

definition retireRequest :: "config \<Rightarrow> nat \<Rightarrow> server \<Rightarrow> server" where
  "retireRequest cf i s =
     (let r = svRequests s ! i
      in dropToken cf (rqPriority r) (setPhase i Retired (unregisterCancel (rqID r) s)))"

text \<open>The steps of the goroutines; the read loop is the step \<open>recv\<close> of the system below.\<close>

inductive goStep :: "config \<Rightarrow> server \<Rightarrow> server \<Rightarrow> bool" for cf where
  take_job: "svQueues s key = \<lparr>nqPending = j # js, nqRunning = True, nqCurrent = None\<rparr> \<Longrightarrow>
    goStep cf s (setQueue key \<lparr>nqPending = js, nqRunning = True, nqCurrent = Some j\<rparr> s)"
| idle: "svQueues s key = \<lparr>nqPending = [], nqRunning = True, nqCurrent = None\<rparr> \<Longrightarrow>
    goStep cf s (setQueue key \<lparr>nqPending = [], nqRunning = False, nqCurrent = None\<rparr> s)"
| finish_job: "svQueues s key = \<lparr>nqPending = js, nqRunning = True, nqCurrent = Some j\<rparr> \<Longrightarrow>
    goStep cf s ((setQueue key \<lparr>nqPending = js, nqRunning = True, nqCurrent = None\<rparr> s)
      \<lparr>svDone := (svDone s)(key := svDone s key @ [j])\<rparr>)"
| acquire: "i < length (svRequests s) \<Longrightarrow> rqPhase (svRequests s ! i) = Queued \<Longrightarrow>
    tokenFree cf (rqPriority (svRequests s ! i)) s \<Longrightarrow>
    goStep cf s (addToken cf (rqPriority (svRequests s ! i)) (setPhase i Holding s))"
| start: "i < length (svRequests s) \<Longrightarrow> rqPhase (svRequests s ! i) = Holding \<Longrightarrow>
    Join i \<in> set (svDone s (rqKey (svRequests s ! i))) \<Longrightarrow> goStep cf s (setPhase i Handling s)"
| reply: "i < length (svRequests s) \<Longrightarrow> rqPhase (svRequests s ! i) = Handling \<Longrightarrow> goStep cf s (answer i out s)"
| ret: "i < length (svRequests s) \<Longrightarrow> rqPhase (svRequests s ! i) = Answered \<Longrightarrow> goStep cf s (retireRequest cf i s)"

inductive_cases goStepE: "goStep cf s s'"

inductive step :: "config \<Rightarrow> server \<Rightarrow> server \<Rightarrow> bool" for cf where
  recv: "svState s \<noteq> Exited \<Longrightarrow> step cf s (dispatch cf m s)"
| works: "goStep cf s s' \<Longrightarrow> step cf s s'"
| call: "step cf s (RequestCall s)"
| call_end: "step cf s (RequestReturn key s)"

inductive reachable :: "config \<Rightarrow> server \<Rightarrow> bool" for cf where
  init: "reachable cf NewServer"
| more: "reachable cf s \<Longrightarrow> step cf s s' \<Longrightarrow> reachable cf s'"

section \<open>Invariants\<close>

lemmas rpc_defs = push_def respond_def enterState_def acceptRequest_def dispatchRequest_def handleCancelRequest_def
  handleExit_def dispatchNotification_def dispatchResponse_def dispatch_def setQueue_def setPhase_def addToken_def
  dropToken_def answer_def retireRequest_def Let_def

definition queueInv :: "server \<Rightarrow> bool" where
  "queueInv s \<longleftrightarrow> (\<forall>k. svPushed s k = svDone s k @ (case nqCurrent (svQueues s k) of None \<Rightarrow> [] | Some j \<Rightarrow> [j]) @ nqPending (svQueues s k)
     \<and> (nqPending (svQueues s k) \<noteq> [] \<or> nqCurrent (svQueues s k) \<noteq> None \<longrightarrow> nqRunning (svQueues s k)))"

definition joinInv :: "server \<Rightarrow> bool" where
  "joinInv s \<longleftrightarrow> (\<forall>i < length (svRequests s). Join i \<in> set (svPushed s (rqKey (svRequests s ! i))))
     \<and> (\<forall>k i. Join i \<in> set (svPushed s k) \<longrightarrow> i < length (svRequests s) \<and> rqKey (svRequests s ! i) = k)
     \<and> (\<forall>k i. count_list (svPushed s k) (Join i) \<le> 1)"

definition started :: "phase \<Rightarrow> bool" where
  "started p \<longleftrightarrow> p = Handling \<or> p = Answered \<or> p = Retired"

definition phaseInv :: "server \<Rightarrow> bool" where
  "phaseInv s \<longleftrightarrow> (\<forall>i < length (svRequests s). started (rqPhase (svRequests s ! i)) \<longrightarrow>
     Join i \<in> set (svDone s (rqKey (svRequests s ! i))))"

definition holds :: "priority \<Rightarrow> request \<Rightarrow> bool" where
  "holds p r \<longleftrightarrow> rqPriority r = p \<and> (rqPhase r = Holding \<or> rqPhase r = Handling \<or> rqPhase r = Answered)"

definition tokenInv :: "config \<Rightarrow> server \<Rightarrow> bool" where
  "tokenInv cf s \<longleftrightarrow> (\<forall>p n. cfPool cf p = Some n \<longrightarrow>
     svTokens s p = length (filter (holds p) (svRequests s)) \<and> svTokens s p \<le> n)"

definition replied :: "phase \<Rightarrow> bool" where
  "replied p \<longleftrightarrow> p = Answered \<or> p = Retired"

definition tags :: "server \<Rightarrow> nat list" where
  "tags s = List.map_filter fst (svSent s)"

definition sentInv :: "server \<Rightarrow> bool" where
  "sentInv s \<longleftrightarrow> distinct (tags s) \<and> set (tags s) = {i. i < length (svRequests s) \<and> replied (rqPhase (svRequests s ! i))}
     \<and> (\<forall>i id' r. (Some i, id', r) \<in> set (svSent s) \<longrightarrow> id' = rqID (svRequests s ! i))"

definition callInv :: "server \<Rightarrow> bool" where
  "callInv s \<longleftrightarrow> distinct (svDelivered s) \<and> (\<forall>c \<in> set (svDelivered s). c \<le> svNextID s)
     \<and> (\<forall>k c. svPending s k = Some c \<longrightarrow> k = decimal c \<and> c \<le> svNextID s \<and> c \<notin> set (svDelivered s))"

text \<open>The six shapes a dispatched message's effect has.\<close>

lemma dispatch_cases:
  obtains (reject) id' c where "dispatch cf m s = respond None id' (RespError c) s"
  | (accept) id' p where "dispatch cf m s = acceptRequest id' (mKey m) p (enterState (mMethod m) s)"
  | (cancel) "dispatch cf m s = handleCancelRequest m s"
  | (notify) "dispatch cf m s = push (mKey m) (Notif (mMethod m)) s"
  | (exit) "dispatch cf m s = handleExit s"
  | (response) id' where "dispatch cf m s = dispatchResponse id' s"
  | (ignore) "dispatch cf m s = s"
proof (cases "mID m")
  case None
  then have "dispatch cf m s = (if isNotification m then dispatchNotification cf m s else s)"
    by (simp add: dispatch_def)
  then show thesis using cancel notify exit ignore unfolding dispatchNotification_def by presburger
next
  case (Some id')
  then have d: "dispatch cf m s = (if isRequest m then dispatchRequest cf id' m s else dispatchResponse id' s)"
    by (simp add: dispatch_def)
  show thesis
  proof (cases "cfHandlers cf (mMethod m)")
    case None
    then have "dispatchRequest cf id' m s = respond None id' (RespError methodNotFoundCode) s" by (simp add: dispatchRequest_def)
    then show thesis using d reject response by (cases "isRequest m") auto
  next
    case (Some p)
    then show thesis using d reject accept response unfolding dispatchRequest_def by (auto split: if_splits)
  qed
qed

lemma enterState_same [simp]:
  "svQueues (enterState m s) = svQueues s" "svRequests (enterState m s) = svRequests s" "svPushed (enterState m s) = svPushed s"
  "svDone (enterState m s) = svDone s" "svTokens (enterState m s) = svTokens s" "svSent (enterState m s) = svSent s"
  "svCancels (enterState m s) = svCancels s" "svPending (enterState m s) = svPending s"
  "svDelivered (enterState m s) = svDelivered s" "svNextID (enterState m s) = svNextID s"
  by (simp_all add: enterState_def)

lemma handleCancel_same [simp]:
  "svQueues (handleCancelRequest m s) = svQueues s" "length (svRequests (handleCancelRequest m s)) = length (svRequests s)"
  "svPushed (handleCancelRequest m s) = svPushed s" "svDone (handleCancelRequest m s) = svDone s"
  "svTokens (handleCancelRequest m s) = svTokens s" "svSent (handleCancelRequest m s) = svSent s"
  "svPending (handleCancelRequest m s) = svPending s"
  "svDelivered (handleCancelRequest m s) = svDelivered s" "svNextID (handleCancelRequest m s) = svNextID s"
  by (simp_all add: handleCancelRequest_def split: option.splits)

lemma dispatchResponse_same [simp]:
  "svQueues (dispatchResponse i s) = svQueues s" "svRequests (dispatchResponse i s) = svRequests s" "svPushed (dispatchResponse i s) = svPushed s"
  "svDone (dispatchResponse i s) = svDone s" "svTokens (dispatchResponse i s) = svTokens s" "svSent (dispatchResponse i s) = svSent s"
  by (simp_all add: dispatchResponse_def Let_def split: option.splits)

text \<open>A cancellation marks one request and changes no other field of any.\<close>

definition unmark :: "request \<Rightarrow> request" where
  "unmark r = r\<lparr>rqCancelled := False\<rparr>"

lemma map_update_same: "f y = f (xs ! i) \<Longrightarrow> map f (xs[i := y]) = map f xs"
proof (cases "i < length xs")
  case True
  assume "f y = f (xs ! i)"
  then show ?thesis unfolding map_update using True by (metis list_update_id nth_map)
qed (simp add: list_update_beyond)

lemma handleCancel_unmark: "map unmark (svRequests (handleCancelRequest m s)) = map unmark (svRequests s)"
  by (simp add: handleCancelRequest_def map_update_same unmark_def split: option.splits)

lemma unmark_fields [simp]:
  "rqID (unmark r) = rqID r" "rqKey (unmark r) = rqKey r" "rqPriority (unmark r) = rqPriority r" "rqPhase (unmark r) = rqPhase r"
  by (simp_all add: unmark_def)

lemma handleCancel_nth:
  assumes "i < length (svRequests s)"
  shows "unmark (svRequests (handleCancelRequest m s) ! i) = unmark (svRequests s ! i)"
  using arg_cong [OF handleCancel_unmark [of m s], of "\<lambda>l. l ! i"] assms by simp

lemma handleCancel_requests [simp]:
  assumes "i < length (svRequests s)"
  shows "rqPhase (svRequests (handleCancelRequest m s) ! i) = rqPhase (svRequests s ! i)"
    and "rqKey (svRequests (handleCancelRequest m s) ! i) = rqKey (svRequests s ! i)"
    and "rqID (svRequests (handleCancelRequest m s) ! i) = rqID (svRequests s ! i)"
    and "rqPriority (svRequests (handleCancelRequest m s) ! i) = rqPriority (svRequests s ! i)"
  using handleCancel_nth [OF assms, of m] by (metis unmark_fields)+

subsection \<open>Queues run their functions in order\<close>

lemma queueInv_push: "queueInv s \<Longrightarrow> queueInv (push k j s)"
  by (auto simp: queueInv_def push_def Let_def split: option.splits)

lemma queueInv_cong:
  "queueInv s \<Longrightarrow> svQueues t = svQueues s \<Longrightarrow> svPushed t = svPushed s \<Longrightarrow> svDone t = svDone s \<Longrightarrow> queueInv t"
  by (simp add: queueInv_def)

lemma queueInv_dispatch:
  assumes "queueInv s"
  shows "queueInv (dispatch cf m s)"
proof (cases rule: dispatch_cases [of cf m s])
  case (accept id' p)
  show ?thesis unfolding accept acceptRequest_def Let_def
    by (rule queueInv_push, rule queueInv_cong [OF assms]) simp_all
next
  case notify
  then show ?thesis by (simp add: queueInv_push assms)
qed (rule queueInv_cong [OF assms]; simp add: respond_def handleExit_def)+

lemma queueInv_setQueue:
  assumes "queueInv s" "svPushed s key = d @ (case nqCurrent q of None \<Rightarrow> [] | Some j \<Rightarrow> [j]) @ nqPending q"
    and "nqPending q \<noteq> [] \<or> nqCurrent q \<noteq> None \<longrightarrow> nqRunning q"
  shows "queueInv ((setQueue key q s)\<lparr>svDone := (svDone s)(key := d)\<rparr>)"
  using assms by (simp add: queueInv_def setQueue_def)

lemma queueInv_at:
  "queueInv s \<Longrightarrow> svPushed s k = svDone s k @ (case nqCurrent (svQueues s k) of None \<Rightarrow> [] | Some j \<Rightarrow> [j]) @ nqPending (svQueues s k)"
  by (simp add: queueInv_def)

lemma svDone_self: "s\<lparr>svDone := (svDone s)(key := svDone s key)\<rparr> = s"
  by simp

lemma queueInv_work:
  assumes I: "queueInv s" and W: "goStep cf s s'"
  shows "queueInv s'"
  using W
proof cases
  case (take_job key j js)
  have "queueInv ((setQueue key \<lparr>nqPending = js, nqRunning = True, nqCurrent = Some j\<rparr> s)\<lparr>svDone := (svDone s)(key := svDone s key)\<rparr>)"
    by (rule queueInv_setQueue [OF I]) (simp_all add: queueInv_at [OF I] take_job)
  then show ?thesis by (rule queueInv_cong) (simp_all add: take_job setQueue_def)
next
  case (idle key)
  have "queueInv ((setQueue key \<lparr>nqPending = [], nqRunning = False, nqCurrent = None\<rparr> s)\<lparr>svDone := (svDone s)(key := svDone s key)\<rparr>)"
    by (rule queueInv_setQueue [OF I]) (simp_all add: queueInv_at [OF I] idle)
  then show ?thesis by (rule queueInv_cong) (simp_all add: idle setQueue_def)
next
  case (finish_job key js j)
  show ?thesis unfolding finish_job(1)
    by (rule queueInv_setQueue [OF I]) (simp_all add: queueInv_at [OF I] finish_job(2))
qed (rule queueInv_cong [OF I]; simp add: rpc_defs)+

subsection \<open>Barriers\<close>

text \<open>What a goroutine's step leaves alone.\<close>

lemma setPhase_fields [simp]:
  "map rqKey (svRequests (setPhase i p s)) = map rqKey (svRequests s)"
  "map rqID (svRequests (setPhase i p s)) = map rqID (svRequests s)"
  "map rqPriority (svRequests (setPhase i p s)) = map rqPriority (svRequests s)"
  by (simp_all add: setPhase_def map_update_same)

lemma work_frame:
  assumes "goStep cf s s'"
  shows "svPushed s' = svPushed s" and "map rqKey (svRequests s') = map rqKey (svRequests s)"
    and "map rqID (svRequests s') = map rqID (svRequests s)"
    and "set (svDone s k) \<subseteq> set (svDone s' k)"
    and "svPending s' = svPending s" and "svDelivered s' = svDelivered s" and "svNextID s' = svNextID s"
    and "svState s' = svState s"
  using assms by (cases; auto simp: rpc_defs map_update_same)+

lemma map_eq_nth: "map f xs = map f ys \<Longrightarrow> i < length xs \<Longrightarrow> f (xs ! i) = f (ys ! i)"
  by (metis length_map nth_map)

lemma joinInv_cong:
  assumes I: "joinInv s" and P: "svPushed t = svPushed s" and K: "map rqKey (svRequests t) = map rqKey (svRequests s)"
  shows "joinInv t"
proof -
  have "length (svRequests t) = length (svRequests s)" using arg_cong [OF K, of length] by simp
  then show ?thesis using I map_eq_nth [OF K] unfolding joinInv_def P by metis
qed

lemma joinInv_accept:
  assumes "joinInv s"
  shows "joinInv (acceptRequest id' key p s)"
  using assms unfolding joinInv_def acceptRequest_def push_def Let_def
  by (auto simp: nth_append less_Suc_eq count_list_0_iff)

lemma joinInv_notify: "joinInv s \<Longrightarrow> joinInv (push k (Notif n) s)"
  unfolding joinInv_def push_def Let_def by auto

lemma joinInv_dispatch:
  assumes I: "joinInv s"
  shows "joinInv (dispatch cf m s)"
proof (cases rule: dispatch_cases [of cf m s])
  case (accept id' p)
  show ?thesis unfolding accept by (rule joinInv_accept, rule joinInv_cong [OF I]) simp_all
next
  case notify
  then show ?thesis by (simp add: joinInv_notify I)
next
  case cancel
  have "map rqKey (map unmark (svRequests (dispatch cf m s))) = map rqKey (map unmark (svRequests s))"
    unfolding cancel handleCancel_unmark ..
  then show ?thesis by (intro joinInv_cong [OF I]) (simp_all add: cancel o_def)
qed (rule joinInv_cong [OF I]; simp add: respond_def handleExit_def)+

subsection \<open>Handlers start after their barrier\<close>

lemma phaseInv_dispatch:
  assumes "phaseInv s"
  shows "phaseInv (dispatch cf m s)"
proof (cases rule: dispatch_cases [of cf m s])
  case (accept id' p)
  show ?thesis unfolding accept using assms
    by (auto simp: phaseInv_def acceptRequest_def push_def Let_def nth_append started_def)
qed (use assms in \<open>simp add: phaseInv_def respond_def handleExit_def push_def Let_def\<close>)+

lemma phaseInv_work:
  assumes I: "phaseInv s" and W: "goStep cf s s'"
  shows "phaseInv s'"
  using W
proof cases
  case (acquire i)
  then show ?thesis using I
    by (auto simp: phaseInv_def addToken_def setPhase_def nth_list_update started_def)
next
  case (start i)
  then show ?thesis using I by (auto simp: phaseInv_def setPhase_def nth_list_update)
next
  case (reply i out)
  then show ?thesis using I by (auto simp: phaseInv_def answer_def respond_def setPhase_def nth_list_update started_def)
next
  case (ret i)
  then show ?thesis using I
    by (auto simp: phaseInv_def retireRequest_def dropToken_def setPhase_def nth_list_update started_def Let_def)
qed (use I in \<open>auto simp: phaseInv_def setQueue_def\<close>)

subsection \<open>Pools\<close>

lemma holders_setPhase:
  assumes "i < length (svRequests s)" "rqPhase (svRequests s ! i) = a"
  shows "length (filter (holds p) (svRequests (setPhase i b s))) + of_bool (rqPriority (svRequests s ! i) = p \<and> a \<in> {Holding, Handling, Answered})
     = length (filter (holds p) (svRequests s)) + of_bool (rqPriority (svRequests s ! i) = p \<and> b \<in> {Holding, Handling, Answered})"
  using filter_update_length [OF assms(1), of "holds p" "(svRequests s ! i)\<lparr>rqPhase := b\<rparr>"] assms(2)
  by (simp add: setPhase_def holds_def)

lemma tokenInv_dispatch:
  assumes I: "tokenInv cf s"
  shows "tokenInv cf (dispatch cf m s)"
proof (cases rule: dispatch_cases [of cf m s])
  case cancel
  have "length (filter (holds p) (svRequests t)) = length (filter (holds p) (map unmark (svRequests t)))" for p t
    by (simp add: filter_map o_def holds_def [abs_def])
  then have "length (filter (holds p) (svRequests (handleCancelRequest m s))) = length (filter (holds p) (svRequests s))" for p
    by (metis handleCancel_unmark)
  then show ?thesis using I by (simp only: tokenInv_def cancel handleCancel_same)
qed (use I in \<open>simp add: tokenInv_def respond_def handleExit_def acceptRequest_def push_def Let_def holds_def\<close>)+

lemma tokenInvI:
  "(\<And>p n. cfPool cf p = Some n \<Longrightarrow> svTokens s p = length (filter (holds p) (svRequests s)) \<and> svTokens s p \<le> n) \<Longrightarrow> tokenInv cf s"
  unfolding tokenInv_def by blast

lemma tokenInvD:
  "tokenInv cf s \<Longrightarrow> cfPool cf p = Some n \<Longrightarrow> svTokens s p = length (filter (holds p) (svRequests s)) \<and> svTokens s p \<le> n"
  unfolding tokenInv_def by blast

lemma token_frame [simp]:
  "svRequests (addToken cf q s) = svRequests s" "svRequests (dropToken cf q s) = svRequests s"
  "svTokens (setPhase i b s) = svTokens s" "svRequests (respond j k r s) = svRequests s" "svTokens (respond j k r s) = svTokens s"
  "cfPool cf p = Some n \<Longrightarrow> svTokens (addToken cf q s) p = svTokens s p + of_bool (q = p)"
  "cfPool cf p = Some n \<Longrightarrow> svTokens (dropToken cf q s) p = svTokens s p - of_bool (q = p)"
  by (auto simp: addToken_def dropToken_def setPhase_def respond_def)

lemma tokenInv_work:
  assumes I: "tokenInv cf s" and W: "goStep cf s s'"
  shows "tokenInv cf s'"
proof (rule tokenInvI)
  fix p n assume C: "cfPool cf p = Some n"
  note D = tokenInvD [OF I C]
  show "svTokens s' p = length (filter (holds p) (svRequests s')) \<and> svTokens s' p \<le> n"
    using W
  proof cases
    case (acquire i)
    then show ?thesis using D C holders_setPhase [of i s Queued p Holding] by (auto simp: tokenFree_def)
  next
    case (start i)
    then show ?thesis using D holders_setPhase [of i s Holding p Handling] by simp
  next
    case (reply i out)
    then show ?thesis using D holders_setPhase [of i "respond (Some i) (rqID (svRequests s ! i)) (responseOf out) s" Handling p Answered]
      by (simp add: answer_def)
  next
    case (ret i)
    then show ?thesis
      using D C holders_setPhase [of i "s\<lparr>svCancels := (svCancels s)(rqID (svRequests s ! i) := None)\<rparr>" Answered p Retired]
      by (auto simp: retireRequest_def Let_def)
  qed (use D in \<open>simp add: setQueue_def\<close>)+
qed

subsection \<open>One response per request\<close>

lemma tags_respond [simp]:
  "tags (respond None k r s) = tags s" "tags (respond (Some i) k r s) = tags s @ [i]"
  "tags (setPhase i b s) = tags s" "tags (push k j s) = tags s" "tags (s\<lparr>svRequests := rs, svCancels := cs\<rparr>) = tags s"
  "tags (enterState m s) = tags s"
  by (simp_all add: tags_def respond_def setPhase_def push_def Let_def List.map_filter_def)

lemma sentInv_cong:
  assumes I: "sentInv s" and S: "svSent t = svSent s" and P: "map rqPhase (svRequests t) = map rqPhase (svRequests s)"
    and D: "map rqID (svRequests t) = map rqID (svRequests s)"
  shows "sentInv t"
proof -
  have L: "length (svRequests t) = length (svRequests s)" using arg_cong [OF P, of length] by simp
  have T: "tags t = tags s" by (simp add: tags_def S)
  have E: "{i. i < length (svRequests t) \<and> replied (rqPhase (svRequests t ! i))} = {i. i < length (svRequests s) \<and> replied (rqPhase (svRequests s ! i))}"
    using map_eq_nth [OF P] L by auto
  have N: "rqID (svRequests t ! i) = rqID (svRequests s ! i)" if "(Some i, k, r) \<in> set (svSent s)" for i k r
  proof -
    have "i \<in> set (tags s)" using that by (force simp: tags_def List.map_filter_def)
    then have "i < length (svRequests t)" using I L by (simp add: sentInv_def)
    then show ?thesis by (rule map_eq_nth [OF D])
  qed
  show ?thesis using I N unfolding sentInv_def T E S by simp
qed

lemma sentInv_accept:
  assumes I: "sentInv s"
  shows "sentInv (acceptRequest k key p s)"
proof -
  let ?r = "\<lparr>rqID = k, rqKey = key, rqPriority = p, rqPhase = Queued, rqCancelled = False\<rparr>"
  have S: "svSent (acceptRequest k key p s) = svSent s" "svRequests (acceptRequest k key p s) = svRequests s @ [?r]"
    by (simp_all add: acceptRequest_def push_def Let_def)
  have T: "tags (acceptRequest k key p s) = tags s" by (simp add: tags_def S)
  have "i < length (svRequests s)" if "(Some i, q, r) \<in> set (svSent s)" for i q r
  proof -
    have "i \<in> set (tags s)" using that by (force simp: tags_def List.map_filter_def)
    then show ?thesis using I by (simp add: sentInv_def)
  qed
  moreover have "{i. i < length (svRequests s @ [?r]) \<and> replied (rqPhase ((svRequests s @ [?r]) ! i))}
      = {i. i < length (svRequests s) \<and> replied (rqPhase (svRequests s ! i))}"
    by (auto simp: nth_append replied_def less_Suc_eq)
  ultimately show ?thesis using I unfolding sentInv_def S T by (simp add: nth_append)
qed

lemma sentInv_dispatch:
  assumes I: "sentInv s"
  shows "sentInv (dispatch cf m s)"
proof (cases rule: dispatch_cases [of cf m s])
  case (accept id' p)
  show ?thesis unfolding accept by (rule sentInv_accept, rule sentInv_cong [OF I]) simp_all
next
  case (reject k c)
  show ?thesis unfolding reject using I unfolding sentInv_def tags_respond by (simp add: respond_def)
next
  case cancel
  have "map f (map unmark (svRequests (dispatch cf m s))) = map f (map unmark (svRequests s))" for f
    unfolding cancel handleCancel_unmark ..
  from this [of rqPhase] this [of rqID] show ?thesis by (intro sentInv_cong [OF I]) (simp_all add: cancel o_def)
qed (rule sentInv_cong [OF I]; simp add: handleExit_def push_def Let_def)+

lemma sentInv_setPhase:
  assumes I: "sentInv s" and i: "i < length (svRequests s)" and e: "replied b = replied (rqPhase (svRequests s ! i))"
  shows "sentInv (setPhase i b s)"
proof -
  have "replied (rqPhase (svRequests (setPhase i b s) ! j)) = replied (rqPhase (svRequests s ! j))"
    "rqID (svRequests (setPhase i b s) ! j) = rqID (svRequests s ! j)" for j
    using e i by (cases "j = i"; simp add: setPhase_def)+
  moreover have "length (svRequests (setPhase i b s)) = length (svRequests s)" "svSent (setPhase i b s) = svSent s"
    by (simp_all add: setPhase_def)
  ultimately show ?thesis using I unfolding sentInv_def tags_respond by simp
qed

lemma sentInv_answer:
  assumes I: "sentInv s" and i: "i < length (svRequests s)" and h: "rqPhase (svRequests s ! i) = Handling"
  shows "sentInv (answer i out s)"
proof -
  have T: "tags (answer i out s) = tags s @ [i]" by (simp add: answer_def)
  have P: "rqPhase (svRequests (answer i out s) ! j) = (if j = i then Answered else rqPhase (svRequests s ! j))"
    "rqID (svRequests (answer i out s) ! j) = rqID (svRequests s ! j)" for j
    using i by (cases "j = i"; simp add: answer_def setPhase_def)+
  have L: "length (svRequests (answer i out s)) = length (svRequests s)"
    "svSent (answer i out s) = svSent s @ [(Some i, rqID (svRequests s ! i), responseOf out)]"
    by (simp_all add: answer_def setPhase_def respond_def)
  have "i \<notin> set (tags s)" using I h by (simp add: sentInv_def replied_def)
  moreover have "{j. j < length (svRequests s) \<and> replied (if j = i then Answered else rqPhase (svRequests s ! j))}
      = insert i {j. j < length (svRequests s) \<and> replied (rqPhase (svRequests s ! j))}"
    using i by (auto simp: replied_def)
  ultimately show ?thesis using I unfolding sentInv_def T P L by simp
qed

lemma sentInv_work:
  assumes I: "sentInv s" and W: "goStep cf s s'"
  shows "sentInv s'"
  using W
proof cases
  case (acquire i)
  have "sentInv (setPhase i Holding s)" using acquire by (intro sentInv_setPhase [OF I]) (simp_all add: replied_def)
  then show ?thesis by (rule sentInv_cong) (simp_all add: acquire addToken_def)
next
  case (start i)
  then show ?thesis by (simp add: sentInv_setPhase [OF I] replied_def)
next
  case (reply i out)
  then show ?thesis by (simp add: sentInv_answer [OF I])
next
  case (ret i)
  let ?u = "s\<lparr>svCancels := (svCancels s)(rqID (svRequests s ! i) := None)\<rparr>"
  have "sentInv ?u" by (rule sentInv_cong [OF I]) simp_all
  then have "sentInv (setPhase i Retired ?u)" using ret by (intro sentInv_setPhase) (simp_all add: replied_def)
  then show ?thesis by (rule sentInv_cong) (simp_all add: ret retireRequest_def dropToken_def Let_def)
qed (rule sentInv_cong [OF I]; simp add: setQueue_def)+

subsection \<open>Calls to the client\<close>

lemma callInv_cong:
  "callInv s \<Longrightarrow> svPending t = svPending s \<Longrightarrow> svDelivered t = svDelivered s \<Longrightarrow> svNextID t = svNextID s \<Longrightarrow> callInv t"
  by (simp add: callInv_def)

lemma callInv_pending:
  "callInv s \<Longrightarrow> svPending s k = Some c \<Longrightarrow> k = decimal c \<and> c \<le> svNextID s \<and> c \<notin> set (svDelivered s)"
  by (simp add: callInv_def)

lemma callInv_response:
  assumes I: "callInv s"
  shows "callInv (dispatchResponse k s)"
proof (cases "svPending s k")
  case (Some c)
  have "c' \<noteq> c" if "svPending s k' = Some c'" "k' \<noteq> k" for k' c'
    using callInv_pending [OF I Some] callInv_pending [OF I that(1)] that(2) by metis
  then have "\<forall>k'. k' \<noteq> k \<longrightarrow> (\<forall>c'. svPending s k' = Some c' \<longrightarrow> c' \<noteq> c)" by blast
  moreover have "dispatchResponse k s = s\<lparr>svPending := (svPending s)(k := None), svDelivered := svDelivered s @ [c]\<rparr>"
    by (simp add: dispatchResponse_def Some)
  ultimately show ?thesis using I callInv_pending [OF I Some] unfolding callInv_def by auto
qed (use I in \<open>simp add: callInv_def dispatchResponse_def\<close>)

lemma callInv_dispatch:
  assumes I: "callInv s"
  shows "callInv (dispatch cf m s)"
proof (cases rule: dispatch_cases [of cf m s])
  case (response k)
  then show ?thesis using callInv_response [OF I] by simp
qed (rule callInv_cong [OF I]; simp add: respond_def handleExit_def acceptRequest_def push_def Let_def)+

lemma callInv_call:
  assumes I: "callInv s"
  shows "callInv (RequestCall s)"
proof -
  have "Suc (svNextID s) \<notin> set (svDelivered s)" using I by (auto simp: callInv_def)
  then show ?thesis using I by (auto simp: callInv_def RequestCall_def Let_def le_SucI)
qed

lemma callInv_return: "callInv s \<Longrightarrow> callInv (RequestReturn k s)"
  unfolding callInv_def RequestReturn_def by simp

subsection \<open>Reachable states\<close>

definition rpcInv :: "config \<Rightarrow> server \<Rightarrow> bool" where
  "rpcInv cf s \<longleftrightarrow> queueInv s \<and> joinInv s \<and> phaseInv s \<and> tokenInv cf s \<and> sentInv s \<and> callInv s"

lemma rpcInv_init: "rpcInv cf NewServer"
proof -
  have "queueInv NewServer" "joinInv NewServer" "phaseInv NewServer" "callInv NewServer"
    by (simp_all add: queueInv_def joinInv_def phaseInv_def callInv_def NewServer_def)
  moreover have "tokenInv cf NewServer" by (simp add: tokenInv_def NewServer_def)
  moreover have "sentInv NewServer" by (simp add: sentInv_def NewServer_def tags_def List.map_filter_def)
  ultimately show ?thesis by (simp only: rpcInv_def)
qed

lemma rpcInv_work:
  assumes I: "rpcInv cf s" and W: "goStep cf s s'"
  shows "rpcInv cf s'"
proof -
  have "callInv s'" by (rule callInv_cong [of s]) (use I in \<open>simp_all add: rpcInv_def work_frame [OF W]\<close>)
  moreover have "joinInv s'" by (rule joinInv_cong [of s]) (use I in \<open>simp_all add: rpcInv_def work_frame [OF W]\<close>)
  ultimately show ?thesis using I queueInv_work [OF _ W] phaseInv_work [OF _ W] tokenInv_work [OF _ W] sentInv_work [OF _ W]
    unfolding rpcInv_def by blast
qed

lemma call_frame [simp]:
  "svQueues (RequestCall s) = svQueues s" "svPushed (RequestCall s) = svPushed s" "svDone (RequestCall s) = svDone s"
  "svRequests (RequestCall s) = svRequests s" "svTokens (RequestCall s) = svTokens s" "svSent (RequestCall s) = svSent s"
  "svQueues (RequestReturn k s) = svQueues s" "svPushed (RequestReturn k s) = svPushed s" "svDone (RequestReturn k s) = svDone s"
  "svRequests (RequestReturn k s) = svRequests s" "svTokens (RequestReturn k s) = svTokens s" "svSent (RequestReturn k s) = svSent s"
  by (simp_all add: RequestCall_def RequestReturn_def Let_def)

lemma rpcInv_cong:
  assumes "rpcInv cf s" "callInv t" "svQueues t = svQueues s" "svPushed t = svPushed s" "svDone t = svDone s"
    "svRequests t = svRequests s" "svTokens t = svTokens s" "svSent t = svSent s"
  shows "rpcInv cf t"
proof -
  have "tokenInv cf t = tokenInv cf s" "phaseInv t = phaseInv s" unfolding tokenInv_def phaseInv_def assms(3-) by (rule refl)+
  then show ?thesis using assms queueInv_cong [of s t] joinInv_cong [of s t] sentInv_cong [of s t]
    unfolding rpcInv_def by presburger
qed

lemma rpcInv_step:
  assumes I: "rpcInv cf s" and S: "step cf s s'"
  shows "rpcInv cf s'"
  using S
proof cases
  case (recv m)
  then show ?thesis using I queueInv_dispatch joinInv_dispatch phaseInv_dispatch tokenInv_dispatch sentInv_dispatch callInv_dispatch
    unfolding rpcInv_def by blast
next
  case works
  then show ?thesis by (rule rpcInv_work [OF I])
next
  case call
  have "callInv (RequestCall s)" using I callInv_call by (simp add: rpcInv_def)
  then show ?thesis unfolding call by (rule rpcInv_cong [OF I]) simp_all
next
  case (call_end key)
  have "callInv (RequestReturn key s)" using I callInv_return by (simp add: rpcInv_def)
  then show ?thesis unfolding call_end by (rule rpcInv_cong [OF I]) simp_all
qed

lemma rpcInv_reachable: "reachable cf s \<Longrightarrow> rpcInv cf s"
  by (induction rule: reachable.induct) (auto intro: rpcInv_init rpcInv_step)

section \<open>Ordering\<close>

text \<open>Pushed functions and accepted requests are only ever added.\<close>

lemma dispatch_grows:
  "(\<exists>x. svPushed (dispatch cf m s) k = svPushed s k @ x) \<and> (\<exists>x. map rqKey (svRequests (dispatch cf m s)) = map rqKey (svRequests s) @ x)"
proof (cases rule: dispatch_cases [of cf m s])
  case cancel
  have "map rqKey (map unmark (svRequests (dispatch cf m s))) = map rqKey (map unmark (svRequests s))"
    unfolding cancel handleCancel_unmark ..
  then show ?thesis by (simp add: cancel o_def)
qed (simp_all add: respond_def handleExit_def acceptRequest_def push_def Let_def)

lemma step_grows:
  assumes "step cf s s'"
  shows "(\<exists>x. svPushed s' k = svPushed s k @ x) \<and> (\<exists>x. map rqKey (svRequests s') = map rqKey (svRequests s) @ x)"
  using assms
proof cases
  case (recv m)
  then show ?thesis using dispatch_grows by simp
next
  case works
  then show ?thesis using work_frame [OF works] by simp
qed simp_all

lemma steps_grow:
  assumes "(step cf)\<^sup>*\<^sup>* s s'"
  shows "(\<exists>x. svPushed s' k = svPushed s k @ x) \<and> (\<exists>x. map rqKey (svRequests s') = map rqKey (svRequests s) @ x)"
  using assms
proof (induction rule: rtranclp_induct)
  case (step y z)
  then show ?case using step_grows [OF step.hyps(2), of k] by (metis append.assoc)
qed simp

lemma steps_reachable: "(step cf)\<^sup>*\<^sup>* s s' \<Longrightarrow> reachable cf s \<Longrightarrow> reachable cf s'"
  by (induction rule: rtranclp_induct) (auto intro: reachable.more)

lemma dispatch_accepts:
  assumes "length (svRequests (dispatch cf m s)) = Suc (length (svRequests s))"
  shows "svPushed (dispatch cf m s) (mKey m) = svPushed s (mKey m) @ [Join (length (svRequests s))]
    \<and> map rqKey (svRequests (dispatch cf m s)) = map rqKey (svRequests s) @ [mKey m]"
proof (cases rule: dispatch_cases [of cf m s])
  case (accept id' p)
  then show ?thesis by (simp add: acceptRequest_def push_def Let_def)
qed (use assms in \<open>simp_all add: respond_def handleExit_def push_def Let_def\<close>)

lemma count_list_distinct: "distinct xs \<Longrightarrow> count_list xs x = (if x \<in> set xs then 1 else 0)"
  by (induction xs) (auto simp: count_list_0_iff)

lemma append_prefix_member:
  assumes "a @ x # b = c @ d" "x \<in> set c" "x \<notin> set a"
  shows "\<exists>rest. c = a @ x # rest"
  using assms by (auto simp: append_eq_append_conv2 Cons_eq_append_conv)

definition initialize_msg :: message where
  "initialize_msg = \<lparr>mID = Some (lit ''1''), mMethod = lit ''initialize'', mKey = [], mCancelID = None\<rparr>"

definition open_msg :: message where
  "open_msg = \<lparr>mID = None, mMethod = lit ''open'', mKey = lit ''u'', mCancelID = None\<rparr>"

definition hover_msg :: message where
  "hover_msg = \<lparr>mID = Some (lit ''2''), mMethod = lit ''hover'', mKey = lit ''u'', mCancelID = None\<rparr>"

definition sample_config :: config where
  "sample_config = \<lparr>cfHandlers = (\<lambda>m. if m = lit ''initialize'' \<or> m = lit ''hover'' then Some Background else None),
     cfNotifications = (\<lambda>m. m = lit ''open''), cfPool = (\<lambda>p. newPool (case p of Interactive \<Rightarrow> 0 | Background \<Rightarrow> 1))\<rparr>"

definition opened :: server where
  "opened = dispatch sample_config open_msg (dispatch sample_config initialize_msg NewServer)"

lemma lits_differ [simp]:
  "lit ''initialize'' \<noteq> lit ''hover''" "lit ''hover'' \<noteq> lit ''initialize''" "lit ''hover'' \<noteq> lit ''shutdown''"
  "lit ''open'' \<noteq> lit ''exit''" "lit ''open'' \<noteq> lit ''$/cancelRequest''" "lit ''open'' \<noteq> []" "lit ''hover'' \<noteq> []" "lit ''initialize'' \<noteq> []"
  "lit ''u'' \<noteq> []"
  by code_simp+

lemma opened_simps [simp]:
  "svState opened = Initialized" "svPushed opened (lit ''u'') = [Notif (lit ''open'')]" "length (svRequests opened) = 1"
  "svDone opened k = []" "svQueues opened (lit ''u'') = \<lparr>nqPending = [Notif (lit ''open'')], nqRunning = True, nqCurrent = None\<rparr>"
  by (simp_all add: opened_def dispatch_def isRequest_def isNotification_def initialize_msg_def open_msg_def sample_config_def
      dispatchRequest_def dispatchNotification_def enterState_def acceptRequest_def push_def NewServer_def Let_def)

lemma opened_reachable: "reachable sample_config opened"
proof -
  have "reachable sample_config (dispatch sample_config initialize_msg NewServer)"
    by (rule reachable.more [OF reachable.init], rule step.recv) (simp add: NewServer_def)
  moreover have "svState (dispatch sample_config initialize_msg NewServer) \<noteq> Exited"
    by (simp add: dispatch_def isRequest_def initialize_msg_def sample_config_def
      dispatchRequest_def enterState_def acceptRequest_def push_def NewServer_def Let_def)
  ultimately show ?thesis unfolding opened_def by (blast intro: reachable.more step.recv)
qed

text \<open>A run in which the handler of the request following the notification starts.\<close>

definition asked :: server where
  "asked = dispatch sample_config hover_msg opened"

definition runJob :: "bytes \<Rightarrow> job \<Rightarrow> job list \<Rightarrow> server \<Rightarrow> server" where
  "runJob key j js s =
     (let s1 = setQueue key \<lparr>nqPending = js, nqRunning = True, nqCurrent = Some j\<rparr> s
      in (setQueue key \<lparr>nqPending = js, nqRunning = True, nqCurrent = None\<rparr> s1)
           \<lparr>svDone := (svDone s1)(key := svDone s1 key @ [j])\<rparr>)"

lemma steps_runJob:
  assumes "svQueues s key = \<lparr>nqPending = j # js, nqRunning = True, nqCurrent = None\<rparr>"
  shows "(step cf)\<^sup>*\<^sup>* s (runJob key j js s)"
proof -
  let ?s = "setQueue key \<lparr>nqPending = js, nqRunning = True, nqCurrent = Some j\<rparr> s"
  have "goStep cf s ?s" by (rule goStep.take_job [OF assms])
  moreover have "goStep cf ?s (runJob key j js s)"
    unfolding runJob_def Let_def by (rule goStep.finish_job) (simp add: setQueue_def)
  ultimately show ?thesis by (meson step.works r_into_rtranclp rtranclp_trans)
qed

lemma runJob_simps [simp]:
  "svRequests (runJob key j js s) = svRequests s" "svTokens (runJob key j js s) = svTokens s"
  "svDone (runJob key j js s) key = svDone s key @ [j]"
  "svQueues (runJob key j js s) key = \<lparr>nqPending = js, nqRunning = True, nqCurrent = None\<rparr>"
  by (simp_all add: runJob_def setQueue_def Let_def)

definition barrier_reached :: server where
  "barrier_reached = runJob (lit ''u'') (Join 1) [] (runJob (lit ''u'') (Notif (lit ''open'')) [Join 1] asked)"

definition serving :: server where
  "serving = setPhase 1 Handling (addToken sample_config Background (setPhase 1 Holding barrier_reached))"

lemma asked_simps [simp]:
  "svQueues asked (lit ''u'') = \<lparr>nqPending = [Notif (lit ''open''), Join 1], nqRunning = True, nqCurrent = None\<rparr>"
  "svRequests asked = svRequests opened @ [\<lparr>rqID = lit ''2'', rqKey = lit ''u'', rqPriority = Background, rqPhase = Queued, rqCancelled = False\<rparr>]"
  "svTokens asked p = 0" "svDone asked k = []"
proof -
  have "svTokens opened p = 0"
    by (simp add: opened_def dispatch_def isRequest_def isNotification_def initialize_msg_def open_msg_def sample_config_def
      dispatchRequest_def dispatchNotification_def enterState_def acceptRequest_def push_def NewServer_def Let_def)
  then show "svTokens asked p = 0" "svDone asked k = []"
    "svQueues asked (lit ''u'') = \<lparr>nqPending = [Notif (lit ''open''), Join 1], nqRunning = True, nqCurrent = None\<rparr>"
    "svRequests asked = svRequests opened @ [\<lparr>rqID = lit ''2'', rqKey = lit ''u'', rqPriority = Background, rqPhase = Queued, rqCancelled = False\<rparr>]"
    by (simp_all add: asked_def dispatch_def isRequest_def hover_msg_def sample_config_def dispatchRequest_def enterState_def
      acceptRequest_def push_def Let_def)
qed

lemma barrier_simps [simp]:
  "svRequests barrier_reached = svRequests asked" "svTokens barrier_reached p = 0"
  "svDone barrier_reached (lit ''u'') = [Notif (lit ''open''), Join 1]"
  by (simp_all add: barrier_reached_def)

lemma steps_serving: "(step sample_config)\<^sup>*\<^sup>* asked serving"
proof -
  have "(step sample_config)\<^sup>*\<^sup>* asked (runJob (lit ''u'') (Notif (lit ''open'')) [Join 1] asked)"
    by (rule steps_runJob) simp
  moreover have "(step sample_config)\<^sup>*\<^sup>* (runJob (lit ''u'') (Notif (lit ''open'')) [Join 1] asked) barrier_reached"
    unfolding barrier_reached_def by (rule steps_runJob) simp
  moreover have "step sample_config barrier_reached (addToken sample_config Background (setPhase 1 Holding barrier_reached))"
    using goStep.acquire [of 1 barrier_reached sample_config]
    by (simp add: step.works nth_append tokenFree_def sample_config_def newPool_def)
  moreover have "step sample_config (addToken sample_config Background (setPhase 1 Holding barrier_reached)) serving"
    unfolding serving_def by (rule step.works, rule goStep.start) (simp_all add: setPhase_def nth_append addToken_def)
  ultimately show ?thesis by (meson rtranclp.rtrancl_into_rtrancl rtranclp_trans)
qed

lemma serving_phase: "length (svRequests serving) = 2" "svRequests serving ! 1 =
    \<lparr>rqID = lit ''2'', rqKey = lit ''u'', rqPriority = Background, rqPhase = Handling, rqCancelled = False\<rparr>"
  by (simp_all add: serving_def setPhase_def nth_append)

text \<open>
  C32. A request's handler runs only after every function that was pushed onto the queue of its document
  before the request was read has finished. From any reachable state, when the read loop accepts a
  request, then in every later state in which that request's handler has started, the functions
  finished on the document's queue begin with all those pushed before, in the order they were
  pushed, followed by the request's own barrier.
\<close>

theorem rpc_request_after_notifications:
  assumes R: "reachable cf s0" and X: "svState s0 \<noteq> Exited"
    and A: "length (svRequests (dispatch cf m s0)) = Suc (length (svRequests s0))"
    and S: "(step cf)\<^sup>*\<^sup>* (dispatch cf m s0) s"
    and H: "started (rqPhase (svRequests s ! length (svRequests s0)))"
  shows "\<exists>rest. svDone s (mKey m) = svPushed s0 (mKey m) @ Join (length (svRequests s0)) # rest"
proof -
  let ?i = "length (svRequests s0)" and ?k = "mKey m"
  have "reachable cf s" using steps_reachable [OF S] reachable.more [OF R step.recv [OF X]] by blast
  then have I: "queueInv s" "phaseInv s" "joinInv s0" using rpcInv_reachable R unfolding rpcInv_def by blast+
  obtain x y where P: "svPushed s ?k = svPushed s0 ?k @ Join ?i # x"
    and K: "map rqKey (svRequests s) = map rqKey (svRequests s0) @ mKey m # y"
    using steps_grow [OF S, of ?k] dispatch_accepts [OF A] by auto
  have L: "?i < length (svRequests s)" using arg_cong [OF K, of length] by simp
  have "map rqKey (svRequests s) ! ?i = ?k" unfolding K by (simp add: nth_append)
  then have E: "rqKey (svRequests s ! ?i) = ?k" by (simp only: nth_map [OF L])
  have "Join ?i \<in> set (svDone s (rqKey (svRequests s ! ?i)))" using I(2) L H by (simp add: phaseInv_def)
  then have J: "Join ?i \<in> set (svDone s ?k)" by (simp only: E)
  have "Join ?i \<notin> set (svPushed s0 ?k)"
  proof
    assume "Join ?i \<in> set (svPushed s0 ?k)"
    then have "?i < ?i" using I(3) unfolding joinInv_def by blast
    then show False by simp
  qed
  with J show ?thesis using append_prefix_member [OF trans [OF P [symmetric] queueInv_at [OF I(1), of ?k]]] by blast
qed

theorem rpc_request_after_notifications_witness:
  "\<exists>rest. svDone serving (lit ''u'') = [Notif (lit ''open''), Join 1] @ rest"
proof -
  have "length (svRequests (dispatch sample_config hover_msg opened)) = Suc (length (svRequests opened))"
    using asked_simps(2) by (simp add: asked_def)
  from rpc_request_after_notifications [OF opened_reachable _ this, of serving] show ?thesis
    using steps_serving unfolding asked_def [symmetric] by (simp add: started_def serving_phase [simplified]) (simp add: hover_msg_def)
qed



section \<open>Draining\<close>

text \<open>An upper bound of the number of steps the goroutines can still take.\<close>

fun phaseLeft :: "phase \<Rightarrow> nat" where
  "phaseLeft Queued = 4"
| "phaseLeft Holding = 3"
| "phaseLeft Handling = 2"
| "phaseLeft Answered = 1"
| "phaseLeft Retired = 0"

definition queueLeft :: "notif_queue \<Rightarrow> nat" where
  "queueLeft q = 3 * length (nqPending q) + (if nqCurrent q = None then 0 else 2) + (if nqRunning q then 1 else 0)"

definition workLeft :: "server \<Rightarrow> nat" where
  "workLeft s = (\<Sum>k | svPushed s k \<noteq> []. queueLeft (svQueues s k)) + sum_list (map (phaseLeft \<circ> rqPhase) (svRequests s))"

definition keysInv :: "server \<Rightarrow> bool" where
  "keysInv s \<longleftrightarrow> finite {k. svPushed s k \<noteq> []} \<and> (\<forall>k. nqRunning (svQueues s k) \<longrightarrow> svPushed s k \<noteq> [])"

lemma keysInv_cong: "keysInv s \<Longrightarrow> svQueues t = svQueues s \<Longrightarrow> svPushed t = svPushed s \<Longrightarrow> keysInv t"
  by (simp add: keysInv_def)

lemma keysInv_push:
  assumes "keysInv s"
  shows "keysInv (push k j s)"
proof -
  have "{k'. svPushed (push k j s) k' \<noteq> []} = insert k {k. svPushed s k \<noteq> []}" by (auto simp: push_def Let_def)
  then show ?thesis using assms unfolding keysInv_def by (simp add: push_def Let_def)
qed

lemma keysInv_dispatch:
  assumes I: "keysInv s"
  shows "keysInv (dispatch cf m s)"
proof (cases rule: dispatch_cases [of cf m s])
  case (accept id' p)
  show ?thesis unfolding accept acceptRequest_def Let_def by (rule keysInv_push, rule keysInv_cong [OF I]) simp_all
next
  case notify
  then show ?thesis by (simp add: keysInv_push I)
qed (rule keysInv_cong [OF I]; simp add: respond_def handleExit_def)+

lemma keysInv_work:
  assumes I: "keysInv s" and W: "goStep cf s s'"
  shows "keysInv s'"
proof -
  have "nqRunning (svQueues s' k) \<longrightarrow> nqRunning (svQueues s k)" for k
    using W by cases (auto simp: rpc_defs)
  then show ?thesis using I unfolding keysInv_def work_frame(1) [OF W] by blast
qed

lemma keysInv_reachable: "reachable cf s \<Longrightarrow> keysInv s"
proof (induction rule: reachable.induct)
  case init
  then show ?case by (simp add: keysInv_def NewServer_def)
next
  case (more s s')
  from more.hyps(2) show ?case
  proof cases
    case (recv m)
    then show ?thesis using keysInv_dispatch more.IH by simp
  next
    case works
    then show ?thesis by (rule keysInv_work [OF more.IH])
  qed (rule keysInv_cong [OF more.IH]; simp)+
qed

lemma left_setQueue:
  assumes I: "keysInv s" and R: "nqRunning (svQueues s key)" and L: "queueLeft q < queueLeft (svQueues s key)"
  shows "(\<Sum>k | svPushed s k \<noteq> []. queueLeft (((svQueues s)(key := q)) k)) < (\<Sum>k | svPushed s k \<noteq> []. queueLeft (svQueues s k))"
proof (rule sum_strict_mono_ex1)
  show "finite {k. svPushed s k \<noteq> []}" using I by (simp add: keysInv_def)
  show "\<exists>a \<in> {k. svPushed s k \<noteq> []}. queueLeft (((svQueues s)(key := q)) a) < queueLeft (svQueues s a)"
    using I R L by (intro bexI [of _ key]) (auto simp: keysInv_def)
qed (use L in auto)

lemma left_setPhase:
  assumes i: "i < length rs" and L: "phaseLeft p < phaseLeft (rqPhase (rs ! i))"
  shows "sum_list (map (phaseLeft \<circ> rqPhase) (rs[i := (rs ! i)\<lparr>rqPhase := p\<rparr>])) < sum_list (map (phaseLeft \<circ> rqPhase) rs)"
proof -
  let ?f = "phaseLeft \<circ> rqPhase"
  have rs: "rs = take i rs @ rs ! i # drop (Suc i) rs" using i by (rule id_take_nth_drop)
  have "rs[i := (rs ! i)\<lparr>rqPhase := p\<rparr>] = take i rs @ (rs ! i)\<lparr>rqPhase := p\<rparr> # drop (Suc i) rs" by (rule upd_conv_take_nth_drop [OF i])
  moreover have "sum_list (map ?f rs) = sum_list (map ?f (take i rs)) + ?f (rs ! i) + sum_list (map ?f (drop (Suc i) rs))"
    by (subst rs) simp
  ultimately show ?thesis using L by simp
qed

lemma workLeft_queue:
  assumes "keysInv s" "nqRunning (svQueues s key)" "queueLeft q < queueLeft (svQueues s key)"
    and "svPushed s' = svPushed s" "svRequests s' = svRequests s" "svQueues s' = (svQueues s)(key := q)"
  shows "workLeft s' < workLeft s"
  using left_setQueue [OF assms(1-3)] unfolding workLeft_def assms(4-) by simp

lemma workLeft_phase:
  assumes "i < length (svRequests s)" "phaseLeft p < phaseLeft (rqPhase (svRequests s ! i))"
    and "svPushed s' = svPushed s" "svQueues s' = svQueues s" "svRequests s' = (svRequests s)[i := (svRequests s ! i)\<lparr>rqPhase := p\<rparr>]"
  shows "workLeft s' < workLeft s"
  using left_setPhase [OF assms(1,2)] unfolding workLeft_def assms(3-) by simp

lemma workLeft_decreases:
  assumes I: "keysInv s" and W: "goStep cf s s'"
  shows "workLeft s' < workLeft s"
  using W
proof cases
  case (take_job key j js)
  show ?thesis
    by (rule workLeft_queue [OF I, of key "\<lparr>nqPending = js, nqRunning = True, nqCurrent = Some j\<rparr>"])
      (simp_all add: take_job setQueue_def queueLeft_def)
next
  case (idle key)
  show ?thesis
    by (rule workLeft_queue [OF I, of key "\<lparr>nqPending = [], nqRunning = False, nqCurrent = None\<rparr>"])
      (simp_all add: idle setQueue_def queueLeft_def)
next
  case (finish_job key js j)
  show ?thesis
    by (rule workLeft_queue [OF I, of key "\<lparr>nqPending = js, nqRunning = True, nqCurrent = None\<rparr>"])
      (simp_all add: finish_job setQueue_def queueLeft_def)
next
  case (acquire i)
  show ?thesis by (rule workLeft_phase [of i s Holding]) (simp_all add: acquire addToken_def setPhase_def)
next
  case (start i)
  show ?thesis by (rule workLeft_phase [of i s Handling]) (simp_all add: start setPhase_def)
next
  case (reply i out)
  show ?thesis by (rule workLeft_phase [of i s Answered]) (simp_all add: reply answer_def respond_def setPhase_def)
next
  case (ret i)
  show ?thesis by (rule workLeft_phase [of i s Retired]) (simp_all add: ret retireRequest_def dropToken_def setPhase_def Let_def)
qed

lemma works_bounded: "(goStep cf ^^ n) s s' \<Longrightarrow> keysInv s \<Longrightarrow> n + workLeft s' \<le> workLeft s \<and> keysInv s'"
proof (induction n arbitrary: s')
  case (Suc n)
  then obtain t where "(goStep cf ^^ n) s t" "goStep cf t s'" by auto
  then show ?case using Suc workLeft_decreases [of t cf s'] keysInv_work [of t cf s'] by fastforce
qed simp

definition drained :: "server \<Rightarrow> bool" where
  "drained s \<longleftrightarrow> (\<forall>k. svQueues s k = \<lparr>nqPending = [], nqRunning = False, nqCurrent = None\<rparr>)
     \<and> (\<forall>r \<in> set (svRequests s). rqPhase r = Retired)"

lemma queue_works:
  assumes I: "queueInv s" and Q: "svQueues s k \<noteq> \<lparr>nqPending = [], nqRunning = False, nqCurrent = None\<rparr>"
  shows "\<exists>s'. goStep cf s s'"
proof -
  obtain ps rn c where q: "svQueues s k = \<lparr>nqPending = ps, nqRunning = rn, nqCurrent = c\<rparr>" by (cases "svQueues s k") auto
  have "ps \<noteq> [] \<or> c \<noteq> None \<longrightarrow> rn" using I q unfolding queueInv_def by (metis notif_queue.select_convs)
  then have "rn" using Q q by auto
  show ?thesis
  proof (cases c)
    case None
    then show ?thesis using q \<open>rn\<close> take_job [of s k _ _ cf] idle [of s k cf] by (cases ps) auto
  next
    case (Some j)
    then show ?thesis using q \<open>rn\<close> finish_job [of s k ps j cf] by auto
  qed
qed

lemma request_works:
  assumes I: "rpcInv cf s" and P: "cfPool cf = newPool \<circ> sz"
    and Q: "\<forall>k. svQueues s k = \<lparr>nqPending = [], nqRunning = False, nqCurrent = None\<rparr>"
    and i: "i < length (svRequests s)" and N: "rqPhase (svRequests s ! i) \<noteq> Retired"
  shows "\<exists>s'. goStep cf s s'"
proof -
  let ?p = "rqPriority (svRequests s ! i)"
  have D: "svDone s k = svPushed s k" for k using I Q by (simp add: rpcInv_def queueInv_def)
  have started: "\<exists>s'. goStep cf s s'" if "j < length (svRequests s)" "holds p (svRequests s ! j)" for j p
  proof -
    have "Join j \<in> set (svDone s (rqKey (svRequests s ! j)))" using I that(1) D by (simp add: rpcInv_def joinInv_def)
    then show ?thesis using that start [of j s cf] reply [of j s cf] ret [of j s cf] unfolding holds_def by blast
  qed
  show ?thesis
  proof (cases "rqPhase (svRequests s ! i) = Queued \<and> tokenFree cf ?p s")
    case True
    then show ?thesis using acquire [OF i, of cf] by blast
  next
    case False
    show ?thesis
    proof (cases "rqPhase (svRequests s ! i) = Queued")
      case True
      then obtain n where n: "cfPool cf ?p = Some n" "n \<le> svTokens s ?p" using False by (auto simp: tokenFree_def split: option.splits)
      then have "0 < n" using P by (auto simp: newPool_def split: if_splits)
      then have "length (filter (holds ?p) (svRequests s)) \<noteq> 0" using I n tokenInvD [of cf s ?p n] unfolding rpcInv_def by linarith
      then obtain r where "r \<in> set (svRequests s)" "holds ?p r" by (auto simp: filter_empty_conv)
      then show ?thesis using started by (metis in_set_conv_nth)
    next
      case False
      then have "holds ?p (svRequests s ! i)" using N unfolding holds_def by (cases "rqPhase (svRequests s ! i)") auto
      then show ?thesis by (rule started [OF i])
    qed
  qed
qed

text \<open>
  C34. The request and queue goroutines cannot deadlock and always come to rest. From any reachable
  state, whatever the pool sizes given to \<open>newPool\<close>, no schedule of their steps is longer than
  \<open>workLeft\<close>, and a state in which none of them can move is drained: every queue is idle and
  every accepted request has been answered and has returned its token. All along, the requests holding a token of a bounded pool
  are no more than its size.
\<close>

theorem rpc_drains:
  assumes R: "reachable cf s" and P: "cfPool cf = newPool \<circ> sz"
  shows "((goStep cf ^^ n) s s' \<longrightarrow> n \<le> workLeft s)
    \<and> ((\<exists>s'. goStep cf s s') \<or> drained s)
    \<and> (0 < sz p \<longrightarrow> int (length (filter (holds p) (svRequests s))) \<le> sz p)"
proof -
  have I: "rpcInv cf s" by (rule rpcInv_reachable [OF R])
  have "drained s" if "\<not> (\<exists>s'. goStep cf s s')"
  proof -
    have "svQueues s k = \<lparr>nqPending = [], nqRunning = False, nqCurrent = None\<rparr>" for k
      using queue_works [of s k cf] I that unfolding rpcInv_def by blast
    then show ?thesis using request_works [OF I P] that unfolding drained_def by (metis in_set_conv_nth)
  qed
  moreover have "int (length (filter (holds p) (svRequests s))) \<le> sz p" if "0 < sz p"
  proof -
    have "cfPool cf p = Some (nat (sz p))" using P that by (simp add: newPool_def)
    then have "length (filter (holds p) (svRequests s)) \<le> nat (sz p)" using I tokenInvD [of cf s p] unfolding rpcInv_def by metis
    then show ?thesis using that by linarith
  qed
  ultimately show ?thesis using works_bounded [OF _ keysInv_reachable [OF R], of n cf s'] by auto
qed

theorem rpc_drains_witness: "\<exists>s'. goStep sample_config opened s'"
proof -
  have "cfPool sample_config = newPool \<circ> case_priority 0 1" by (auto simp: sample_config_def)
  from rpc_drains [OF opened_reachable this, of 0 opened Background] show ?thesis
    by (auto simp: drained_def dest: spec [of _ "lit ''u''"])
qed

end
