(* ===== verification/Graph.thy ===== *)
theory Graph
  imports Golance_Prelude
begin

text \<open>
  The import graph of \<open>internal/graph/graph.go\<close>: folding the packages that
  \<open>go/packages\<close> reports into one node per import path, the topological build order by
  Kahn's algorithm, the reverse-dependency index, and the reverse closure of a package.

  A Go map that is only looked up is a HOL map. Where the code ranges over a map, the order
  in which Go enumerates it is a list argument (\<open>ks\<close>, or the list itself for a map used
  as a set), about which only its elements are assumed.
\<close>

section \<open>Packages and snapshots\<close>

type_synonym path = bytes

record package =
  pkImportPath :: path
  pkName :: bytes
  pkDir :: bytes
  pkGoFiles :: "bytes list"
  pkImports :: "path list"
  pkTestImports :: "path list"
  pkForTest :: path
  pkRoot :: bool

text \<open>
  What the code reads of a \<open>packages.Package\<close>: the imports are the values of the
  \<open>Imports\<close> map (only their \<open>PkgPath\<close> is used), in the order Go enumerates them.
\<close>

record loaded_package =
  lpPkgPath :: path
  lpName :: bytes
  lpDir :: bytes
  lpGoFiles :: "bytes list"
  lpImports :: "(bytes \<times> path) list"
  lpForTest :: path

type_synonym package_map = "path \<rightharpoonup> package"

record snapshot =
  snPackages :: package_map
  snOrder :: "path list"
  snDir :: bytes
  snRevDeps :: "path \<Rightarrow> path list"
  snPos :: "path \<rightharpoonup> nat"
  snBuildFlagsFP :: bytes

section \<open>From loaded packages to graph nodes\<close>

definition isSyntheticTestBinary :: "loaded_package \<Rightarrow> bool" where
  "isSyntheticTestBinary p \<longleftrightarrow> lpName p = lit ''main'' \<and> suffix (lit ''.test'') (lpPkgPath p)"

fun importLoop :: "path set \<Rightarrow> path list \<Rightarrow> (bytes \<times> path) list \<Rightarrow> path list" where
  "importLoop seen imports [] = imports"
| "importLoop seen imports ((_, pkgPath) # rest) =
     (if pkgPath \<in> seen then importLoop seen imports rest
      else importLoop (insert pkgPath seen) (imports @ [pkgPath]) rest)"

definition importPaths :: "loaded_package \<Rightarrow> path list" where
  "importPaths p = sort (importLoop {} [] (lpImports p))"

definition extraImports :: "path list \<Rightarrow> path list \<Rightarrow> path list" where
  "extraImports base testImports = filter (\<lambda>t. t \<notin> set base) testImports"

definition ordinaryNode :: "(path \<Rightarrow> bool) \<Rightarrow> loaded_package \<Rightarrow> package" where
  "ordinaryNode rootSet p = \<lparr>pkImportPath = lpPkgPath p, pkName = lpName p, pkDir = lpDir p,
     pkGoFiles = lpGoFiles p, pkImports = importPaths p, pkTestImports = [], pkForTest = [],
     pkRoot = rootSet (lpPkgPath p)\<rparr>"

definition fromOrdinary :: "(path \<Rightarrow> bool) \<Rightarrow> loaded_package \<Rightarrow> package_map \<Rightarrow> package_map" where
  "fromOrdinary rootSet p out =
     (if lpForTest p \<noteq> [] \<or> isSyntheticTestBinary p then out
      else out(lpPkgPath p \<mapsto> ordinaryNode rootSet p))"

definition fromVariant :: "loaded_package \<Rightarrow> package_map \<Rightarrow> package_map" where
  "fromVariant p out =
     (if lpForTest p = [] \<or> isSyntheticTestBinary p then out
      else if lpPkgPath p = lpForTest p then
        (case out (lpPkgPath p) of
           Some base \<Rightarrow> out(lpPkgPath p \<mapsto>
             base\<lparr>pkTestImports := extraImports (pkImports base) (importPaths p)\<rparr>)
         | None \<Rightarrow> out)
      else if out (lpPkgPath p) \<noteq> None then out
      else out(lpPkgPath p \<mapsto> (ordinaryNode (\<lambda>_. False) p)\<lparr>pkForTest := lpForTest p\<rparr>))"

definition fromPackages :: "loaded_package list \<Rightarrow> (path \<Rightarrow> bool) \<Rightarrow> package_map" where
  "fromPackages pkgs rootSet = fold fromVariant pkgs (fold (fromOrdinary rootSet) pkgs Map.empty)"

text \<open>The root marking of \<open>Load\<close>.\<close>

definition rootSet :: "loaded_package list \<Rightarrow> path \<Rightarrow> bool" where
  "rootSet roots path \<longleftrightarrow>
     path \<in> lpPkgPath ` {p \<in> set roots. lpForTest p = [] \<and> \<not> isSyntheticTestBinary p}"

section \<open>Kahn's algorithm\<close>

type_synonym indegrees = "path \<Rightarrow> int"
type_synonym dependents = "path \<Rightarrow> path list"

definition kahnEdge :: "path list \<Rightarrow> path \<Rightarrow> path \<Rightarrow> indegrees \<times> dependents \<Rightarrow> indegrees \<times> dependents" where
  "kahnEdge scope path dep = (\<lambda>(indegree, dependents).
     if dep \<notin> set scope then (indegree, dependents)
     else (indegree(path := indegree path + 1), dependents(dep := dependents dep @ [path])))"

definition kahnInit :: "path list \<Rightarrow> (path \<Rightarrow> path list) \<Rightarrow> indegrees \<times> dependents" where
  "kahnInit scope edgesOf =
     fold (\<lambda>path. fold (kahnEdge scope path) (edgesOf path)) scope (\<lambda>_. 0, \<lambda>_. [])"

record kahn =
  kReady :: "path list"
  kIndegree :: indegrees
  kOrder :: "path list"
  kPlaced :: "path set"

definition kahnRelease :: "path \<Rightarrow> indegrees \<times> path list \<Rightarrow> indegrees \<times> path list" where
  "kahnRelease dep = (\<lambda>(indegree, newlyReady).
     let d = indegree dep - 1
     in (indegree(dep := d), if d = 0 then newlyReady @ [dep] else newlyReady))"

definition kahnStep :: "dependents \<Rightarrow> kahn \<Rightarrow> kahn" where
  "kahnStep dependents st =
     (let path = hd (kReady st);
          ready = tl (kReady st);
          (indegree, newlyReady) = fold kahnRelease (dependents path) (kIndegree st, [])
      in \<lparr>kReady = (if newlyReady \<noteq> [] then sort (ready @ newlyReady) else ready),
          kIndegree = indegree, kOrder = kOrder st @ [path], kPlaced = insert path (kPlaced st)\<rparr>)"

text \<open>The loop \<open>for len(ready) > 0\<close>, with a bound on its rounds.\<close>

fun kahnLoop :: "nat \<Rightarrow> dependents \<Rightarrow> kahn \<Rightarrow> kahn" where
  "kahnLoop 0 dependents st = st"
| "kahnLoop (Suc n) dependents st =
     (if kReady st = [] then st else kahnLoop n dependents (kahnStep dependents st))"

definition kahnStart :: "path list \<Rightarrow> (path \<Rightarrow> path list) \<Rightarrow> kahn" where
  "kahnStart scope edgesOf =
     (let (indegree, dependents) = kahnInit scope edgesOf
      in \<lparr>kReady = sort (filter (\<lambda>path. indegree path = 0) scope), kIndegree = indegree,
          kOrder = [], kPlaced = {}\<rparr>)"

definition kahnPass :: "path list \<Rightarrow> (path \<Rightarrow> path list) \<Rightarrow> kahn" where
  "kahnPass scope edgesOf =
     kahnLoop (length scope) (snd (kahnInit scope edgesOf)) (kahnStart scope edgesOf)"

section \<open>The build order\<close>

definition importsOf :: "package_map \<Rightarrow> path \<Rightarrow> path list" where
  "importsOf pkgs path = (case pkgs path of Some pkg \<Rightarrow> pkImports pkg | None \<Rightarrow> [])"

definition allImportsOf :: "package_map \<Rightarrow> path \<Rightarrow> path list" where
  "allImportsOf pkgs path =
     (case pkgs path of Some pkg \<Rightarrow> pkImports pkg @ pkTestImports pkg | None \<Rightarrow> [])"

definition topoOrder :: "path list \<Rightarrow> package_map \<Rightarrow> path list" where
  "topoOrder ks pkgs =
     (let k = kahnPass ks (allImportsOf pkgs); order = kOrder k
      in if length order = length ks then order
         else let remaining = filter (\<lambda>path. path \<notin> kPlaced k) ks
           in order @ kOrder (kahnPass remaining (importsOf pkgs)))"

definition addRevDeps :: "package_map \<Rightarrow> path \<Rightarrow> path list \<Rightarrow> (path \<Rightarrow> path list) \<Rightarrow> path \<Rightarrow> path list" where
  "addRevDeps pkgs path imports revDeps =
     fold (\<lambda>imp rd. if pkgs imp = None then rd else rd(imp := rd imp @ [path])) imports revDeps"

definition addPackageRevDeps :: "package_map \<Rightarrow> path \<Rightarrow> (path \<Rightarrow> path list) \<Rightarrow> path \<Rightarrow> path list" where
  "addPackageRevDeps pkgs path revDeps =
     (case pkgs path of
        None \<Rightarrow> revDeps
      | Some pkg \<Rightarrow> addRevDeps pkgs path (pkTestImports pkg)
          (addRevDeps pkgs path (pkImports pkg) revDeps))"

definition positions :: "path list \<Rightarrow> path \<rightharpoonup> nat" where
  "positions order = map_of (rev (zip order [0..<length order]))"

definition newSnapshot :: "path list \<Rightarrow> package_map \<Rightarrow> bytes \<Rightarrow> snapshot" where
  "newSnapshot ks pkgs dir =
     (let order = topoOrder ks pkgs;
          revDeps = fold (addPackageRevDeps pkgs) ks (\<lambda>_. [])
      in \<lparr>snPackages = pkgs, snOrder = order, snDir = dir, snRevDeps = (\<lambda>p. sort (revDeps p)),
          snPos = positions order, snBuildFlagsFP = []\<rparr>)"

definition Before :: "snapshot \<Rightarrow> path \<Rightarrow> path \<Rightarrow> bool" where
  "Before s a b =
     (case snPos s a of
        None \<Rightarrow> False
      | Some pa \<Rightarrow> (case snPos s b of None \<Rightarrow> False | Some pb \<Rightarrow> pa < pb))"

section \<open>The reverse closure\<close>

fun closureVisit :: "path list \<Rightarrow> path list \<times> path list \<Rightarrow> path list \<times> path list" where
  "closureVisit [] (seen, queue) = (seen, queue)"
| "closureVisit (importer # rest) (seen, queue) =
     (if importer \<notin> set seen then closureVisit rest (seen @ [importer], queue @ [importer])
      else closureVisit rest (seen, queue))"

text \<open>The loop \<open>for len(queue) > 0\<close>, with a bound on its rounds.\<close>

fun closureLoop :: "nat \<Rightarrow> (path \<Rightarrow> path list) \<Rightarrow> path list \<times> path list \<Rightarrow> path list \<times> path list" where
  "closureLoop 0 revDeps st = st"
| "closureLoop (Suc n) revDeps (seen, queue) =
     (case queue of
        [] \<Rightarrow> (seen, queue)
      | path # queue' \<Rightarrow> closureLoop n revDeps (closureVisit (revDeps path) (seen, queue')))"

definition ClosureUnits :: "snapshot \<Rightarrow> path \<Rightarrow> path list" where
  "ClosureUnits s pkgPath =
     sort (fst (closureLoop (Suc (length (snOrder s))) (snRevDeps s) ([pkgPath], [pkgPath])))"

section \<open>Kahn's algorithm is the greedy topological order\<close>

definition inScope :: "path list \<Rightarrow> (path \<Rightarrow> path list) \<Rightarrow> path \<Rightarrow> path list" where
  "inScope scope edgesOf p = filter (\<lambda>d. d \<in> set scope) (edgesOf p)"

text \<open>The members of the scope that are not placed yet and whose dependencies all are.\<close>

definition readySet :: "path list \<Rightarrow> (path \<Rightarrow> path list) \<Rightarrow> path list \<Rightarrow> path set" where
  "readySet scope edgesOf order =
     {p \<in> set scope. p \<notin> set order \<and> set (inScope scope edgesOf p) \<subseteq> set order}"

definition depsFirst :: "(path \<Rightarrow> path list) \<Rightarrow> path list \<Rightarrow> bool" where
  "depsFirst edges order \<longleftrightarrow> (\<forall>i < length order. set (edges (order ! i)) \<subseteq> set (take i order))"

definition kahnInv :: "path list \<Rightarrow> (path \<Rightarrow> path list) \<Rightarrow> kahn \<Rightarrow> bool" where
  "kahnInv scope edgesOf st \<longleftrightarrow>
     distinct (kOrder st) \<and> set (kOrder st) \<subseteq> set scope \<and> kPlaced st = set (kOrder st)
     \<and> (\<forall>p \<in> set scope. kIndegree st p =
          int (length (filter (\<lambda>d. d \<notin> set (kOrder st)) (inScope scope edgesOf p))))
     \<and> kReady st = sorted_list_of_set (readySet scope edgesOf (kOrder st))
     \<and> depsFirst (inScope scope edgesOf) (kOrder st)"

lemma kahnEdge_fold:
  "fold (kahnEdge scope path) es (i, d) =
     (i(path := i path + int (length (filter (\<lambda>x. x \<in> set scope) es))),
      \<lambda>x. d x @ replicate (if x \<in> set scope then count_list es x else 0) path)"
proof (induction es arbitrary: i d)
  case (Cons e es)
  then show ?case
    by (auto simp: kahnEdge_def fun_eq_iff replicate_app_Cons_same)
qed (simp add: fun_eq_iff)

lemma count_list_replicate: "count_list (replicate n x) y = (if x = y then n else 0)"
  by (induction n) auto

lemma kahnInit_fold:
  assumes "distinct xs"
  shows "fst (fold (\<lambda>path. fold (kahnEdge scope path) (edgesOf path)) xs (i, d)) p
      = i p + (if p \<in> set xs then int (length (inScope scope edgesOf p)) else 0)"
    and "count_list (snd (fold (\<lambda>path. fold (kahnEdge scope path) (edgesOf path)) xs (i, d)) x) p
      = count_list (d x) p + (if p \<in> set xs then count_list (inScope scope edgesOf p) x else 0)"
  using assms
proof (induction xs arbitrary: i d)
  case (Cons a xs)
  { case 1 then show ?case by (auto simp: kahnEdge_fold Cons.IH inScope_def) }
  { case 2
    have "count_list (filter (\<lambda>d. d \<in> set scope) es) x = (if x \<in> set scope then count_list es x else 0)"
      for es by (induction es) auto
    then show ?case using 2 by (auto simp: kahnEdge_fold Cons.IH inScope_def count_list_replicate) }
qed simp_all

lemma kahnInit_indegree:
  "distinct scope \<Longrightarrow> fst (kahnInit scope edgesOf) p =
     (if p \<in> set scope then int (length (inScope scope edgesOf p)) else 0)"
  by (simp add: kahnInit_def kahnInit_fold)

lemma kahnInit_dependents:
  "distinct scope \<Longrightarrow> count_list (snd (kahnInit scope edgesOf) x) p =
     (if p \<in> set scope then count_list (inScope scope edgesOf p) x else 0)"
  by (simp add: kahnInit_def kahnInit_fold)

lemma kahnRelease_fold:
  assumes "\<And>x. x \<in> set ds \<Longrightarrow> int (count_list ds x) \<le> i x"
  shows "\<exists>new. fold kahnRelease ds (i, nr) = (\<lambda>x. i x - int (count_list ds x), nr @ new)
    \<and> distinct new \<and> set new = {x \<in> set ds. i x = int (count_list ds x)}"
  using assms
proof (induction ds arbitrary: i nr)
  case (Cons d ds)
  let ?i = "i(d := i d - 1)"
  have prem: "int (count_list ds x) \<le> ?i x" if "x \<in> set ds" for x
    using Cons.prems [of x] that by (auto split: if_splits)
  obtain new where new: "fold kahnRelease ds (?i, if i d - 1 = 0 then nr @ [d] else nr) =
      (\<lambda>x. ?i x - int (count_list ds x), (if i d - 1 = 0 then nr @ [d] else nr) @ new)"
    "distinct new" "set new = {x \<in> set ds. ?i x = int (count_list ds x)}"
    using Cons.IH [OF prem] by blast
  have here: "d \<notin> set ds" if "i d = 1"
    using Cons.prems [of d] that count_list_0_iff [of ds d] by auto
  have zero: "count_list ds d = 0 \<longleftrightarrow> d \<notin> set ds" by (rule count_list_0_iff)
  have step: "fold kahnRelease (d # ds) (i, nr) =
      fold kahnRelease ds (?i, if i d - 1 = 0 then nr @ [d] else nr)"
    by (simp add: kahnRelease_def Let_def)
  have left: "(\<lambda>x. ?i x - int (count_list ds x)) = (\<lambda>x. i x - int (count_list (d # ds) x))"
    by (auto simp: fun_eq_iff)
  show ?case
  proof (cases "i d = 1")
    case True
    then have "set (d # new) = {x \<in> set (d # ds). i x = int (count_list (d # ds) x)}"
      using here [OF True] True by (auto simp: new(3))
    moreover have "fold kahnRelease (d # ds) (i, nr) =
        (\<lambda>x. i x - int (count_list (d # ds) x), nr @ d # new)"
      unfolding step new(1) left using True by (simp only: diff_self refl if_True append.simps append_assoc)
    moreover have "distinct (d # new)" using new(2,3) here [OF True] by simp
    ultimately show ?thesis by blast
  next
    case False
    have "x \<in> set new \<longleftrightarrow> x \<in> {x \<in> set (d # ds). i x = int (count_list (d # ds) x)}" for x
    proof (cases "x = d")
      case True
      have "i d - 1 = int (count_list ds d) \<longleftrightarrow> i d = int (count_list (d # ds) d)" by (simp add: diff_eq_eq add.commute)
      moreover have "i d \<noteq> int (count_list (d # ds) d)" if "d \<notin> set ds" using that zero False by simp
      ultimately show ?thesis unfolding new(3) True by (auto simp del: count_list.simps)
    qed (simp add: new(3))
    then have "set new = {x \<in> set (d # ds). i x = int (count_list (d # ds) x)}" by blast
    moreover have "fold kahnRelease (d # ds) (i, nr) =
        (\<lambda>x. i x - int (count_list (d # ds) x), nr @ new)"
      unfolding step new(1) left using False by (simp only: right_minus_eq if_False)
    ultimately show ?thesis using new(2) by blast
  qed
qed simp

lemma finite_readySet [simp]: "finite (readySet scope edgesOf order)"
  by (simp add: readySet_def)

lemma length_filter_split:
  "x \<notin> A \<Longrightarrow> length (filter (\<lambda>d. d \<notin> A) xs)
    = count_list xs x + length (filter (\<lambda>d. d \<notin> insert x A) xs)"
  by (induction xs) auto

lemma depsFirst_snoc:
  "depsFirst edges (order @ [x]) \<longleftrightarrow> depsFirst edges order \<and> set (edges x) \<subseteq> set order"
  by (auto simp: depsFirst_def nth_append less_Suc_eq)

lemma sort_distinct_set: "distinct xs \<Longrightarrow> sort (filter P xs) = sorted_list_of_set {x \<in> set xs. P x}"
  for xs :: "'a::linorder list"
  using sorted_list_of_set_sort_remdups [of "filter P xs"] by (simp add: distinct_remdups_id)

lemma kahnStart_inv: "distinct scope \<Longrightarrow> kahnInv scope edgesOf (kahnStart scope edgesOf)"
proof -
  assume d: "distinct scope"
  have "filter (\<lambda>p. fst (kahnInit scope edgesOf) p = 0) scope
      = filter (\<lambda>p. inScope scope edgesOf p = []) scope"
    using d by (intro filter_cong) (auto simp: kahnInit_indegree)
  moreover have "sort (filter (\<lambda>p. inScope scope edgesOf p = []) scope)
      = sorted_list_of_set (readySet scope edgesOf [])"
    using d by (simp add: readySet_def sort_distinct_set)
  ultimately show ?thesis
    using d by (simp add: kahnInv_def kahnStart_def depsFirst_def case_prod_beta kahnInit_indegree
        del: fst_conv snd_conv)
qed

lemma readySet_snoc:
  assumes inv: "kahnInv scope edgesOf st" and x: "x \<in> readySet scope edgesOf (kOrder st)"
  shows "readySet scope edgesOf (kOrder st @ [x]) =
    (readySet scope edgesOf (kOrder st) - {x}) \<union>
    {p \<in> set scope. x \<in> set (inScope scope edgesOf p)
        \<and> set (inScope scope edgesOf p) \<subseteq> insert x (set (kOrder st))}"
proof -
  have "p \<notin> set (kOrder st)" if "x \<in> set (inScope scope edgesOf p)" for p
  proof
    assume "p \<in> set (kOrder st)"
    then obtain i where "i < length (kOrder st)" "kOrder st ! i = p" by (auto simp: in_set_conv_nth)
    then have "set (inScope scope edgesOf p) \<subseteq> set (kOrder st)"
      using inv by (force simp: kahnInv_def depsFirst_def dest: in_set_takeD)
    then show False using that x by (auto simp: readySet_def)
  qed
  then show ?thesis using x by (auto simp: readySet_def)
qed

lemma sorted_list_of_set_Cons:
  assumes "finite A" and "sorted_list_of_set A = x # xs"
  shows "x \<in> A" and "xs = sorted_list_of_set (A - {x})" and "x = Min A"
proof -
  have "set (x # xs) = A" using assms by (metis set_sorted_list_of_set)
  then show x: "x \<in> A" by auto
  show "xs = sorted_list_of_set (A - {x})"
    using assms x by (metis remove1.simps(2) sorted_list_of_set_remove)
  show "x = Min A"
    using assms x by (metis empty_iff list.sel(1) sorted_list_of_set_nonempty list.inject)
qed

lemma kahnStep_inv:
  assumes d: "distinct scope" and inv: "kahnInv scope edgesOf st" and ne: "kReady st \<noteq> []"
  defines "st' \<equiv> kahnStep (snd (kahnInit scope edgesOf)) st"
  shows "kahnInv scope edgesOf st'"
    and "kOrder st' = kOrder st @ [Min (readySet scope edgesOf (kOrder st))]"
proof -
  let ?E = "inScope scope edgesOf" and ?R = "readySet scope edgesOf (kOrder st)"
  let ?deps = "snd (kahnInit scope edgesOf)"
  obtain x xs where r: "kReady st = x # xs" using ne by (cases "kReady st") auto
  have R: "sorted_list_of_set ?R = x # xs" using inv r by (simp add: kahnInv_def)
  note x = sorted_list_of_set_Cons [OF finite_readySet R]
  have xs: "x \<in> set scope" "x \<notin> set (kOrder st)" "set (?E x) \<subseteq> set (kOrder st)"
    using x(1) by (auto simp: readySet_def)
  have ind: "kIndegree st p = int (count_list (?E p) x
      + length (filter (\<lambda>d. d \<notin> insert x (set (kOrder st))) (?E p)))" if "p \<in> set scope" for p
    using inv that length_filter_split [OF xs(2), of "?E p"] by (simp add: kahnInv_def)
  have mem: "p \<in> set (?deps x) \<longleftrightarrow> p \<in> set scope \<and> x \<in> set (?E p)" for p
    using kahnInit_dependents [OF d, of edgesOf x p] count_list_0_iff [of "?deps x" p]
      count_list_0_iff [of "?E p" x] by (auto split: if_splits)
  have le: "int (count_list (?deps x) p) \<le> kIndegree st p" if "p \<in> set (?deps x)" for p
    using that mem ind by (simp add: kahnInit_dependents [OF d])
  obtain new where new: "fold kahnRelease (?deps x) (kIndegree st, []) =
      (\<lambda>p. kIndegree st p - int (count_list (?deps x) p), new)" "distinct new"
    "set new = {p \<in> set (?deps x). kIndegree st p = int (count_list (?deps x) p)}"
    using kahnRelease_fold [OF le, of "[]"] by auto
  have set_new: "set new = {p \<in> set scope. x \<in> set (?E p) \<and> set (?E p) \<subseteq> insert x (set (kOrder st))}"
    unfolding new(3) using mem ind
    by (auto simp: kahnInit_dependents [OF d] filter_empty_conv)
  have R': "readySet scope edgesOf (kOrder st @ [x]) = (?R - {x}) \<union> set new"
    using readySet_snoc [OF inv x(1)] set_new by simp
  have dist: "distinct (xs @ new)"
    using new(2) x(2) set_new xs(2) by (auto simp: readySet_def)
  have "sort (xs @ new) = sorted_list_of_set (set (xs @ new))"
    using dist by (metis distinct_remdups_id sorted_list_of_set_sort_remdups)
  then have ready: "(if new \<noteq> [] then sort (xs @ new) else xs)
      = sorted_list_of_set (readySet scope edgesOf (kOrder st @ [x]))"
    using x(2) by (simp add: R')
  have st': "st' = \<lparr>kReady = sorted_list_of_set (readySet scope edgesOf (kOrder st @ [x])),
      kIndegree = (\<lambda>p. kIndegree st p - int (count_list (?deps x) p)),
      kOrder = kOrder st @ [x], kPlaced = insert x (kPlaced st)\<rparr>"
    unfolding st'_def kahnStep_def Let_def r list.sel new(1) prod.case ready by (rule refl)
  show "kOrder st' = kOrder st @ [Min ?R]" using x(3) by (simp add: st')
  show "kahnInv scope edgesOf st'"
    using inv xs ind
    by (auto simp: kahnInv_def st' depsFirst_snoc kahnInit_dependents [OF d])
qed

text \<open>
  The specification of a pass: place the least ready path until none is ready. It mentions the
  scope only as a set.
\<close>

fun greedy :: "nat \<Rightarrow> path set \<Rightarrow> (path \<Rightarrow> path set) \<Rightarrow> path list \<Rightarrow> path list" where
  "greedy 0 S E order = order"
| "greedy (Suc n) S E order =
     (let R = {p \<in> S. p \<notin> set order \<and> E p \<inter> S \<subseteq> set order}
      in if R = {} then order else greedy n S E (order @ [Min R]))"

lemma readySet_sets:
  "readySet scope edgesOf order =
    {p \<in> set scope. p \<notin> set order \<and> set (edgesOf p) \<inter> set scope \<subseteq> set order}"
  by (auto simp: readySet_def inScope_def)

lemma kReady_Nil: "kahnInv scope edgesOf st \<Longrightarrow> kReady st = [] \<longleftrightarrow> readySet scope edgesOf (kOrder st) = {}"
  by (simp add: kahnInv_def)

lemma kahnLoop_greedy:
  assumes d: "distinct scope"
  shows "kahnInv scope edgesOf st \<Longrightarrow>
    kahnInv scope edgesOf (kahnLoop n (snd (kahnInit scope edgesOf)) st)
    \<and> kOrder (kahnLoop n (snd (kahnInit scope edgesOf)) st)
       = greedy n (set scope) (\<lambda>p. set (edgesOf p)) (kOrder st)"
proof (induction n arbitrary: st)
  case (Suc n)
  show ?case
  proof (cases "kReady st = []")
    case True
    then show ?thesis using Suc.prems kReady_Nil [OF Suc.prems] by (simp add: readySet_sets)
  next
    case False
    note step = kahnStep_inv [OF d Suc.prems False]
    show ?thesis
      using False Suc.IH [OF step(1)] kReady_Nil [OF Suc.prems] step(2)
      by (simp add: Let_def flip: readySet_sets)
  qed
qed simp

lemma kahnLoop_done:
  assumes d: "distinct scope"
  shows "kahnInv scope edgesOf st \<Longrightarrow> length scope \<le> n + length (kOrder st) \<Longrightarrow>
    kReady (kahnLoop n (snd (kahnInit scope edgesOf)) st) = []"
proof (induction n arbitrary: st)
  case 0
  have "card (set (kOrder st)) = length (kOrder st)" "set (kOrder st) \<subseteq> set scope"
    using 0 by (simp_all add: kahnInv_def distinct_card)
  moreover have "card (set scope) \<le> length (kOrder st)" using 0 d by (simp add: distinct_card)
  ultimately have "set (kOrder st) = set scope" by (metis List.finite_set card_seteq)
  then show ?case using kReady_Nil [OF 0(1)] by (auto simp: readySet_def)
next
  case (Suc n)
  then show ?case
    using kahnStep_inv [OF d Suc.prems(1)] by (auto intro: Suc.IH)
qed

lemma kahnPass_inv:
  assumes "distinct scope"
  shows "kahnInv scope edgesOf (kahnPass scope edgesOf)"
    and "kReady (kahnPass scope edgesOf) = []"
    and "kOrder (kahnPass scope edgesOf)
      = greedy (card (set scope)) (set scope) (\<lambda>p. set (edgesOf p)) []"
proof -
  note start = kahnStart_inv [OF assms, of edgesOf]
  have nil: "kOrder (kahnStart scope edgesOf) = []" by (simp add: kahnStart_def case_prod_beta)
  show "kahnInv scope edgesOf (kahnPass scope edgesOf)"
    using kahnLoop_greedy [OF assms start] by (simp add: kahnPass_def)
  show "kReady (kahnPass scope edgesOf) = []"
    using kahnLoop_done [OF assms start] by (simp add: kahnPass_def nil)
  show "kOrder (kahnPass scope edgesOf) = greedy (card (set scope)) (set scope) (\<lambda>p. set (edgesOf p)) []"
    using kahnLoop_greedy [OF assms start] assms by (simp add: kahnPass_def nil distinct_card)
qed

text \<open>A pass over an acyclic scope places every member of it.\<close>

definition edgeRel :: "path set \<Rightarrow> (path \<Rightarrow> path list) \<Rightarrow> (path \<times> path) set" where
  "edgeRel S edges = {(d, p). p \<in> S \<and> d \<in> S \<and> d \<in> set (edges p)}"

lemma kahnPass_complete:
  assumes d: "distinct scope" and ac: "acyclic (edgeRel (set scope) edgesOf)"
  shows "set (kOrder (kahnPass scope edgesOf)) = set scope"
proof (rule ccontr)
  let ?O = "set (kOrder (kahnPass scope edgesOf))" and ?r = "edgeRel (set scope) edgesOf"
  note inv = kahnPass_inv [OF d, of edgesOf]
  assume "?O \<noteq> set scope"
  then obtain p where p: "p \<in> set scope - ?O" using inv(1) by (auto simp: kahnInv_def)
  have "finite ?r" by (rule finite_subset [of _ "set scope \<times> set scope"]) (auto simp: edgeRel_def)
  then have "wf ?r" using ac by (rule finite_acyclic_wf)
  from wfE_min [OF this p] obtain q where q: "q \<in> set scope - ?O"
    "\<And>y. (y, q) \<in> ?r \<Longrightarrow> y \<notin> set scope - ?O" by metis
  then have "set (inScope scope edgesOf q) \<subseteq> ?O"
    by (auto simp: inScope_def edgeRel_def)
  then have "q \<in> readySet scope edgesOf (kOrder (kahnPass scope edgesOf))"
    using q(1) by (simp add: readySet_def)
  then show False using inv(2) kReady_Nil [OF inv(1)] by auto
qed

section \<open>The build order is topological\<close>

text \<open>\<open>q\<close> stands before \<open>p\<close> in the list \<open>xs\<close>.\<close>

definition earlier :: "'a list \<Rightarrow> 'a \<Rightarrow> 'a \<Rightarrow> bool" where
  "earlier xs q p \<longleftrightarrow> (\<exists>i j. i < j \<and> j < length xs \<and> xs ! i = q \<and> xs ! j = p)"

lemma earlier_append1: "earlier xs q p \<Longrightarrow> earlier (xs @ ys) q p"
proof -
  assume "earlier xs q p"
  then obtain i j where "i < j" "j < length xs" "xs ! i = q" "xs ! j = p" by (auto simp: earlier_def)
  then show ?thesis
    unfolding earlier_def by (intro exI [of _ i] exI [of _ j]) (simp add: nth_append)
qed

lemma earlier_append2: "earlier ys q p \<Longrightarrow> earlier (xs @ ys) q p"
proof -
  assume "earlier ys q p"
  then obtain i j where "i < j" "j < length ys" "ys ! i = q" "ys ! j = p" by (auto simp: earlier_def)
  then show ?thesis
    unfolding earlier_def
    by (intro exI [of _ "length xs + i"] exI [of _ "length xs + j"]) simp
qed

lemma earlier_across: "q \<in> set xs \<Longrightarrow> p \<in> set ys \<Longrightarrow> earlier (xs @ ys) q p"
proof -
  assume "q \<in> set xs" "p \<in> set ys"
  then obtain i j where "i < length xs" "xs ! i = q" "j < length ys" "ys ! j = p"
    by (metis in_set_conv_nth)
  then show ?thesis
    unfolding earlier_def
    by (intro exI [of _ i] exI [of _ "length xs + j"]) (simp add: nth_append)
qed

lemma depsFirst_earlier: "depsFirst edges order \<Longrightarrow> p \<in> set order \<Longrightarrow> q \<in> set (edges p) \<Longrightarrow> earlier order q p"
proof -
  assume *: "depsFirst edges order" "p \<in> set order" "q \<in> set (edges p)"
  then obtain j where j: "j < length order" "order ! j = p" by (metis in_set_conv_nth)
  then have "q \<in> set (take j order)" using * by (auto simp: depsFirst_def)
  then obtain i where "i < j" "order ! i = q" using j by (auto simp: in_set_conv_nth)
  then show ?thesis using j by (auto simp: earlier_def)
qed

lemma kahnPass_earlier:
  assumes "distinct scope" and "p \<in> set (kOrder (kahnPass scope edgesOf))"
    and "q \<in> set (edgesOf p)" and "q \<in> set scope"
  shows "earlier (kOrder (kahnPass scope edgesOf)) q p"
  using kahnPass_inv(1) [OF assms(1), of edgesOf] assms(2-4)
  by (intro depsFirst_earlier [of "inScope scope edgesOf"]) (auto simp: kahnInv_def inScope_def)

lemma importsOf_all: "set (importsOf pkgs p) \<subseteq> set (allImportsOf pkgs p)"
  by (auto simp: importsOf_def allImportsOf_def split: option.splits)

lemma acyclic_edgeRel_mono:
  "acyclic (edgeRel T edges) \<Longrightarrow> S \<subseteq> T \<Longrightarrow> acyclic (edgeRel S edges)"
  by (rule acyclic_subset) (auto simp: edgeRel_def)

text \<open>The two passes of \<open>topoOrder\<close>, with an empty second pass where the first is complete.\<close>

definition restOrder :: "path list \<Rightarrow> package_map \<Rightarrow> path list" where
  "restOrder ks pkgs = kOrder (kahnPass
     (filter (\<lambda>p. p \<notin> kPlaced (kahnPass ks (allImportsOf pkgs))) ks) (importsOf pkgs))"

lemma topoOrder_split:
  assumes d: "distinct ks"
  shows "topoOrder ks pkgs = kOrder (kahnPass ks (allImportsOf pkgs)) @ restOrder ks pkgs"
proof (cases "length (kOrder (kahnPass ks (allImportsOf pkgs))) = length ks")
  case True
  let ?k = "kahnPass ks (allImportsOf pkgs)"
  have inv: "kahnInv ks (allImportsOf pkgs) ?k" by (rule kahnPass_inv [OF d])
  then have "card (set (kOrder ?k)) = card (set ks)" "set (kOrder ?k) \<subseteq> set ks"
    using True d by (simp_all add: kahnInv_def distinct_card)
  then have "set (kOrder ?k) = set ks" by (simp add: card_subset_eq)
  then have "filter (\<lambda>p. p \<notin> kPlaced ?k) ks = []" using inv by (simp add: kahnInv_def filter_empty_conv)
  then have "restOrder ks pkgs = []"
    by (simp add: restOrder_def kahnPass_def kahnStart_def kahnInit_def)
  then show ?thesis using True by (simp add: topoOrder_def Let_def)
qed (simp add: topoOrder_def restOrder_def Let_def)

lemma restOrder_set:
  assumes d: "distinct ks" and ac: "acyclic (edgeRel (set ks) (importsOf pkgs))"
  shows "set (restOrder ks pkgs) = set ks - set (kOrder (kahnPass ks (allImportsOf pkgs)))"
    and "distinct (restOrder ks pkgs)"
proof -
  let ?k = "kahnPass ks (allImportsOf pkgs)"
  let ?rem = "filter (\<lambda>p. p \<notin> kPlaced ?k) ks"
  have rem: "distinct ?rem" "set ?rem = set ks - set (kOrder ?k)"
    using d kahnPass_inv(1) [OF d, of "allImportsOf pkgs"] by (auto simp: kahnInv_def)
  show "set (restOrder ks pkgs) = set ks - set (kOrder ?k)"
    unfolding restOrder_def rem(2) [symmetric]
    by (rule kahnPass_complete [OF rem(1)]) (rule acyclic_edgeRel_mono [OF ac], auto)
  show "distinct (restOrder ks pkgs)"
    using kahnPass_inv(1) [OF rem(1), of "importsOf pkgs"] by (simp add: restOrder_def kahnInv_def)
qed

lemma topoOrder_perm:
  assumes d: "distinct ks" and ac: "acyclic (edgeRel (set ks) (importsOf pkgs))"
  shows "set (topoOrder ks pkgs) = set ks" and "distinct (topoOrder ks pkgs)"
  using restOrder_set [OF assms] kahnPass_inv(1) [OF d, of "allImportsOf pkgs"]
  by (auto simp: topoOrder_split [OF d] kahnInv_def)

lemma topoOrder_earlier:
  assumes d: "distinct ks" and ac: "acyclic (edgeRel (set ks) (importsOf pkgs))"
    and p: "p \<in> set ks" and q: "q \<in> set (importsOf pkgs p)" "q \<in> set ks"
  shows "earlier (topoOrder ks pkgs) q p"
proof -
  let ?k = "kahnPass ks (allImportsOf pkgs)"
  let ?rem = "filter (\<lambda>p. p \<notin> kPlaced ?k) ks"
  have placed: "kPlaced ?k = set (kOrder ?k)"
    using kahnPass_inv(1) [OF d, of "allImportsOf pkgs"] by (simp add: kahnInv_def)
  consider "p \<in> set (kOrder ?k)" | "p \<notin> set (kOrder ?k)" "q \<in> set (kOrder ?k)"
    | "p \<notin> set (kOrder ?k)" "q \<notin> set (kOrder ?k)" by blast
  then show ?thesis
  proof cases
    case 1
    then have "earlier (kOrder ?k) q p"
      using q importsOf_all [of pkgs p] by (intro kahnPass_earlier [OF d]) auto
    then show ?thesis by (simp add: topoOrder_split [OF d] earlier_append1)
  next
    case 2
    then have "p \<in> set (restOrder ks pkgs)" using p restOrder_set(1) [OF d ac] by simp
    then show ?thesis using 2 by (simp add: topoOrder_split [OF d] earlier_across)
  next
    case 3
    then have "p \<in> set (restOrder ks pkgs)" using p restOrder_set(1) [OF d ac] by simp
    then have "earlier (restOrder ks pkgs) q p"
      unfolding restOrder_def using 3 q d placed by (intro kahnPass_earlier) auto
    then show ?thesis by (simp add: topoOrder_split [OF d] earlier_append2)
  qed
qed

text \<open>Where the edges with test imports are acyclic too, the first pass already orders everything.\<close>

lemma topoOrder_test_earlier:
  assumes d: "distinct ks" and ac: "acyclic (edgeRel (set ks) (allImportsOf pkgs))"
    and p: "p \<in> set ks" and q: "q \<in> set (allImportsOf pkgs p)" "q \<in> set ks"
  shows "earlier (topoOrder ks pkgs) q p"
  using kahnPass_earlier [of ks p "allImportsOf pkgs" q] kahnPass_complete [OF d ac] d p q
  by (simp add: topoOrder_split [OF d] earlier_append1)

lemma kahnPass_cong:
  assumes "distinct xs" "distinct ys" "set xs = set ys"
  shows "kOrder (kahnPass xs edgesOf) = kOrder (kahnPass ys edgesOf)"
    and "kPlaced (kahnPass xs edgesOf) = kPlaced (kahnPass ys edgesOf)"
  using kahnPass_inv(1,3) [OF assms(1), of edgesOf] kahnPass_inv(1,3) [OF assms(2), of edgesOf] assms(3)
  by (simp_all add: kahnInv_def)

lemma topoOrder_cong:
  assumes "distinct xs" "distinct ys" "set xs = set ys"
  shows "topoOrder xs pkgs = topoOrder ys pkgs"
proof -
  note pass = kahnPass_cong [OF assms, of "allImportsOf pkgs"]
  have "restOrder xs pkgs = restOrder ys pkgs"
    unfolding restOrder_def pass(2) by (rule kahnPass_cong) (use assms in auto)
  then show ?thesis using assms pass(1) by (simp add: topoOrder_split)
qed

section \<open>Positions\<close>

lemma positions_nth: "distinct order \<Longrightarrow> i < length order \<Longrightarrow> positions order (order ! i) = Some i"
  unfolding positions_def
  by (subst map_of_eq_Some_iff) (auto simp: in_set_zip simp flip: rev_map)

lemma positions_dom: "positions order x = None \<longleftrightarrow> x \<notin> set order"
  unfolding positions_def by (simp add: map_of_eq_None_iff image_image flip: set_map)

lemma Before_newSnapshot:
  assumes "distinct (topoOrder ks pkgs)"
  shows "Before (newSnapshot ks pkgs dir) a b \<longleftrightarrow> earlier (topoOrder ks pkgs) a b"
proof -
  let ?o = "topoOrder ks pkgs"
  have pos: "snPos (newSnapshot ks pkgs dir) = positions ?o" by (simp add: newSnapshot_def Let_def)
  show ?thesis
  proof
    assume "earlier ?o a b"
    then obtain i j where "i < j" "j < length ?o" "?o ! i = a" "?o ! j = b" by (auto simp: earlier_def)
    then show "Before (newSnapshot ks pkgs dir) a b"
      using positions_nth [OF assms, of i] positions_nth [OF assms, of j] by (simp add: Before_def pos)
  next
    assume B: "Before (newSnapshot ks pkgs dir) a b"
    then have "a \<in> set ?o" "b \<in> set ?o"
      using positions_dom [of ?o a] positions_dom [of ?o b]
      by (auto simp: Before_def pos split: option.splits)
    then obtain i j where i: "i < length ?o" "?o ! i = a" "j < length ?o" "?o ! j = b"
      by (metis in_set_conv_nth)
    then have "i < j"
      using B positions_nth [OF assms, of i] positions_nth [OF assms, of j] by (simp add: Before_def pos)
    then show "earlier ?o a b" using i by (auto simp: earlier_def)
  qed
qed

text \<open>
  What clients of \<open>Before\<close> rely on: it never orders two packages both ways, so waiting only
  for packages positioned before cannot deadlock.
\<close>

locale processed_before =
  fixes before :: "'a \<Rightarrow> 'a \<Rightarrow> bool"
  assumes irrefl: "\<not> before a a"
    and trans: "before a b \<Longrightarrow> before b c \<Longrightarrow> before a c"
begin

lemma acyclic_before: "acyclic {(a, b). before a b}"
proof -
  have "trans {(a, b). before a b}" by (auto intro: transI trans)
  then show ?thesis by (simp add: acyclic_def irrefl)
qed

text \<open>Some member of a finite non-empty set waits for no other member.\<close>

lemma minimal_exists:
  assumes "finite A" and "A \<noteq> {}"
  shows "\<exists>x \<in> A. \<forall>y \<in> A. \<not> before y x"
proof -
  let ?r = "{(a, b). before a b \<and> a \<in> A \<and> b \<in> A}"
  have "finite (A \<times> A)" using assms(1) by simp
  then have "finite ?r" by (rule finite_subset [rotated]) auto
  then have "wf ?r"
    by (rule finite_acyclic_wf) (rule acyclic_subset [OF acyclic_before], auto)
  then obtain x where "x \<in> A" "\<And>y. (y, x) \<in> ?r \<Longrightarrow> y \<notin> A"
    using assms(2) wfE_min [of ?r _ A] by blast
  then show ?thesis by blast
qed

end

interpretation snapshot_before: processed_before "Before s" for s
  by unfold_locales (auto simp: Before_def split: option.splits)

section \<open>Reverse dependencies and closures\<close>

lemma addRevDeps_eq:
  "addRevDeps pkgs path imps rd =
    (\<lambda>x. rd x @ replicate (if pkgs x = None then 0 else count_list imps x) path)"
  unfolding addRevDeps_def
  by (induction imps arbitrary: rd) (auto simp: fun_eq_iff replicate_app_Cons_same)

lemma addPackageRevDeps_set:
  "set (addPackageRevDeps pkgs path rd x) =
    set (rd x) \<union> (if x \<in> set (allImportsOf pkgs path) \<and> pkgs x \<noteq> None then {path} else {})"
  by (auto simp: addPackageRevDeps_def addRevDeps_eq allImportsOf_def count_list_0_iff
      split: option.splits)

lemma revDeps_set:
  "set (fold (addPackageRevDeps pkgs) ks rd x) =
    set (rd x) \<union> {p \<in> set ks. x \<in> set (allImportsOf pkgs p) \<and> pkgs x \<noteq> None}"
  by (induction ks arbitrary: rd) (auto simp: addPackageRevDeps_set)

lemma snRevDeps_set:
  "set (snRevDeps (newSnapshot ks pkgs dir) x) =
    {p \<in> set ks. x \<in> set (allImportsOf pkgs p) \<and> pkgs x \<noteq> None}"
  by (simp add: newSnapshot_def Let_def revDeps_set)

lemma closureVisit_eq:
  "\<exists>new. closureVisit imps (seen, queue) = (seen @ new, queue @ new) \<and> distinct new
    \<and> set new = set imps - set seen"
proof (induction imps arbitrary: seen queue)
  case (Cons a imps)
  show ?case
  proof (cases "a \<in> set seen")
    case True
    then show ?thesis using Cons.IH [of seen queue] by auto
  next
    case False
    obtain new where "closureVisit imps (seen @ [a], queue @ [a]) = ((seen @ [a]) @ new, (queue @ [a]) @ new)"
      "distinct new" "set new = set imps - set (seen @ [a])"
      using Cons.IH [of "seen @ [a]" "queue @ [a]"] by blast
    then show ?thesis using False by (intro exI [of _ "a # new"]) auto
  qed
qed simp

text \<open>
  The loop keeps \<open>seen\<close> duplicate free and inside the closure, with the queue a part of it
  and everything outside the queue expanded.
\<close>

definition closureInv :: "(path \<Rightarrow> path list) \<Rightarrow> path \<Rightarrow> path list \<Rightarrow> path list \<Rightarrow> bool" where
  "closureInv revDeps p seen queue \<longleftrightarrow> distinct seen \<and> distinct queue \<and> p \<in> set seen
     \<and> set queue \<subseteq> set seen \<and> set seen \<subseteq> {(x, y). y \<in> set (revDeps x)}\<^sup>* `` {p}
     \<and> (\<forall>x \<in> set seen - set queue. set (revDeps x) \<subseteq> set seen)"

lemma closureInv_step:
  assumes inv: "closureInv revDeps p seen (x # queue)"
    and step: "closureVisit (revDeps x) (seen, queue) = (seen', queue')"
  shows "closureInv revDeps p seen' queue'"
    and "length seen' + length queue = length seen + length queue'"
    and "set seen' \<subseteq> set seen \<union> set (revDeps x)"
proof -
  obtain new where new: "seen' = seen @ new" "queue' = queue @ new" "distinct new"
    "set new = set (revDeps x) - set seen"
    using closureVisit_eq [of "revDeps x" seen queue] step by auto
  have "(p, y) \<in> {(x, y). y \<in> set (revDeps x)}\<^sup>*" if "y \<in> set (revDeps x)" for y
    using inv that by (auto simp: closureInv_def intro: rtrancl_into_rtrancl)
  then show "closureInv revDeps p seen' queue'"
    using inv new by (auto simp: closureInv_def)
  show "length seen' + length queue = length seen + length queue'"
    and "set seen' \<subseteq> set seen \<union> set (revDeps x)" using new by auto
qed

lemma closureLoop_correct:
  assumes U: "finite U" and closed: "\<And>x. set (revDeps x) \<subseteq> U"
  shows "closureInv revDeps p seen queue \<Longrightarrow> set seen \<subseteq> U \<Longrightarrow>
    card U + length queue \<le> n + length seen \<Longrightarrow>
    \<exists>seen'. closureLoop n revDeps (seen, queue) = (seen', []) \<and> closureInv revDeps p seen' []"
proof (induction n arbitrary: seen queue)
  case 0
  have "length seen \<le> card U"
    using 0(1,2) U by (metis card_mono closureInv_def distinct_card)
  then have "queue = []" using 0(3) by (cases queue) simp_all
  then show ?case using 0(1) by simp
next
  case (Suc n)
  show ?case
  proof (cases queue)
    case Nil
    then show ?thesis using Suc.prems(1) by simp
  next
    case (Cons x q)
    obtain seen' queue' where v: "closureVisit (revDeps x) (seen, q) = (seen', queue')"
      by (meson surj_pair)
    note step = closureInv_step [OF Suc.prems(1) [unfolded Cons] v]
    have "set seen' \<subseteq> U" using step(3) Suc.prems(2) closed [of x] by blast
    moreover have "card U + length queue' \<le> n + length seen'"
      using step(2) Suc.prems(3) Cons by simp
    ultimately show ?thesis using Suc.IH [OF step(1)] v Cons by simp
  qed
qed

lemma closureInv_final:
  assumes "closureInv revDeps p seen []"
  shows "set seen = {(x, y). y \<in> set (revDeps x)}\<^sup>* `` {p}"
proof -
  have "y \<in> set seen" if "(p, y) \<in> {(x, y). y \<in> set (revDeps x)}\<^sup>*" for y
    using that assms by (induction rule: rtrancl_induct) (auto simp: closureInv_def)
  then show ?thesis using assms by (auto simp: closureInv_def)
qed

text \<open>\<open>q\<close> imports \<open>p\<close> directly, from a production or an in-package test file.\<close>

definition importsDirectly :: "package_map \<Rightarrow> (path \<times> path) set" where
  "importsDirectly pkgs = {(p, q). p \<in> dom pkgs \<and> q \<in> dom pkgs \<and> p \<in> set (allImportsOf pkgs q)}"

lemma revDeps_importsDirectly:
  "set ks = dom pkgs \<Longrightarrow>
    {(x, y). y \<in> set (snRevDeps (newSnapshot ks pkgs dir) x)} = importsDirectly pkgs"
  by (auto simp: snRevDeps_set importsDirectly_def)

lemma ClosureUnits_correct:
  assumes d: "distinct ks" and ks: "set ks = dom pkgs"
    and ac: "acyclic (edgeRel (set ks) (importsOf pkgs))"
  shows "set (ClosureUnits (newSnapshot ks pkgs dir) p) = (importsDirectly pkgs)\<^sup>* `` {p}"
    and "sorted (ClosureUnits (newSnapshot ks pkgs dir) p)"
    and "distinct (ClosureUnits (newSnapshot ks pkgs dir) p)"
proof -
  let ?s = "newSnapshot ks pkgs dir"
  let ?rd = "snRevDeps ?s" and ?U = "insert p (set ks)"
  have start: "closureInv ?rd p [p] [p]" by (simp add: closureInv_def)
  have ord: "snOrder ?s = topoOrder ks pkgs" by (simp add: newSnapshot_def Let_def)
  have "length (snOrder ?s) = card (set ks)"
    unfolding ord using topoOrder_perm [OF d ac] by (metis distinct_card)
  then have fuel: "card ?U + length [p] \<le> Suc (length (snOrder ?s)) + length [p]"
    by (simp add: card_insert_if)
  obtain seen where seen: "closureLoop (Suc (length (snOrder ?s))) ?rd ([p], [p]) = (seen, [])"
    "closureInv ?rd p seen []"
    using closureLoop_correct [of ?U ?rd p "[p]" "[p]" "Suc (length (snOrder ?s))"] start fuel
    by (auto simp: snRevDeps_set)
  then have eq: "ClosureUnits ?s p = sort seen" by (simp add: ClosureUnits_def)
  show "set (ClosureUnits ?s p) = (importsDirectly pkgs)\<^sup>* `` {p}"
    using closureInv_final [OF seen(2)] by (simp add: eq revDeps_importsDirectly [OF ks])
  show "sorted (ClosureUnits ?s p)" "distinct (ClosureUnits ?s p)"
    using seen(2) by (simp_all add: eq closureInv_def)
qed

section \<open>Folding loaded packages\<close>

lemma importLoop_set:
  "seen = set imps \<Longrightarrow> distinct imps \<Longrightarrow>
    set (importLoop seen imps ps) = set imps \<union> snd ` set ps \<and> distinct (importLoop seen imps ps)"
  by (induction seen imps ps rule: importLoop.induct) auto

lemma importPaths_correct:
  "set (importPaths p) = snd ` set (lpImports p)" "distinct (importPaths p)" "sorted (importPaths p)"
  using importLoop_set [of "{}" "[]" "lpImports p"] by (simp_all add: importPaths_def)

text \<open>Well-formed nodes: production imports are sorted sets and test imports add to them only.\<close>

definition nodeOk :: "path \<Rightarrow> package \<Rightarrow> bool" where
  "nodeOk path pkg \<longleftrightarrow> pkImportPath pkg = path \<and> sorted (pkImports pkg) \<and> distinct (pkImports pkg)
     \<and> sorted (pkTestImports pkg) \<and> distinct (pkTestImports pkg)
     \<and> set (pkImports pkg) \<inter> set (pkTestImports pkg) = {}
     \<and> (pkForTest pkg \<noteq> [] \<longrightarrow> \<not> pkRoot pkg)"

definition nodesOk :: "package_map \<Rightarrow> bool" where
  "nodesOk out \<longleftrightarrow> (\<forall>path pkg. out path = Some pkg \<longrightarrow> nodeOk path pkg)"

lemma fromOrdinary_ok: "nodesOk out \<Longrightarrow> nodesOk (fromOrdinary rs p out)"
  by (auto simp: nodesOk_def nodeOk_def fromOrdinary_def ordinaryNode_def importPaths_correct)

lemma extraImports_ok:
  "sorted ts \<Longrightarrow> distinct ts \<Longrightarrow> sorted (extraImports base ts) \<and> distinct (extraImports base ts)
    \<and> set (extraImports base ts) = set ts - set base"
  by (auto simp: extraImports_def sorted_wrt_filter)

lemma fromVariant_ok: "nodesOk out \<Longrightarrow> nodesOk (fromVariant p out)"
  using extraImports_ok [OF importPaths_correct(3,2), of _ p]
  by (auto simp: nodesOk_def nodeOk_def fromVariant_def ordinaryNode_def importPaths_correct
      split: option.splits)

lemma fromPackages_ok: "nodesOk (fromPackages pkgs rs)"
proof -
  have "nodesOk (fold (fromOrdinary rs) ps out)" if "nodesOk out" for ps out
    using that by (induction ps arbitrary: out) (simp_all add: fromOrdinary_ok)
  moreover have "nodesOk (fold fromVariant ps out)" if "nodesOk out" for ps out
    using that by (induction ps arbitrary: out) (simp_all add: fromVariant_ok)
  ultimately show ?thesis by (simp add: fromPackages_def nodesOk_def [of Map.empty])
qed

lemma fold_dom_ordinary:
  "dom (fold (fromOrdinary rs) ps out) =
    dom out \<union> lpPkgPath ` {p \<in> set ps. lpForTest p = [] \<and> \<not> isSyntheticTestBinary p}"
  by (induction ps arbitrary: out) (auto simp: fromOrdinary_def)

lemma fold_dom_variant:
  "dom (fold fromVariant ps out) = dom out \<union>
    lpPkgPath ` {p \<in> set ps. lpForTest p \<noteq> [] \<and> lpPkgPath p \<noteq> lpForTest p \<and> \<not> isSyntheticTestBinary p}"
proof (induction ps arbitrary: out)
  case (Cons p ps)
  have "dom (fromVariant p out) = dom out \<union>
      (if lpForTest p \<noteq> [] \<and> lpPkgPath p \<noteq> lpForTest p \<and> \<not> isSyntheticTestBinary p
       then {lpPkgPath p} else {})"
    by (auto simp: fromVariant_def split: option.splits)
  then show ?case by (auto simp: Cons.IH)
qed simp

lemma mset_addPackageRevDeps:
  "mset (addPackageRevDeps pkgs path rd x) = mset (rd x) + mset (addPackageRevDeps pkgs path (\<lambda>_. []) x)"
  by (simp add: addPackageRevDeps_def addRevDeps_eq split: option.splits)

lemma mset_revDeps:
  "mset (fold (addPackageRevDeps pkgs) ks rd x) =
    mset (rd x) + (\<Sum>p \<in># mset ks. mset (addPackageRevDeps pkgs p (\<lambda>_. []) x))"
proof (induction ks arbitrary: rd)
  case (Cons k ks)
  show ?case by (simp add: Cons.IH) (subst mset_addPackageRevDeps, simp)
qed simp

lemma newSnapshot_cong:
  assumes "distinct xs" "distinct ys" "set xs = set ys"
  shows "newSnapshot xs pkgs dir = newSnapshot ys pkgs dir"
proof -
  have "mset xs = mset ys" using assms by (simp add: set_eq_iff_mset_eq_distinct)
  then have "sort (fold (addPackageRevDeps pkgs) xs (\<lambda>_. []) p)
      = sort (fold (addPackageRevDeps pkgs) ys (\<lambda>_. []) p)" for p
    by (intro properties_for_sort) (simp_all add: mset_revDeps)
  then show ?thesis by (simp add: newSnapshot_def topoOrder_cong [OF assms])
qed

section \<open>The graph's contract\<close>

text \<open>
  Each pass of Kahn's algorithm places, one after the other, the lexicographically least
  package that is ready (in the scope, not placed, every dependency inside the scope placed),
  until none is ready; the result depends on the scope only as a set, and the loop ends within
  as many rounds as the scope has members.
\<close>

lemma kahn_pass_greedy:
  assumes "distinct scope"
  shows "kReady (kahnPass scope edgesOf) = []
    \<and> kOrder (kahnPass scope edgesOf) = greedy (card (set scope)) (set scope) (\<lambda>p. set (edgesOf p)) []
    \<and> kPlaced (kahnPass scope edgesOf) = set (kOrder (kahnPass scope edgesOf))"
  using kahnPass_inv [OF assms, of edgesOf] by (simp add: kahnInv_def)

lemma kahn_pass_greedy_witness:
  "distinct [lit ''b'', lit ''a''] \<and> kReady (kahnPass [lit ''b'', lit ''a''] (\<lambda>_. [])) = []"
  using kahn_pass_greedy [of "[lit ''b'', lit ''a'']" "\<lambda>_. []"] by (simp add: lit_def)

text \<open>A small workspace: \<open>ab\<close> imports \<open>a\<close>, \<open>abc\<close> imports \<open>ab\<close>, and a test file of \<open>a\<close> imports \<open>abc\<close>.\<close>

definition sample_package :: "path \<Rightarrow> path list \<Rightarrow> path list \<Rightarrow> package" where
  "sample_package p is ts = \<lparr>pkImportPath = p, pkName = p, pkDir = [], pkGoFiles = [],
     pkImports = is, pkTestImports = ts, pkForTest = [], pkRoot = True\<rparr>"

definition sample_packages :: package_map where
  "sample_packages = [lit ''a'' \<mapsto> sample_package (lit ''a'') [] [lit ''abc''],
     lit ''ab'' \<mapsto> sample_package (lit ''ab'') [lit ''a''] [],
     lit ''abc'' \<mapsto> sample_package (lit ''abc'') [lit ''ab''] []]"

definition sample_paths :: "path list" where
  "sample_paths = [lit ''abc'', lit ''a'', lit ''ab'']"

lemma sample_lit_neq: "lit ''a'' \<noteq> lit ''ab''" "lit ''a'' \<noteq> lit ''abc''" "lit ''ab'' \<noteq> lit ''abc''"
  by (simp_all add: lit_def)

lemma sample_acyclic: "acyclic (edgeRel (set sample_paths) (importsOf sample_packages))"
proof (rule acyclic_subset)
  show "acyclic (measure (length :: path \<Rightarrow> nat))" by (simp add: wf_acyclic)
  show "edgeRel (set sample_paths) (importsOf sample_packages) \<subseteq> measure length"
    by (auto simp: edgeRel_def importsOf_def sample_paths_def sample_packages_def sample_package_def
        sample_lit_neq sample_lit_neq [symmetric])
qed

lemma sample_scope: "distinct sample_paths" "set sample_paths = dom sample_packages"
  by (auto simp: sample_paths_def sample_packages_def sample_lit_neq sample_lit_neq [symmetric])

text \<open>
  C11. The build order lists every package of the graph exactly once, and every package comes
  after everything its production files import: whatever the in-package test imports are, and
  even where they close a cycle. Where production and test imports together have no cycle, the
  packages a test file imports come first too.
\<close>

theorem topo_order_topological:
  assumes "distinct ks" and "set ks = dom pkgs"
    and "acyclic (edgeRel (dom pkgs) (importsOf pkgs))"
  shows "set (topoOrder ks pkgs) = dom pkgs \<and> distinct (topoOrder ks pkgs)
    \<and> (\<forall>p q. p \<in> dom pkgs \<and> q \<in> dom pkgs \<and> q \<in> set (importsOf pkgs p)
         \<longrightarrow> earlier (topoOrder ks pkgs) q p)
    \<and> (acyclic (edgeRel (dom pkgs) (allImportsOf pkgs)) \<longrightarrow>
        (\<forall>p q. p \<in> dom pkgs \<and> q \<in> dom pkgs \<and> q \<in> set (allImportsOf pkgs p)
          \<longrightarrow> earlier (topoOrder ks pkgs) q p))"
  using topoOrder_perm [OF assms(1)] topoOrder_earlier [OF assms(1)]
    topoOrder_test_earlier [OF assms(1)] assms(2,3) by simp

theorem topo_order_topological_witness:
  "distinct sample_paths \<and> set sample_paths = dom sample_packages
    \<and> acyclic (edgeRel (dom sample_packages) (importsOf sample_packages))
    \<and> earlier (topoOrder sample_paths sample_packages) (lit ''ab'') (lit ''abc'')"
proof -
  have "lit ''abc'' \<in> dom sample_packages" "lit ''ab'' \<in> dom sample_packages"
    "lit ''ab'' \<in> set (importsOf sample_packages (lit ''abc''))"
    by (simp_all add: sample_packages_def importsOf_def sample_package_def)
  then show ?thesis
    using topo_order_topological [OF sample_scope sample_acyclic [unfolded sample_scope(2)]]
      sample_scope sample_acyclic by simp
qed

text \<open>
  The snapshot does not depend on the order in which Go enumerates the package map: its
  build order, its positions and its reverse-dependency lists are the same for every
  enumeration.
\<close>

lemma snapshot_deterministic:
  assumes "distinct xs" and "distinct ys" and "set xs = dom pkgs" and "set ys = dom pkgs"
  shows "newSnapshot xs pkgs dir = newSnapshot ys pkgs dir"
  using assms by (intro newSnapshot_cong) simp_all

lemma snapshot_deterministic_witness:
  "distinct sample_paths \<and> distinct (rev sample_paths)
    \<and> newSnapshot sample_paths sample_packages [] = newSnapshot (rev sample_paths) sample_packages []"
  using snapshot_deterministic [of sample_paths "rev sample_paths" sample_packages "[]"] sample_scope
  by simp

text \<open>
  C12. \<open>ClosureUnits\<close> returns exactly the packages that reach the given one through chains of
  production or in-package test imports, itself included, without duplicates and in
  lexicographic order.
\<close>

theorem closure_units_exact:
  assumes "distinct ks" and "set ks = dom pkgs"
    and "acyclic (edgeRel (dom pkgs) (importsOf pkgs))"
  shows "set (ClosureUnits (newSnapshot ks pkgs dir) p) = (importsDirectly pkgs)\<^sup>* `` {p}
    \<and> sorted (ClosureUnits (newSnapshot ks pkgs dir) p)
    \<and> distinct (ClosureUnits (newSnapshot ks pkgs dir) p)"
  using ClosureUnits_correct [OF assms(1,2)] assms(3) by (simp add: assms(2))

theorem closure_units_exact_witness:
  "distinct sample_paths \<and> set sample_paths = dom sample_packages
    \<and> lit ''abc'' \<in> set (ClosureUnits (newSnapshot sample_paths sample_packages []) (lit ''ab''))"
proof -
  have "(lit ''ab'', lit ''abc'') \<in> importsDirectly sample_packages"
    by (simp add: importsDirectly_def sample_packages_def allImportsOf_def sample_package_def)
  then show ?thesis
    using closure_units_exact [OF sample_scope sample_acyclic [unfolded sample_scope(2)]] sample_scope
    by blast
qed

text \<open>
  C13. The nodes \<open>fromPackages\<close> makes are well formed, and there is one for every import path
  that is an ordinary package or a distinctly named test variant, and for nothing else (no
  synthesised test binary, no variant identifier): production imports and test imports are
  sorted, duplicate free and disjoint, and a test-only node is never a root.
\<close>

theorem from_packages_wellformed:
  "dom (fromPackages pkgs rs) = lpPkgPath ` {p \<in> set pkgs. \<not> isSyntheticTestBinary p
      \<and> \<not> (lpForTest p \<noteq> [] \<and> lpPkgPath p = lpForTest p)}
    \<and> nodesOk (fromPackages pkgs rs)"
  using fromPackages_ok [of pkgs rs]
  by (auto simp: fromPackages_def fold_dom_ordinary fold_dom_variant)

end
