(* ===== verification/Dep_Cache.thy ===== *)
theory Dep_Cache
  imports Graph
begin

text \<open>
  The cache of type-checked dependencies of \<open>internal/depcheck\<close>: the pinning
  least-recently-used cache of \<open>lru.go\<close> and the pin protocol of \<open>Provider\<close> in
  \<open>depcheck.go\<close> (\<open>enterWait\<close>, \<open>put\<close>, \<open>exitWaitAndPin\<close>, \<open>tryPin\<close>, \<open>closureScope\<close>). A checked
  package is given by its imports and an identity; type checking itself is not modelled.

  The list \<open>order\<close> and the map \<open>index\<close> of the code hold the same entries; the model keeps the list,
  most recently used first, and looks entries up in it. A pin count that is absent from the map is
  zero, as reading a Go map gives.
\<close>

section \<open>The cache\<close>

datatype imported = UnsafePkg | ImportedPkg path

record checked_package =
  cpStamp :: nat
  cpImports :: "imported list"
  cpImportFailed :: bool

record lru_entry =
  lePath :: path
  leChecked :: checked_package
  leDeps :: "path list"

record lru_cache =
  lrCapacity :: int
  lrOrder :: "lru_entry list"
  lrPins :: "path \<Rightarrow> nat"
  lrPending :: "path set"

definition newLRUCache :: "int \<Rightarrow> lru_cache" where
  "newLRUCache capacity = \<lparr>lrCapacity = capacity, lrOrder = [], lrPins = (\<lambda>_. 0), lrPending = {}\<rparr>"

definition lruIndex :: "path \<Rightarrow> lru_cache \<Rightarrow> lru_entry option" where
  "lruIndex p l = find (\<lambda>e. lePath e = p) (lrOrder l)"

text \<open>\<open>order.Remove\<close> and \<open>order.MoveToFront\<close>, for the element of path \<open>p\<close>.\<close>

definition dropEntry :: "path \<Rightarrow> lru_entry list \<Rightarrow> lru_entry list" where
  "dropEntry p es = filter (\<lambda>e. lePath e \<noteq> p) es"

definition lruGet :: "path \<Rightarrow> lru_cache \<Rightarrow> checked_package option \<times> lru_cache" where
  "lruGet p l =
     (case lruIndex p l of
        None \<Rightarrow> (None, l)
      | Some e \<Rightarrow> (Some (leChecked e), l\<lparr>lrOrder := e # dropEntry p (lrOrder l)\<rparr>))"

definition lruImportPaths :: "imported list \<Rightarrow> path list" where
  "lruImportPaths imps = concat (map (\<lambda>i. case i of UnsafePkg \<Rightarrow> [] | ImportedPkg p \<Rightarrow> [p]) imps)"

definition lruPin :: "path \<Rightarrow> lru_cache \<Rightarrow> lru_cache" where
  "lruPin p l = l\<lparr>lrPins := (lrPins l)(p := lrPins l p + 1)\<rparr>"

definition pinAll :: "path list \<Rightarrow> lru_cache \<Rightarrow> lru_cache" where
  "pinAll ps l = fold lruPin ps l"

lemma dropEntry_shorter: "find (\<lambda>e. lePath e = p) es = Some e \<Longrightarrow> length (dropEntry p es) < length es"
proof (induction es)
  case (Cons x es)
  then show ?case
    by (auto simp: dropEntry_def le_imp_less_Suc split: if_splits)
qed simp

text \<open>
  \<open>unpinAll\<close>, \<open>unpin\<close>, \<open>removeIfPresent\<close> and \<open>removeElement\<close> call each other; the model is their
  combined run, with the paths still to be unpinned by the pending loops as its argument: the loop
  over a removed entry's dependencies runs before the loop that removed it continues.
\<close>

function unpinAll :: "path list \<Rightarrow> lru_cache \<Rightarrow> lru_cache" where
  "unpinAll [] l = l"
| "unpinAll (p # ps) l =
     (if lrPins l p > 1 then unpinAll ps (l\<lparr>lrPins := (lrPins l)(p := lrPins l p - 1)\<rparr>)
      else let l1 = l\<lparr>lrPins := (lrPins l)(p := 0)\<rparr> in
        if p \<in> lrPending l1 then
          let l2 = l1\<lparr>lrPending := lrPending l1 - {p}\<rparr> in
          (case lruIndex p l2 of
             None \<Rightarrow> unpinAll ps l2
           | Some e \<Rightarrow> unpinAll (leDeps e @ ps) (l2\<lparr>lrOrder := dropEntry p (lrOrder l2)\<rparr>))
        else unpinAll ps l1)"
  by pat_completeness auto

termination
  by (relation "(\<lambda>(ps, l). length (lrOrder l)) <*mlex*> (\<lambda>(ps, l). length ps) <*mlex*> {}")
    (auto simp: wf_mlex mlex_less mlex_leq lruIndex_def dest: dropEntry_shorter)

definition unpin :: "path \<Rightarrow> lru_cache \<Rightarrow> lru_cache" where
  "unpin p l = unpinAll [p] l"

definition removeElement :: "lru_entry \<Rightarrow> lru_cache \<Rightarrow> lru_cache" where
  "removeElement e l = unpinAll (leDeps e) (l\<lparr>lrOrder := dropEntry (lePath e) (lrOrder l)\<rparr>)"

definition removeIfPresent :: "path \<Rightarrow> lru_cache \<Rightarrow> lru_cache" where
  "removeIfPresent p l = (case lruIndex p l of None \<Rightarrow> l | Some e \<Rightarrow> removeElement e l)"

definition evictOldest :: "lru_cache \<Rightarrow> lru_cache" where
  "evictOldest l =
     (case find (\<lambda>e. lrPins l (lePath e) = 0) (rev (lrOrder l)) of
        None \<Rightarrow> l
      | Some e \<Rightarrow> removeElement e l)"

text \<open>
  \<open>put\<close>. Replacing an entry releases the pins of the old dependencies first; when that removes the
  entry itself, \<open>MoveToFront\<close> on the removed element does nothing.
\<close>

definition lruPut :: "path \<Rightarrow> checked_package \<Rightarrow> lru_cache \<Rightarrow> lru_cache" where
  "lruPut p cp l =
     (let deps = lruImportPaths (cpImports cp); new = \<lparr>lePath = p, leChecked = cp, leDeps = deps\<rparr>
      in case lruIndex p l of
           Some e \<Rightarrow>
             let l1 = unpinAll (leDeps e) l in
             if lruIndex p l1 = None then pinAll deps l1
             else pinAll deps (l1\<lparr>lrOrder := new # dropEntry p (lrOrder l1)\<rparr>)
         | None \<Rightarrow>
             let l1 = (if int (length (lrOrder l)) \<ge> lrCapacity l then evictOldest l else l)
             in pinAll deps (l1\<lparr>lrOrder := new # lrOrder l1\<rparr>))"

definition lruDelete :: "path \<Rightarrow> lru_cache \<Rightarrow> lru_cache" where
  "lruDelete p l =
     (if lrPins l p > 0 then l\<lparr>lrPending := insert p (lrPending l)\<rparr> else removeIfPresent p l)"

definition lruLen :: "lru_cache \<Rightarrow> nat" where
  "lruLen l = length (lrOrder l)"

section \<open>Pin accounting\<close>

text \<open>
  The number of cached dependents of a path outside \<open>X\<close>, and the accounting invariant: a path's
  pin count covers its cached dependents, the in-flight pins \<open>ext\<close> taken by \<open>pin\<close>, and the paths
  \<open>ps\<close> still to be unpinned. Replacing an entry releases the pins of its old dependencies while the
  entry is still cached, so its path is then in the set \<open>X\<close> of exempt paths. Imports are acyclic:
  \<open>rank\<close> decreases along them.
\<close>

definition depCount :: "path set \<Rightarrow> lru_entry list \<Rightarrow> path \<Rightarrow> nat" where
  "depCount X es p = sum_list (map (\<lambda>e. if lePath e \<in> X then 0 else count_list (leDeps e) p) es)"

definition pinInv :: "(path \<Rightarrow> nat) \<Rightarrow> (path \<Rightarrow> nat) \<Rightarrow> path set \<Rightarrow> path list \<Rightarrow> lru_cache \<Rightarrow> bool" where
  "pinInv rank ext X ps l \<longleftrightarrow> distinct (map lePath (lrOrder l))
     \<and> (\<forall>e \<in> set (lrOrder l). \<forall>d \<in> set (leDeps e). rank d < rank (lePath e))
     \<and> (\<forall>x \<in> X. \<forall>q \<in> set ps. rank q < rank x)
     \<and> (\<forall>p. ext p + depCount X (lrOrder l) p + count_list ps p \<le> lrPins l p)"

text \<open>From \<open>l\<close> to \<open>l'\<close> no entry that a remaining entry or an in-flight pin needs was removed.\<close>

definition keepsNeeded :: "(path \<Rightarrow> nat) \<Rightarrow> path set \<Rightarrow> lru_cache \<Rightarrow> lru_cache \<Rightarrow> bool" where
  "keepsNeeded ext X l l' \<longleftrightarrow> set (lrOrder l') \<subseteq> set (lrOrder l)
     \<and> (\<forall>f \<in> set (lrOrder l). lePath f \<in> X \<or> ext (lePath f) > 0
          \<or> (\<exists>e \<in> set (lrOrder l'). lePath e \<notin> X \<and> lePath f \<in> set (leDeps e)) \<longrightarrow> f \<in> set (lrOrder l'))"

lemma depCount_simps [simp]:
  "depCount X [] p = 0" "depCount X (e # es) p = (if lePath e \<in> X then 0 else count_list (leDeps e) p) + depCount X es p"
  by (simp_all add: depCount_def)

lemma depCount_positive: "e \<in> set es \<Longrightarrow> lePath e \<notin> X \<Longrightarrow> p \<in> set (leDeps e) \<Longrightarrow> 0 < depCount X es p"
proof (induction es)
  case (Cons x es)
  then show ?case by (auto simp: count_list_0_iff) (metis count_list_0_iff gr0I)
qed simp

lemma lruIndex_Some:
  assumes "lruIndex p l = Some e"
  shows "lePath e = p" "e \<in> set (lrOrder l)"
  using assms by (auto simp: lruIndex_def find_Some_iff)

lemma lruIndex_None: "lruIndex p l = None \<longleftrightarrow> p \<notin> lePath ` set (lrOrder l)"
  by (auto simp: lruIndex_def find_None_iff)

lemma set_dropEntry [simp]: "set (dropEntry p es) = {e \<in> set es. lePath e \<noteq> p}"
  by (auto simp: dropEntry_def)

lemma dropEntry_absent: "p \<notin> lePath ` set es \<Longrightarrow> dropEntry p es = es"
  unfolding dropEntry_def by (rule filter_True) auto

lemma distinct_dropEntry: "distinct (map lePath es) \<Longrightarrow> distinct (map lePath (dropEntry p es))"
  by (simp add: dropEntry_def distinct_map_filter)

lemma dropEntry_count:
  assumes "distinct (map lePath es)" "e \<in> set es"
  shows "depCount X es q = depCount X (dropEntry (lePath e) es) q + (if lePath e \<in> X then 0 else count_list (leDeps e) q)"
  using assms
proof (induction es)
  case (Cons x es)
  show ?case
  proof (cases "x = e")
    case True
    then have "dropEntry (lePath e) (x # es) = es" using Cons.prems dropEntry_absent [of "lePath e" es] by (simp add: dropEntry_def)
    then show ?thesis using True by simp
  next
    case False
    then have "lePath x \<noteq> lePath e" using Cons.prems by auto
    then show ?thesis using Cons False by (simp add: dropEntry_def)
  qed
qed simp

lemma pinInvD:
  assumes "pinInv rank ext X ps l"
  shows "distinct (map lePath (lrOrder l))"
    and "e \<in> set (lrOrder l) \<Longrightarrow> d \<in> set (leDeps e) \<Longrightarrow> rank d < rank (lePath e)"
    and "x \<in> X \<Longrightarrow> q \<in> set ps \<Longrightarrow> rank q < rank x"
    and "ext p + depCount X (lrOrder l) p + count_list ps p \<le> lrPins l p"
  using assms by (simp_all add: pinInv_def)

lemma pinInv_drop:
  assumes I: "pinInv rank ext X ps l" and e: "e \<in> set (lrOrder l)" "lePath e \<notin> X"
    and r: "\<And>x. x \<in> X \<Longrightarrow> rank (lePath e) < rank x"
    and o: "lrOrder l' = dropEntry (lePath e) (lrOrder l)" and n: "lrPins l' = lrPins l"
  shows "pinInv rank ext X (leDeps e @ ps) l'"
  unfolding pinInv_def
proof (intro conjI allI ballI)
  show "distinct (map lePath (lrOrder l'))" unfolding o by (rule distinct_dropEntry [OF pinInvD(1) [OF I]])
  show "ext q + depCount X (lrOrder l') q + count_list (leDeps e @ ps) q \<le> lrPins l' q" for q
    using pinInvD(4) [OF I, of q] dropEntry_count [OF pinInvD(1) [OF I] e(1), of X q] e(2) unfolding o n by simp
  show "rank q < rank x" if "x \<in> X" "q \<in> set (leDeps e @ ps)" for x q
    using that r [of x] pinInvD(2) [OF I e(1), of q] pinInvD(3) [OF I, of x q] by fastforce
qed (use pinInvD(2) [OF I] o in auto)

lemma keepsNeeded_refl: "keepsNeeded ext X l l"
  by (auto simp: keepsNeeded_def)

lemma keepsNeeded_trans:
  assumes A: "keepsNeeded ext X l l1" and B: "keepsNeeded ext X l1 l2"
  shows "keepsNeeded ext X l l2"
  using assms unfolding keepsNeeded_def by (meson subsetD subset_trans)

lemma keepsNeeded_drop:
  assumes I: "\<And>q. ext q + depCount X (lrOrder l) q \<le> N q" and z: "N (lePath e) = 0" and x: "lePath e \<notin> X"
    and o: "lrOrder l' = dropEntry (lePath e) (lrOrder l)"
  shows "keepsNeeded ext X l l'"
proof -
  have "ext (lePath e) = 0" "depCount X (lrOrder l) (lePath e) = 0" using I [of "lePath e"] z by auto
  then show ?thesis unfolding keepsNeeded_def o using x depCount_positive [of _ "lrOrder l" X "lePath e"] by auto
qed

lemma keepsNeeded_order: "lrOrder l1 = lrOrder l \<Longrightarrow> keepsNeeded ext X l l' = keepsNeeded ext X l1 l'"
  by (simp add: keepsNeeded_def)

lemma pinInv_release:
  assumes I: "pinInv rank ext X (p # ps) l" and "lrOrder l' = lrOrder l" "lrPins l' = (lrPins l)(p := lrPins l p - 1)"
  shows "pinInv rank ext X ps l'"
proof -
  have "ext q + depCount X (lrOrder l') q + count_list ps q \<le> lrPins l' q" for q
    using pinInvD(4) [OF I, of q] unfolding assms(2,3) by (cases "p = q") simp_all
  then show ?thesis using I unfolding pinInv_def assms(2) by simp
qed

lemma unpinAll_keeps:
  "pinInv rank ext X ps l \<Longrightarrow> pinInv rank ext X [] (unpinAll ps l) \<and> keepsNeeded ext X l (unpinAll ps l)"
proof (induction ps l rule: unpinAll.induct)
  case (1 l)
  then show ?case by (simp add: keepsNeeded_refl)
next
  case (2 p ps l)
  show ?case
  proof (cases "lrPins l p > 1")
    case True
    let ?l = "l\<lparr>lrPins := (lrPins l)(p := lrPins l p - 1)\<rparr>"
    have "pinInv rank ext X ps ?l" by (rule pinInv_release [OF "2.prems"]) simp_all
    from "2.IH"(1) [OF True this] show ?thesis using True by (simp add: keepsNeeded_order [of ?l l])
  next
    case False
    let ?l = "l\<lparr>lrPins := (lrPins l)(p := 0)\<rparr>"
    let ?m = "?l\<lparr>lrPending := lrPending ?l - {p}\<rparr>"
    have I: "pinInv rank ext X ps ?l" "pinInv rank ext X ps ?m" using False by (auto intro!: pinInv_release [OF "2.prems"])
    consider "p \<notin> lrPending l" | "p \<in> lrPending l" "lruIndex p ?m = None" | e where "p \<in> lrPending l" "lruIndex p ?m = Some e"
      by fastforce
    then show ?thesis
    proof cases
      case 1
      then show ?thesis using "2.IH"(4) [OF False refl _ I(1)] False by (simp add: keepsNeeded_order [of ?l l])
    next
      case 2
      then show ?thesis using "2.IH"(2) [OF False refl _ refl _ I(2)] False by (simp add: keepsNeeded_order [of ?m l])
    next
      case (3 e)
      let ?r = "?m\<lparr>lrOrder := dropEntry p (lrOrder ?m)\<rparr>"
      note e = lruIndex_Some [OF 3(2)]
      have x: "rank (lePath e) < rank x" if "x \<in> X" for x using pinInvD(3) [OF "2.prems" that, of p] e(1) by simp
      then have x': "lePath e \<notin> X" by blast
      have r: "lrOrder ?r = dropEntry (lePath e) (lrOrder ?m)" "lrPins ?r = lrPins ?m" using e(1) by simp_all
      have "keepsNeeded ext X ?m ?r"
        by (rule keepsNeeded_drop [of ext X ?m "lrPins ?m" e, OF add_leD1 [OF pinInvD(4) [OF I(2)]]]) (use e(1) x' in simp_all)
      moreover have "pinInv rank ext X (leDeps e @ ps) ?r" by (rule pinInv_drop [OF I(2) e(2) x' x r])
      ultimately show ?thesis
        using "2.IH"(3) [OF False refl _ refl _ \<open>pinInv rank ext X (leDeps e @ ps) ?r\<close>] 3 False keepsNeeded_trans
        by (simp add: keepsNeeded_order [of ?m l])
    qed
  qed
qed

lemma removeElement_keeps:
  assumes I: "pinInv rank ext {} [] l" and e: "e \<in> set (lrOrder l)" and z: "lrPins l (lePath e) = 0"
  shows "pinInv rank ext {} [] (removeElement e l) \<and> keepsNeeded ext {} l (removeElement e l)"
proof -
  let ?l = "l\<lparr>lrOrder := dropEntry (lePath e) (lrOrder l)\<rparr>"
  have "pinInv rank ext {} (leDeps e @ []) ?l" by (rule pinInv_drop [OF I e]) simp_all
  then have "pinInv rank ext {} [] (removeElement e l) \<and> keepsNeeded ext {} ?l (removeElement e l)"
    using unpinAll_keeps [of rank ext "{}" "leDeps e" ?l] by (simp add: removeElement_def)
  moreover have "keepsNeeded ext {} l ?l"
    by (rule keepsNeeded_drop [of ext "{}" l "lrPins l" e, OF add_leD1 [OF pinInvD(4) [OF I]]]) (use z in simp_all)
  ultimately show ?thesis using keepsNeeded_trans by blast
qed

lemma evictOldest_keeps:
  assumes I: "pinInv rank ext {} [] l"
  shows "pinInv rank ext {} [] (evictOldest l) \<and> keepsNeeded ext {} l (evictOldest l)"
proof (cases "find (\<lambda>e. lrPins l (lePath e) = 0) (rev (lrOrder l))")
  case None
  then show ?thesis using I by (simp add: evictOldest_def keepsNeeded_refl)
next
  case (Some e)
  then have "e \<in> set (lrOrder l)" "lrPins l (lePath e) = 0" by (auto simp: find_Some_iff) (metis length_rev nth_mem set_rev)
  from removeElement_keeps [OF I this] Some show ?thesis by (simp add: evictOldest_def)
qed

lemma pinAll_simps [simp]:
  "lrOrder (pinAll ps l) = lrOrder l" "lrPending (pinAll ps l) = lrPending l" "lrCapacity (pinAll ps l) = lrCapacity l"
  "lrPins (pinAll ps l) q = lrPins l q + count_list ps q"
  unfolding pinAll_def by (induction ps arbitrary: l) (simp_all add: lruPin_def)

lemma depCount_exempt: "depCount {p} es q = depCount {} (dropEntry p es) q"
  by (induction es) (simp_all add: dropEntry_def)

lemma pinInv_front:
  assumes I: "pinInv rank ext {p} [] l" and r: "\<And>d. d \<in> set deps \<Longrightarrow> rank d < rank p"
  shows "pinInv rank ext {} [] (pinAll deps (l\<lparr>lrOrder := \<lparr>lePath = p, leChecked = cp, leDeps = deps\<rparr> # dropEntry p (lrOrder l)\<rparr>))"
proof -
  have "ext q + (count_list deps q + depCount {} (dropEntry p (lrOrder l)) q) \<le> lrPins l q + count_list deps q" for q
    using pinInvD(4) [OF I, of q] by (simp add: depCount_exempt)
  then show ?thesis using r pinInvD(2) [OF I] distinct_dropEntry [OF pinInvD(1) [OF I], of p]
    by (auto simp: pinInv_def)
qed

section \<open>Operations in any order\<close>

text \<open>
  A client calls the operations in any order; \<open>ext\<close> counts the pins taken by \<open>pin\<close> and not yet
  released. A client only releases pins it took, and the packages it stores have acyclic imports.
\<close>

datatype lru_op = OpGet path | OpPut path checked_package | OpPin path | OpUnpin path | OpDelete path

fun lruExec :: "lru_op \<Rightarrow> lru_cache \<Rightarrow> lru_cache" where
  "lruExec (OpGet p) l = snd (lruGet p l)"
| "lruExec (OpPut p cp) l = lruPut p cp l"
| "lruExec (OpPin p) l = lruPin p l"
| "lruExec (OpUnpin p) l = unpin p l"
| "lruExec (OpDelete p) l = lruDelete p l"

fun lruAllowed :: "(path \<Rightarrow> nat) \<Rightarrow> lru_op \<Rightarrow> (path \<Rightarrow> nat) \<Rightarrow> bool" where
  "lruAllowed rank (OpUnpin p) ext = (0 < ext p)"
| "lruAllowed rank (OpPut p cp) ext = (\<forall>d \<in> set (lruImportPaths (cpImports cp)). rank d < rank p)"
| "lruAllowed rank op ext = True"

fun inFlight :: "lru_op \<Rightarrow> (path \<Rightarrow> nat) \<Rightarrow> path \<Rightarrow> nat" where
  "inFlight (OpPin p) ext = ext(p := ext p + 1)"
| "inFlight (OpUnpin p) ext = ext(p := ext p - 1)"
| "inFlight op ext = ext"

fun replaced :: "lru_op \<Rightarrow> path set" where
  "replaced (OpPut p cp) = {p}"
| "replaced op = {}"

inductive lruReachable :: "int \<Rightarrow> (path \<Rightarrow> nat) \<Rightarrow> (path \<Rightarrow> nat) \<Rightarrow> lru_cache \<Rightarrow> bool" for cap rank where
  new: "lruReachable cap rank (\<lambda>_. 0) (newLRUCache cap)"
| op: "lruReachable cap rank ext l \<Longrightarrow> lruAllowed rank op ext \<Longrightarrow> lruReachable cap rank (inFlight op ext) (lruExec op l)"

text \<open>As \<open>keepsNeeded\<close>, with the entries of the paths \<open>P\<close> excepted, which may be replaced.\<close>

definition keptExcept :: "path set \<Rightarrow> (path \<Rightarrow> nat) \<Rightarrow> lru_cache \<Rightarrow> lru_cache \<Rightarrow> bool" where
  "keptExcept P ext l l' \<longleftrightarrow> (\<forall>f \<in> set (lrOrder l). lePath f \<notin> P \<longrightarrow>
     ext (lePath f) > 0 \<or> (\<exists>e \<in> set (lrOrder l'). lePath e \<notin> P \<and> lePath f \<in> set (leDeps e)) \<longrightarrow> f \<in> set (lrOrder l'))"

lemma keepsNeeded_except: "keepsNeeded ext {} l l' \<Longrightarrow> keptExcept P ext l l'"
  unfolding keepsNeeded_def keptExcept_def by blast

lemma keptExcept_same: "set (lrOrder l') = set (lrOrder l) \<Longrightarrow> keptExcept P ext l l'"
  by (simp add: keptExcept_def)

lemma keptExcept_replace:
  assumes K: "keepsNeeded ext X l l1" and X: "X \<subseteq> {p}" and S: "set (lrOrder l') = insert new {e \<in> set (lrOrder l1). lePath e \<noteq> p}" "lePath new = p"
  shows "keptExcept {p} ext l l'"
  unfolding keptExcept_def
proof (intro ballI impI)
  fix f assume f: "f \<in> set (lrOrder l)" "lePath f \<notin> {p}"
    and n: "ext (lePath f) > 0 \<or> (\<exists>e \<in> set (lrOrder l'). lePath e \<notin> {p} \<and> lePath f \<in> set (leDeps e))"
  have "\<exists>e \<in> set (lrOrder l1). lePath e \<notin> X \<and> lePath f \<in> set (leDeps e)"
    if "e \<in> set (lrOrder l')" "lePath e \<notin> {p}" "lePath f \<in> set (leDeps e)" for e using that S X by auto
  then have "f \<in> set (lrOrder l1)" using K f(1) n unfolding keepsNeeded_def by blast
  then show "f \<in> set (lrOrder l')" using S f(2) by simp
qed

lemma lruPut_keeps:
  assumes I: "pinInv rank ext {} [] l" and r: "\<And>d. d \<in> set (lruImportPaths (cpImports cp)) \<Longrightarrow> rank d < rank p"
  shows "pinInv rank ext {} [] (lruPut p cp l) \<and> keptExcept {p} ext l (lruPut p cp l)"
proof (cases "lruIndex p l")
  case None
  define l1 where "l1 = (if int (length (lrOrder l)) \<ge> lrCapacity l then evictOldest l else l)"
  have 1: "pinInv rank ext {} [] l1" "keepsNeeded ext {} l l1"
    using evictOldest_keeps [OF I] I keepsNeeded_refl by (simp_all add: l1_def)
  then have "p \<notin> lePath ` set (lrOrder l1)" using None unfolding lruIndex_None keepsNeeded_def by blast
  then have d: "dropEntry p (lrOrder l1) = lrOrder l1" by (rule dropEntry_absent)
  then have "pinInv rank ext {p} [] l1" using 1(1) by (simp add: pinInv_def depCount_exempt)
  from pinInv_front [OF this r, where cp = cp] have "pinInv rank ext {} [] (lruPut p cp l)"
    by (simp add: lruPut_def None l1_def [symmetric] Let_def d)
  moreover have "set (lrOrder l1) = {e \<in> set (lrOrder l1). lePath e \<noteq> p}" using d by (metis set_dropEntry)
  then have "keptExcept {p} ext l (lruPut p cp l)"
    by (intro keptExcept_replace [OF 1(2), where new = "\<lparr>lePath = p, leChecked = cp, leDeps = lruImportPaths (cpImports cp)\<rparr>"])
      (simp_all add: lruPut_def None l1_def [symmetric] Let_def)
  ultimately show ?thesis ..
next
  case (Some e)
  note e = lruIndex_Some [OF Some]
  define l1 where "l1 = unpinAll (leDeps e) l"
  have "pinInv rank ext {p} (leDeps e) l"
    unfolding pinInv_def
  proof (intro conjI allI ballI)
    show "ext q + depCount {p} (lrOrder l) q + count_list (leDeps e) q \<le> lrPins l q" for q
      using pinInvD(4) [OF I, of q] dropEntry_count [OF pinInvD(1) [OF I] e(2), of "{}" q] e(1) by (simp add: depCount_exempt)
    show "rank q < rank x" if "x \<in> {p}" "q \<in> set (leDeps e)" for x q using that pinInvD(2) [OF I e(2)] e(1) by simp
  qed (use pinInvD [OF I] in auto)
  from unpinAll_keeps [OF this] have 1: "pinInv rank ext {p} [] l1" "keepsNeeded ext {p} l l1" by (simp_all add: l1_def)
  have "e \<in> set (lrOrder l1)" using 1(2) e unfolding keepsNeeded_def by blast
  then have "lruIndex p l1 \<noteq> None" using e(1) by (auto simp: lruIndex_None)
  then obtain e' where "lruIndex p l1 = Some e'" by blast
  then have put: "lruPut p cp l = pinAll (lruImportPaths (cpImports cp))
      (l1\<lparr>lrOrder := \<lparr>lePath = p, leChecked = cp, leDeps = lruImportPaths (cpImports cp)\<rparr> # dropEntry p (lrOrder l1)\<rparr>)"
    by (simp add: lruPut_def Some l1_def [symmetric] Let_def)
  have "keptExcept {p} ext l (lruPut p cp l)"
    by (rule keptExcept_replace [OF 1(2), where new = "\<lparr>lePath = p, leChecked = cp, leDeps = lruImportPaths (cpImports cp)\<rparr>"])
      (simp_all add: put)
  then show ?thesis using pinInv_front [OF 1(1) r, where cp = cp] by (simp add: put)
qed

lemma lruGet_keeps:
  assumes I: "pinInv rank ext {} [] l"
  shows "pinInv rank ext {} [] (snd (lruGet p l)) \<and> keptExcept {} ext l (snd (lruGet p l))"
proof (cases "lruIndex p l")
  case (Some e)
  note e = lruIndex_Some [OF Some]
  let ?l = "l\<lparr>lrOrder := e # dropEntry p (lrOrder l)\<rparr>"
  have "depCount {} (lrOrder ?l) q = depCount {} (lrOrder l) q" for q
    using dropEntry_count [OF pinInvD(1) [OF I] e(2), of "{}" q] e(1) by simp
  then have "pinInv rank ext {} [] ?l"
    using I distinct_dropEntry [OF pinInvD(1) [OF I], of p] e unfolding pinInv_def by auto
  moreover have "set (lrOrder ?l) = set (lrOrder l)"
    using e pinInvD(1) [OF I] by (auto simp: distinct_map inj_on_def)
  ultimately show ?thesis using Some keptExcept_same by (simp add: lruGet_def)
qed (use I in \<open>simp add: lruGet_def keptExcept_same\<close>)

lemma lruDelete_keeps:
  assumes I: "pinInv rank ext {} [] l"
  shows "pinInv rank ext {} [] (lruDelete p l) \<and> keptExcept {} ext l (lruDelete p l)"
proof (cases "lrPins l p > 0")
  case True
  then show ?thesis using I keptExcept_same by (simp add: lruDelete_def pinInv_def)
next
  case False
  show ?thesis
  proof (cases "lruIndex p l")
    case None
    then show ?thesis using I False keptExcept_same by (simp add: lruDelete_def removeIfPresent_def)
  next
    case (Some e)
    from removeElement_keeps [OF I lruIndex_Some(2) [OF Some]] lruIndex_Some(1) [OF Some] Some False show ?thesis
      by (simp add: lruDelete_def removeIfPresent_def keepsNeeded_except)
  qed
qed

lemma lruPin_keeps: "pinInv rank ext {} [] l \<Longrightarrow> pinInv rank (ext(p := ext p + 1)) {} [] (lruPin p l)"
  by (simp add: pinInv_def lruPin_def)

lemma unpin_keeps:
  assumes I: "pinInv rank ext {} [] l" and p: "0 < ext p"
  shows "pinInv rank (ext(p := ext p - 1)) {} [] (unpin p l) \<and> keptExcept {} (ext(p := ext p - 1)) l (unpin p l)"
proof -
  have "pinInv rank (ext(p := ext p - 1)) {} [p] l" using I p unfolding pinInv_def by auto
  from unpinAll_keeps [OF this] show ?thesis by (simp add: unpin_def keepsNeeded_except)
qed

lemma lruExec_keeps:
  assumes I: "pinInv rank ext {} [] l" and A: "lruAllowed rank op ext"
  shows "pinInv rank (inFlight op ext) {} [] (lruExec op l)
    \<and> keptExcept (replaced op) (\<lambda>p. min (ext p) (inFlight op ext p)) l (lruExec op l)"
proof (cases op)
  case (OpGet p)
  then show ?thesis using lruGet_keeps [OF I] by simp
next
  case (OpPut p cp)
  then show ?thesis using lruPut_keeps [OF I] A by simp
next
  case (OpPin p)
  then show ?thesis using lruPin_keeps [OF I] by (simp add: keptExcept_same lruPin_def)
next
  case (OpUnpin p)
  moreover have "(\<lambda>q. min (ext q) ((ext(p := ext p - 1)) q)) = ext(p := ext p - 1)" by auto
  ultimately show ?thesis using unpin_keeps [OF I] A by simp
next
  case (OpDelete p)
  then show ?thesis using lruDelete_keeps [OF I] by simp
qed

lemma lruReachable_inv: "lruReachable cap rank ext l \<Longrightarrow> pinInv rank ext {} [] l"
proof (induction rule: lruReachable.induct)
  case new
  then show ?case by (simp add: pinInv_def newLRUCache_def)
next
  case (op ext l op)
  then show ?case using lruExec_keeps by blast
qed

lemma unpinAll_length: "length (lrOrder (unpinAll ps l)) \<le> length (lrOrder l)"
proof (induction ps l rule: unpinAll.induct)
  case (2 p ps l)
  have D: "m \<le> length (dropEntry p es) \<Longrightarrow> m \<le> length es" for m es
    using length_filter_le [of _ es] le_trans unfolding dropEntry_def by blast
  show ?case using 2 by (auto simp: Let_def split: option.splits intro: D)
qed simp

lemma evictOldest_length:
  assumes "e \<in> set (lrOrder l)" "lrPins l (lePath e) = 0"
  shows "length (lrOrder (evictOldest l)) < length (lrOrder l)"
proof -
  obtain v where v: "find (\<lambda>e. lrPins l (lePath e) = 0) (rev (lrOrder l)) = Some v"
    using assms by (metis (mono_tags, lifting) find_None_iff not_None_eq set_rev)
  then have "v \<in> set (lrOrder l)" by (auto simp: find_Some_iff) (metis length_rev nth_mem set_rev)
  then have "length (dropEntry (lePath v) (lrOrder l)) < length (lrOrder l)"
    unfolding dropEntry_def by (rule length_filter_less) simp
  then show ?thesis using v unpinAll_length [of "leDeps v" "l\<lparr>lrOrder := dropEntry (lePath v) (lrOrder l)\<rparr>"]
    by (simp add: evictOldest_def removeElement_def)
qed

text \<open>
  C35. No operation of the dependency cache takes away a package that is still needed. In any sequence
  of operations whose packages have acyclic imports and whose releases match earlier pins, an entry
  that is in flight (pinned before and after the operation) or that an entry still cached afterwards
  imports stays cached with the same checked package, whatever the capacity; only storing a package
  under one of the two paths may replace its entry. Storing a new package never makes the cache grow beyond its
  capacity while some entry is unpinned.
\<close>

theorem lru_keeps_dependencies:
  assumes R: "lruReachable cap rank ext l" and A: "lruAllowed rank op ext"
    and f: "f \<in> set (lrOrder l)" "lePath f \<notin> replaced op"
    and n: "(0 < ext (lePath f) \<and> 0 < inFlight op ext (lePath f))
      \<or> (\<exists>e \<in> set (lrOrder (lruExec op l)). lePath e \<notin> replaced op \<and> lePath f \<in> set (leDeps e))"
  shows "f \<in> set (lrOrder (lruExec op l))
    \<and> (\<forall>p cp. lruIndex p l = None \<and> int (lruLen l) \<ge> lrCapacity l \<and> (\<exists>e \<in> set (lrOrder l). lrPins l (lePath e) = 0)
         \<longrightarrow> lruLen (lruPut p cp l) \<le> lruLen l)"
proof -
  have "keptExcept (replaced op) (\<lambda>p. min (ext p) (inFlight op ext p)) l (lruExec op l)"
    using lruExec_keeps [OF lruReachable_inv [OF R] A] by blast
  then have "f \<in> set (lrOrder (lruExec op l))" using f n unfolding keptExcept_def by auto
  moreover have "lruLen (lruPut p cp l) \<le> lruLen l"
    if "lruIndex p l = None" "int (lruLen l) \<ge> lrCapacity l" "e \<in> set (lrOrder l)" "lrPins l (lePath e) = 0" for p cp e
    using evictOldest_length [OF that(3,4)] that(1,2) by (simp add: lruPut_def lruLen_def Let_def)
  ultimately show ?thesis by blast
qed

text \<open>A package \<open>b\<close> that \<open>a\<close> imports, pinned, stays when a third package needs room.\<close>

definition sample_rank :: "path \<Rightarrow> nat" where
  "sample_rank p = (if p = lit ''a'' then 1 else 0)"

definition sample_checked :: "path list \<Rightarrow> checked_package" where
  "sample_checked ps = \<lparr>cpStamp = 1, cpImports = map ImportedPkg ps, cpImportFailed = False\<rparr>"

definition sample_cache :: lru_cache where
  "sample_cache = lruExec (OpPut (lit ''a'') (sample_checked [lit ''b'']))
     (lruExec (OpPut (lit ''b'') (sample_checked [])) (newLRUCache 2))"

lemma sample_cache_reachable: "lruReachable 2 sample_rank (\<lambda>_. 0) sample_cache"
proof -
  have "lruReachable 2 sample_rank (inFlight (OpPut (lit ''b'') (sample_checked [])) (\<lambda>_. 0)) (lruExec (OpPut (lit ''b'') (sample_checked [])) (newLRUCache 2))"
    by (rule lruReachable.op [OF lruReachable.new]) (simp add: sample_checked_def lruImportPaths_def)
  from lruReachable.op [OF this, of "OpPut (lit ''a'') (sample_checked [lit ''b''])"] show ?thesis
    by (simp add: sample_cache_def sample_checked_def lruImportPaths_def sample_rank_def lit_def)
qed

theorem lru_keeps_dependencies_witness:
  "map lePath (lrOrder sample_cache) = [lit ''a'', lit ''b''] \<and>
   \<lparr>lePath = lit ''b'', leChecked = sample_checked [], leDeps = []\<rparr>
     \<in> set (lrOrder (lruExec (OpGet (lit ''a'')) sample_cache))"
proof -
  have "lruAllowed sample_rank (OpGet (lit ''a'')) (\<lambda>_. 0)" by simp
  moreover have o: "lrOrder sample_cache = [\<lparr>lePath = lit ''a'', leChecked = sample_checked [lit ''b''], leDeps = [lit ''b'']\<rparr>,
      \<lparr>lePath = lit ''b'', leChecked = sample_checked [], leDeps = []\<rparr>]" by code_simp
  moreover have "\<exists>e \<in> set (lrOrder (lruExec (OpGet (lit ''a'')) sample_cache)). lit ''b'' \<in> set (leDeps e)"
    by (simp add: lruGet_def lruIndex_def o)
  ultimately show ?thesis
    using lru_keeps_dependencies [OF sample_cache_reachable, of "OpGet (lit ''a'')" "\<lparr>lePath = lit ''b'', leChecked = sample_checked [], leDeps = []\<rparr>"]
    by simp
qed

text \<open>
  The acyclicity hypothesis matters when a workspace package is checked again after its imports were
  turned around: with \<open>a\<close> and \<open>b\<close> pinning each other and both marked for deletion, storing \<open>a\<close>
  again releases \<open>b\<close>, whose removal releases and removes \<open>a\<close> itself, and the package just stored is lost.
\<close>

theorem cyclic_put_is_lost:
  defines "a \<equiv> lit ''a''" and "b \<equiv> lit ''b''"
  defines "l \<equiv> fold lruExec [OpPut b (sample_checked []), OpPut a (sample_checked [b]), OpPin a, OpDelete b, OpDelete a,
      OpPut b (sample_checked [a]), OpUnpin a] (newLRUCache 8)"
  shows "lruIndex a l \<noteq> None \<and> lruIndex a (lruPut a (sample_checked []) l) = None"
  unfolding l_def a_def b_def by code_simp

end
