(* ===== verification/Dep_Provider.thy ===== *)
theory Dep_Provider
  imports Dep_Cache
begin

text \<open>
  The pin protocol of \<open>depcheck.Provider\<close> (\<open>depcheck/depcheck.go\<close>): its two caches, the waiters
  of a check in flight, and the closure scopes that record what a top-level call has resolved. Each
  definition is one section under \<open>Provider.mu\<close>. Type checking and the collapsing of concurrent
  calls by \<open>singleflight\<close> are not modelled; calls from different goroutines interleave at these
  sections.
\<close>

section \<open>State\<close>

definition DefaultCap :: int where "DefaultCap = 64"
definition batchCapPerWorker :: int where "batchCapPerWorker = 64"
definition FullBodyDefaultCap :: int where "FullBodyDefaultCap = 8"

definition RecommendedCap :: "int \<Rightarrow> int \<Rightarrow> int" where
  "RecommendedCap nonRootCount parallelism =
     (let ceiling = max DefaultCap (parallelism * batchCapPerWorker)
      in if nonRootCount < ceiling then max nonRootCount DefaultCap else ceiling)"

record provider =
  pvLRU :: lru_cache
  pvFullLRU :: lru_cache
  pvChecked :: nat
  pvFullChecked :: nat
  pvWaiters :: "path \<Rightarrow> nat"
  pvFullWaiters :: "path \<Rightarrow> nat"

definition NewProvider :: "int \<Rightarrow> int \<Rightarrow> provider" where
  "NewProvider cap fullBodyCap =
     \<lparr>pvLRU = newLRUCache (if cap \<le> 0 then DefaultCap else cap),
      pvFullLRU = newLRUCache (if fullBodyCap \<le> 0 then FullBodyDefaultCap else fullBodyCap),
      pvChecked = 0, pvFullChecked = 0, pvWaiters = (\<lambda>_. 0), pvFullWaiters = (\<lambda>_. 0)\<rparr>"

text \<open>Which cache a scope's pin lives in; \<open>None\<close> for the package \<open>unsafe\<close>.\<close>

datatype which_lru = DeclLRU | FullLRU

record closure_scope =
  csPkgs :: "path \<rightharpoonup> checked_package"
  csPins :: "(path \<times> which_lru option) list"

definition newClosureScope :: closure_scope where
  "newClosureScope = \<lparr>csPkgs = Map.empty, csPins = []\<rparr>"

definition scopeGet :: "path \<Rightarrow> closure_scope \<Rightarrow> checked_package option" where
  "scopeGet p sc = csPkgs sc p"

definition scopePut :: "path \<Rightarrow> checked_package \<Rightarrow> which_lru option \<Rightarrow> closure_scope \<Rightarrow> closure_scope" where
  "scopePut p cp w sc =
     (if csPkgs sc p \<noteq> None then sc
      else sc\<lparr>csPkgs := (csPkgs sc)(p \<mapsto> cp), csPins := csPins sc @ [(p, w)]\<rparr>)"

section \<open>Operations\<close>

definition providerLen :: "provider \<Rightarrow> nat" where "providerLen pv = lruLen (pvLRU pv)"

definition LenWithBodies :: "provider \<Rightarrow> nat" where "LenWithBodies pv = lruLen (pvFullLRU pv)"

definition providerGet :: "path \<Rightarrow> provider \<Rightarrow> checked_package option \<times> provider" where
  "providerGet p pv = (let (r, l) = lruGet p (pvLRU pv) in (r, pv\<lparr>pvLRU := l\<rparr>))"

definition getFull :: "path \<Rightarrow> provider \<Rightarrow> checked_package option \<times> provider" where
  "getFull p pv = (let (r, l) = lruGet p (pvFullLRU pv) in (r, pv\<lparr>pvFullLRU := l\<rparr>))"

definition providerPut :: "path \<Rightarrow> checked_package \<Rightarrow> provider \<Rightarrow> provider" where
  "providerPut p cp pv =
     (let pv1 = pv\<lparr>pvChecked := pvChecked pv + 1\<rparr>
      in if cpImportFailed cp then pv1
         else let l = lruPut p cp (pvLRU pv1)
              in pv1\<lparr>pvLRU := (if pvWaiters pv1 p > 0 then lruPin p l else l)\<rparr>)"

definition putFull :: "path \<Rightarrow> checked_package \<Rightarrow> provider \<Rightarrow> provider" where
  "putFull p cp pv =
     (let pv1 = pv\<lparr>pvFullChecked := pvFullChecked pv + 1\<rparr>
      in if cpImportFailed cp then pv1
         else let l = lruPut p cp (pvFullLRU pv1)
              in pv1\<lparr>pvFullLRU := (if pvFullWaiters pv1 p > 0 then lruPin p l else l)\<rparr>)"

definition tryPinFull :: "path \<Rightarrow> closure_scope \<Rightarrow> provider \<Rightarrow> checked_package option \<times> closure_scope \<times> provider" where
  "tryPinFull p sc pv =
     (case lruGet p (pvFullLRU pv) of
        (None, l) \<Rightarrow> (None, sc, pv)
      | (Some cp, l) \<Rightarrow> (Some cp, scopePut p cp (Some FullLRU) sc, pv\<lparr>pvFullLRU := lruPin p l\<rparr>))"

definition tryPin :: "path \<Rightarrow> closure_scope \<Rightarrow> provider \<Rightarrow> checked_package option \<times> closure_scope \<times> provider" where
  "tryPin p sc pv =
     (case lruGet p (pvLRU pv) of
        (None, l) \<Rightarrow> (None, sc, pv)
      | (Some cp, l) \<Rightarrow> (Some cp, scopePut p cp (Some DeclLRU) sc, pv\<lparr>pvLRU := lruPin p l\<rparr>))"

definition enterWait :: "path \<Rightarrow> provider \<Rightarrow> provider" where
  "enterWait p pv = pv\<lparr>pvWaiters := (pvWaiters pv)(p := pvWaiters pv p + 1)\<rparr>"

definition retireWaiterLocked :: "path \<Rightarrow> provider \<Rightarrow> provider" where
  "retireWaiterLocked p pv =
     (if pvWaiters pv p > 1 then pv\<lparr>pvWaiters := (pvWaiters pv)(p := pvWaiters pv p - 1)\<rparr>
      else pv\<lparr>pvWaiters := (pvWaiters pv)(p := 0), pvLRU := unpin p (pvLRU pv)\<rparr>)"

definition exitWait :: "path \<Rightarrow> provider \<Rightarrow> provider" where
  "exitWait p pv = retireWaiterLocked p pv"

definition exitWaitAndPin :: "path \<Rightarrow> checked_package \<Rightarrow> closure_scope \<Rightarrow> provider \<Rightarrow> closure_scope \<times> provider" where
  "exitWaitAndPin p cp sc pv =
     (scopePut p cp (Some DeclLRU) sc, retireWaiterLocked p (pv\<lparr>pvLRU := lruPin p (pvLRU pv)\<rparr>))"

definition enterWaitFull :: "path \<Rightarrow> provider \<Rightarrow> provider" where
  "enterWaitFull p pv = pv\<lparr>pvFullWaiters := (pvFullWaiters pv)(p := pvFullWaiters pv p + 1)\<rparr>"

definition retireWaiterFullLocked :: "path \<Rightarrow> provider \<Rightarrow> provider" where
  "retireWaiterFullLocked p pv =
     (if pvFullWaiters pv p > 1 then pv\<lparr>pvFullWaiters := (pvFullWaiters pv)(p := pvFullWaiters pv p - 1)\<rparr>
      else pv\<lparr>pvFullWaiters := (pvFullWaiters pv)(p := 0), pvFullLRU := unpin p (pvFullLRU pv)\<rparr>)"

definition exitWaitFull :: "path \<Rightarrow> provider \<Rightarrow> provider" where
  "exitWaitFull p pv = retireWaiterFullLocked p pv"

definition exitWaitFullAndPin :: "path \<Rightarrow> checked_package \<Rightarrow> closure_scope \<Rightarrow> provider \<Rightarrow> closure_scope \<times> provider" where
  "exitWaitFullAndPin p cp sc pv =
     (scopePut p cp (Some FullLRU) sc, retireWaiterFullLocked p (pv\<lparr>pvFullLRU := lruPin p (pvFullLRU pv)\<rparr>))"

definition providerDelete :: "path list \<Rightarrow> provider \<Rightarrow> provider" where
  "providerDelete ps pv =
     fold (\<lambda>p pv. pv\<lparr>pvLRU := lruDelete p (pvLRU pv), pvFullLRU := lruDelete p (pvFullLRU pv)\<rparr>) ps pv"

text \<open>\<open>closureScope.close\<close>, for an order in which the map of pins is enumerated.\<close>

definition releasePin :: "path \<times> which_lru option \<Rightarrow> provider \<Rightarrow> provider" where
  "releasePin pin pv =
     (case pin of
        (p, None) \<Rightarrow> pv
      | (p, Some DeclLRU) \<Rightarrow> pv\<lparr>pvLRU := unpin p (pvLRU pv)\<rparr>
      | (p, Some FullLRU) \<Rightarrow> pv\<lparr>pvFullLRU := unpin p (pvFullLRU pv)\<rparr>)"

definition scopeClose :: "closure_scope \<Rightarrow> provider \<Rightarrow> provider" where
  "scopeClose sc pv = fold releasePin (csPins sc) pv"

section \<open>The birth pin\<close>

lemma unpin_shared: "1 < lrPins l p \<Longrightarrow> unpin p l = l\<lparr>lrPins := (lrPins l)(p := lrPins l p - 1)\<rparr>"
  by (simp add: unpin_def)

lemma enterWaits: "(enterWait p ^^ n) pv = pv\<lparr>pvWaiters := (pvWaiters pv)(p := pvWaiters pv p + n)\<rparr>"
proof (induction n)
  case (Suc n)
  have "(enterWait p ^^ Suc n) pv = enterWait p ((enterWait p ^^ n) pv)" by simp
  also have "\<dots> = pv\<lparr>pvWaiters := (pvWaiters pv)(p := pvWaiters pv p + Suc n)\<rparr>" unfolding Suc.IH by (simp add: enterWait_def)
  finally show ?case .
qed simp

text \<open>The exits of several waiters one after the other, each with the scope of its call.\<close>

definition exitAll :: "path \<Rightarrow> checked_package \<Rightarrow> closure_scope list \<Rightarrow> provider \<Rightarrow> provider" where
  "exitAll p cp scs pv = fold (\<lambda>sc pv. snd (exitWaitAndPin p cp sc pv)) scs pv"

lemma exitWaitAndPin_birth:
  assumes "0 < lrPins (pvLRU pv) p"
  shows "snd (exitWaitAndPin p cp sc pv) =
    pv\<lparr>pvWaiters := (pvWaiters pv)(p := pvWaiters pv p - 1),
       pvLRU := (pvLRU pv)\<lparr>lrPins := (lrPins (pvLRU pv))(p := lrPins (pvLRU pv) p + of_bool (1 < pvWaiters pv p))\<rparr>\<rparr>"
  using assms by (simp add: exitWaitAndPin_def retireWaiterLocked_def unpin_shared lruPin_def)

lemma exitAll_birth:
  "0 < lrPins (pvLRU pv) p \<Longrightarrow> length scs \<le> pvWaiters pv p \<Longrightarrow>
   lrOrder (pvLRU (exitAll p cp scs pv)) = lrOrder (pvLRU pv)
   \<and> lrPins (pvLRU (exitAll p cp scs pv)) p + of_bool (scs \<noteq> [] \<and> length scs = pvWaiters pv p) = lrPins (pvLRU pv) p + length scs
   \<and> pvWaiters (exitAll p cp scs pv) p = pvWaiters pv p - length scs"
proof (induction scs arbitrary: pv)
  case Nil
  then show ?case by (simp add: exitAll_def)
next
  case (Cons sc scs)
  define pv1 where "pv1 = snd (exitWaitAndPin p cp sc pv)"
  have e: "exitAll p cp (sc # scs) pv = exitAll p cp scs pv1" by (simp add: exitAll_def pv1_def)
  have 1: "lrOrder (pvLRU pv1) = lrOrder (pvLRU pv)" "pvWaiters pv1 p = pvWaiters pv p - 1"
    "lrPins (pvLRU pv1) p = lrPins (pvLRU pv) p + of_bool (1 < pvWaiters pv p)"
    unfolding pv1_def exitWaitAndPin_birth [OF Cons.prems(1)] by simp_all
  have IH: "lrOrder (pvLRU (exitAll p cp scs pv1)) = lrOrder (pvLRU pv1)
     \<and> lrPins (pvLRU (exitAll p cp scs pv1)) p + of_bool (scs \<noteq> [] \<and> length scs = pvWaiters pv1 p) = lrPins (pvLRU pv1) p + length scs
     \<and> pvWaiters (exitAll p cp scs pv1) p = pvWaiters pv1 p - length scs"
    using Cons.prems 1 by (intro Cons.IH) simp_all
  show ?case
  proof (cases "pvWaiters pv p = Suc (length scs)")
    case True
    then show ?thesis unfolding e using IH 1 by (cases scs) auto
  next
    case False
    then have "length scs \<noteq> pvWaiters pv1 p" using 1(2) Cons.prems(2) by simp
    then show ?thesis unfolding e using IH 1 False Cons.prems(2) by simp
  qed
qed

lemma lruPut_front:
  assumes "lruIndex p l = None"
  shows "\<exists>es. lrOrder (lruPut p cp l) = \<lparr>lePath = p, leChecked = cp, leDeps = lruImportPaths (cpImports cp)\<rparr> # es"
  using assms by (simp add: lruPut_def Let_def)

text \<open>
  A freshly checked package stays pinned until every caller waiting for it holds a pin of its own.
  When \<open>n\<close> callers have registered, the check stores a package that was not cached, and some of the
  callers have left with \<open>exitWaitAndPin\<close>, then the package is the cache's newest entry, it carries
  one pin per caller that left, and one more, the birth pin, exactly while a caller is still waiting.
\<close>

lemma provider_birth_pin:
  fixes p cp pv
  defines "base \<equiv> lruPut p cp (pvLRU pv)"
  assumes w: "pvWaiters pv p = 0" and n: "0 < n" "length scs \<le> n" and f: "\<not> cpImportFailed cp"
    and new: "lruIndex p (pvLRU pv) = None"
  shows "let pv' = exitAll p cp scs (providerPut p cp ((enterWait p ^^ n) pv))
    in lrPins (pvLRU pv') p = lrPins base p + length scs + of_bool (length scs < n)
     \<and> lrOrder (pvLRU pv') = lrOrder base \<and> lePath (hd (lrOrder base)) = p \<and> leChecked (hd (lrOrder base)) = cp
     \<and> pvWaiters pv' p = n - length scs"
proof -
  let ?pv = "providerPut p cp ((enterWait p ^^ n) pv)"
  have 1: "pvWaiters ?pv p = n" "pvLRU ?pv = lruPin p base"
    using w n f by (simp_all add: providerPut_def enterWaits base_def Let_def)
  have "0 < lrPins (pvLRU ?pv) p" "length scs \<le> pvWaiters ?pv p" using 1 n by (simp_all add: lruPin_def)
  from exitAll_birth [OF this, of cp] show ?thesis
    using 1 n lruPut_front [OF new, of cp] by (auto simp: Let_def lruPin_def base_def)
qed

lemma provider_birth_pin_witness:
  "lrPins (pvLRU (exitAll (lit ''p'') (sample_checked []) [newClosureScope]
      (providerPut (lit ''p'') (sample_checked []) ((enterWait (lit ''p'') ^^ 2) (NewProvider 1 1))))) (lit ''p'') = 2"
  using provider_birth_pin [of "NewProvider 1 1" "lit ''p''" 2 "[newClosureScope]" "sample_checked []"]
  by (simp add: NewProvider_def sample_checked_def newLRUCache_def lruIndex_def lruPut_def Let_def lruImportPaths_def pinAll_def)

text \<open>
  A caller whose lookup missed and whose check then finds the package already stored leaves with the
  pin it took cancelled again by \<open>retireWaiterLocked\<close>, which releases a birth pin that was never
  given: its scope has recorded the package, but the next package stored evicts it.
\<close>

theorem double_check_leaves_unpinned:
  defines "p \<equiv> lit ''p''"
  defines "pv1 \<equiv> providerPut p (sample_checked []) (NewProvider 1 1)"
  defines "r \<equiv> exitWaitAndPin p (sample_checked []) newClosureScope (snd (providerGet p (enterWait p pv1)))"
  shows "fst (providerGet p (enterWait p pv1)) = Some (sample_checked []) \<and> csPins (fst r) = [(p, Some DeclLRU)]
    \<and> lrPins (pvLRU (snd r)) p = 0 \<and> lruIndex p (pvLRU (providerPut (lit ''q'') (sample_checked []) (snd r))) = None"
  unfolding r_def pv1_def p_def by code_simp

end
