(* ===== verification/Byte_Codec.thy ===== *)
theory Byte_Codec
  imports Golance_Prelude
begin

text \<open>
  The byte-level machinery of \<open>internal/store\<close>. Encoders allocate a zeroed buffer of a
  computed size and fill it at a moving offset (\<open>binary.LittleEndian.PutUint32(b[off:], ...)\<close>,
  \<open>off += copy(b[off:], ...)\<close>); decoders read at an offset with the bounds-checked helpers
  \<open>takeBytes\<close>, \<open>takeString\<close>, \<open>takeUint32\<close>, \<open>takeUint64\<close> of
  \<open>unit.go\<close>. Writes past the end of the buffer and reads past the end of the input are
  panics of the model. \<open>writes w xs\<close> says that a writer appends exactly \<open>xs\<close> and never
  panics when there is room; \<open>reads r xs v\<close> says that a reader positioned at \<open>xs\<close> returns
  \<open>v\<close> and moves past it. The locale \<open>record_codec\<close> is the contract the database
  and the content-addressed store rely on.
\<close>

section \<open>Errors of the store package\<close>

datatype store_error =
    Truncated                 \<comment> \<open>a record ends before the field that is read\<close>
  | BadHeader                 \<comment> \<open>short blob or wrong magic\<close>
  | BadVersion nat            \<comment> \<open>a format version this code does not read\<close>
  | OutOfRange                \<comment> \<open>an integer field that does not fit its Go type\<close>
  | BadTable                  \<comment> \<open>a facts table whose length or bounds disagree with the header\<close>
  | TooLarge                  \<comment> \<open>a table would exceed the uint32 limits of the format\<close>
  | BadIndex                  \<comment> \<open>a record index outside the table\<close>
  | NotFound                  \<comment> \<open>\<open>ErrNotFound\<close>\<close>
  | MalformedKey              \<comment> \<open>an index key of the wrong shape\<close>
  | Cancelled                 \<comment> \<open>\<open>ctx.Err()\<close>\<close>
  | IOError nat               \<comment> \<open>an error of the operating system or of bbolt\<close>

section \<open>Slices\<close>

text \<open>\<open>b[lo:hi]\<close>: panics unless \<open>lo \<le> hi \<le> len(b)\<close>.\<close>

definition slice :: "bytes \<Rightarrow> nat \<Rightarrow> nat \<Rightarrow> (store_error, bytes) go" where
  "slice b lo hi = (if lo \<le> hi \<and> hi \<le> length b then Ok (take (hi - lo) (drop lo b)) else Panic)"

text \<open>\<open>binary.LittleEndian.Uint16/32/64(b[off:])\<close>: panics when fewer bytes are left.\<close>

definition rd_u16 :: "bytes \<Rightarrow> nat \<Rightarrow> (store_error, u16) go" where
  "rd_u16 b off = (if off + 2 \<le> length b then Ok (get_u16 (drop off b)) else Panic)"

definition rd_u32 :: "bytes \<Rightarrow> nat \<Rightarrow> (store_error, u32) go" where
  "rd_u32 b off = (if off + 4 \<le> length b then Ok (get_u32 (drop off b)) else Panic)"

definition rd_u64 :: "bytes \<Rightarrow> nat \<Rightarrow> (store_error, u64) go" where
  "rd_u64 b off = (if off + 8 \<le> length b then Ok (get_u64 (drop off b)) else Panic)"

section \<open>Writers\<close>

type_synonym wbuf = "bytes \<times> nat"
type_synonym writer = "wbuf \<Rightarrow> (store_error, wbuf) go"

definition store_at :: "bytes \<Rightarrow> nat \<Rightarrow> bytes \<Rightarrow> bytes" where
  "store_at b off xs = take off b @ xs @ drop (off + length xs) b"

text \<open>A fixed-width write at \<open>off\<close> followed by advancing \<open>off\<close>.\<close>

fun w_put :: "bytes \<Rightarrow> writer" where
  "w_put xs (b, off) =
     (if off + length xs \<le> length b then Ok (store_at b off xs, off + length xs) else Panic)"

text \<open>\<open>off += copy(b[off:], s)\<close>: copies what fits.\<close>

fun w_copy :: "bytes \<Rightarrow> writer" where
  "w_copy s (b, off) =
     (if off \<le> length b
      then (let n = min (length s) (length b - off) in Ok (store_at b off (take n s), off + n))
      else Panic)"

text \<open>Bytes left at their zero value (the reserved header field).\<close>

fun w_skip :: "nat \<Rightarrow> writer" where
  "w_skip n (b, off) = Ok (b, off + n)"

text \<open>\<open>u32len\<close>: a length as a uint32, panicking when it does not fit.\<close>

definition u32len :: "nat \<Rightarrow> (store_error, u32) go" where
  "u32len n = (if n > 2 ^ 32 - 1 then Panic else Ok (of_nat n))"

definition w_len :: "nat \<Rightarrow> writer" where
  "w_len n s = go_bind (u32len n) (\<lambda>v. w_put (put_u32 v) s)"

fun w_seq :: "writer list \<Rightarrow> writer" where
  "w_seq [] s = Ok s"
| "w_seq (w # ws) s = go_bind (w s) (w_seq ws)"

text \<open>Running a writer over a fresh buffer of \<open>size\<close> zero bytes; the buffer is returned.\<close>

definition w_run :: "nat \<Rightarrow> writer \<Rightarrow> (store_error, bytes) go" where
  "w_run sz w = go_bind (w (replicate sz 0, 0)) (\<lambda>(b, off). Ok b)"

text \<open>The same with \<open>return b[:off]\<close>.\<close>

definition w_run_off :: "nat \<Rightarrow> writer \<Rightarrow> (store_error, bytes) go" where
  "w_run_off sz w = go_bind (w (replicate sz 0, 0)) (\<lambda>(b, off). slice b 0 off)"

subsection \<open>What a writer appends\<close>

definition zbuf :: "bytes \<Rightarrow> nat \<Rightarrow> bytes" where
  "zbuf d k = d @ replicate k 0"

definition writes :: "writer \<Rightarrow> bytes \<Rightarrow> bool" where
  "writes w xs \<longleftrightarrow> (\<forall>d k. length xs \<le> k \<longrightarrow>
     w (zbuf d k, length d) = Ok (zbuf (d @ xs) (k - length xs), length (d @ xs)))"

lemma store_at_zbuf:
  "length xs \<le> k \<Longrightarrow> store_at (zbuf d k) (length d) xs = zbuf (d @ xs) (k - length xs)"
  by (simp add: store_at_def zbuf_def)

lemma length_zbuf [simp]: "length (zbuf d k) = length d + k"
  by (simp add: zbuf_def)

lemma writes_put: "writes (w_put xs) xs"
  by (simp add: writes_def store_at_zbuf)

lemma writes_copy: "writes (w_copy s) s"
  by (simp add: writes_def store_at_zbuf Let_def min_def)

lemma writes_skip: "writes (w_skip n) (replicate n 0)"
proof -
  have "zbuf d k = zbuf (d @ replicate n 0) (k - n)" if "n \<le> k" for d k
    using that by (simp add: zbuf_def replicate_add [symmetric])
  then show ?thesis by (simp add: writes_def)
qed

lemma writes_len: "n < 2 ^ 32 \<Longrightarrow> writes (w_len n) (put_u32 (of_nat n))"
  using writes_put [of "put_u32 (of_nat n)"] by (simp add: writes_def w_len_def u32len_def)

lemma writes_Nil: "writes (w_seq []) []"
  by (simp add: writes_def zbuf_def)

lemma writes_Cons:
  assumes "writes w xs" and "writes (w_seq ws) ys"
  shows "writes (w_seq (w # ws)) (xs @ ys)"
proof -
  have "w_seq (w # ws) (zbuf d k, length d) =
      Ok (zbuf (d @ xs @ ys) (k - length (xs @ ys)), length (d @ xs @ ys))"
    if k: "length (xs @ ys) \<le> k" for d k
  proof -
    have "w (zbuf d k, length d) = Ok (zbuf (d @ xs) (k - length xs), length (d @ xs))"
      using assms(1) k by (simp add: writes_def)
    moreover have "w_seq ws (zbuf (d @ xs) (k - length xs), length (d @ xs)) =
        Ok (zbuf ((d @ xs) @ ys) (k - length xs - length ys), length ((d @ xs) @ ys))"
      using assms(2) [unfolded writes_def, rule_format, of "k - length xs" "d @ xs"] k by simp
    ultimately show ?thesis by simp
  qed
  then show ?thesis by (simp add: writes_def)
qed

lemma writes_map:
  "(\<And>x. x \<in> set xs \<Longrightarrow> writes (w x) (enc x)) \<Longrightarrow>
    writes (w_seq (map w xs)) (concat (map enc xs))"
proof (induction xs)
  case Nil
  show ?case using writes_Nil by (simp only: list.map concat.simps)
next
  case (Cons x xs)
  then show ?case
    unfolding list.map concat.simps by (intro writes_Cons) (simp_all del: w_seq.simps)
qed

lemmas writes_intros = writes_put writes_copy writes_skip writes_len writes_Cons writes_Nil writes_map

lemma w_run_writes: "writes w xs \<Longrightarrow> length xs = sz \<Longrightarrow> w_run sz w = Ok xs"
  unfolding w_run_def writes_def
  by (drule spec [of _ "[]"], drule spec [of _ sz]) (simp add: zbuf_def)

lemma w_run_off_writes: "writes w xs \<Longrightarrow> length xs = sz \<Longrightarrow> w_run_off sz w = Ok xs"
  unfolding w_run_off_def writes_def
  by (drule spec [of _ "[]"], drule spec [of _ sz]) (simp add: zbuf_def slice_def)

section \<open>Readers\<close>

type_synonym 'a reader = "bytes \<Rightarrow> nat \<Rightarrow> (store_error, 'a \<times> nat) go"

definition takeBytes :: "nat \<Rightarrow> bytes reader" where
  "takeBytes n b off =
     (if off + n > length b then Err Truncated
      else go_bind (slice b off (off + n)) (\<lambda>x. Ok (x, off + n)))"

definition takeUint32 :: "nat reader" where
  "takeUint32 b off =
     (if off + 4 > length b then Err Truncated
      else go_bind (rd_u32 b off) (\<lambda>v. Ok (unat v, off + 4)))"

definition takeUint64 :: "u64 reader" where
  "takeUint64 b off =
     (if off + 8 > length b then Err Truncated
      else go_bind (rd_u64 b off) (\<lambda>v. Ok (v, off + 8)))"

definition takeString :: "bytes reader" where
  "takeString b off =
     go_bind (takeUint32 b off) (\<lambda>(n, off). go_bind (takeBytes n b off) (\<lambda>(raw, off). Ok (raw, off)))"

definition uint32Field :: "nat \<Rightarrow> (store_error, u32) go" where
  "uint32Field n = (if n > 2 ^ 32 - 1 then Err OutOfRange else Ok (of_nat n))"

text \<open>The counted decoding loops (\<open>for i := range files\<close>).\<close>

fun take_n :: "'a reader \<Rightarrow> nat \<Rightarrow> 'a list reader" where
  "take_n r 0 b off = Ok ([], off)"
| "take_n r (Suc n) b off =
     go_bind (r b off) (\<lambda>(x, off). go_bind (take_n r n b off) (\<lambda>(xs, off). Ok (x # xs, off)))"

subsection \<open>What a reader returns\<close>

definition reads :: "'a reader \<Rightarrow> bytes \<Rightarrow> 'a \<Rightarrow> bool" where
  "reads r xs v \<longleftrightarrow> (\<forall>pre post. r (pre @ xs @ post) (length pre) = Ok (v, length (pre @ xs)))"

lemma reads_return: "reads (\<lambda>b off. Ok (v, off)) [] v"
  by (simp add: reads_def)

lemma reads_bind:
  assumes "reads r xs a" and "reads (f a) ys v"
  shows "reads (\<lambda>b off. go_bind (r b off) (\<lambda>(x, off). f x b off)) (xs @ ys) v"
proof -
  have "f a (pre @ xs @ ys @ post) (length pre + length xs) = Ok (v, length (pre @ xs @ ys))"
    for pre post
    using assms(2) [unfolded reads_def, rule_format, of "pre @ xs" post] by simp
  moreover have "r (pre @ xs @ ys @ post) (length pre) = Ok (a, length (pre @ xs))" for pre post
    using assms(1) [unfolded reads_def, rule_format, of pre "ys @ post"] by simp
  ultimately show ?thesis by (simp add: reads_def)
qed

lemma reads_pure:
  assumes "m = Ok a" and "reads (f a) ys v"
  shows "reads (\<lambda>b off. go_bind m (\<lambda>x. f x b off)) ys v"
  using assms by simp

lemma reads_if:
  assumes "\<not> P" and "reads f ys v"
  shows "reads (\<lambda>b off. if P then g b off else f b off) ys v"
  using assms by simp

lemma reads_takeBytes: "length xs = n \<Longrightarrow> reads (takeBytes n) xs xs"
  by (auto simp: reads_def takeBytes_def slice_def)

lemma reads_takeUint32: "reads takeUint32 (put_u32 v) (unat v)"
  by (simp add: reads_def takeUint32_def rd_u32_def)

lemma reads_takeUint64: "reads takeUint64 (put_u64 v) v"
  by (simp add: reads_def takeUint64_def rd_u64_def)

lemma unat_of_nat_u32: "n < 2 ^ 32 \<Longrightarrow> unat (of_nat n :: u32) = n"
  by (simp add: unat_of_nat)

lemma reads_count: "n < 2 ^ 32 \<Longrightarrow> reads takeUint32 (put_u32 (of_nat n)) n"
  using reads_takeUint32 [of "of_nat n"] by (simp add: unat_of_nat_u32)

lemma reads_takeString:
  assumes "length s < 2 ^ 32"
  shows "reads takeString (put_u32 (of_nat (length s)) @ s) s"
proof -
  have "reads (\<lambda>b off. go_bind (takeBytes (length s) b off) (\<lambda>(raw, off). Ok (raw, off))) (s @ []) s"
    by (rule reads_bind [OF reads_takeBytes reads_return]) simp
  then show ?thesis
    using reads_bind [OF reads_count [OF assms],
        where f = "\<lambda>n b off. go_bind (takeBytes n b off) (\<lambda>(raw, off). Ok (raw, off))"]
    by (simp add: takeString_def [abs_def])
qed

lemma reads_take_n:
  "(\<And>x. x \<in> set xs \<Longrightarrow> reads r (enc x) (f x)) \<Longrightarrow>
    reads (take_n r (length xs)) (concat (map enc xs)) (map f xs)"
proof (induction xs)
  case Nil
  then show ?case by (simp add: reads_def)
next
  case (Cons x xs)
  have "reads (\<lambda>b off. go_bind (take_n r (length xs) b off) (\<lambda>(ys, off). Ok (f x # ys, off)))
      (concat (map enc xs) @ []) (f x # map f xs)"
    by (rule reads_bind [OF _ reads_return]) (simp add: Cons)
  then show ?case
    using reads_bind [of r "enc x" "f x"
        "\<lambda>y b off. go_bind (take_n r (length xs) b off) (\<lambda>(ys, off). Ok (y # ys, off))"] Cons.prems
    by (simp add: reads_def)
qed

lemma uint32Field_ok [simp]: "uint32Field (unat (v :: u32)) = Ok v"
  using unat_less [of v] by (simp add: uint32Field_def)

lemma reads_run: "reads r xs v \<Longrightarrow> r xs 0 = Ok (v, length xs)"
  unfolding reads_def by (drule spec [of _ "[]"], drule spec [of _ "[]"]) simp

subsection \<open>Decoders do not panic\<close>

definition safe :: "'a reader \<Rightarrow> bool" where
  "safe r \<longleftrightarrow> (\<forall>b off. r b off \<noteq> Panic)"

lemma safe_takeBytes [simp]: "takeBytes n b off \<noteq> Panic"
  by (simp add: takeBytes_def slice_def)

lemma safe_takeUint32 [simp]: "takeUint32 b off \<noteq> Panic"
  by (simp add: takeUint32_def rd_u32_def)

lemma safe_takeUint64 [simp]: "takeUint64 b off \<noteq> Panic"
  by (simp add: takeUint64_def rd_u64_def)

lemma safe_takeString [simp]: "takeString b off \<noteq> Panic"
  by (auto simp: takeString_def go_bind_eq_Panic split: prod.splits)

lemma safe_uint32Field [simp]: "uint32Field n \<noteq> Panic"
  by (simp add: uint32Field_def)

lemma safe_take_n: "(\<And>off. r b off \<noteq> Panic) \<Longrightarrow> take_n r n b off \<noteq> Panic"
  by (induction n arbitrary: off) (auto simp: go_bind_eq_Panic split: prod.splits)

section \<open>The codec contract\<close>

text \<open>
  What a client relies on: the encoder succeeds on the values it is given, the decoder
  recovers the normal form of what was encoded, and no input makes the decoder panic.
\<close>

locale record_codec =
  fixes enc :: "'a \<Rightarrow> (store_error, bytes) go"
    and dec :: "bytes \<Rightarrow> (store_error, 'a) go"
    and norm :: "'a \<Rightarrow> 'a"
    and fits :: "'a \<Rightarrow> bool"
  assumes enc_dec: "fits x \<Longrightarrow> \<exists>b. enc x = Ok b \<and> dec b = Ok (norm x)"
    and dec_total: "dec b \<noteq> Panic"
begin

lemma dec_enc: "fits x \<Longrightarrow> enc x = Ok b \<Longrightarrow> dec b = Ok (norm x)"
  using enc_dec [of x] by auto

lemma enc_inject: "fits x \<Longrightarrow> fits y \<Longrightarrow> enc x = enc y \<Longrightarrow> norm x = norm y"
  using enc_dec [of x] enc_dec [of y] by auto

lemma enc_not_Panic: "fits x \<Longrightarrow> enc x \<noteq> Panic"
  using enc_dec [of x] by auto

end

end
