(* ===== verification/Unit_Codec.thy ===== *)
theory Unit_Codec
  imports Byte_Codec
begin

text \<open>
  The on-disk records of \<open>internal/store\<close>: the per-package \<open>UnitBlob\<close> stored in
  the content-addressed store (\<open>unit.go\<close>), the \<open>UnitPointer\<close> and the method
  entries of the per-root database (\<open>store.go\<close>), and the posting lists
  (\<open>postings.go\<close>). Encoders follow the source's writes into a preallocated buffer;
  \<open>..._bytes\<close> is the layout the doc comments give. Every encoder is shown to
  produce exactly that layout in a buffer of exactly the computed size, every decoder to
  invert it, and no decoder to panic on any input.
\<close>

section \<open>Data\<close>

text \<open>\<open>int64\<close> values are 64-bit words read with \<open>sint\<close>.\<close>

type_synonym i64 = "64 word"

record file_stat =
  fsPath :: bytes
  fsSize :: i64
  fsModTimeNanos :: i64

record name_entry =
  neName :: bytes
  neIDHash :: u64

record method_entry =
  mePkgHash :: u64
  meTypeSymbolIDHash :: u64
  meMethodPkgHash :: u64
  meMethodIDHash :: u64
  meFingerprint :: u64

record method_symbol_entry =
  mseName :: bytes
  mseEntry :: method_entry

record sym_str_entry =
  ssIDHash :: u64
  ssSymbolID :: bytes

record posting_entry =
  peTargetPkgHash :: u64
  peTargetIDHash :: u64
  peFile :: bytes
  peLine :: u32
  peCol :: u32
  peEndCol :: u32

record package_index_entries =
  pieNames :: "name_entry list"
  pieMethods :: "method_symbol_entry list"
  pieSymStrs :: "sym_str_entry list"
  piePostings :: "posting_entry list"

record unit_blob =
  ubFacts :: bytes
  ubExport :: bytes
  ubFiles :: "file_stat list"
  ubIndex :: package_index_entries

record unit_pointer =
  upBlobKey :: u64
  upContentHash :: u64
  upExportHash :: u64
  upToolchainFingerprint :: bytes
  upFiles :: "file_stat list"

definition unitMagic :: bytes where
  "unitMagic = lit ''GLUB''"

definition unitVersion :: u16 where
  "unitVersion = 3"

definition unitHeaderSize :: nat where
  "unitHeaderSize = 24"

section \<open>Encoding\<close>

text \<open>The defensive clamp of negative sizes and mtimes.\<close>

definition clamp_i64 :: "i64 \<Rightarrow> i64" where
  "clamp_i64 v = (if sint v < 0 then 0 else v)"

definition w_file :: "file_stat \<Rightarrow> writer" where
  "w_file f = w_seq [w_len (length (fsPath f)), w_copy (fsPath f),
     w_put (put_u64 (clamp_i64 (fsSize f))), w_put (put_u64 (clamp_i64 (fsModTimeNanos f)))]"

definition w_name :: "name_entry \<Rightarrow> writer" where
  "w_name n = w_seq [w_len (length (neName n)), w_copy (neName n), w_put (put_u64 (neIDHash n))]"

definition w_method :: "method_symbol_entry \<Rightarrow> writer" where
  "w_method m = w_seq [w_len (length (mseName m)), w_copy (mseName m),
     w_put (put_u64 (mePkgHash (mseEntry m))),
     w_put (put_u64 (meTypeSymbolIDHash (mseEntry m))),
     w_put (put_u64 (meMethodPkgHash (mseEntry m))),
     w_put (put_u64 (meMethodIDHash (mseEntry m))),
     w_put (put_u64 (meFingerprint (mseEntry m)))]"

definition w_symstr :: "sym_str_entry \<Rightarrow> writer" where
  "w_symstr s = w_seq [w_put (put_u64 (ssIDHash s)), w_len (length (ssSymbolID s)),
     w_copy (ssSymbolID s)]"

definition w_posting :: "posting_entry \<Rightarrow> writer" where
  "w_posting p = w_seq [w_put (put_u64 (peTargetPkgHash p)), w_put (put_u64 (peTargetIDHash p)),
     w_len (length (peFile p)), w_copy (peFile p),
     w_put (put_u32 (peLine p)), w_put (put_u32 (peCol p)), w_put (put_u32 (peEndCol p))]"

definition putIndexEntries :: "package_index_entries \<Rightarrow> writer" where
  "putIndexEntries idx = w_seq [
     w_seq (map w_name (pieNames idx)),
     w_len (length (pieMethods idx)), w_seq (map w_method (pieMethods idx)),
     w_len (length (pieSymStrs idx)), w_seq (map w_symstr (pieSymStrs idx)),
     w_len (length (piePostings idx)), w_seq (map w_posting (piePostings idx))]"

definition unit_blob_size :: "unit_blob \<Rightarrow> nat" where
  "unit_blob_size u = 24 + 12 + length (ubFacts u) + length (ubExport u)
     + (\<Sum>f\<leftarrow>ubFiles u. 4 + length (fsPath f) + 16)
     + (\<Sum>n\<leftarrow>pieNames (ubIndex u). 4 + length (neName n) + 8)
     + (\<Sum>m\<leftarrow>pieMethods (ubIndex u). 4 + length (mseName m) + 40)
     + (\<Sum>s\<leftarrow>pieSymStrs (ubIndex u). 8 + 4 + length (ssSymbolID s))
     + (\<Sum>p\<leftarrow>piePostings (ubIndex u). 16 + 4 + length (peFile p) + 12)"

definition EncodeUnitBlob :: "unit_blob \<Rightarrow> (store_error, bytes) go" where
  "EncodeUnitBlob u = w_run_off (unit_blob_size u) (w_seq [
     w_copy unitMagic, w_put (put_u16 unitVersion), w_skip 2,
     w_len (length (ubFacts u)), w_len (length (ubExport u)),
     w_len (length (ubFiles u)), w_len (length (pieNames (ubIndex u))),
     w_copy (ubFacts u), w_copy (ubExport u),
     w_seq (map w_file (ubFiles u)),
     putIndexEntries (ubIndex u)])"

definition unit_pointer_size :: "unit_pointer \<Rightarrow> nat" where
  "unit_pointer_size p = 32 + length (upToolchainFingerprint p)
     + (\<Sum>f\<leftarrow>upFiles p. 4 + length (fsPath f) + 16)"

definition encodeUnitPointer :: "unit_pointer \<Rightarrow> (store_error, bytes) go" where
  "encodeUnitPointer p = w_run (unit_pointer_size p) (w_seq [
     w_put (put_u64 (upBlobKey p)), w_put (put_u64 (upContentHash p)),
     w_put (put_u64 (upExportHash p)),
     w_len (length (upToolchainFingerprint p)), w_copy (upToolchainFingerprint p),
     w_len (length (upFiles p)), w_seq (map w_file (upFiles p))])"

section \<open>Decoding\<close>

definition UnitFactsRange :: "bytes \<Rightarrow> (store_error, nat \<times> nat) go" where
  "UnitFactsRange hdr =
     (if length hdr < unitHeaderSize then Err BadHeader
      else go_bind (slice hdr 0 4) (\<lambda>magic.
        if magic \<noteq> unitMagic then Err BadHeader
        else go_bind (rd_u16 hdr 4) (\<lambda>version.
          if version \<noteq> unitVersion then Err (BadVersion (unat version))
          else go_bind (rd_u32 hdr 8) (\<lambda>factsLen. Ok (unitHeaderSize, unat factsLen)))))"

text \<open>One iteration of \<open>decodeFileStats\<close>'s loop.\<close>

definition decodeFileStat :: "file_stat reader" where
  "decodeFileStat b off =
     go_bind (takeString b off) (\<lambda>(path, off).
     go_bind (takeUint64 b off) (\<lambda>(rawSize, off).
     go_bind (takeUint64 b off) (\<lambda>(rawMtime, off).
     if unat rawSize > 2 ^ 63 - 1 \<or> unat rawMtime > 2 ^ 63 - 1 then Err OutOfRange
     else Ok (\<lparr>fsPath = path, fsSize = rawSize, fsModTimeNanos = rawMtime\<rparr>, off))))"

definition decodeFileStats :: "nat \<Rightarrow> file_stat list reader" where
  "decodeFileStats cnt = take_n decodeFileStat cnt"

definition decodeNameEntry :: "name_entry reader" where
  "decodeNameEntry b off =
     go_bind (takeString b off) (\<lambda>(name, off).
     go_bind (takeUint64 b off) (\<lambda>(idHash, off).
     Ok (\<lparr>neName = name, neIDHash = idHash\<rparr>, off)))"

definition decodeNameEntries :: "nat \<Rightarrow> name_entry list reader" where
  "decodeNameEntries cnt = take_n decodeNameEntry cnt"

definition decodeMethodSymbol :: "method_symbol_entry reader" where
  "decodeMethodSymbol b off =
     go_bind (takeString b off) (\<lambda>(name, off).
     go_bind (takeUint64 b off) (\<lambda>(pkgHash, off).
     go_bind (takeUint64 b off) (\<lambda>(typeIDHash, off).
     go_bind (takeUint64 b off) (\<lambda>(methodPkgHash, off).
     go_bind (takeUint64 b off) (\<lambda>(methodIDHash, off).
     go_bind (takeUint64 b off) (\<lambda>(fingerprint, off).
     Ok (\<lparr>mseName = name, mseEntry = \<lparr>mePkgHash = pkgHash, meTypeSymbolIDHash = typeIDHash,
           meMethodPkgHash = methodPkgHash, meMethodIDHash = methodIDHash,
           meFingerprint = fingerprint\<rparr>\<rparr>, off)))))))"

definition decodeMethodEntries :: "method_symbol_entry list reader" where
  "decodeMethodEntries b off =
     go_bind (takeUint32 b off) (\<lambda>(methodCount, off). take_n decodeMethodSymbol methodCount b off)"

definition decodeSymStrEntry :: "sym_str_entry reader" where
  "decodeSymStrEntry b off =
     go_bind (takeUint64 b off) (\<lambda>(idHash, off).
     go_bind (takeString b off) (\<lambda>(sid, off).
     Ok (\<lparr>ssIDHash = idHash, ssSymbolID = sid\<rparr>, off)))"

definition decodeSymStrEntries :: "sym_str_entry list reader" where
  "decodeSymStrEntries b off =
     go_bind (takeUint32 b off) (\<lambda>(symStrCount, off). take_n decodeSymStrEntry symStrCount b off)"

definition decodePostingEntry :: "posting_entry reader" where
  "decodePostingEntry b off =
     go_bind (takeUint64 b off) (\<lambda>(targetPkgHash, off).
     go_bind (takeUint64 b off) (\<lambda>(targetIDHash, off).
     go_bind (takeString b off) (\<lambda>(file, off).
     go_bind (takeUint32 b off) (\<lambda>(line, off).
     go_bind (takeUint32 b off) (\<lambda>(col, off).
     go_bind (takeUint32 b off) (\<lambda>(endCol, off).
     go_bind (uint32Field line) (\<lambda>lineU32.
     go_bind (uint32Field col) (\<lambda>colU32.
     go_bind (uint32Field endCol) (\<lambda>endColU32.
     Ok (\<lparr>peTargetPkgHash = targetPkgHash, peTargetIDHash = targetIDHash, peFile = file,
           peLine = lineU32, peCol = colU32, peEndCol = endColU32\<rparr>, off))))))))))"

definition decodePostingEntries :: "posting_entry list reader" where
  "decodePostingEntries b off =
     go_bind (takeUint32 b off) (\<lambda>(cnt, off). take_n decodePostingEntry cnt b off)"

text \<open>\<open>DecodeUnitBlob\<close> after the header fields have been read.\<close>

definition decodeUnitBody :: "nat \<Rightarrow> nat \<Rightarrow> nat \<Rightarrow> nat \<Rightarrow> unit_blob reader" where
  "decodeUnitBody factsLen exportLen fileCount nameCount b off =
     go_bind (takeBytes factsLen b off) (\<lambda>(facts, off).
     go_bind (takeBytes exportLen b off) (\<lambda>(export, off).
     go_bind (decodeFileStats fileCount b off) (\<lambda>(files, off).
     go_bind (decodeNameEntries nameCount b off) (\<lambda>(names, off).
     go_bind (decodeMethodEntries b off) (\<lambda>(methods, off).
     go_bind (decodeSymStrEntries b off) (\<lambda>(symStrs, off).
     go_bind (decodePostingEntries b off) (\<lambda>(postings, off).
     Ok (\<lparr>ubFacts = facts, ubExport = export, ubFiles = files,
           ubIndex = \<lparr>pieNames = names, pieMethods = methods, pieSymStrs = symStrs,
             piePostings = postings\<rparr>\<rparr>, off))))))))"

definition DecodeUnitBlob :: "bytes \<Rightarrow> (store_error, unit_blob) go" where
  "DecodeUnitBlob b =
     go_bind (UnitFactsRange b) (\<lambda>(off, factsLen).
     go_bind (rd_u32 b 12) (\<lambda>exportLen.
     go_bind (rd_u32 b 16) (\<lambda>fileCount.
     go_bind (rd_u32 b 20) (\<lambda>nameCount.
     go_bind (decodeUnitBody factsLen (unat exportLen) (unat fileCount) (unat nameCount) b off)
       (\<lambda>(u, off). Ok u)))))"

text \<open>One iteration of the file loop of \<open>decodeUnitPointer\<close>.\<close>

definition decodePointerFile :: "file_stat reader" where
  "decodePointerFile b off =
     (if off + 4 > length b then Err Truncated
      else go_bind (rd_u32 b off) (\<lambda>n. let pathLen = unat n; off = off + 4 in
        if off + pathLen + 16 > length b then Err Truncated
        else go_bind (slice b off (off + pathLen)) (\<lambda>path.
          go_bind (rd_u64 b (off + pathLen)) (\<lambda>rawSize.
          go_bind (rd_u64 b (off + pathLen + 8)) (\<lambda>rawMtime.
          if unat rawSize > 2 ^ 63 - 1 \<or> unat rawMtime > 2 ^ 63 - 1 then Err OutOfRange
          else Ok (\<lparr>fsPath = path, fsSize = rawSize, fsModTimeNanos = rawMtime\<rparr>,
                   off + pathLen + 16))))))"

definition decodeUnitPointer :: "bytes \<Rightarrow> (store_error, unit_pointer) go" where
  "decodeUnitPointer b =
     (if length b < 28 then Err Truncated
      else go_bind (rd_u64 b 0) (\<lambda>blobKey.
        go_bind (rd_u64 b 8) (\<lambda>contentHash.
        go_bind (rd_u64 b 16) (\<lambda>exportHash.
        go_bind (rd_u32 b 24) (\<lambda>n. let tcLen = unat n in
        if 28 + tcLen > length b then Err Truncated
        else go_bind (slice b 28 (28 + tcLen)) (\<lambda>tc.
          if 28 + tcLen + 4 > length b then Err Truncated
          else go_bind (rd_u32 b (28 + tcLen)) (\<lambda>fileCount.
            go_bind (take_n decodePointerFile (unat fileCount) b (28 + tcLen + 4)) (\<lambda>(files, off).
            Ok \<lparr>upBlobKey = blobKey, upContentHash = contentHash, upExportHash = exportHash,
                upToolchainFingerprint = tc, upFiles = files\<rparr>))))))))"

section \<open>Layouts\<close>

definition str_bytes :: "bytes \<Rightarrow> bytes" where
  "str_bytes s = put_u32 (of_nat (length s)) @ s"

definition file_bytes :: "file_stat \<Rightarrow> bytes" where
  "file_bytes f = str_bytes (fsPath f) @ put_u64 (clamp_i64 (fsSize f))
     @ put_u64 (clamp_i64 (fsModTimeNanos f))"

definition name_bytes :: "name_entry \<Rightarrow> bytes" where
  "name_bytes n = str_bytes (neName n) @ put_u64 (neIDHash n)"

definition method_bytes :: "method_symbol_entry \<Rightarrow> bytes" where
  "method_bytes m = str_bytes (mseName m) @ put_u64 (mePkgHash (mseEntry m))
     @ put_u64 (meTypeSymbolIDHash (mseEntry m)) @ put_u64 (meMethodPkgHash (mseEntry m))
     @ put_u64 (meMethodIDHash (mseEntry m)) @ put_u64 (meFingerprint (mseEntry m))"

definition symstr_bytes :: "sym_str_entry \<Rightarrow> bytes" where
  "symstr_bytes s = put_u64 (ssIDHash s) @ str_bytes (ssSymbolID s)"

definition posting_bytes :: "posting_entry \<Rightarrow> bytes" where
  "posting_bytes p = put_u64 (peTargetPkgHash p) @ put_u64 (peTargetIDHash p)
     @ str_bytes (peFile p) @ put_u32 (peLine p) @ put_u32 (peCol p) @ put_u32 (peEndCol p)"

definition counted :: "('a \<Rightarrow> bytes) \<Rightarrow> 'a list \<Rightarrow> bytes" where
  "counted enc xs = put_u32 (of_nat (length xs)) @ concat (map enc xs)"

definition index_bytes :: "package_index_entries \<Rightarrow> bytes" where
  "index_bytes idx = concat (map name_bytes (pieNames idx))
     @ counted method_bytes (pieMethods idx) @ counted symstr_bytes (pieSymStrs idx)
     @ counted posting_bytes (piePostings idx)"

definition unit_body_bytes :: "unit_blob \<Rightarrow> bytes" where
  "unit_body_bytes u = ubFacts u @ ubExport u @ concat (map file_bytes (ubFiles u))
     @ index_bytes (ubIndex u)"

definition unit_blob_bytes :: "unit_blob \<Rightarrow> bytes" where
  "unit_blob_bytes u = unitMagic @ put_u16 unitVersion @ [0, 0]
     @ put_u32 (of_nat (length (ubFacts u))) @ put_u32 (of_nat (length (ubExport u)))
     @ put_u32 (of_nat (length (ubFiles u))) @ put_u32 (of_nat (length (pieNames (ubIndex u))))
     @ unit_body_bytes u"

definition unit_pointer_bytes :: "unit_pointer \<Rightarrow> bytes" where
  "unit_pointer_bytes p = put_u64 (upBlobKey p) @ put_u64 (upContentHash p)
     @ put_u64 (upExportHash p) @ str_bytes (upToolchainFingerprint p)
     @ counted file_bytes (upFiles p)"

text \<open>
  The values every encoder is given: all lengths and counts fit a uint32 (the condition
  \<open>u32len\<close> panics without).
\<close>

definition len_ok :: "'a list \<Rightarrow> bool" where
  "len_ok xs \<longleftrightarrow> length xs < 2 ^ 32"

definition index_fits :: "package_index_entries \<Rightarrow> bool" where
  "index_fits idx \<longleftrightarrow> len_ok (pieNames idx) \<and> len_ok (pieMethods idx)
     \<and> len_ok (pieSymStrs idx) \<and> len_ok (piePostings idx)
     \<and> list_all (\<lambda>n. len_ok (neName n)) (pieNames idx)
     \<and> list_all (\<lambda>m. len_ok (mseName m)) (pieMethods idx)
     \<and> list_all (\<lambda>s. len_ok (ssSymbolID s)) (pieSymStrs idx)
     \<and> list_all (\<lambda>p. len_ok (peFile p)) (piePostings idx)"

definition files_fit :: "file_stat list \<Rightarrow> bool" where
  "files_fit fs \<longleftrightarrow> len_ok fs \<and> list_all (\<lambda>f. len_ok (fsPath f)) fs"

definition unit_blob_fits :: "unit_blob \<Rightarrow> bool" where
  "unit_blob_fits u \<longleftrightarrow> len_ok (ubFacts u) \<and> len_ok (ubExport u) \<and> files_fit (ubFiles u)
     \<and> index_fits (ubIndex u)"

definition unit_pointer_fits :: "unit_pointer \<Rightarrow> bool" where
  "unit_pointer_fits p \<longleftrightarrow> len_ok (upToolchainFingerprint p) \<and> files_fit (upFiles p)"

text \<open>What survives a round trip: negative sizes and mtimes are clamped to zero.\<close>

definition norm_file :: "file_stat \<Rightarrow> file_stat" where
  "norm_file f = f\<lparr>fsSize := clamp_i64 (fsSize f), fsModTimeNanos := clamp_i64 (fsModTimeNanos f)\<rparr>"

definition norm_blob :: "unit_blob \<Rightarrow> unit_blob" where
  "norm_blob u = u\<lparr>ubFiles := map norm_file (ubFiles u)\<rparr>"

definition norm_pointer :: "unit_pointer \<Rightarrow> unit_pointer" where
  "norm_pointer p = p\<lparr>upFiles := map norm_file (upFiles p)\<rparr>"

section \<open>Encoders produce the layouts\<close>

lemma writes_str:
  "len_ok s \<Longrightarrow> writes (w_seq ws) r \<Longrightarrow>
    writes (w_seq (w_len (length s) # w_copy s # ws)) (str_bytes s @ r)"
  unfolding str_bytes_def append_assoc len_ok_def by (intro writes_intros)

lemma writes_last: "writes w xs \<Longrightarrow> writes (w_seq [w]) xs"
  using writes_Cons [OF _ writes_Nil, of w xs] by simp

lemma writes_file: "len_ok (fsPath f) \<Longrightarrow> writes (w_file f) (file_bytes f)"
  unfolding w_file_def file_bytes_def by (intro writes_str writes_Cons writes_put writes_last)

lemma writes_name: "len_ok (neName n) \<Longrightarrow> writes (w_name n) (name_bytes n)"
  unfolding w_name_def name_bytes_def by (intro writes_str writes_Cons writes_put writes_last)

lemma writes_method: "len_ok (mseName m) \<Longrightarrow> writes (w_method m) (method_bytes m)"
  unfolding w_method_def method_bytes_def by (intro writes_str writes_Cons writes_put writes_last)

lemma writes_symstr: "len_ok (ssSymbolID s) \<Longrightarrow> writes (w_symstr s) (symstr_bytes s)"
  unfolding w_symstr_def symstr_bytes_def str_bytes_def len_ok_def
  by (intro writes_Cons writes_put writes_len writes_copy writes_last)

lemma writes_posting: "len_ok (peFile p) \<Longrightarrow> writes (w_posting p) (posting_bytes p)"
  unfolding w_posting_def posting_bytes_def
  by (intro writes_str writes_Cons writes_put writes_last)

lemma writes_counted:
  assumes "len_ok xs" and "\<And>x. x \<in> set xs \<Longrightarrow> writes (w x) (enc x)" and "writes (w_seq ws) r"
  shows "writes (w_seq (w_len (length xs) # w_seq (map w xs) # ws)) (counted enc xs @ r)"
  unfolding counted_def append_assoc
  using assms by (intro writes_intros) (simp_all add: len_ok_def)

lemma writes_index: "index_fits idx \<Longrightarrow> writes (putIndexEntries idx) (index_bytes idx)"
proof -
  assume fits: "index_fits idx"
  have "writes (putIndexEntries idx) (concat (map name_bytes (pieNames idx))
     @ counted method_bytes (pieMethods idx) @ counted symstr_bytes (pieSymStrs idx)
     @ counted posting_bytes (piePostings idx) @ [])"
    unfolding putIndexEntries_def
    using fits
    by (intro writes_Cons writes_map writes_counted writes_Nil writes_name writes_method
        writes_symstr writes_posting) (auto simp: index_fits_def list_all_iff)
  then show ?thesis by (simp add: index_bytes_def)
qed

lemma length_counted:
  "length (counted enc xs) = 4 + (\<Sum>x\<leftarrow>xs. length (enc x))"
  by (simp add: counted_def length_concat comp_def)

lemma length_unit_blob_bytes: "length (unit_blob_bytes u) = unit_blob_size u"
  by (simp add: unit_blob_bytes_def unit_body_bytes_def index_bytes_def length_counted
      unit_blob_size_def length_concat comp_def name_bytes_def file_bytes_def method_bytes_def
      symstr_bytes_def posting_bytes_def str_bytes_def unitMagic_def)

lemma EncodeUnitBlob_bytes:
  assumes "unit_blob_fits u"
  shows "EncodeUnitBlob u = Ok (unit_blob_bytes u)"
proof -
  have "replicate 2 0 = [0, 0 :: byte]" by (simp add: numeral_2_eq_2)
  then have "writes (w_skip 2) [0, 0]" using writes_skip [of 2] by simp
  then show ?thesis
    unfolding EncodeUnitBlob_def
    using assms length_unit_blob_bytes [of u]
    apply (intro w_run_off_writes)
     apply (unfold unit_blob_bytes_def unit_body_bytes_def)
     apply (intro writes_Cons writes_copy writes_put writes_len writes_map writes_last writes_file
        writes_index)
    by (auto simp: unit_blob_fits_def files_fit_def len_ok_def list_all_iff index_fits_def)
qed

lemma length_unit_pointer_bytes: "length (unit_pointer_bytes p) = unit_pointer_size p"
  by (simp add: unit_pointer_bytes_def length_counted unit_pointer_size_def file_bytes_def
      str_bytes_def)

lemma encodeUnitPointer_bytes:
  assumes "unit_pointer_fits p"
  shows "encodeUnitPointer p = Ok (unit_pointer_bytes p)"
proof -
  have "writes (w_seq [w_put (put_u64 (upBlobKey p)), w_put (put_u64 (upContentHash p)),
     w_put (put_u64 (upExportHash p)),
     w_len (length (upToolchainFingerprint p)), w_copy (upToolchainFingerprint p),
     w_len (length (upFiles p)), w_seq (map w_file (upFiles p))])
    (put_u64 (upBlobKey p) @ put_u64 (upContentHash p) @ put_u64 (upExportHash p)
      @ str_bytes (upToolchainFingerprint p) @ counted file_bytes (upFiles p) @ [])"
    using assms
    by (intro writes_Cons writes_put writes_str writes_counted writes_Nil writes_file)
      (auto simp: unit_pointer_fits_def files_fit_def list_all_iff)
  then show ?thesis
    using w_run_writes [OF _ length_unit_pointer_bytes]
    by (simp add: encodeUnitPointer_def unit_pointer_bytes_def)
qed

section \<open>Decoders invert the layouts\<close>

lemma unat_nonneg_i64:
  assumes "\<not> sint (v :: i64) < 0"
  shows "unat v < 2 ^ 63"
proof -
  have sign: "\<not> bit v 63" using assms bit_last_iff [of v] by simp
  have "take_bit 63 v = v"
  proof (rule bit_word_eqI)
    fix n assume "n < LENGTH(64)"
    then have "n = 63 \<or> n < 63" by auto
    with sign show "bit (take_bit 63 v) n = bit v n" by (auto simp: bit_take_bit_iff)
  qed
  then have "unat v = take_bit 63 (unat v)" by (metis unsigned_take_bit_eq)
  then show ?thesis by (metis take_bit_nat_less_exp)
qed

lemma clamp_range: "\<not> unat (clamp_i64 v) > 2 ^ 63 - 1"
  using unat_nonneg_i64 [of v] by (auto simp: clamp_i64_def)

lemma reads_str:
  "len_ok s \<Longrightarrow> reads (f s) ys v \<Longrightarrow>
    reads (\<lambda>b off. go_bind (takeString b off) (\<lambda>(x, off). f x b off)) (str_bytes s @ ys) v"
  unfolding str_bytes_def len_ok_def by (rule reads_bind [OF reads_takeString])

lemmas reads_u64 = reads_bind [OF reads_takeUint64]
  and reads_u32 = reads_bind [OF reads_takeUint32]

lemma reads_file: "len_ok (fsPath f) \<Longrightarrow> reads decodeFileStat (file_bytes f) (norm_file f)"
proof -
  assume ok: "len_ok (fsPath f)"
  have "reads decodeFileStat (str_bytes (fsPath f) @ put_u64 (clamp_i64 (fsSize f))
      @ put_u64 (clamp_i64 (fsModTimeNanos f)) @ [])
    \<lparr>fsPath = fsPath f, fsSize = clamp_i64 (fsSize f),
      fsModTimeNanos = clamp_i64 (fsModTimeNanos f)\<rparr>"
    unfolding decodeFileStat_def [abs_def]
    by (intro reads_str ok reads_u64 reads_if reads_return)
      (use clamp_range [of "fsSize f"] clamp_range [of "fsModTimeNanos f"] in simp)
  then show ?thesis by (cases f) (simp add: file_bytes_def norm_file_def)
qed

lemma reads_name: "len_ok (neName n) \<Longrightarrow> reads decodeNameEntry (name_bytes n) n"
proof -
  assume ok: "len_ok (neName n)"
  have "reads decodeNameEntry (str_bytes (neName n) @ put_u64 (neIDHash n) @ [])
      \<lparr>neName = neName n, neIDHash = neIDHash n\<rparr>"
    unfolding decodeNameEntry_def [abs_def]
    by (intro reads_str ok reads_u64 reads_return)
  then show ?thesis by (cases n) (simp add: name_bytes_def)
qed

lemma reads_method: "len_ok (mseName m) \<Longrightarrow> reads decodeMethodSymbol (method_bytes m) m"
proof -
  assume ok: "len_ok (mseName m)"
  have "reads decodeMethodSymbol (str_bytes (mseName m) @ put_u64 (mePkgHash (mseEntry m))
      @ put_u64 (meTypeSymbolIDHash (mseEntry m)) @ put_u64 (meMethodPkgHash (mseEntry m))
      @ put_u64 (meMethodIDHash (mseEntry m)) @ put_u64 (meFingerprint (mseEntry m)) @ [])
    \<lparr>mseName = mseName m, mseEntry = \<lparr>mePkgHash = mePkgHash (mseEntry m),
      meTypeSymbolIDHash = meTypeSymbolIDHash (mseEntry m),
      meMethodPkgHash = meMethodPkgHash (mseEntry m),
      meMethodIDHash = meMethodIDHash (mseEntry m),
      meFingerprint = meFingerprint (mseEntry m)\<rparr>\<rparr>"
    unfolding decodeMethodSymbol_def [abs_def]
    by (intro reads_str ok reads_u64 reads_return)
  then show ?thesis by (cases m, cases "mseEntry m") (simp add: method_bytes_def)
qed

lemma reads_symstr: "len_ok (ssSymbolID s) \<Longrightarrow> reads decodeSymStrEntry (symstr_bytes s) s"
proof -
  assume ok: "len_ok (ssSymbolID s)"
  have "reads decodeSymStrEntry (put_u64 (ssIDHash s) @ str_bytes (ssSymbolID s) @ [])
      \<lparr>ssIDHash = ssIDHash s, ssSymbolID = ssSymbolID s\<rparr>"
    unfolding decodeSymStrEntry_def [abs_def]
    by (intro reads_str ok reads_u64 reads_return)
  then show ?thesis by (cases s) (simp add: symstr_bytes_def)
qed

lemma reads_posting: "len_ok (peFile p) \<Longrightarrow> reads decodePostingEntry (posting_bytes p) p"
proof -
  assume ok: "len_ok (peFile p)"
  have "reads decodePostingEntry (put_u64 (peTargetPkgHash p) @ put_u64 (peTargetIDHash p)
     @ str_bytes (peFile p) @ put_u32 (peLine p) @ put_u32 (peCol p) @ put_u32 (peEndCol p) @ [])
    \<lparr>peTargetPkgHash = peTargetPkgHash p, peTargetIDHash = peTargetIDHash p,
      peFile = peFile p, peLine = peLine p, peCol = peCol p, peEndCol = peEndCol p\<rparr>"
    unfolding decodePostingEntry_def [abs_def]
    by (intro reads_str ok reads_u64 reads_u32) (simp add: reads_return)
  then show ?thesis by (cases p) (simp add: posting_bytes_def)
qed

lemma reads_counted:
  assumes "len_ok xs" and "\<And>x. x \<in> set xs \<Longrightarrow> reads r (enc x) (f x)"
  shows "reads (\<lambda>b off. go_bind (takeUint32 b off) (\<lambda>(n, off). take_n r n b off))
    (counted enc xs) (map f xs)"
  unfolding counted_def
  using assms by (intro reads_bind [OF reads_count] reads_take_n) (simp_all add: len_ok_def)

lemma reads_unit_body:
  assumes fits: "unit_blob_fits u"
  shows "reads (decodeUnitBody (length (ubFacts u)) (length (ubExport u)) (length (ubFiles u))
    (length (pieNames (ubIndex u)))) (unit_body_bytes u) (norm_blob u)"
proof -
  let ?idx = "ubIndex u"
  have files: "reads (decodeFileStats (length (ubFiles u))) (concat (map file_bytes (ubFiles u)))
      (map norm_file (ubFiles u))"
    unfolding decodeFileStats_def
    by (rule reads_take_n, rule reads_file)
      (use fits in \<open>auto simp: unit_blob_fits_def files_fit_def list_all_iff\<close>)
  have names: "reads (decodeNameEntries (length (pieNames ?idx)))
      (concat (map name_bytes (pieNames ?idx))) (map id (pieNames ?idx))"
    unfolding decodeNameEntries_def id_def
    by (rule reads_take_n, rule reads_name)
      (use fits in \<open>auto simp: unit_blob_fits_def index_fits_def list_all_iff\<close>)
  have methods: "reads decodeMethodEntries (counted method_bytes (pieMethods ?idx))
      (map id (pieMethods ?idx))"
    unfolding decodeMethodEntries_def [abs_def] id_def
    by (rule reads_counted) (use fits in
        \<open>auto simp: unit_blob_fits_def index_fits_def list_all_iff intro: reads_method\<close>)
  have symstrs: "reads decodeSymStrEntries (counted symstr_bytes (pieSymStrs ?idx))
      (map id (pieSymStrs ?idx))"
    unfolding decodeSymStrEntries_def [abs_def] id_def
    by (rule reads_counted) (use fits in
        \<open>auto simp: unit_blob_fits_def index_fits_def list_all_iff intro: reads_symstr\<close>)
  have postings: "reads decodePostingEntries (counted posting_bytes (piePostings ?idx))
      (map id (piePostings ?idx))"
    unfolding decodePostingEntries_def [abs_def] id_def
    by (rule reads_counted) (use fits in
        \<open>auto simp: unit_blob_fits_def index_fits_def list_all_iff intro: reads_posting\<close>)
  have "reads (decodeUnitBody (length (ubFacts u)) (length (ubExport u)) (length (ubFiles u))
      (length (pieNames (ubIndex u))))
    (ubFacts u @ ubExport u @ concat (map file_bytes (ubFiles u))
      @ concat (map name_bytes (pieNames ?idx)) @ counted method_bytes (pieMethods ?idx)
      @ counted symstr_bytes (pieSymStrs ?idx) @ counted posting_bytes (piePostings ?idx) @ [])
    \<lparr>ubFacts = ubFacts u, ubExport = ubExport u, ubFiles = map norm_file (ubFiles u),
      ubIndex = \<lparr>pieNames = map id (pieNames ?idx), pieMethods = map id (pieMethods ?idx),
        pieSymStrs = map id (pieSymStrs ?idx), piePostings = map id (piePostings ?idx)\<rparr>\<rparr>"
    unfolding decodeUnitBody_def [abs_def]
    by (rule reads_bind [OF reads_takeBytes [OF refl]], rule reads_bind [OF reads_takeBytes [OF refl]],
        rule reads_bind [OF files], rule reads_bind [OF names], rule reads_bind [OF methods],
        rule reads_bind [OF symstrs], rule reads_bind [OF postings], rule reads_return)
  then show ?thesis
    by (cases u, cases "ubIndex u") (simp add: unit_body_bytes_def index_bytes_def norm_blob_def)
qed

lemma DecodeUnitBlob_bytes:
  assumes fits: "unit_blob_fits u"
  shows "DecodeUnitBlob (unit_blob_bytes u) = Ok (norm_blob u)"
proof -
  let ?hdr = "unitMagic @ put_u16 unitVersion @ [0, 0]
     @ put_u32 (of_nat (length (ubFacts u))) @ put_u32 (of_nat (length (ubExport u)))
     @ put_u32 (of_nat (length (ubFiles u))) @ put_u32 (of_nat (length (pieNames (ubIndex u))))"
  have bytes: "unit_blob_bytes u = ?hdr @ unit_body_bytes u"
    by (simp add: unit_blob_bytes_def)
  have len: "length ?hdr = 24" by (simp add: unitMagic_def)
  have body: "decodeUnitBody (length (ubFacts u)) (length (ubExport u)) (length (ubFiles u))
      (length (pieNames (ubIndex u))) (unit_blob_bytes u) 24
    = Ok (norm_blob u, 24 + length (unit_body_bytes u))"
    using reads_unit_body [OF fits] len unfolding reads_def bytes
    by (metis append_Nil2 length_append)
  have n: "length (ubFacts u) < 2 ^ 32" "length (ubExport u) < 2 ^ 32"
    "length (ubFiles u) < 2 ^ 32" "length (pieNames (ubIndex u)) < 2 ^ 32"
    using fits by (auto simp: unit_blob_fits_def files_fit_def index_fits_def len_ok_def)
  have drops: "drop 4 (unit_blob_bytes u) = put_u16 unitVersion @ drop 6 (unit_blob_bytes u)"
    "drop 8 (unit_blob_bytes u) = put_u32 (of_nat (length (ubFacts u))) @ drop 12 (unit_blob_bytes u)"
    "drop 12 (unit_blob_bytes u) = put_u32 (of_nat (length (ubExport u))) @ drop 16 (unit_blob_bytes u)"
    "drop 16 (unit_blob_bytes u) = put_u32 (of_nat (length (ubFiles u))) @ drop 20 (unit_blob_bytes u)"
    "drop 20 (unit_blob_bytes u) =
       put_u32 (of_nat (length (pieNames (ubIndex u)))) @ drop 24 (unit_blob_bytes u)"
    "take 4 (unit_blob_bytes u) = unitMagic"
    by (simp_all add: unit_blob_bytes_def unitMagic_def)
  have "24 \<le> length (unit_blob_bytes u)" using len by (simp only: bytes length_append)
  then show ?thesis
    unfolding DecodeUnitBlob_def UnitFactsRange_def
    by (simp add: unitHeaderSize_def slice_def rd_u16_def rd_u32_def drops body
        unat_of_nat_u32 [OF n(1)] unat_of_nat_u32 [OF n(2)] unat_of_nat_u32 [OF n(3)]
        unat_of_nat_u32 [OF n(4)])
qed

lemma decodePointerFile_eq: "decodePointerFile b off = decodeFileStat b off"
  by (auto simp: decodePointerFile_def decodeFileStat_def takeString_def takeUint32_def
      takeUint64_def takeBytes_def slice_def rd_u32_def rd_u64_def Let_def split: if_splits)

lemma norm_pointer_fields:
  "norm_pointer p = \<lparr>upBlobKey = upBlobKey p, upContentHash = upContentHash p,
     upExportHash = upExportHash p, upToolchainFingerprint = upToolchainFingerprint p,
     upFiles = map norm_file (upFiles p)\<rparr>"
  by (cases p) (simp add: norm_pointer_def)

lemma decodeUnitPointer_bytes:
  assumes fits: "unit_pointer_fits p"
  shows "decodeUnitPointer (unit_pointer_bytes p) = Ok (norm_pointer p)"
proof -
  let ?b = "unit_pointer_bytes p"
  let ?tc = "upToolchainFingerprint p"
  let ?pre = "put_u64 (upBlobKey p) @ put_u64 (upContentHash p) @ put_u64 (upExportHash p)
    @ str_bytes ?tc @ put_u32 (of_nat (length (upFiles p)))"
  have bytes: "?b = ?pre @ concat (map file_bytes (upFiles p)) @ []"
    by (simp add: unit_pointer_bytes_def counted_def)
  have n: "length ?tc < 2 ^ 32" "length (upFiles p) < 2 ^ 32"
    using fits by (simp_all add: unit_pointer_fits_def files_fit_def len_ok_def)
  have "reads (take_n decodePointerFile (length (upFiles p)))
      (concat (map file_bytes (upFiles p))) (map norm_file (upFiles p))"
    using fits by (intro reads_take_n)
      (auto simp: decodePointerFile_eq [abs_def] unit_pointer_fits_def files_fit_def list_all_iff
        intro: reads_file)
  then have files: "take_n decodePointerFile (length (upFiles p)) ?b (length ?pre)
      = Ok (map norm_file (upFiles p), length ?b)"
    unfolding reads_def bytes by (metis append_Nil2)
  have key: "get_u64 ?b = upBlobKey p"
    by (simp add: unit_pointer_bytes_def)
  have drops: "drop 8 ?b = put_u64 (upContentHash p) @ drop 16 ?b"
    "drop 16 ?b = put_u64 (upExportHash p) @ drop 24 ?b"
    "drop 24 ?b = put_u32 (of_nat (length ?tc)) @ drop 28 ?b"
    "take (length ?tc) (drop 28 ?b) = ?tc"
    "drop (28 + length ?tc) ?b = put_u32 (of_nat (length (upFiles p))) @ drop (32 + length ?tc) ?b"
    by (simp_all add: unit_pointer_bytes_def str_bytes_def counted_def)
  have len: "32 + length ?tc \<le> length ?b" "length ?pre = 28 + length ?tc + 4"
    by (simp_all add: bytes str_bytes_def)
  show ?thesis
    using len(1) files len(2)
    by (simp add: decodeUnitPointer_def rd_u64_def rd_u32_def slice_def key drops Let_def
        unat_of_nat_u32 [OF n(1)] unat_of_nat_u32 [OF n(2)] norm_pointer_fields)
qed

section \<open>No input makes a decoder panic\<close>

lemma DecodeUnitBlob_no_panic: "DecodeUnitBlob b \<noteq> Panic"
  by (auto simp: DecodeUnitBlob_def UnitFactsRange_def decodeUnitBody_def decodeFileStats_def
      decodeFileStat_def decodeNameEntries_def decodeNameEntry_def decodeMethodEntries_def
      decodeMethodSymbol_def decodeSymStrEntries_def decodeSymStrEntry_def
      decodePostingEntries_def decodePostingEntry_def unitHeaderSize_def slice_def rd_u16_def
      rd_u32_def go_bind_eq_Panic safe_take_n split: prod.splits if_splits)

lemma decodePointerFile_no_panic: "decodePointerFile b off \<noteq> Panic"
  by (auto simp: decodePointerFile_eq decodeFileStat_def go_bind_eq_Panic split: prod.splits if_splits)

lemma decodeUnitPointer_no_panic: "decodeUnitPointer b \<noteq> Panic"
  by (auto simp: decodeUnitPointer_def rd_u64_def rd_u32_def slice_def Let_def go_bind_eq_Panic
      safe_take_n decodePointerFile_no_panic split: prod.splits if_splits)

interpretation blob_codec: record_codec EncodeUnitBlob DecodeUnitBlob norm_blob unit_blob_fits
  by unfold_locales
    (auto simp: EncodeUnitBlob_bytes DecodeUnitBlob_bytes DecodeUnitBlob_no_panic)

interpretation pointer_codec: record_codec encodeUnitPointer decodeUnitPointer norm_pointer
    unit_pointer_fits
  by unfold_locales
    (auto simp: encodeUnitPointer_bytes decodeUnitPointer_bytes decodeUnitPointer_no_panic)

section \<open>The codec of the unit records\<close>

text \<open>
  C7. Encoding a unit blob whose sections fit their length fields succeeds, and decoding the
  bytes gives the same facts, export data, file stats and index entries back, negative file
  sizes and times having been clamped to 0 by the encoder.
\<close>

theorem unit_blob_roundtrip:
  assumes "unit_blob_fits u"
  shows "\<exists>b. EncodeUnitBlob u = Ok b \<and> DecodeUnitBlob b = Ok (norm_blob u)"
  using assms by (rule blob_codec.enc_dec)

definition sample_blob :: unit_blob where
  "sample_blob = \<lparr>ubFacts = [1, 2, 3], ubExport = [9],
     ubFiles = [\<lparr>fsPath = lit ''a.go'', fsSize = -1, fsModTimeNanos = 5\<rparr>],
     ubIndex = \<lparr>pieNames = [], pieMethods = [], pieSymStrs = [], piePostings = []\<rparr>\<rparr>"

theorem unit_blob_roundtrip_witness:
  "unit_blob_fits sample_blob \<and> (\<exists>b. EncodeUnitBlob sample_blob = Ok b
     \<and> DecodeUnitBlob b = Ok (sample_blob\<lparr>ubFiles :=
         [\<lparr>fsPath = lit ''a.go'', fsSize = 0, fsModTimeNanos = 5\<rparr>]\<rparr>))"
proof -
  have fits: "unit_blob_fits sample_blob"
    by (simp add: sample_blob_def unit_blob_fits_def files_fit_def index_fits_def len_ok_def lit_def)
  then show ?thesis
    using unit_blob_roundtrip [OF fits] by (simp add: sample_blob_def norm_blob_def norm_file_def clamp_i64_def)
qed

text \<open>
  The pointer record stored under a unit's key in the database decodes to what was encoded,
  its file stats clamped the same way.
\<close>

lemma unit_pointer_roundtrip:
  assumes "unit_pointer_fits p"
  shows "\<exists>b. encodeUnitPointer p = Ok b \<and> decodeUnitPointer b = Ok (norm_pointer p)"
  using assms by (rule pointer_codec.enc_dec)

definition sample_pointer :: unit_pointer where
  "sample_pointer = \<lparr>upBlobKey = 3, upContentHash = 4, upExportHash = 5,
     upToolchainFingerprint = lit ''go1'', upFiles = []\<rparr>"

lemma unit_pointer_roundtrip_witness:
  "unit_pointer_fits sample_pointer \<and> (\<exists>b. encodeUnitPointer sample_pointer = Ok b
     \<and> decodeUnitPointer b = Ok sample_pointer)"
proof -
  have fits: "unit_pointer_fits sample_pointer"
    by (simp add: sample_pointer_def unit_pointer_fits_def files_fit_def len_ok_def lit_def)
  then show ?thesis
    using unit_pointer_roundtrip [OF fits] by (simp add: sample_pointer_def norm_pointer_def)
qed

text \<open>
  C8. The decoders are memory safe: whatever bytes a damaged store holds, \<open>DecodeUnitBlob\<close>
  and \<open>decodeUnitPointer\<close> return a value or an error and never index out of range.
\<close>

theorem unit_decoders_no_panic: "DecodeUnitBlob b \<noteq> Panic \<and> decodeUnitPointer b \<noteq> Panic"
  by (simp add: DecodeUnitBlob_no_panic decodeUnitPointer_no_panic)

end
