(* ===== verification/Bolt.thy ===== *)
theory Bolt
  imports Byte_Codec "HOL-Library.RBT"
begin

text \<open>
  The interface of the embedded key/value database \<open>go.etcd.io/bbolt\<close>, which is not part of
  the repository. Its operations are the fields of the record \<open>bolt\<close>, a parameter of every
  definition that uses the database; the locale \<open>bolt\<close> states what bbolt documents of them and
  what \<open>internal/store\<close> relies on: a bucket is a map from keys to values, a cursor enumerates it
  in byte order from the key it seeks, \<open>Put\<close> refuses only empty and oversized keys and values, and
  \<open>Update\<close> commits all of a transaction or nothing. An in-memory database built from red-black
  trees satisfies the laws.
\<close>

section \<open>Operations\<close>

record 't bolt =
  boHas :: "'t \<Rightarrow> bytes \<Rightarrow> bool"
  boNames :: "'t \<Rightarrow> bytes list"
  boGet :: "'t \<Rightarrow> bytes \<Rightarrow> bytes \<Rightarrow> bytes option"
  boCursor :: "'t \<Rightarrow> bytes \<Rightarrow> bytes \<Rightarrow> (bytes \<times> bytes) list"
  boPut :: "'t \<Rightarrow> bytes \<Rightarrow> bytes \<Rightarrow> bytes \<Rightarrow> (store_error, 't) go"
  boDelete :: "'t \<Rightarrow> bytes \<Rightarrow> bytes \<Rightarrow> (store_error, 't) go"
  boCreate :: "'t \<Rightarrow> bytes \<Rightarrow> (store_error, 't) go"
  boDrop :: "'t \<Rightarrow> bytes \<Rightarrow> (store_error, 't) go"
  boUpdate :: "('t \<Rightarrow> (store_error, 't) go) \<Rightarrow> 't \<Rightarrow> (store_error, unit) go \<times> 't"

text \<open>\<open>tx.Bucket(b).Get(k)\<close> and the like: a missing bucket is a nil dereference.\<close>

definition bucketGet :: "'t bolt \<Rightarrow> bytes \<Rightarrow> bytes \<Rightarrow> 't \<Rightarrow> (store_error, bytes option) go" where
  "bucketGet B b k t = (if boHas B t b then Ok (boGet B t b k) else Panic)"

definition bucketPut :: "'t bolt \<Rightarrow> bytes \<Rightarrow> bytes \<Rightarrow> bytes \<Rightarrow> 't \<Rightarrow> (store_error, 't) go" where
  "bucketPut B b k v t = (if boHas B t b then boPut B t b k v else Panic)"

definition bucketDelete :: "'t bolt \<Rightarrow> bytes \<Rightarrow> bytes \<Rightarrow> 't \<Rightarrow> (store_error, 't) go" where
  "bucketDelete B b k t = (if boHas B t b then boDelete B t b k else Panic)"

text \<open>\<open>for k, v := c.Seek(p); k != nil && bytes.HasPrefix(k, p); k, v = c.Next()\<close>\<close>

definition bucketScan :: "'t bolt \<Rightarrow> bytes \<Rightarrow> bytes \<Rightarrow> 't \<Rightarrow> (store_error, (bytes \<times> bytes) list) go" where
  "bucketScan B b p t =
     (if boHas B t b then Ok (takeWhile (\<lambda>(k, v). prefix p k) (boCursor B t b p)) else Panic)"

text \<open>A loop that returns at the first error.\<close>

fun go_mapM :: "('a \<Rightarrow> ('e, 'b) go) \<Rightarrow> 'a list \<Rightarrow> ('e, 'b list) go" where
  "go_mapM f [] = Ok []"
| "go_mapM f (x # xs) = go_bind (f x) (\<lambda>y. go_bind (go_mapM f xs) (\<lambda>ys. Ok (y # ys)))"

fun go_foldM :: "('a \<Rightarrow> 's \<Rightarrow> ('e, 's) go) \<Rightarrow> 'a list \<Rightarrow> 's \<Rightarrow> ('e, 's) go" where
  "go_foldM f [] s = Ok s"
| "go_foldM f (x # xs) s = go_bind (f x s) (go_foldM f xs)"

lemma go_mapM_ok: "(\<And>x. x \<in> set xs \<Longrightarrow> f x = Ok (g x)) \<Longrightarrow> go_mapM f xs = Ok (map g xs)"
  by (induction xs) simp_all

lemma go_mapM_map: "(\<And>x. x \<in> set xs \<Longrightarrow> f (h x) = Ok (g x)) \<Longrightarrow> go_mapM f (map h xs) = Ok (map g xs)"
  by (induction xs) simp_all

lemma go_foldM_append: "go_foldM f (xs @ ys) s = go_bind (go_foldM f xs s) (go_foldM f ys)"
  by (induction xs arbitrary: s) (simp_all add: go_bind_assoc cong: go_bind_cong)

section \<open>Byte order\<close>

lemma prefix_between:
  "p \<le> j \<Longrightarrow> j \<le> j' \<Longrightarrow> prefix p j' \<Longrightarrow> prefix p j" for p :: "'a::linorder list"
proof (induction p arbitrary: j j')
  case (Cons x p)
  obtain y ys where j': "j' = y # ys" "x = y" "prefix p ys" using Cons.prems(3) by (cases j') auto
  obtain z zs where j: "j = z # zs" using Cons.prems(1) by (cases j) auto
  have "z = x" "p \<le> zs" "zs \<le> ys" using Cons.prems(1,2) j j' by (auto simp: Cons_le_Cons)
  then show ?case using Cons.IH [OF _ _ j'(3)] j by simp
qed simp

lemma prefix_le: "prefix p j \<Longrightarrow> p \<le> j" for p :: "'a::linorder list"
  by (induction p arbitrary: j) (auto simp: prefix_def)

lemma takeWhile_sorted_filter:
  fixes p :: "'a::linorder list"
  assumes "sorted_wrt (<) (map fst xs)" "\<And>j v. (j, v) \<in> set xs \<Longrightarrow> p \<le> j"
  shows "takeWhile (\<lambda>(k, v). prefix p k) xs = filter (\<lambda>(k, v). prefix p k) xs"
  using assms
proof (induction xs)
  case (Cons x xs)
  obtain j v where x: "x = (j, v)" by (cases x)
  show ?case
  proof (cases "prefix p j")
    case False
    have "\<not> prefix p k" if "(k, w) \<in> set xs" for k w
    proof
      assume "prefix p k"
      moreover have "j \<le> k" using Cons.prems(1) that x by (force simp: order.strict_iff_order)
      ultimately show False using False prefix_between Cons.prems(2) [of j v] x by auto
    qed
    then show ?thesis using False x by (auto intro!: sym [OF filter_False])
  qed (use Cons x in auto)
qed simp

section \<open>Documented behaviour\<close>

definition maxKeySize :: nat where "maxKeySize = 32768"
definition maxValueSize :: nat where "maxValueSize = 2 ^ 31 - 2"

locale bolt =
  fixes B :: "'t bolt"
  assumes has_put: "boPut B t b k v = Ok t' \<Longrightarrow> boHas B t' c = boHas B t c"
    and get_put: "boHas B t b \<Longrightarrow> boPut B t b k v = Ok t' \<Longrightarrow>
      boGet B t' c j = (if c = b \<and> j = k then Some v else boGet B t c j)"
    and put_ok: "boHas B t b \<Longrightarrow> k \<noteq> [] \<Longrightarrow> length k \<le> maxKeySize \<Longrightarrow> length v \<le> maxValueSize \<Longrightarrow>
      \<exists>t'. boPut B t b k v = Ok t'"
    and has_delete: "boDelete B t b k = Ok t' \<Longrightarrow> boHas B t' c = boHas B t c"
    and get_delete: "boHas B t b \<Longrightarrow> boDelete B t b k = Ok t' \<Longrightarrow>
      boGet B t' c j = (if c = b \<and> j = k then None else boGet B t c j)"
    and delete_ok: "boHas B t b \<Longrightarrow> \<exists>t'. boDelete B t b k = Ok t'"
    and cursor_sorted: "sorted_wrt (<) (map fst (boCursor B t b p))"
    and cursor_set: "boHas B t b \<Longrightarrow> set (boCursor B t b p) = {(k, v). p \<le> k \<and> boGet B t b k = Some v}"
    and names: "set (boNames B t) = {b. boHas B t b}"
    and has_create: "boCreate B t b = Ok t' \<Longrightarrow> boHas B t' c \<longleftrightarrow> c = b \<or> boHas B t c"
    and get_create: "boCreate B t b = Ok t' \<Longrightarrow>
      boGet B t' c k = (if boHas B t c then boGet B t c k else None)"
    and has_drop: "boDrop B t b = Ok t' \<Longrightarrow> boHas B t' c \<longleftrightarrow> c \<noteq> b \<and> boHas B t c"
    and get_drop: "boDrop B t b = Ok t' \<Longrightarrow> c \<noteq> b \<Longrightarrow> boGet B t' c k = boGet B t c k"
    and update_ok: "f t = Ok t' \<Longrightarrow> boUpdate B f t = (Ok (), t') \<or> (\<exists>e. boUpdate B f t = (Err e, t))"
    and update_err: "f t = Err e \<Longrightarrow> \<exists>e'. boUpdate B f t = (Err e', t)"
    and update_panic: "f t = Panic \<Longrightarrow> boUpdate B f t = (Panic, t) \<or> (\<exists>e. boUpdate B f t = (Err e, t))"
begin

lemma update_cases:
  "(\<exists>t'. f t = Ok t' \<and> boUpdate B f t = (Ok (), t')) \<or> (snd (boUpdate B f t) = t \<and> fst (boUpdate B f t) \<noteq> Ok ())"
  using update_ok [of f t] update_err [of f t] update_panic [of f t] by (cases "f t") fastforce+

lemma update_committed: "boUpdate B f t = (Ok (), t') \<Longrightarrow> f t = Ok t'"
  using update_cases [of f t] by auto

lemma scan_set:
  assumes "bucketScan B b p t = Ok xs"
  shows "set xs = {(k, v). prefix p k \<and> boGet B t b k = Some v}" and "sorted_wrt (<) (map fst xs)"
proof -
  have h: "boHas B t b" and xs: "xs = takeWhile (\<lambda>(k, v). prefix p k) (boCursor B t b p)"
    using assms by (auto simp: bucketScan_def split: if_splits)
  have "xs = filter (\<lambda>(k, v). prefix p k) (boCursor B t b p)"
    unfolding xs by (rule takeWhile_sorted_filter [OF cursor_sorted]) (simp add: cursor_set [OF h])
  then show "set xs = {(k, v). prefix p k \<and> boGet B t b k = Some v}"
    using cursor_set [OF h] prefix_le by auto
  show "sorted_wrt (<) (map fst xs)"
    unfolding xs by (subst takeWhile_eq_take) (use cursor_sorted sorted_wrt_take in \<open>fastforce simp: take_map [symmetric]\<close>)
qed

text \<open>Two sorted enumerations of the same entries are equal: a scan is determined by the map.\<close>

lemma scan_unique:
  assumes "bucketScan B b p t = Ok xs" "sorted_wrt (<) (map fst ys)"
    and "set ys = {(k, v). prefix p k \<and> boGet B t b k = Some v}"
  shows "xs = ys"
proof -
  have "inj_on fst (set xs \<union> set ys)"
    using scan_set(1) [OF assms(1)] assms(3) by (auto simp: inj_on_def)
  then show ?thesis
    using scan_set [OF assms(1)] assms(2,3)
    by (intro map_sorted_distinct_set_unique [of fst]) (simp_all add: strict_sorted_iff)
qed

end

section \<open>An in-memory database\<close>

type_synonym mem = "(bytes, (bytes, bytes) RBT.rbt) RBT.rbt"

definition memBucket :: "mem \<Rightarrow> bytes \<Rightarrow> (bytes, bytes) RBT.rbt" where
  "memBucket t b = (case RBT.lookup t b of Some m \<Rightarrow> m | None \<Rightarrow> RBT.empty)"

definition memPut :: "mem \<Rightarrow> bytes \<Rightarrow> bytes \<Rightarrow> bytes \<Rightarrow> (store_error, mem) go" where
  "memPut t b k v =
     (if k = [] \<or> length k > maxKeySize \<or> length v > maxValueSize then Err (IOError 1)
      else Ok (RBT.insert b (RBT.insert k v (memBucket t b)) t))"

definition memBolt :: "mem bolt" where
  "memBolt = \<lparr>boHas = (\<lambda>t b. RBT.lookup t b \<noteq> None), boNames = RBT.keys,
     boGet = (\<lambda>t b k. RBT.lookup (memBucket t b) k),
     boCursor = (\<lambda>t b p. filter (\<lambda>(k, v). p \<le> k) (RBT.entries (memBucket t b))),
     boPut = (\<lambda>t b k v. if RBT.lookup t b = None then Panic else memPut t b k v),
     boDelete = (\<lambda>t b k. if RBT.lookup t b = None then Panic
       else Ok (RBT.insert b (RBT.delete k (memBucket t b)) t)),
     boCreate = (\<lambda>t b. Ok (if RBT.lookup t b = None then RBT.insert b RBT.empty t else t)),
     boDrop = (\<lambda>t b. Ok (RBT.delete b t)),
     boUpdate = (\<lambda>f t. case f t of Ok t' \<Rightarrow> (Ok (), t') | Err e \<Rightarrow> (Err e, t) | Panic \<Rightarrow> (Panic, t))\<rparr>"

lemma entries_set: "set (RBT.entries m) = {(k, v). RBT.lookup m k = Some v}"
  using map_of_entries [of m] distinct_entries [of m]
  by (auto simp: map_of_eq_Some_iff simp flip: map_of_entries)

lemma memBucket_insert: "memBucket (RBT.insert b m t) c = (if c = b then m else memBucket t c)"
  by (simp add: memBucket_def)

lemma memBucket_delete: "memBucket (RBT.delete b t) c = (if c = b then RBT.empty else memBucket t c)"
  by (simp add: memBucket_def)

interpretation memory: bolt memBolt
proof
  fix t :: mem and b p :: bytes
  show "sorted_wrt (<) (map fst (boCursor memBolt t b p))"
    using sorted_entries [of "memBucket t b"] distinct_entries [of "memBucket t b"]
    by (simp add: memBolt_def strict_sorted_iff sorted_filter distinct_map_filter)
  show "set (boCursor memBolt t b p) = {(k, v). p \<le> k \<and> boGet memBolt t b k = Some v}" if "boHas memBolt t b"
    by (auto simp: memBolt_def entries_set)
next
  fix f :: "mem \<Rightarrow> (store_error, mem) go" and t
  show "boUpdate memBolt f t = (Panic, t) \<or> (\<exists>e. boUpdate memBolt f t = (Err e, t))" if "f t = Panic"
    using that by (simp add: memBolt_def)
qed (auto simp: memBolt_def memPut_def memBucket_insert memBucket_delete memBucket_def lookup_keys [symmetric] dom_def split: if_splits option.splits)

end
