(* ===== verification/Postings.thy ===== *)
theory Postings
  imports Unit_Codec Bolt
begin

text \<open>
  The reverse reference index of \<open>internal/store/postings.go\<close>: for every referenced symbol and
  every package that references it, the list of reference locations. \<open>applyPostings\<close> replaces
  all that one package contributed, using a manifest of the targets it wrote last;
  \<open>PostingsFor\<close> answers a query by one prefix scan. Both are shown to implement the map from
  source packages to the postings they contributed last.
\<close>

section \<open>Data and encodings\<close>

record posting_location =
  plFile :: bytes
  plLine :: u32
  plCol :: u32
  plEndCol :: u32

record posting_record =
  prSrcPkgHash :: u64
  prBytes :: nat
  prLocations :: "posting_location list"

record posting_group_key =
  pgTargetPkgHash :: u64
  pgTargetIDHash :: u64

definition hashKey :: "u64 \<Rightarrow> bytes" where
  "hashKey h = put_be64 h"

definition bucketRefPostings :: bytes where
  "bucketRefPostings = lit ''refposting''"

definition bucketRefPostingManifest :: bytes where
  "bucketRefPostingManifest = lit ''refpostmanifest''"

definition postingKey :: "u64 \<Rightarrow> u64 \<Rightarrow> u64 \<Rightarrow> bytes" where
  "postingKey targetPkgHash targetIDHash srcPkgHash =
     put_be64 targetPkgHash @ put_be64 targetIDHash @ put_be64 srcPkgHash"

definition postingPrefix :: "u64 \<Rightarrow> u64 \<Rightarrow> bytes" where
  "postingPrefix targetPkgHash targetIDHash = put_be64 targetPkgHash @ put_be64 targetIDHash"

definition srcHashFromPostingKey :: "bytes \<Rightarrow> (store_error, u64) go" where
  "srcHashFromPostingKey key = go_bind (slice key 16 24) (\<lambda>b. Ok (get_be64 b))"

definition w_location :: "posting_location \<Rightarrow> writer" where
  "w_location l = w_seq [w_len (length (plFile l)), w_copy (plFile l),
     w_put (put_u32 (plLine l)), w_put (put_u32 (plCol l)), w_put (put_u32 (plEndCol l))]"

definition encodePostingLocations :: "posting_location list \<Rightarrow> (store_error, bytes) go" where
  "encodePostingLocations locs =
     w_run (4 + (\<Sum>l\<leftarrow>locs. 4 + length (plFile l) + 12))
       (w_seq [w_len (length locs), w_seq (map w_location locs)])"

definition decodePostingLocation :: "posting_location reader" where
  "decodePostingLocation b off =
     go_bind (takeString b off) (\<lambda>(file, off).
     go_bind (takeUint32 b off) (\<lambda>(line, off).
     go_bind (takeUint32 b off) (\<lambda>(col, off).
     go_bind (takeUint32 b off) (\<lambda>(endCol, off).
     go_bind (uint32Field line) (\<lambda>lineU32.
     go_bind (uint32Field col) (\<lambda>colU32.
     go_bind (uint32Field endCol) (\<lambda>endColU32.
     Ok (\<lparr>plFile = file, plLine = lineU32, plCol = colU32, plEndCol = endColU32\<rparr>, off))))))))"

definition decodePostingLocations :: "bytes \<Rightarrow> (store_error, posting_location list) go" where
  "decodePostingLocations b =
     go_bind (takeUint32 b 0) (\<lambda>(cnt, off).
     go_bind (take_n decodePostingLocation cnt b off) (\<lambda>(locs, off). Ok locs))"

definition appendManifestEntry :: "bytes \<Rightarrow> posting_group_key \<Rightarrow> bytes" where
  "appendManifestEntry xs k = xs @ put_u64 (pgTargetPkgHash k) @ put_u64 (pgTargetIDHash k)"

function decodeManifest :: "bytes \<Rightarrow> posting_group_key list" where
  "decodeManifest xs =
     (if 16 \<le> length xs
      then \<lparr>pgTargetPkgHash = get_u64 xs, pgTargetIDHash = get_u64 (drop 8 xs)\<rparr> # decodeManifest (drop 16 xs)
      else [])"
  by pat_completeness auto
termination by (relation "measure length") auto

declare decodeManifest.simps [simp del]

section \<open>Replacing the contribution of a package\<close>

definition groupKey :: "posting_entry \<Rightarrow> posting_group_key" where
  "groupKey p = \<lparr>pgTargetPkgHash = peTargetPkgHash p, pgTargetIDHash = peTargetIDHash p\<rparr>"

definition toLocation :: "posting_entry \<Rightarrow> posting_location" where
  "toLocation p = \<lparr>plFile = peFile p, plLine = peLine p, plCol = peCol p, plEndCol = peEndCol p\<rparr>"

definition groupPostings :: "posting_entry list \<Rightarrow> posting_group_key \<Rightarrow> posting_location list" where
  "groupPostings postings = fold (\<lambda>p m. m(groupKey p := m (groupKey p) @ [toLocation p])) postings (\<lambda>_. [])"

definition groupLess :: "posting_group_key \<Rightarrow> posting_group_key \<Rightarrow> bool" where
  "groupLess a b = (if pgTargetPkgHash a \<noteq> pgTargetPkgHash b then pgTargetPkgHash a < pgTargetPkgHash b
     else pgTargetIDHash a < pgTargetIDHash b)"

text \<open>The keys of the \<open>groups\<close> map, sorted; their enumeration order before sorting is irrelevant.\<close>

definition groupTargets :: "posting_entry list \<Rightarrow> posting_group_key list" where
  "groupTargets postings = sort_by groupLess (remdups (map groupKey postings))"

definition deleteStale :: "'t bolt \<Rightarrow> u64 \<Rightarrow> posting_group_key \<Rightarrow> 't \<Rightarrow> (store_error, 't) go" where
  "deleteStale B srcPkgHash stale =
     bucketDelete B bucketRefPostings (postingKey (pgTargetPkgHash stale) (pgTargetIDHash stale) srcPkgHash)"

definition putGroup :: "'t bolt \<Rightarrow> u64 \<Rightarrow> (posting_group_key \<Rightarrow> posting_location list) \<Rightarrow> posting_group_key
    \<Rightarrow> 't \<times> bytes \<Rightarrow> (store_error, 't \<times> bytes) go" where
  "putGroup B srcPkgHash groups k = (\<lambda>(t, manifest).
     go_bind (encodePostingLocations (groups k)) (\<lambda>v.
     go_bind (bucketPut B bucketRefPostings
       (postingKey (pgTargetPkgHash k) (pgTargetIDHash k) srcPkgHash) v t) (\<lambda>t.
     Ok (t, appendManifestEntry manifest k))))"

definition applyPostings :: "'t bolt \<Rightarrow> u64 \<Rightarrow> posting_entry list \<Rightarrow> 't \<Rightarrow> (store_error, 't) go" where
  "applyPostings B srcPkgHash postings t =
     go_bind (bucketGet B bucketRefPostingManifest (hashKey srcPkgHash) t) (\<lambda>old.
     go_bind (go_foldM (deleteStale B srcPkgHash)
       (decodeManifest (case old of None \<Rightarrow> [] | Some m \<Rightarrow> m)) t) (\<lambda>t.
     go_bind (go_foldM (putGroup B srcPkgHash (groupPostings postings)) (groupTargets postings) (t, []))
       (\<lambda>(t, manifest).
     bucketPut B bucketRefPostingManifest (hashKey srcPkgHash) manifest t)))"

definition postingRecord :: "bytes \<times> bytes \<Rightarrow> (store_error, posting_record) go" where
  "postingRecord = (\<lambda>(k, v).
     go_bind (decodePostingLocations v) (\<lambda>locs.
     go_bind (srcHashFromPostingKey k) (\<lambda>src.
     Ok \<lparr>prSrcPkgHash = src, prBytes = length v, prLocations = locs\<rparr>)))"

text \<open>\<open>ctxErr\<close> is whether the context is already cancelled.\<close>

definition PostingsFor :: "'t bolt \<Rightarrow> bool \<Rightarrow> u64 \<Rightarrow> u64 \<Rightarrow> 't \<Rightarrow> (store_error, posting_record list) go" where
  "PostingsFor B ctxErr targetPkgHash targetIDHash t =
     (if ctxErr then Err Cancelled
      else go_bind (bucketScan B bucketRefPostings (postingPrefix targetPkgHash targetIDHash) t)
             (go_mapM postingRecord))"

section \<open>Encodings are inverted\<close>

definition location_bytes :: "posting_location \<Rightarrow> bytes" where
  "location_bytes l = str_bytes (plFile l) @ put_u32 (plLine l) @ put_u32 (plCol l) @ put_u32 (plEndCol l)"

lemma writes_location: "len_ok (plFile l) \<Longrightarrow> writes (w_location l) (location_bytes l)"
  unfolding w_location_def location_bytes_def by (intro writes_str writes_intros writes_last)

lemma length_locations: "length (counted location_bytes locs) = 4 + (\<Sum>l\<leftarrow>locs. 4 + length (plFile l) + 12)"
  by (simp add: length_counted location_bytes_def str_bytes_def add.assoc)

definition locs_fit :: "posting_location list \<Rightarrow> bool" where
  "locs_fit locs \<longleftrightarrow> len_ok locs \<and> list_all (\<lambda>l. len_ok (plFile l)) locs"

lemma encodePostingLocations_bytes:
  assumes "locs_fit locs"
  shows "encodePostingLocations locs = Ok (counted location_bytes locs)"
proof -
  have "writes (w_seq [w_len (length locs), w_seq (map w_location locs)]) (counted location_bytes locs)"
    using assms unfolding counted_def locs_fit_def len_ok_def list_all_iff
    by (intro writes_Cons writes_last writes_len writes_map writes_location) (auto simp: len_ok_def)
  then show ?thesis
    unfolding encodePostingLocations_def by (rule w_run_writes) (rule length_locations)
qed

lemma reads_location: "len_ok (plFile l) \<Longrightarrow> reads decodePostingLocation (location_bytes l) l"
proof -
  assume ok: "len_ok (plFile l)"
  have "reads decodePostingLocation (str_bytes (plFile l) @ put_u32 (plLine l) @ put_u32 (plCol l)
      @ put_u32 (plEndCol l) @ [])
    \<lparr>plFile = plFile l, plLine = plLine l, plCol = plCol l, plEndCol = plEndCol l\<rparr>"
    unfolding decodePostingLocation_def [abs_def]
    by (intro reads_str ok reads_u32) (simp add: reads_return)
  then show ?thesis by (cases l) (simp add: location_bytes_def)
qed

lemma decodePostingLocations_bytes:
  assumes "locs_fit locs"
  shows "decodePostingLocations (counted location_bytes locs) = Ok locs"
proof -
  have "reads (\<lambda>b off. go_bind (takeUint32 b off) (\<lambda>(n, off). take_n decodePostingLocation n b off))
      (counted location_bytes locs) (map id locs)"
    using assms by (intro reads_counted) (auto simp: locs_fit_def list_all_iff intro: reads_location)
  from reads_run [OF this] show ?thesis
    by (auto simp: decodePostingLocations_def go_bind_eq_Ok)
qed

lemma decodePostingLocations_no_panic: "decodePostingLocations b \<noteq> Panic"
  by (auto simp: decodePostingLocations_def decodePostingLocation_def go_bind_eq_Panic safe_take_n split: prod.splits)

interpretation postings_codec: record_codec encodePostingLocations decodePostingLocations id locs_fit
  by unfold_locales
    (auto simp: encodePostingLocations_bytes decodePostingLocations_bytes decodePostingLocations_no_panic)

definition manifest_bytes :: "posting_group_key list \<Rightarrow> bytes" where
  "manifest_bytes ks = concat (map (\<lambda>k. put_u64 (pgTargetPkgHash k) @ put_u64 (pgTargetIDHash k)) ks)"

lemma decodeManifest_bytes: "decodeManifest (manifest_bytes ks) = ks"
proof (induction ks)
  case (Cons k ks)
  then show ?case
    by (subst decodeManifest.simps) (cases k, simp add: manifest_bytes_def)
qed (simp add: manifest_bytes_def decodeManifest.simps)

section \<open>Key order\<close>

lemma append_less_iff:
  "length u = length v \<Longrightarrow> u @ a < v @ b \<longleftrightarrow> u < v \<or> u = v \<and> a < b" for u :: "'a::linorder list"
  by (induction u v rule: list_induct2) auto

lemma le_dec_inject: "length xs = length ys \<Longrightarrow> le_dec xs = le_dec ys \<Longrightarrow> xs = ys"
  by (metis le_enc_dec)

lemma rev_less_iff_le_dec: "length xs = length ys \<Longrightarrow> rev xs < rev ys \<longleftrightarrow> le_dec xs < le_dec ys"
proof (induction xs ys rule: list_induct2)
  case (Cons x xs y ys)
  have b: "unat x < 256" "unat y < 256" by simp_all
  consider "le_dec xs < le_dec ys" | "xs = ys" | "le_dec xs > le_dec ys"
    using le_dec_inject [OF Cons.hyps] by (cases rule: linorder_cases [of "le_dec xs" "le_dec ys"]) auto
  then show ?case
  proof cases
    case 1
    then have "unat x + 256 * le_dec xs < unat y + 256 * le_dec ys" using b by linarith
    then show ?thesis using Cons 1 by (simp add: append_less_iff)
  next
    case 2
    then show ?thesis by (simp add: append_less_iff word_less_nat_alt)
  next
    case 3
    then have "unat x + 256 * le_dec xs > unat y + 256 * le_dec ys" using b by linarith
    then show ?thesis using Cons 3 by (auto simp: append_less_iff)
  qed
qed simp

lemma put_be64_less [simp]: "put_be64 a < put_be64 b \<longleftrightarrow> a < b"
  using unat_less [of a] unat_less [of b]
  by (simp add: put_be64_def rev_less_iff_le_dec put_u64_def le_dec_enc word_less_nat_alt)

lemma postingKey_inject [simp]: "postingKey p i s = postingKey p' i' s' \<longleftrightarrow> p = p' \<and> i = i' \<and> s = s'"
  by (auto simp: postingKey_def)

lemma postingKey_less: "postingKey p i s < postingKey p i s' \<longleftrightarrow> s < s'"
  by (simp add: postingKey_def append_less_iff)

lemma prefix_postingKey: "prefix (postingPrefix p i) (postingKey p' i' s) \<longleftrightarrow> p = p' \<and> i = i'"
  by (auto simp: postingPrefix_def postingKey_def prefix_def)

lemma srcHash_postingKey: "srcHashFromPostingKey (postingKey p i s) = Ok s"
  by (simp add: srcHashFromPostingKey_def postingKey_def slice_def)

lemma length_keys [simp]: "length (postingKey p i s) = 24" "length (hashKey h) = 8"
  by (simp_all add: postingKey_def hashKey_def)

lemma keys_nonempty [simp]: "postingKey p i s \<noteq> []" "hashKey h \<noteq> []"
  by (metis length_keys list.size(3) zero_neq_numeral)+

section \<open>What the index represents\<close>

definition locsOf :: "posting_entry list \<Rightarrow> posting_group_key \<Rightarrow> posting_location list" where
  "locsOf ps k = map toLocation (filter (\<lambda>p. groupKey p = k) ps)"

definition keyOf :: "u64 \<Rightarrow> posting_group_key \<Rightarrow> bytes" where
  "keyOf src k = postingKey (pgTargetPkgHash k) (pgTargetIDHash k) src"

text \<open>
  \<open>contrib src\<close> is what the package \<open>src\<close> wrote last. The index holds one record per source and
  target with a reference, nothing else, and every manifest names exactly the targets of its
  package.
\<close>

definition manifestOf :: "'t bolt \<Rightarrow> 't \<Rightarrow> u64 \<Rightarrow> posting_group_key list" where
  "manifestOf B t src = decodeManifest (case boGet B t bucketRefPostingManifest (hashKey src) of None \<Rightarrow> [] | Some m \<Rightarrow> m)"

definition represents :: "'t bolt \<Rightarrow> 't \<Rightarrow> (u64 \<Rightarrow> posting_entry list) \<Rightarrow> bool" where
  "represents B t contrib \<longleftrightarrow> boHas B t bucketRefPostings \<and> boHas B t bucketRefPostingManifest
     \<and> (\<forall>j v. boGet B t bucketRefPostings j = Some v \<longrightarrow> (\<exists>src k. j = keyOf src k))
     \<and> (\<forall>src k. boGet B t bucketRefPostings (keyOf src k) =
          (if locsOf (contrib src) k = [] then None else Some (counted location_bytes (locsOf (contrib src) k))))
     \<and> (\<forall>src. set (manifestOf B t src) = groupKey ` set (contrib src))
     \<and> (\<forall>src k. locs_fit (locsOf (contrib src) k))"

text \<open>The sizes bbolt and the encoding accept.\<close>

definition postings_fit :: "posting_entry list \<Rightarrow> bool" where
  "postings_fit ps \<longleftrightarrow> 16 * length ps \<le> maxValueSize \<and> 4 + (\<Sum>p\<leftarrow>ps. 16 + length (peFile p)) \<le> maxValueSize"

lemma bucket_names [simp]: "bucketRefPostings \<noteq> bucketRefPostingManifest" "bucketRefPostingManifest \<noteq> bucketRefPostings"
  by (simp_all add: bucketRefPostings_def bucketRefPostingManifest_def lit_def)

lemma keyOf_inject [simp]: "keyOf a k = keyOf b l \<longleftrightarrow> a = b \<and> k = l"
  by (cases k, cases l) (auto simp: keyOf_def)

lemma keyOf_size [simp]: "keyOf a k \<noteq> []" "length (keyOf a k) = 24"
  by (simp_all add: keyOf_def)

lemma groupPostings_eq: "groupPostings ps k = locsOf ps k"
proof -
  have "fold (\<lambda>p m. m(groupKey p := m (groupKey p) @ [toLocation p])) ps m k = m k @ locsOf ps k" for m
    by (induction ps arbitrary: m) (auto simp: locsOf_def)
  then show ?thesis by (simp add: groupPostings_def)
qed

lemma mset_insert_by: "mset (insert_by lt x xs) = add_mset x (mset xs)"
  by (induction xs) auto

lemma mset_sort_by: "mset (sort_by lt xs) = mset xs"
  unfolding sort_by_def by (induction xs) (simp_all add: mset_insert_by)

lemma set_groupTargets: "set (groupTargets ps) = groupKey ` set ps"
  using mset_eq_setD [OF mset_sort_by [of groupLess "remdups (map groupKey ps)"]]
  by (simp add: groupTargets_def)

lemma length_groupTargets: "length (groupTargets ps) \<le> length ps"
  using mset_eq_length [OF mset_sort_by [of groupLess "remdups (map groupKey ps)"]] length_remdups_leq [of "map groupKey ps"]
  by (simp add: groupTargets_def)

lemma locsOf_empty_iff: "locsOf ps k = [] \<longleftrightarrow> k \<notin> groupKey ` set ps"
  by (auto simp: locsOf_def filter_empty_conv)

lemma sum_list_filter_le: "(\<Sum>x\<leftarrow>filter P xs. f x) \<le> (\<Sum>x\<leftarrow>xs. f x :: nat)"
  by (induction xs) auto

lemma length_manifest_bytes: "length (manifest_bytes ks) = 16 * length ks"
  by (induction ks) (simp_all add: manifest_bytes_def)

lemma postings_fit_locs:
  assumes "postings_fit ps"
  shows "locs_fit (locsOf ps k)" and "length (counted location_bytes (locsOf ps k)) \<le> maxValueSize"
proof -
  have s: "4 + (\<Sum>p\<leftarrow>ps. 16 + length (peFile p)) \<le> maxValueSize" "16 * length ps \<le> maxValueSize"
    using assms by (simp_all add: postings_fit_def)
  have le: "length (peFile p) \<le> (\<Sum>p\<leftarrow>ps. 16 + length (peFile p))" if "p \<in> set ps" for p
    using member_le_sum_list [of "16 + length (peFile p)" "map (\<lambda>p. 16 + length (peFile p)) ps"] that by simp
  have "length (filter (\<lambda>p. groupKey p = k) ps) \<le> length ps" by simp
  also have "\<dots> < 2 ^ 32" using s(2) by (simp add: maxValueSize_def)
  finally have "len_ok (locsOf ps k)" by (simp add: len_ok_def locsOf_def)
  moreover have "len_ok (peFile p)" if "p \<in> set ps" for p
    using le [OF that] s(1) by (simp add: len_ok_def maxValueSize_def)
  ultimately show "locs_fit (locsOf ps k)"
    by (auto simp: locs_fit_def list_all_iff locsOf_def toLocation_def)
  have "(\<Sum>l\<leftarrow>locsOf ps k. 4 + length (plFile l) + 12) = (\<Sum>p\<leftarrow>filter (\<lambda>p. groupKey p = k) ps. 16 + length (peFile p))"
    by (simp add: locsOf_def comp_def toLocation_def add.commute add.left_commute)
  also have "\<dots> \<le> (\<Sum>p\<leftarrow>ps. 16 + length (peFile p))" by (rule sum_list_filter_le)
  finally show "length (counted location_bytes (locsOf ps k)) \<le> maxValueSize"
    using s(1) by (simp add: length_locations)
qed

context bolt
begin

lemma deletes:
  "boHas B t bucketRefPostings \<Longrightarrow> \<exists>t'. go_foldM (deleteStale B src) ks t = Ok t'
     \<and> (\<forall>c. boHas B t' c = boHas B t c)
     \<and> (\<forall>c j. boGet B t' c j = (if c = bucketRefPostings \<and> j \<in> keyOf src ` set ks then None else boGet B t c j))"
proof (induction ks arbitrary: t)
  case (Cons k ks)
  obtain t1 where t1: "boDelete B t bucketRefPostings (keyOf src k) = Ok t1"
    using delete_ok [OF Cons.prems] by blast
  then have "deleteStale B src k t = Ok t1" using Cons.prems by (simp add: deleteStale_def bucketDelete_def keyOf_def)
  moreover obtain t' where "go_foldM (deleteStale B src) ks t1 = Ok t'" "\<forall>c. boHas B t' c = boHas B t1 c"
    "\<forall>c j. boGet B t' c j = (if c = bucketRefPostings \<and> j \<in> keyOf src ` set ks then None else boGet B t1 c j)"
    using Cons.IH [of t1] has_delete [OF t1] Cons.prems by auto
  ultimately show ?case using has_delete [OF t1] get_delete [OF Cons.prems t1] by auto
qed simp

lemma puts:
  assumes fit: "\<And>k. k \<in> set ks \<Longrightarrow> locs_fit (g k) \<and> length (counted location_bytes (g k)) \<le> maxValueSize"
  shows "boHas B t bucketRefPostings \<Longrightarrow> \<exists>t'. go_foldM (putGroup B src g) ks (t, m) = Ok (t', m @ manifest_bytes ks)
     \<and> (\<forall>c. boHas B t' c = boHas B t c)
     \<and> (\<forall>c j. boGet B t' c j = (if c = bucketRefPostings \<and> j \<in> keyOf src ` set ks
          then Some (counted location_bytes (g (THE k. j = keyOf src k))) else boGet B t c j))"
  using fit
proof (induction ks arbitrary: t m)
  case (Cons k ks)
  let ?v = "counted location_bytes (g k)"
  obtain t1 where t1: "boPut B t bucketRefPostings (keyOf src k) ?v = Ok t1"
    using put_ok [OF Cons.prems(1), of "keyOf src k" ?v] Cons.prems(2) [of k] by (auto simp: maxKeySize_def)
  have the: "(THE k'. keyOf src k = keyOf src k') = k" by auto
  have m: "appendManifestEntry m k @ manifest_bytes ks = m @ manifest_bytes (k # ks)"
    by (simp add: appendManifestEntry_def manifest_bytes_def)
  have step: "putGroup B src g k (t, m) = Ok (t1, appendManifestEntry m k)"
    using Cons.prems(1) Cons.prems(2) [of k] t1
    by (simp add: putGroup_def encodePostingLocations_bytes bucketPut_def keyOf_def)
  obtain t' where "go_foldM (putGroup B src g) ks (t1, appendManifestEntry m k) = Ok (t', m @ manifest_bytes (k # ks))"
    "\<forall>c. boHas B t' c = boHas B t1 c"
    "\<forall>c j. boGet B t' c j = (if c = bucketRefPostings \<and> j \<in> keyOf src ` set ks
          then Some (counted location_bytes (g (THE k. j = keyOf src k))) else boGet B t1 c j)"
    using Cons.IH [of t1 "appendManifestEntry m k"] has_put [OF t1] Cons.prems m by auto
  then show ?case using step has_put [OF t1] get_put [OF Cons.prems(1) t1] the by auto
qed (simp add: manifest_bytes_def)

lemma applyPostings_represents:
  assumes r: "represents B t contrib" and fit: "postings_fit ps"
  shows "\<exists>t'. applyPostings B src ps t = Ok t' \<and> represents B t' (contrib(src := ps))
    \<and> (\<forall>c. boHas B t' c = boHas B t c)
    \<and> (\<forall>c j. c \<noteq> bucketRefPostings \<and> c \<noteq> bucketRefPostingManifest \<longrightarrow> boGet B t' c j = boGet B t c j)"
proof -
  have has: "boHas B t bucketRefPostings" "boHas B t bucketRefPostingManifest"
    and keys: "\<And>j v. boGet B t bucketRefPostings j = Some v \<Longrightarrow> \<exists>src k. j = keyOf src k"
    and vals: "\<And>src k. boGet B t bucketRefPostings (keyOf src k) =
          (if locsOf (contrib src) k = [] then None else Some (counted location_bytes (locsOf (contrib src) k)))"
    and man: "\<And>src. set (manifestOf B t src) = groupKey ` set (contrib src)"
    and fits: "\<And>src k. locs_fit (locsOf (contrib src) k)"
    using r unfolding represents_def by blast+
  obtain t1 where t1: "go_foldM (deleteStale B src) (manifestOf B t src) t = Ok t1"
    "\<And>c. boHas B t1 c = boHas B t c"
    "\<And>c j. boGet B t1 c j = (if c = bucketRefPostings \<and> j \<in> keyOf src ` set (manifestOf B t src) then None else boGet B t c j)"
    using deletes [OF has(1), of src "manifestOf B t src"] by blast
  obtain t2 where t2: "go_foldM (putGroup B src (groupPostings ps)) (groupTargets ps) (t1, []) = Ok (t2, manifest_bytes (groupTargets ps))"
    "\<And>c. boHas B t2 c = boHas B t1 c"
    "\<And>c j. boGet B t2 c j = (if c = bucketRefPostings \<and> j \<in> keyOf src ` set (groupTargets ps)
          then Some (counted location_bytes (groupPostings ps (THE k. j = keyOf src k))) else boGet B t1 c j)"
    using puts [of "groupTargets ps" "groupPostings ps" t1 src "[]"] postings_fit_locs [OF fit] has(1) t1(2)
    by (auto simp: groupPostings_eq)
  have "length (manifest_bytes (groupTargets ps)) \<le> maxValueSize"
    using fit length_groupTargets [of ps] by (simp add: length_manifest_bytes postings_fit_def)
  then obtain t3 where t3: "boPut B t2 bucketRefPostingManifest (hashKey src) (manifest_bytes (groupTargets ps)) = Ok t3"
    using put_ok [of t2 bucketRefPostingManifest "hashKey src" "manifest_bytes (groupTargets ps)"] has(2) t1(2) t2(2) by (auto simp: maxKeySize_def)
  have run: "applyPostings B src ps t = Ok t3"
    using t1(1) t2(1) t3 has t1(2) t2(2)
    by (simp add: applyPostings_def bucketGet_def bucketPut_def manifestOf_def)
  have has3: "boHas B t3 c = boHas B t c" for c using has_put [OF t3] t2(2) t1(2) by simp
  have get3: "boGet B t3 c j = (if c = bucketRefPostingManifest \<and> j = hashKey src then Some (manifest_bytes (groupTargets ps))
      else boGet B t2 c j)" for c j
    using get_put [OF _ t3] has(2) t1(2) t2(2) by simp
  have P: "boGet B t3 bucketRefPostings j = (if j \<in> keyOf src ` groupKey ` set ps
        then Some (counted location_bytes (locsOf ps (THE k. j = keyOf src k)))
        else if j \<in> keyOf src ` groupKey ` set (contrib src) then None else boGet B t bucketRefPostings j)" for j
    by (simp add: get3 t2(3) t1(3) set_groupTargets man groupPostings_eq)
  have M: "manifestOf B t3 s = (if s = src then groupTargets ps else manifestOf B t s)" for s
    by (simp add: manifestOf_def get3 t2(3) t1(3) decodeManifest_bytes hashKey_def)
  have "represents B t3 (contrib(src := ps))"
    unfolding represents_def
  proof (intro conjI allI impI)
    fix s k
    show "boGet B t3 bucketRefPostings (keyOf s k) = (if locsOf ((contrib(src := ps)) s) k = [] then None
        else Some (counted location_bytes (locsOf ((contrib(src := ps)) s) k)))"
      using vals [of s k] by (auto simp: P locsOf_empty_iff image_iff)
    show "set (manifestOf B t3 s) = groupKey ` set ((contrib(src := ps)) s)"
      using man by (simp add: M set_groupTargets)
    show "locs_fit (locsOf ((contrib(src := ps)) s) k)" using fits postings_fit_locs(1) [OF fit] by simp
  next
    fix j v assume "boGet B t3 bucketRefPostings j = Some v"
    then show "\<exists>src k. j = keyOf src k" using keys by (auto simp: P split: if_splits)
  qed (use has has3 in simp_all)
  then show ?thesis using run has3 by (auto simp: get3 t2(3) t1(3))
qed

lemma PostingsFor_represents:
  fixes tp ti :: u64
  assumes r: "represents B t contrib"
  defines "k \<equiv> \<lparr>pgTargetPkgHash = tp, pgTargetIDHash = ti\<rparr>"
  shows "\<exists>srcs. sorted_wrt (<) srcs \<and> set srcs = {src. locsOf (contrib src) k \<noteq> []}
    \<and> PostingsFor B False tp ti t = Ok (map (\<lambda>src. \<lparr>prSrcPkgHash = src,
          prBytes = length (counted location_bytes (locsOf (contrib src) k)),
          prLocations = locsOf (contrib src) k\<rparr>) srcs)"
proof -
  have has: "boHas B t bucketRefPostings"
    and keys: "\<And>j v. boGet B t bucketRefPostings j = Some v \<Longrightarrow> \<exists>src k. j = keyOf src k"
    and vals: "\<And>src k. boGet B t bucketRefPostings (keyOf src k) =
          (if locsOf (contrib src) k = [] then None else Some (counted location_bytes (locsOf (contrib src) k)))"
    and fits: "\<And>src k. locs_fit (locsOf (contrib src) k)"
    using r unfolding represents_def by blast+
  obtain xs where xs: "bucketScan B bucketRefPostings (postingPrefix tp ti) t = Ok xs"
    using has by (simp add: bucketScan_def)
  let ?v = "\<lambda>src. counted location_bytes (locsOf (contrib src) k)"
  have pre: "prefix (postingPrefix tp ti) (keyOf src l) \<longleftrightarrow> l = k" for src l
    by (cases l) (auto simp: keyOf_def k_def prefix_postingKey)
  define S where "S = {src. locsOf (contrib src) k \<noteq> []}"
  define srcs where "srcs = sorted_list_of_set S"
  have srcs: "sorted_wrt (<) srcs" "set srcs = S" by (simp_all add: srcs_def)
  have "xs = map (\<lambda>src. (keyOf src k, ?v src)) srcs"
  proof (rule scan_unique [OF xs])
    show "sorted_wrt (<) (map fst (map (\<lambda>src. (keyOf src k, ?v src)) srcs))"
      using srcs(1) by (simp add: comp_def sorted_wrt_map keyOf_def postingKey_less)
    have "(j, v) \<in> set (map (\<lambda>src. (keyOf src k, ?v src)) srcs) \<longleftrightarrow>
        prefix (postingPrefix tp ti) j \<and> boGet B t bucketRefPostings j = Some v" for j v
    proof
      assume "(j, v) \<in> set (map (\<lambda>src. (keyOf src k, ?v src)) srcs)"
      then show "prefix (postingPrefix tp ti) j \<and> boGet B t bucketRefPostings j = Some v"
        using vals pre by (auto simp: srcs(2) S_def)
    next
      assume a: "prefix (postingPrefix tp ti) j \<and> boGet B t bucketRefPostings j = Some v"
      then obtain src l where j: "j = keyOf src l" using keys by blast
      then have "l = k" using a pre by simp
      then show "(j, v) \<in> set (map (\<lambda>src. (keyOf src k, ?v src)) srcs)"
        using a vals [of src k] j by (auto simp: srcs(2) S_def split: if_splits)
    qed
    then show "set (map (\<lambda>src. (keyOf src k, ?v src)) srcs) =
        {(j, v). prefix (postingPrefix tp ti) j \<and> boGet B t bucketRefPostings j = Some v}"
      by (simp add: set_eq_iff split_paired_all)
  qed
  moreover have "postingRecord (keyOf src k, ?v src) = Ok \<lparr>prSrcPkgHash = src, prBytes = length (?v src), prLocations = locsOf (contrib src) k\<rparr>" for src
    by (simp add: postingRecord_def decodePostingLocations_bytes [OF fits] keyOf_def srcHash_postingKey)
  then have "go_mapM postingRecord (map (\<lambda>src. (keyOf src k, ?v src)) srcs) = Ok (map (\<lambda>src. \<lparr>prSrcPkgHash = src,
      prBytes = length (?v src), prLocations = locsOf (contrib src) k\<rparr>) srcs)"
    by (intro go_mapM_map)
  ultimately have "PostingsFor B False tp ti t = Ok (map (\<lambda>src. \<lparr>prSrcPkgHash = src, prBytes = length (?v src),
      prLocations = locsOf (contrib src) k\<rparr>) srcs)"
    using xs by (simp add: PostingsFor_def)
  then show ?thesis using srcs S_def by blast
qed

end

end
