(* ===== verification/Store_DB.thy ===== *)
theory Store_DB
  imports Postings
begin

text \<open>
  The per-root index database of \<open>internal/store/store.go\<close>: opening it (with the recovery from
  corrupt and stale files), the unit pointers, the name, method and symbol-identifier indices,
  and the batch write of a package's unit. The bbolt database is the parameter \<open>B\<close>;
  \<open>mapLower\<close> is \<open>strings.Map(unicode.ToLower, s)\<close>, the Unicode case table that
  \<open>strings.ToLower\<close> consults for strings that are not ASCII.
\<close>

section \<open>Buckets and keys\<close>

definition bucketUnit :: bytes where "bucketUnit = lit ''unit''"
definition bucketMeta :: bytes where "bucketMeta = lit ''meta''"
definition bucketName :: bytes where "bucketName = lit ''name''"
definition bucketMethod :: bytes where "bucketMethod = lit ''method''"
definition bucketSymStr :: bytes where "bucketSymStr = lit ''symstr''"

definition allBuckets :: "bytes list" where
  "allBuckets = [bucketUnit, bucketMeta, bucketName, bucketMethod, bucketSymStr, bucketRefPostings,
     bucketRefPostingManifest]"

definition buildFingerprintKey :: bytes where
  "buildFingerprintKey = 0 # lit ''golance:fingerprint''"

definition schemaVersion :: u16 where "schemaVersion = 4"

definition schemaVersionKey :: bytes where "schemaVersionKey = 0 # lit ''golance:schema''"

definition casDirKey :: bytes where "casDirKey = 0 # lit ''golance:casdir''"

definition toLower :: "(bytes \<Rightarrow> bytes) \<Rightarrow> bytes \<Rightarrow> bytes" where
  "toLower mapLower s = (if list_all (\<lambda>c. c < 128) s then map asciiLower s else mapLower s)"

definition nameKey :: "(bytes \<Rightarrow> bytes) \<Rightarrow> bytes \<Rightarrow> u64 \<Rightarrow> bytes" where
  "nameKey mapLower name idHash = toLower mapLower name @ [0] @ put_be64 idHash"

definition methodEntrySize :: nat where "methodEntrySize = 40"

definition appendMethodEntry :: "bytes \<Rightarrow> method_entry \<Rightarrow> bytes" where
  "appendMethodEntry b e = b @ put_u64 (mePkgHash e) @ put_u64 (meTypeSymbolIDHash e)
     @ put_u64 (meMethodPkgHash e) @ put_u64 (meMethodIDHash e) @ put_u64 (meFingerprint e)"

definition decodeMethodEntry :: "bytes \<Rightarrow> (store_error, method_entry) go" where
  "decodeMethodEntry b =
     go_bind (rd_u64 b 0) (\<lambda>p. go_bind (rd_u64 b 8) (\<lambda>ty. go_bind (rd_u64 b 16) (\<lambda>mp.
     go_bind (rd_u64 b 24) (\<lambda>mi. go_bind (rd_u64 b 32) (\<lambda>fp.
     Ok \<lparr>mePkgHash = p, meTypeSymbolIDHash = ty, meMethodPkgHash = mp, meMethodIDHash = mi, meFingerprint = fp\<rparr>)))))"

definition methodKey :: "bytes \<Rightarrow> method_entry \<Rightarrow> bytes" where
  "methodKey methodName e = appendMethodEntry (methodName @ [0]) e"

definition symStrKey :: "u64 \<Rightarrow> bytes \<Rightarrow> bytes" where
  "symStrKey idHash symbolID = hashKey idHash @ symbolID"

section \<open>Opening\<close>

datatype bolt_error = ErrTimeout | ErrInvalid | ErrInvalidMapping | ErrVersionMismatch | ErrChecksum | OtherOpen nat

datatype remove_result = Removed | RemoveNotExist | RemoveFailed nat

datatype open_error =
    RemoveCorrupt nat
  | OpenLocked                  \<comment> \<open>the wrapped \<open>ErrTimeout\<close>\<close>
  | OpenFailed bolt_error
  | ResetFailed store_error
  | InitFailed store_error

record 't db =
  dbBolt :: 't
  dbPath :: bytes
  dbRecreated :: bool
  dbReadOnly :: bool

definition isCorrupt :: "bolt_error \<Rightarrow> bool" where
  "isCorrupt e \<longleftrightarrow> e \<in> {ErrInvalid, ErrInvalidMapping, ErrVersionMismatch, ErrChecksum}"

definition wrapOpenErr :: "bolt_error \<Rightarrow> open_error" where
  "wrapOpenErr e = (if e = ErrTimeout then OpenLocked else OpenFailed e)"

definition IsLocked :: "open_error \<Rightarrow> bool" where
  "IsLocked e \<longleftrightarrow> e = OpenLocked"

definition schemaVersionBytes :: bytes where
  "schemaVersionBytes = put_u16 schemaVersion"

definition discardStale :: "'t bolt \<Rightarrow> 't \<Rightarrow> bool" where
  "discardStale B t =
     (if boHas B t bucketMeta
      then (case boGet B t bucketMeta schemaVersionKey of
              None \<Rightarrow> True
            | Some v \<Rightarrow> length v \<noteq> 2 \<or> get_u16 v \<noteq> schemaVersion)
      else False)"

definition resetStale :: "'t bolt \<Rightarrow> 't \<Rightarrow> (store_error, unit) go \<times> 't" where
  "resetStale B = boUpdate B (\<lambda>tx. go_foldM (\<lambda>name tx. boDrop B tx name) (boNames B tx) tx)"

definition initBuckets :: "'t bolt \<Rightarrow> 't \<Rightarrow> (store_error, 't) go" where
  "initBuckets B tx =
     go_bind (go_foldM (\<lambda>b tx. boCreate B tx b) allBuckets tx)
       (bucketPut B bucketMeta schemaVersionKey schemaVersionBytes)"

text \<open>\<open>Open\<close> once bbolt has opened the file.\<close>

definition openInit :: "'t bolt \<Rightarrow> bytes \<Rightarrow> bool \<Rightarrow> 't \<Rightarrow> (open_error, 't db) go" where
  "openInit B path recreated t =
     (case boUpdate B (initBuckets B) t of
        (Ok _, t') \<Rightarrow> Ok \<lparr>dbBolt = t', dbPath = path, dbRecreated = recreated, dbReadOnly = False\<rparr>
      | (Err e, _) \<Rightarrow> Err (InitFailed e)
      | (Panic, _) \<Rightarrow> Panic)"

definition openStale :: "'t bolt \<Rightarrow> bytes \<Rightarrow> bool \<Rightarrow> 't \<Rightarrow> (open_error, 't db) go" where
  "openStale B path recreated t =
     (if \<not> recreated \<and> discardStale B t
      then (case resetStale B t of
              (Ok _, t') \<Rightarrow> openInit B path True t'
            | (Err e, _) \<Rightarrow> Err (ResetFailed e)
            | (Panic, _) \<Rightarrow> Panic)
      else openInit B path recreated t)"

text \<open>
  \<open>first\<close> is the result of opening the file, \<open>removed\<close> that of removing it, and \<open>second\<close>
  that of opening it again after the removal.
\<close>

definition Open :: "'t bolt \<Rightarrow> bytes \<Rightarrow> bolt_error + 't \<Rightarrow> remove_result \<Rightarrow> bolt_error + 't
    \<Rightarrow> (open_error, 't db) go" where
  "Open B path first removed second =
     (case first of
        Inr t \<Rightarrow> openStale B path False t
      | Inl e \<Rightarrow>
          if isCorrupt e
          then (case removed of
                  RemoveFailed n \<Rightarrow> Err (RemoveCorrupt n)
                | _ \<Rightarrow> (case second of Inr t \<Rightarrow> openStale B path True t | Inl e' \<Rightarrow> Err (wrapOpenErr e')))
          else Err (wrapOpenErr e))"

definition openReadOnlyTimeout :: "bytes \<Rightarrow> bolt_error + 't \<Rightarrow> (open_error, 't db) go" where
  "openReadOnlyTimeout path first =
     (case first of
        Inl e \<Rightarrow> Err (wrapOpenErr e)
      | Inr t \<Rightarrow> Ok \<lparr>dbBolt = t, dbPath = path, dbRecreated = False, dbReadOnly = True\<rparr>)"

section \<open>Units\<close>

record unit_entry =
  uePkgHash :: u64
  uePointer :: unit_pointer
  ueIndex :: package_index_entries

definition GetUnit :: "'t bolt \<Rightarrow> bool \<Rightarrow> u64 \<Rightarrow> 't \<Rightarrow> (store_error, unit_pointer) go" where
  "GetUnit B ctxErr pkgHash t =
     (if ctxErr then Err Cancelled
      else go_bind (bucketGet B bucketUnit (hashKey pkgHash) t) (\<lambda>v.
        case v of None \<Rightarrow> Err NotFound | Some b \<Rightarrow> decodeUnitPointer b))"

definition applyIndexEntries :: "'t bolt \<Rightarrow> (bytes \<Rightarrow> bytes) \<Rightarrow> u64 \<Rightarrow> package_index_entries \<Rightarrow> 't
    \<Rightarrow> (store_error, 't) go" where
  "applyIndexEntries B mapLower srcPkgHash entries tx =
     go_bind (go_foldM (\<lambda>n. bucketPut B bucketName (nameKey mapLower (neName n) (neIDHash n)) [])
       (pieNames entries) tx) (\<lambda>tx.
     go_bind (go_foldM (\<lambda>m. bucketPut B bucketMethod (methodKey (mseName m) (mseEntry m)) [])
       (pieMethods entries) tx) (\<lambda>tx.
     go_bind (go_foldM (\<lambda>s. bucketPut B bucketSymStr (symStrKey (ssIDHash s) (ssSymbolID s)) [])
       (pieSymStrs entries) tx) (\<lambda>tx.
     applyPostings B srcPkgHash (piePostings entries) tx)))"

definition putUnitPointer :: "'t bolt \<Rightarrow> u64 \<Rightarrow> unit_pointer \<Rightarrow> 't \<Rightarrow> (store_error, 't) go" where
  "putUnitPointer B h p tx =
     go_bind (encodeUnitPointer p) (\<lambda>v. bucketPut B bucketUnit (hashKey h) v tx)"

definition putUnitEntry :: "'t bolt \<Rightarrow> (bytes \<Rightarrow> bytes) \<Rightarrow> unit_entry \<Rightarrow> 't \<Rightarrow> (store_error, 't) go" where
  "putUnitEntry B mapLower e tx =
     go_bind (putUnitPointer B (uePkgHash e) (uePointer e) tx)
       (applyIndexEntries B mapLower (uePkgHash e) (ueIndex e))"

definition PutUnitsBatch :: "'t bolt \<Rightarrow> (bytes \<Rightarrow> bytes) \<Rightarrow> unit_entry list \<Rightarrow> 't
    \<Rightarrow> (store_error, unit) go \<times> 't" where
  "PutUnitsBatch B mapLower entries = boUpdate B (go_foldM (putUnitEntry B mapLower) entries)"

definition PutUnit :: "'t bolt \<Rightarrow> (bytes \<Rightarrow> bytes) \<Rightarrow> unit_entry \<Rightarrow> 't \<Rightarrow> (store_error, unit) go \<times> 't" where
  "PutUnit B mapLower e = PutUnitsBatch B mapLower [e]"

text \<open>The map of pointers as its entries in the order Go enumerates them.\<close>

definition PutUnitPointersBatch :: "'t bolt \<Rightarrow> (u64 \<times> unit_pointer) list \<Rightarrow> 't \<Rightarrow> (store_error, unit) go \<times> 't" where
  "PutUnitPointersBatch B entries = boUpdate B (go_foldM (\<lambda>(h, p). putUnitPointer B h p) entries)"

definition PutRawUnitRecord :: "'t bolt \<Rightarrow> u64 \<Rightarrow> bytes \<Rightarrow> 't \<Rightarrow> (store_error, unit) go \<times> 't" where
  "PutRawUnitRecord B pkgHash raw = boUpdate B (bucketPut B bucketUnit (hashKey pkgHash) raw)"

definition collectStep :: "bytes \<times> bytes \<Rightarrow> u64 set \<times> nat \<Rightarrow> u64 set \<times> nat" where
  "collectStep = (\<lambda>(k, v) (marks, skipped).
     case decodeUnitPointer v of Ok p \<Rightarrow> (insert (upBlobKey p) marks, skipped) | _ \<Rightarrow> (marks, skipped + 1))"

definition CollectBlobKeys :: "'t bolt \<Rightarrow> 't \<Rightarrow> u64 set \<Rightarrow> (store_error, u64 set \<times> nat) go" where
  "CollectBlobKeys B t marks =
     go_bind (bucketScan B bucketUnit [] t) (\<lambda>es. Ok (fold collectStep es (marks, 0)))"

section \<open>Metadata\<close>

definition putMeta :: "'t bolt \<Rightarrow> bytes \<Rightarrow> bytes \<Rightarrow> 't \<Rightarrow> (store_error, unit) go \<times> 't" where
  "putMeta B k v = boUpdate B (bucketPut B bucketMeta k v)"

definition getMeta :: "'t bolt \<Rightarrow> bytes \<Rightarrow> 't \<Rightarrow> (store_error, bytes) go" where
  "getMeta B k t = go_bind (bucketGet B bucketMeta k t) (\<lambda>v. case v of None \<Rightarrow> Err NotFound | Some b \<Rightarrow> Ok b)"

definition PutBuildFingerprint :: "'t bolt \<Rightarrow> bytes \<Rightarrow> 't \<Rightarrow> (store_error, unit) go \<times> 't" where
  "PutBuildFingerprint B fp = putMeta B buildFingerprintKey fp"

definition BuildFingerprint :: "'t bolt \<Rightarrow> 't \<Rightarrow> (store_error, bytes) go" where
  "BuildFingerprint B = getMeta B buildFingerprintKey"

definition CASDir :: "'t bolt \<Rightarrow> 't \<Rightarrow> (store_error, bytes) go" where
  "CASDir B = getMeta B casDirKey"

section \<open>Indices\<close>

definition AddNameSymbol :: "'t bolt \<Rightarrow> (bytes \<Rightarrow> bytes) \<Rightarrow> bytes \<Rightarrow> u64 \<Rightarrow> 't \<Rightarrow> (store_error, unit) go \<times> 't" where
  "AddNameSymbol B mapLower name idHash = boUpdate B (bucketPut B bucketName (nameKey mapLower name idHash) [])"

definition AddMethodSymbol :: "'t bolt \<Rightarrow> bytes \<Rightarrow> method_entry \<Rightarrow> 't \<Rightarrow> (store_error, unit) go \<times> 't" where
  "AddMethodSymbol B methodName e = boUpdate B (bucketPut B bucketMethod (methodKey methodName e) [])"

definition PutSymbolIDString :: "'t bolt \<Rightarrow> u64 \<Rightarrow> bytes \<Rightarrow> 't \<Rightarrow> (store_error, unit) go \<times> 't" where
  "PutSymbolIDString B idHash symbolID = boUpdate B (bucketPut B bucketSymStr (symStrKey idHash symbolID) [])"

text \<open>\<open>k[:len(k)-9]\<close> and the hash after the separator.\<close>

definition splitNameKey :: "bytes \<Rightarrow> (store_error, bytes \<times> u64) go" where
  "splitNameKey k =
     (if length k < 9 then Err MalformedKey
      else let sep = length k - 9 in
        if k ! sep \<noteq> 0 then Err MalformedKey else Ok (take sep k, get_be64 (drop (sep + 1) k)))"

definition nameStep :: "bytes \<times> bytes \<Rightarrow> (bytes \<Rightarrow> u64 list) \<Rightarrow> (store_error, bytes \<Rightarrow> u64 list) go" where
  "nameStep e result = go_bind (splitNameKey (fst e)) (\<lambda>(name, h). Ok (result(name := result name @ [h])))"

definition LookupNamePrefix :: "'t bolt \<Rightarrow> (bytes \<Rightarrow> bytes) \<Rightarrow> bool \<Rightarrow> bytes \<Rightarrow> 't
    \<Rightarrow> (store_error, bytes \<Rightarrow> u64 list) go" where
  "LookupNamePrefix B mapLower ctxErr pre t =
     (if ctxErr then Err Cancelled
      else go_bind (bucketScan B bucketName (toLower mapLower pre) t) (\<lambda>es.
        go_foldM nameStep es (\<lambda>_. [])))"

definition LookupMethod :: "'t bolt \<Rightarrow> bool \<Rightarrow> bytes \<Rightarrow> 't \<Rightarrow> (store_error, method_entry list) go" where
  "LookupMethod B ctxErr methodName t =
     (if ctxErr then Err Cancelled
      else let pre = methodName @ [0] in
        go_bind (bucketScan B bucketMethod pre t) (go_mapM (\<lambda>(k, v).
          if length k \<noteq> length pre + methodEntrySize then Err MalformedKey
          else decodeMethodEntry (drop (length pre) k))))"

definition SymbolIDStrings :: "'t bolt \<Rightarrow> bool \<Rightarrow> u64 \<Rightarrow> 't \<Rightarrow> (store_error, bytes list) go" where
  "SymbolIDStrings B ctxErr idHash t =
     (if ctxErr then Err Cancelled
      else go_bind (bucketScan B bucketSymStr (hashKey idHash) t) (\<lambda>es.
        Ok (map (\<lambda>(k, v). drop (length (hashKey idHash)) k) es)))"

definition VerifySymbolIDString :: "'t bolt \<Rightarrow> u64 \<Rightarrow> bytes \<Rightarrow> 't \<Rightarrow> (store_error, bool) go" where
  "VerifySymbolIDString B idHash symbolID t =
     go_bind (bucketGet B bucketSymStr (symStrKey idHash symbolID) t) (\<lambda>v. Ok (v \<noteq> None))"

section \<open>What the database represents\<close>

lemmas bucket_defs = bucketUnit_def bucketMeta_def bucketName_def bucketMethod_def bucketSymStr_def
  bucketRefPostings_def bucketRefPostingManifest_def

lemma bucket_neq [simp]:
  "bucketUnit \<noteq> bucketMeta" "bucketUnit \<noteq> bucketName" "bucketUnit \<noteq> bucketMethod"
  "bucketUnit \<noteq> bucketSymStr" "bucketUnit \<noteq> bucketRefPostings" "bucketUnit \<noteq> bucketRefPostingManifest"
  "bucketMeta \<noteq> bucketUnit" "bucketMeta \<noteq> bucketName" "bucketMeta \<noteq> bucketMethod"
  "bucketMeta \<noteq> bucketSymStr" "bucketMeta \<noteq> bucketRefPostings" "bucketMeta \<noteq> bucketRefPostingManifest"
  "bucketName \<noteq> bucketUnit" "bucketName \<noteq> bucketMeta" "bucketName \<noteq> bucketMethod"
  "bucketName \<noteq> bucketSymStr" "bucketName \<noteq> bucketRefPostings" "bucketName \<noteq> bucketRefPostingManifest"
  "bucketMethod \<noteq> bucketUnit" "bucketMethod \<noteq> bucketMeta" "bucketMethod \<noteq> bucketName"
  "bucketMethod \<noteq> bucketSymStr" "bucketMethod \<noteq> bucketRefPostings" "bucketMethod \<noteq> bucketRefPostingManifest"
  "bucketSymStr \<noteq> bucketUnit" "bucketSymStr \<noteq> bucketMeta" "bucketSymStr \<noteq> bucketName"
  "bucketSymStr \<noteq> bucketMethod" "bucketSymStr \<noteq> bucketRefPostings" "bucketSymStr \<noteq> bucketRefPostingManifest"
  "bucketRefPostings \<noteq> bucketUnit" "bucketRefPostings \<noteq> bucketMeta" "bucketRefPostings \<noteq> bucketName"
  "bucketRefPostings \<noteq> bucketMethod" "bucketRefPostings \<noteq> bucketSymStr" "bucketRefPostingManifest \<noteq> bucketUnit"
  "bucketRefPostingManifest \<noteq> bucketMeta" "bucketRefPostingManifest \<noteq> bucketName" "bucketRefPostingManifest \<noteq> bucketMethod"
  "bucketRefPostingManifest \<noteq> bucketSymStr"
  by (simp_all add: bucket_defs lit_def)

text \<open>
  The index as an abstract state: the pointer of every package, the sets of names (lowercased),
  methods and symbol identifiers recorded so far, and what every package contributes to the
  reference index.
\<close>

record index_state =
  isUnits :: "u64 \<rightharpoonup> unit_pointer"
  isNames :: "(bytes \<times> u64) set"
  isMethods :: "(bytes \<times> method_entry) set"
  isSymStrs :: "(u64 \<times> bytes) set"
  isPostings :: "u64 \<Rightarrow> posting_entry list"

definition emptyIndex :: index_state where
  "emptyIndex = \<lparr>isUnits = Map.empty, isNames = {}, isMethods = {}, isSymStrs = {}, isPostings = (\<lambda>_. [])\<rparr>"

definition addUnit :: "(bytes \<Rightarrow> bytes) \<Rightarrow> unit_entry \<Rightarrow> index_state \<Rightarrow> index_state" where
  "addUnit mapLower e s =
     \<lparr>isUnits = (isUnits s)(uePkgHash e \<mapsto> uePointer e),
      isNames = isNames s \<union> (\<lambda>n. (toLower mapLower (neName n), neIDHash n)) ` set (pieNames (ueIndex e)),
      isMethods = isMethods s \<union> (\<lambda>m. (mseName m, mseEntry m)) ` set (pieMethods (ueIndex e)),
      isSymStrs = isSymStrs s \<union> (\<lambda>y. (ssIDHash y, ssSymbolID y)) ` set (pieSymStrs (ueIndex e)),
      isPostings = (isPostings s)(uePkgHash e := piePostings (ueIndex e))\<rparr>"

definition nameKeyOf :: "bytes \<times> u64 \<Rightarrow> bytes" where
  "nameKeyOf = (\<lambda>(n, h). n @ [0] @ put_be64 h)"

definition methodKeyOf :: "bytes \<times> method_entry \<Rightarrow> bytes" where
  "methodKeyOf = (\<lambda>(n, e). methodKey n e)"

definition symStrKeyOf :: "u64 \<times> bytes \<Rightarrow> bytes" where
  "symStrKeyOf = (\<lambda>(h, y). symStrKey h y)"

definition keySet :: "'t bolt \<Rightarrow> 't \<Rightarrow> bytes \<Rightarrow> bytes set \<Rightarrow> bool" where
  "keySet B t b K \<longleftrightarrow> (\<forall>k. boGet B t b k = (if k \<in> K then Some [] else None))"

definition unitsRep :: "'t bolt \<Rightarrow> 't \<Rightarrow> (u64 \<rightharpoonup> unit_pointer) \<Rightarrow> bool" where
  "unitsRep B t us \<longleftrightarrow> (\<forall>h. boGet B t bucketUnit (hashKey h) = map_option unit_pointer_bytes (us h))
     \<and> (\<forall>k v. boGet B t bucketUnit k = Some v \<longrightarrow> (\<exists>h. k = hashKey h))
     \<and> (\<forall>h p. us h = Some p \<longrightarrow> unit_pointer_fits p)"

definition noNul :: "bytes \<Rightarrow> bool" where
  "noNul s \<longleftrightarrow> 0 \<notin> set s"

definition indexRep :: "'t bolt \<Rightarrow> 't \<Rightarrow> index_state \<Rightarrow> bool" where
  "indexRep B t s \<longleftrightarrow> (\<forall>b \<in> set allBuckets. boHas B t b)
     \<and> unitsRep B t (isUnits s)
     \<and> keySet B t bucketName (nameKeyOf ` isNames s) \<and> (\<forall>(n, h) \<in> isNames s. noNul n)
     \<and> keySet B t bucketMethod (methodKeyOf ` isMethods s) \<and> (\<forall>(n, e) \<in> isMethods s. noNul n)
     \<and> keySet B t bucketSymStr (symStrKeyOf ` isSymStrs s)
     \<and> represents B t (isPostings s)"

text \<open>Entries whose keys and values bbolt accepts; Go identifiers contain no NUL byte.\<close>

definition entryFits :: "(bytes \<Rightarrow> bytes) \<Rightarrow> unit_entry \<Rightarrow> bool" where
  "entryFits mapLower e \<longleftrightarrow> unit_pointer_fits (uePointer e) \<and> length (unit_pointer_bytes (uePointer e)) \<le> maxValueSize
     \<and> list_all (\<lambda>n. noNul (toLower mapLower (neName n)) \<and> length (toLower mapLower (neName n)) + 9 \<le> maxKeySize) (pieNames (ueIndex e))
     \<and> list_all (\<lambda>m. noNul (mseName m) \<and> length (mseName m) + 41 \<le> maxKeySize) (pieMethods (ueIndex e))
     \<and> list_all (\<lambda>y. 8 + length (ssSymbolID y) \<le> maxKeySize) (pieSymStrs (ueIndex e))
     \<and> postings_fit (piePostings (ueIndex e))"

context bolt
begin

lemma putKeys:
  assumes "\<And>x. x \<in> set xs \<Longrightarrow> f x \<noteq> [] \<and> length (f x) \<le> maxKeySize"
  shows "boHas B t b \<Longrightarrow> \<exists>t'. go_foldM (\<lambda>x. bucketPut B b (f x) []) xs t = Ok t'
    \<and> (\<forall>c. boHas B t' c = boHas B t c)
    \<and> (\<forall>c j. boGet B t' c j = (if c = b \<and> j \<in> f ` set xs then Some [] else boGet B t c j))"
  using assms
proof (induction xs arbitrary: t)
  case (Cons x xs)
  obtain t1 where t1: "boPut B t b (f x) [] = Ok t1"
    using put_ok [OF Cons.prems(1), of "f x" "[]"] Cons.prems(2) [of x] by auto
  obtain t' where "go_foldM (\<lambda>x. bucketPut B b (f x) []) xs t1 = Ok t'" "\<forall>c. boHas B t' c = boHas B t1 c"
    "\<forall>c j. boGet B t' c j = (if c = b \<and> j \<in> f ` set xs then Some [] else boGet B t1 c j)"
    using Cons.IH [of t1] Cons.prems has_put [OF t1] by auto
  moreover have "bucketPut B b (f x) [] t = Ok t1" using t1 Cons.prems(1) by (simp add: bucketPut_def)
  ultimately show ?case using has_put [OF t1] get_put [OF Cons.prems(1) t1] by auto
qed simp

lemma represents_frame:
  assumes "represents B t C" "\<And>c. boHas B t' c = boHas B t c"
    and "\<And>j. boGet B t' bucketRefPostings j = boGet B t bucketRefPostings j"
    and "\<And>j. boGet B t' bucketRefPostingManifest j = boGet B t bucketRefPostingManifest j"
  shows "represents B t' C"
  using assms by (simp add: represents_def manifestOf_def)

lemma putUnitPointer_ok:
  assumes "boHas B t bucketUnit" "unit_pointer_fits p" "length (unit_pointer_bytes p) \<le> maxValueSize"
  shows "\<exists>t'. putUnitPointer B h p t = Ok t' \<and> (\<forall>c. boHas B t' c = boHas B t c)
    \<and> (\<forall>c j. boGet B t' c j = (if c = bucketUnit \<and> j = hashKey h then Some (unit_pointer_bytes p) else boGet B t c j))"
proof -
  obtain t' where t': "boPut B t bucketUnit (hashKey h) (unit_pointer_bytes p) = Ok t'"
    using put_ok [OF assms(1), of "hashKey h" "unit_pointer_bytes p"] assms(3) by (auto simp: maxKeySize_def)
  then show ?thesis
    using assms has_put [OF t'] get_put [OF assms(1) t']
    by (auto simp: putUnitPointer_def encodeUnitPointer_bytes bucketPut_def)
qed

lemma applyIndexEntries_ok:
  fixes mapLower e
  defines "nk \<equiv> \<lambda>n. nameKey mapLower (neName n) (neIDHash n)"
    and "mk \<equiv> \<lambda>m. methodKey (mseName m) (mseEntry m)"
    and "sk \<equiv> \<lambda>y. symStrKey (ssIDHash y) (ssSymbolID y)"
  assumes buckets: "\<forall>b \<in> set allBuckets. boHas B t b" and r: "represents B t contrib" and fit: "entryFits mapLower e"
  shows "\<exists>t'. applyIndexEntries B mapLower src (ueIndex e) t = Ok t' \<and> (\<forall>c. boHas B t' c = boHas B t c)
    \<and> represents B t' (contrib(src := piePostings (ueIndex e)))
    \<and> (\<forall>c j. c \<noteq> bucketRefPostings \<and> c \<noteq> bucketRefPostingManifest \<longrightarrow> boGet B t' c j =
        (if c = bucketName \<and> j \<in> nk ` set (pieNames (ueIndex e)) \<or> c = bucketMethod \<and> j \<in> mk ` set (pieMethods (ueIndex e))
            \<or> c = bucketSymStr \<and> j \<in> sk ` set (pieSymStrs (ueIndex e)) then Some [] else boGet B t c j))"
proof -
  note has = buckets [rule_format]
  obtain t1 where t1: "go_foldM (\<lambda>n. bucketPut B bucketName (nk n) []) (pieNames (ueIndex e)) t = Ok t1"
    "\<And>c. boHas B t1 c = boHas B t c"
    "\<And>c j. boGet B t1 c j = (if c = bucketName \<and> j \<in> nk ` set (pieNames (ueIndex e)) then Some [] else boGet B t c j)"
    using putKeys [of "pieNames (ueIndex e)" nk t bucketName] has [of bucketName] fit
    by (auto simp: entryFits_def allBuckets_def nk_def nameKey_def list_all_iff)
  obtain t2 where t2: "go_foldM (\<lambda>m. bucketPut B bucketMethod (mk m) []) (pieMethods (ueIndex e)) t1 = Ok t2"
    "\<And>c. boHas B t2 c = boHas B t1 c"
    "\<And>c j. boGet B t2 c j = (if c = bucketMethod \<and> j \<in> mk ` set (pieMethods (ueIndex e)) then Some [] else boGet B t1 c j)"
    using putKeys [of "pieMethods (ueIndex e)" mk t1 bucketMethod] has [of bucketMethod] t1(2) fit
    by (auto simp: entryFits_def allBuckets_def mk_def methodKey_def appendMethodEntry_def list_all_iff)
  obtain t3 where t3: "go_foldM (\<lambda>y. bucketPut B bucketSymStr (sk y) []) (pieSymStrs (ueIndex e)) t2 = Ok t3"
    "\<And>c. boHas B t3 c = boHas B t2 c"
    "\<And>c j. boGet B t3 c j = (if c = bucketSymStr \<and> j \<in> sk ` set (pieSymStrs (ueIndex e)) then Some [] else boGet B t2 c j)"
    using putKeys [of "pieSymStrs (ueIndex e)" sk t2 bucketSymStr] has [of bucketSymStr] t1(2) t2(2) fit
    by (auto simp: entryFits_def allBuckets_def sk_def symStrKey_def list_all_iff)
  have h: "boHas B t3 c = boHas B t c" for c using t1(2) t2(2) t3(2) by simp
  have "represents B t3 contrib"
    using r by (rule represents_frame) (simp_all add: h t3(3) t2(3) t1(3))
  then obtain t4 where t4: "applyPostings B src (piePostings (ueIndex e)) t3 = Ok t4"
    "represents B t4 (contrib(src := piePostings (ueIndex e)))" "\<And>c. boHas B t4 c = boHas B t3 c"
    "\<And>c j. c \<noteq> bucketRefPostings \<Longrightarrow> c \<noteq> bucketRefPostingManifest \<Longrightarrow> boGet B t4 c j = boGet B t3 c j"
    using applyPostings_represents [of t3 contrib "piePostings (ueIndex e)" src] fit by (auto simp: entryFits_def)
  have "applyIndexEntries B mapLower src (ueIndex e) t = Ok t4"
    using t1(1) t2(1) t3(1) t4(1) by (simp add: applyIndexEntries_def nk_def mk_def sk_def)
  then show ?thesis using t4(2) h t4(3) by (auto simp: t4(4) t3(3) t2(3) t1(3))
qed

lemma putUnitEntry_rep:
  assumes r: "indexRep B t s" and fit: "entryFits mapLower e"
  shows "\<exists>t'. putUnitEntry B mapLower e t = Ok t' \<and> indexRep B t' (addUnit mapLower e s)"
proof -
  have has: "boHas B t b" if "b \<in> set allBuckets" for b using r that by (simp add: indexRep_def)
  obtain t1 where t1: "putUnitPointer B (uePkgHash e) (uePointer e) t = Ok t1" "\<And>c. boHas B t1 c = boHas B t c"
    "\<And>c j. boGet B t1 c j = (if c = bucketUnit \<and> j = hashKey (uePkgHash e) then Some (unit_pointer_bytes (uePointer e)) else boGet B t c j)"
    using putUnitPointer_ok [of t "uePointer e" "uePkgHash e"] has [of bucketUnit] fit by (auto simp: entryFits_def allBuckets_def)
  have "represents B t (isPostings s)" using r by (simp add: indexRep_def)
  then have rep1: "represents B t1 (isPostings s)"
    by (rule represents_frame) (simp_all add: t1(2,3))
  have has1: "\<forall>b \<in> set allBuckets. boHas B t1 b" using has t1(2) by simp
  from applyIndexEntries_ok [OF has1 rep1 fit, of "uePkgHash e"]
  obtain t2 where t2: "applyIndexEntries B mapLower (uePkgHash e) (ueIndex e) t1 = Ok t2"
    "\<And>c. boHas B t2 c = boHas B t1 c" "represents B t2 ((isPostings s)(uePkgHash e := piePostings (ueIndex e)))"
    "\<And>c j. c \<noteq> bucketRefPostings \<Longrightarrow> c \<noteq> bucketRefPostingManifest \<Longrightarrow> boGet B t2 c j =
        (if c = bucketName \<and> j \<in> (\<lambda>n. nameKey mapLower (neName n) (neIDHash n)) ` set (pieNames (ueIndex e))
            \<or> c = bucketMethod \<and> j \<in> (\<lambda>m. methodKey (mseName m) (mseEntry m)) ` set (pieMethods (ueIndex e))
            \<or> c = bucketSymStr \<and> j \<in> (\<lambda>y. symStrKey (ssIDHash y) (ssSymbolID y)) ` set (pieSymStrs (ueIndex e))
         then Some [] else boGet B t1 c j)"
    by (elim exE conjE) (rule that, assumption, blast, assumption, blast)
  have "indexRep B t2 (addUnit mapLower e s)"
    unfolding indexRep_def
  proof (intro conjI)
    show "\<forall>b \<in> set allBuckets. boHas B t2 b" using has t2(2) t1(2) by simp
    show "unitsRep B t2 (isUnits (addUnit mapLower e s))"
      using r fit
      by (auto simp: indexRep_def unitsRep_def addUnit_def t2(4) t1(3) hashKey_def entryFits_def split: if_splits)
    show "keySet B t2 bucketName (nameKeyOf ` isNames (addUnit mapLower e s))"
      using r by (simp add: indexRep_def keySet_def addUnit_def t2(4) t1(3) image_Un image_image nameKeyOf_def nameKey_def)
    show "\<forall>(n, h) \<in> isNames (addUnit mapLower e s). noNul n"
      using r fit by (auto simp: indexRep_def addUnit_def entryFits_def list_all_iff)
    show "keySet B t2 bucketMethod (methodKeyOf ` isMethods (addUnit mapLower e s))"
      using r by (simp add: indexRep_def keySet_def addUnit_def t2(4) t1(3) image_Un image_image methodKeyOf_def)
    show "\<forall>(n, h) \<in> isMethods (addUnit mapLower e s). noNul n"
      using r fit by (auto simp: indexRep_def addUnit_def entryFits_def list_all_iff)
    show "keySet B t2 bucketSymStr (symStrKeyOf ` isSymStrs (addUnit mapLower e s))"
      using r by (simp add: indexRep_def keySet_def addUnit_def t2(4) t1(3) image_Un image_image symStrKeyOf_def)
    show "represents B t2 (isPostings (addUnit mapLower e s))" using t2(3) by (simp add: addUnit_def)
  qed
  then show ?thesis using t1(1) t2(1) by (simp add: putUnitEntry_def)
qed

lemma putUnitEntries_rep:
  "indexRep B t s \<Longrightarrow> list_all (entryFits mapLower) es \<Longrightarrow>
    \<exists>t'. go_foldM (putUnitEntry B mapLower) es t = Ok t' \<and> indexRep B t' (fold (addUnit mapLower) es s)"
proof (induction es arbitrary: t s)
  case (Cons e es)
  then show ?case using putUnitEntry_rep [of t s mapLower e] by fastforce
qed auto

lemma PutUnitsBatch_rep:
  assumes "indexRep B t s" "list_all (entryFits mapLower) es"
  shows "(fst (PutUnitsBatch B mapLower es t) = Ok () \<and>
      indexRep B (snd (PutUnitsBatch B mapLower es t)) (fold (addUnit mapLower) es s)) \<or>
    ((\<exists>err. fst (PutUnitsBatch B mapLower es t) = Err err) \<and> snd (PutUnitsBatch B mapLower es t) = t)"
  using putUnitEntries_rep [OF assms] update_ok [of "go_foldM (putUnitEntry B mapLower) es" t]
  unfolding PutUnitsBatch_def by fastforce

lemma GetUnit_rep:
  assumes "indexRep B t s"
  shows "GetUnit B False h t = (case isUnits s h of None \<Rightarrow> Err NotFound | Some p \<Rightarrow> Ok (norm_pointer p))"
proof -
  have has: "boHas B t bucketUnit" and u: "boGet B t bucketUnit (hashKey h) = map_option unit_pointer_bytes (isUnits s h)"
    and fit: "\<And>p. isUnits s h = Some p \<Longrightarrow> unit_pointer_fits p"
    using assms by (auto simp: indexRep_def unitsRep_def allBuckets_def)
  show ?thesis
    using has u fit by (auto simp: GetUnit_def bucketGet_def decodeUnitPointer_bytes split: option.splits)
qed

lemma fst_key_set: "fst ` {(k, v). P k \<and> Q k \<and> v = c} = {k. P k \<and> Q k}"
  by force

lemma scan_keys:
  assumes "keySet B t b (f ` X)" "boHas B t b"
  shows "\<exists>xs. bucketScan B b p t = Ok (map (\<lambda>x. (f x, [])) xs) \<and> f ` set xs = {k \<in> f ` X. prefix p k}
    \<and> set xs \<subseteq> X \<and> sorted_wrt (<) (map f xs)"
proof -
  obtain es where es: "bucketScan B b p t = Ok es" using assms(2) by (simp add: bucketScan_def)
  have set: "set es = {(k, v). prefix p k \<and> k \<in> f ` X \<and> v = []}"
    using scan_set(1) [OF es] assms(1) by (auto simp: keySet_def split: if_splits)
  define xs where "xs = map (\<lambda>e. inv_into X f (fst e)) es"
  have inv: "f (inv_into X f (fst e)) = fst e" "inv_into X f (fst e) \<in> X" "snd e = []" if "e \<in> set es" for e
  proof -
    have "fst e \<in> f ` X \<and> snd e = []" using that unfolding set by auto
    then show "f (inv_into X f (fst e)) = fst e" "inv_into X f (fst e) \<in> X" "snd e = []"
      by (simp_all add: f_inv_into_f inv_into_into)
  qed
  have "es = map (\<lambda>x. (f x, [])) xs"
    by (simp add: xs_def comp_def inv(1,3) map_idI prod_eq_iff)
  moreover have "map f xs = map fst es" using inv(1) by (simp add: xs_def)
  moreover have "set xs \<subseteq> X" using inv(2) by (auto simp: xs_def)
  moreover have "f ` set xs = fst ` set es"
    using arg_cong [OF \<open>map f xs = map fst es\<close>, of set] by simp
  then have "f ` set xs = {k \<in> f ` X. prefix p k}"
    unfolding set fst_key_set by auto
  ultimately show ?thesis using es scan_set(2) [OF es] by (intro exI [of _ xs]) (simp add: comp_def)
qed

end

lemma nul_prefix: "noNul a \<Longrightarrow> noNul b \<Longrightarrow> prefix (a @ [0]) (b @ 0 # r) \<longleftrightarrow> a = b"
proof (induction a arbitrary: b)
  case Nil
  then show ?case by (cases b) (auto simp: noNul_def)
next
  case (Cons x a)
  then show ?case by (cases b) (auto simp: noNul_def)
qed

lemma name_prefix: "noNul p \<Longrightarrow> prefix p (n @ 0 # r) \<longleftrightarrow> prefix p n"
proof (induction p arbitrary: n)
  case (Cons x p)
  then show ?case by (cases n) (auto simp: noNul_def)
qed simp

lemma methodKeyOf_inject: "noNul n \<Longrightarrow> noNul n' \<Longrightarrow> methodKeyOf (n, e) = methodKeyOf (n', e') \<longleftrightarrow> n = n' \<and> e = e'"
  using nul_prefix [of n n'] by (cases e, cases e') (auto simp: methodKeyOf_def methodKey_def appendMethodEntry_def)

lemma decodeMethodEntry_append: "decodeMethodEntry (appendMethodEntry [] e) = Ok e"
  by (cases e) (simp add: decodeMethodEntry_def appendMethodEntry_def rd_u64_def)

lemma splitNameKey_of: "splitNameKey (nameKeyOf (n, h)) = Ok (n, h)"
  by (simp add: splitNameKey_def nameKeyOf_def nth_append Let_def)

context bolt
begin

lemma LookupMethod_rep:
  assumes r: "indexRep B t s" and n: "noNul name"
  shows "\<exists>es. LookupMethod B False name t = Ok es \<and> set es = {e. (name, e) \<in> isMethods s} \<and> distinct es"
proof -
  let ?X = "isMethods s"
  have has: "boHas B t bucketMethod" and ks: "keySet B t bucketMethod (methodKeyOf ` ?X)"
    and nn: "\<And>x. x \<in> ?X \<Longrightarrow> noNul (fst x)"
    using r by (auto simp: indexRep_def allBuckets_def)
  obtain xs where xs: "bucketScan B bucketMethod (name @ [0]) t = Ok (map (\<lambda>x. (methodKeyOf x, [])) xs)"
    "methodKeyOf ` set xs = {k \<in> methodKeyOf ` ?X. prefix (name @ [0]) k}" "set xs \<subseteq> ?X"
    "sorted_wrt (<) (map methodKeyOf xs)"
    using scan_keys [OF ks has, of "name @ [0]"] by blast
  have pre: "prefix (name @ [0]) (methodKeyOf x) \<longleftrightarrow> fst x = name" if "x \<in> ?X" for x
    using nul_prefix [OF n nn [OF that]] by (cases x) (auto simp: methodKeyOf_def methodKey_def appendMethodEntry_def)
  have name: "fst x = name" if "x \<in> set xs" for x
    using that xs(2,3) pre by (metis (mono_tags, lifting) imageI mem_Collect_eq subsetD)
  have dec: "(if length (methodKeyOf x) \<noteq> length (name @ [0]) + methodEntrySize then Err MalformedKey
      else decodeMethodEntry (drop (length (name @ [0])) (methodKeyOf x))) = Ok (snd x)" if "x \<in> set xs" for x
    using name [OF that] decodeMethodEntry_append [of "snd x"]
    by (cases x) (simp add: methodKeyOf_def methodKey_def appendMethodEntry_def methodEntrySize_def)
  have run: "LookupMethod B False name t = Ok (map snd xs)"
    unfolding LookupMethod_def Let_def xs(1) if_False go_bind.simps
    by (intro go_mapM_map) (simp only: prod.case dec)
  have "(name, e) \<in> set xs" if "(name, e) \<in> ?X" for e
  proof -
    have "methodKeyOf (name, e) \<in> methodKeyOf ` set xs" using that pre [OF that] by (simp add: xs(2))
    then obtain x where "x \<in> set xs" "methodKeyOf x = methodKeyOf (name, e)" by force
    then show ?thesis using methodKeyOf_inject [of "fst x" name "snd x" e] name n by (metis prod.collapse)
  qed
  then have "set (map snd xs) = {e. (name, e) \<in> ?X}" using name xs(3) by force
  moreover have "distinct xs" using xs(4) by (metis distinct_map strict_sorted_iff)
  then have "distinct (map snd xs)" using name by (auto simp: distinct_map inj_on_def prod_eq_iff)
  ultimately show ?thesis using run by blast
qed

lemma SymbolIDStrings_rep:
  assumes r: "indexRep B t s"
  shows "\<exists>ys. SymbolIDStrings B False h t = Ok ys \<and> set ys = {y. (h, y) \<in> isSymStrs s} \<and> distinct ys"
    and "VerifySymbolIDString B h y t = Ok ((h, y) \<in> isSymStrs s)"
proof -
  let ?X = "isSymStrs s"
  have inj: "symStrKeyOf a = symStrKeyOf b \<longleftrightarrow> a = b" for a b
    by (cases a, cases b) (auto simp: symStrKeyOf_def symStrKey_def hashKey_def)
  have has: "boHas B t bucketSymStr" and ks: "keySet B t bucketSymStr (symStrKeyOf ` ?X)"
    using r by (auto simp: indexRep_def allBuckets_def)
  obtain xs where xs: "bucketScan B bucketSymStr (hashKey h) t = Ok (map (\<lambda>x. (symStrKeyOf x, [])) xs)"
    "symStrKeyOf ` set xs = {k \<in> symStrKeyOf ` ?X. prefix (hashKey h) k}" "set xs \<subseteq> ?X"
    "sorted_wrt (<) (map symStrKeyOf xs)"
    using scan_keys [OF ks has, of "hashKey h"] by blast
  have pre: "prefix (hashKey h) (symStrKeyOf x) \<longleftrightarrow> fst x = h" for x
    by (cases x) (auto simp: symStrKeyOf_def symStrKey_def hashKey_def prefix_def)
  have X: "set xs = {x \<in> ?X. fst x = h}"
  proof -
    have "symStrKeyOf ` set xs = symStrKeyOf ` {x \<in> ?X. fst x = h}" using xs(2) pre by auto
    then show ?thesis using inj_image_eq_iff [of symStrKeyOf] inj by (simp add: inj_def)
  qed
  have "SymbolIDStrings B False h t = Ok (map snd xs)"
    using xs(1) X by (auto simp: SymbolIDStrings_def symStrKeyOf_def symStrKey_def hashKey_def)
  moreover have "set (map snd xs) = {y. (h, y) \<in> ?X}" using X by force
  moreover have "distinct xs" using xs(4) by (metis distinct_map strict_sorted_iff)
  then have "distinct (map snd xs)" using X by (auto simp: distinct_map inj_on_def prod_eq_iff)
  ultimately show "\<exists>ys. SymbolIDStrings B False h t = Ok ys \<and> set ys = {y. (h, y) \<in> ?X} \<and> distinct ys" by blast
  have "symStrKey h y \<in> symStrKeyOf ` ?X \<longleftrightarrow> (h, y) \<in> ?X"
    using inj by (force simp: symStrKeyOf_def image_iff)
  then show "VerifySymbolIDString B h y t = Ok ((h, y) \<in> ?X)"
    using has ks by (simp add: VerifySymbolIDString_def bucketGet_def keySet_def)
qed

lemma name_fold:
  "go_foldM nameStep (map (\<lambda>x. (nameKeyOf x, v)) xs) r = Ok (\<lambda>n. r n @ map snd (filter (\<lambda>x. fst x = n) xs))"
proof (induction xs arbitrary: r)
  case (Cons x xs)
  obtain n h where x: "x = (n, h)" by (cases x)
  have step: "nameStep (nameKeyOf x, v) r = Ok (r(n := r n @ [h]))" by (simp add: nameStep_def x splitNameKey_of)
  have eq: "(\<lambda>m. (r(n := r n @ [h])) m @ map snd (filter (\<lambda>x. fst x = m) xs))
      = (\<lambda>m. r m @ map snd (filter (\<lambda>x. fst x = m) (x # xs)))"
    by (rule ext) (simp add: x)
  show ?case by (simp only: list.map go_foldM.simps step go_bind.simps Cons.IH eq)
qed simp

lemma LookupNamePrefix_rep:
  assumes r: "indexRep B t s" and n: "noNul (toLower mapLower pre)"
  shows "\<exists>f. LookupNamePrefix B mapLower False pre t = Ok f \<and>
    (\<forall>n. sorted_wrt (<) (f n) \<and> set (f n) = {h. (n, h) \<in> isNames s \<and> prefix (toLower mapLower pre) n})"
proof -
  let ?X = "isNames s" and ?p = "toLower mapLower pre"
  have inj: "nameKeyOf a = nameKeyOf b \<longleftrightarrow> a = b" for a b
    by (metis go.inject(1) prod.collapse splitNameKey_of)
  have has: "boHas B t bucketName" and ks: "keySet B t bucketName (nameKeyOf ` ?X)"
    using r by (auto simp: indexRep_def allBuckets_def)
  obtain xs where xs: "bucketScan B bucketName ?p t = Ok (map (\<lambda>x. (nameKeyOf x, [])) xs)"
    "nameKeyOf ` set xs = {k \<in> nameKeyOf ` ?X. prefix ?p k}" "set xs \<subseteq> ?X" "sorted_wrt (<) (map nameKeyOf xs)"
    using scan_keys [OF ks has, of ?p] by blast
  have pre: "prefix ?p (nameKeyOf x) \<longleftrightarrow> prefix ?p (fst x)" for x
    using name_prefix [OF n] by (cases x) (simp add: nameKeyOf_def)
  have "nameKeyOf ` set xs = nameKeyOf ` {x \<in> ?X. prefix ?p (fst x)}" using xs(2) pre by auto
  then have X: "set xs = {x \<in> ?X. prefix ?p (fst x)}"
    using inj_image_eq_iff [of nameKeyOf] inj by (simp add: inj_def)
  define f where "f = (\<lambda>n. map snd (filter (\<lambda>x. fst x = n) xs))"
  have "LookupNamePrefix B mapLower False pre t = Ok f"
    using xs(1) name_fold [of "[]" xs "\<lambda>_. []"] by (simp add: LookupNamePrefix_def f_def)
  moreover have "set (f n) = {h. (n, h) \<in> ?X \<and> prefix ?p n}" for n
    by (force simp: f_def X)
  moreover have "sorted_wrt (<) (f n)" for n
  proof -
    have "sorted_wrt (\<lambda>x y. nameKeyOf x < nameKeyOf y) (filter (\<lambda>x. fst x = n) xs)"
      using xs(4) by (simp add: sorted_wrt_map sorted_wrt_filter)
    then have "sorted_wrt (\<lambda>x y. snd x < snd y) (filter (\<lambda>x. fst x = n) xs)"
      by (rule sorted_wrt_mono_rel [rotated]) (auto simp: nameKeyOf_def append_less_iff split: prod.splits)
    then show ?thesis by (simp add: f_def sorted_wrt_map)
  qed
  ultimately show ?thesis by blast
qed

lemma drops:
  "go_foldM (\<lambda>name tx. boDrop B tx name) ns t = Ok t' \<Longrightarrow> boHas B t' c \<longleftrightarrow> c \<notin> set ns \<and> boHas B t c"
proof (induction ns arbitrary: t)
  case (Cons n ns)
  then show ?case using has_drop by (fastforce simp: go_bind_eq_Ok)
qed simp

lemma creates:
  "go_foldM (\<lambda>b tx. boCreate B tx b) bs t = Ok t' \<Longrightarrow>
    (boHas B t' c \<longleftrightarrow> c \<in> set bs \<or> boHas B t c) \<and> (boHas B t c \<longrightarrow> boGet B t' c k = boGet B t c k)
    \<and> (c \<in> set bs \<and> \<not> boHas B t c \<longrightarrow> boGet B t' c k = None)"
proof (induction bs arbitrary: t)
  case (Cons b bs)
  then obtain t1 where t1: "boCreate B t b = Ok t1" "go_foldM (\<lambda>b tx. boCreate B tx b) bs t1 = Ok t'"
    by (auto simp: go_bind_eq_Ok)
  show ?case using Cons.IH [OF t1(2)] has_create [OF t1(1), of c] get_create [OF t1(1), of c k] by auto
qed simp

lemma initBuckets_effect:
  assumes "initBuckets B t = Ok t'"
  shows "b \<in> set allBuckets \<Longrightarrow> boHas B t' b" and "boGet B t' bucketMeta schemaVersionKey = Some schemaVersionBytes"
    and "boHas B t c \<Longrightarrow> c \<noteq> bucketMeta \<Longrightarrow> boGet B t' c k = boGet B t c k"
    and "c \<in> set allBuckets \<Longrightarrow> \<not> boHas B t c \<Longrightarrow> c \<noteq> bucketMeta \<Longrightarrow> boGet B t' c k = None"
proof -
  obtain t1 where t1: "go_foldM (\<lambda>b tx. boCreate B tx b) allBuckets t = Ok t1"
    and put: "bucketPut B bucketMeta schemaVersionKey schemaVersionBytes t1 = Ok t'"
    using assms by (auto simp: initBuckets_def go_bind_eq_Ok)
  have has1: "boHas B t1 b" if "b \<in> set allBuckets" for b using creates [OF t1] that by blast
  then have p: "boPut B t1 bucketMeta schemaVersionKey schemaVersionBytes = Ok t'" "boHas B t1 bucketMeta"
    using put by (auto simp: bucketPut_def allBuckets_def)
  show "boHas B t' b" if "b \<in> set allBuckets" using has1 [OF that] has_put [OF p(1)] by simp
  show "boGet B t' bucketMeta schemaVersionKey = Some schemaVersionBytes" using get_put [OF p(2,1)] by simp
  show "boGet B t' c k = boGet B t c k" if "boHas B t c" "c \<noteq> bucketMeta"
    using that creates [OF t1, of c k] get_put [OF p(2,1), of c k] by simp
  show "boGet B t' c k = None" if "c \<in> set allBuckets" "\<not> boHas B t c" "c \<noteq> bucketMeta"
    using that creates [OF t1, of c k] get_put [OF p(2,1), of c k] by simp
qed

lemma initBuckets_keeps:
  assumes i: "initBuckets B t = Ok t'" and r: "indexRep B t s"
  shows "indexRep B t' s"
proof -
  have has: "boHas B t b" if "b \<in> set allBuckets" for b using r that by (simp add: indexRep_def)
  have g: "boGet B t' b k = boGet B t b k" if "b \<in> set allBuckets" "b \<noteq> bucketMeta" for b k
    using initBuckets_effect(3) [OF i has [OF that(1)] that(2)] .
  have "represents B t' (isPostings s)"
    using r g initBuckets_effect(1) [OF i] by (simp add: indexRep_def represents_def manifestOf_def allBuckets_def)
  then show ?thesis
    using r g initBuckets_effect(1) [OF i] by (simp add: indexRep_def unitsRep_def keySet_def allBuckets_def)
qed

lemma initBuckets_fresh:
  assumes i: "initBuckets B t = Ok t'" and n: "\<And>b. \<not> boHas B t b"
  shows "indexRep B t' emptyIndex"
proof -
  have g: "boGet B t' b k = None" if "b \<in> set allBuckets" "b \<noteq> bucketMeta" for b k
    using initBuckets_effect(4) [OF i that(1) n that(2)] .
  show ?thesis
    using g initBuckets_effect(1) [OF i]
    by (simp add: indexRep_def unitsRep_def keySet_def allBuckets_def represents_def manifestOf_def
        emptyIndex_def locsOf_def locs_fit_def len_ok_def decodeManifest.simps)
qed

lemma resetStale_empty: "resetStale B t = (Ok (), t') \<Longrightarrow> \<not> boHas B t' b"
  unfolding resetStale_def using update_committed drops names by fastforce

lemma openInit_ok:
  assumes "openInit B path recreated t = Ok d"
  shows "initBuckets B t = Ok (dbBolt d)" "dbRecreated d = recreated" "dbPath d = path"
  using assms update_committed [of "initBuckets B" t]
  by (auto simp: openInit_def split: prod.splits go.splits)

lemma not_stale_after_init:
  "initBuckets B t = Ok t' \<Longrightarrow> \<not> discardStale B t'"
  using initBuckets_effect(1,2) [of t t']
  by (simp add: discardStale_def allBuckets_def schemaVersionBytes_def)

lemma openStale_ok:
  assumes o: "openStale B path recreated t = Ok d"
  shows "(\<forall>b \<in> set allBuckets. boHas B (dbBolt d) b) \<and> \<not> discardStale B (dbBolt d)
    \<and> dbRecreated d = (recreated \<or> discardStale B t)
    \<and> (if \<not> recreated \<and> discardStale B t then indexRep B (dbBolt d) emptyIndex
       else (\<forall>s. indexRep B t s \<longrightarrow> indexRep B (dbBolt d) s))"
proof (cases "\<not> recreated \<and> discardStale B t")
  case True
  then obtain t1 where t1: "resetStale B t = (Ok (), t1)" "openInit B path True t1 = Ok d"
    using o by (auto simp: openStale_def split: prod.splits go.splits)
  note i = openInit_ok [OF t1(2)]
  show ?thesis
    using True i(2) initBuckets_fresh [OF i(1)] resetStale_empty [OF t1(1)] not_stale_after_init [OF i(1)]
      initBuckets_effect(1) [OF i(1)] by simp
next
  case False
  then have "openInit B path recreated t = Ok d" using o by (auto simp: openStale_def)
  note i = openInit_ok [OF this]
  show ?thesis
    using False i(2) initBuckets_keeps [OF i(1)] not_stale_after_init [OF i(1)] initBuckets_effect(1) [OF i(1)] by auto
qed

end

section \<open>Properties\<close>


text \<open>
  C22. A batch write of package units is atomic and refines the abstract index: it either fails and
  leaves the database as it was, or it records every pointer, adds every name, method and symbol
  identifier, and replaces exactly the postings the written packages contributed before.\<close>
theorem put_units_refines:
  assumes "bolt B" "indexRep B t s" "list_all (entryFits mapLower) es"
  shows "(fst (PutUnitsBatch B mapLower es t) = Ok () \<and>
      indexRep B (snd (PutUnitsBatch B mapLower es t)) (fold (addUnit mapLower) es s)) \<or>
    ((\<exists>err. fst (PutUnitsBatch B mapLower es t) = Err err) \<and> snd (PutUnitsBatch B mapLower es t) = t)"
  using assms by (rule bolt.PutUnitsBatch_rep)

text \<open>
  C23. A reference query finds exactly the references recorded for the symbol: one record per source
  package that contributed at least one, in increasing order of the package hash, each with that
  package's locations in the order they were extracted.\<close>
theorem references_exact:
  fixes tp ti :: u64
  assumes "bolt B" "indexRep B t s"
  defines "k \<equiv> \<lparr>pgTargetPkgHash = tp, pgTargetIDHash = ti\<rparr>"
  shows "\<exists>srcs. sorted_wrt (<) srcs \<and> set srcs = {src. locsOf (isPostings s src) k \<noteq> []}
    \<and> PostingsFor B False tp ti t = Ok (map (\<lambda>src. \<lparr>prSrcPkgHash = src,
          prBytes = length (counted location_bytes (locsOf (isPostings s src) k)),
          prLocations = locsOf (isPostings s src) k\<rparr>) srcs)"
proof -
  have "represents B t (isPostings s)" using assms(2) by (simp add: indexRep_def)
  then show ?thesis using bolt.PostingsFor_represents [OF assms(1)] by (simp add: k_def)
qed

text \<open>
  C24. The other lookups return exactly what was recorded: \<open>GetUnit\<close> the package's last pointer,
  \<open>LookupMethod\<close> every entry of the method name and no other, \<open>SymbolIDStrings\<close> every string
  of the hash, and \<open>LookupNamePrefix\<close> for every name with the (lowercased) prefix its symbols in
  increasing order.\<close>
theorem lookups_exact:
  assumes "bolt B" "indexRep B t s" "noNul name" "noNul (toLower mapLower pre)"
  shows "GetUnit B False h t = (case isUnits s h of None \<Rightarrow> Err NotFound | Some p \<Rightarrow> Ok (norm_pointer p))
    \<and> (\<exists>es. LookupMethod B False name t = Ok es \<and> set es = {e. (name, e) \<in> isMethods s} \<and> distinct es)
    \<and> (\<exists>ys. SymbolIDStrings B False h t = Ok ys \<and> set ys = {y. (h, y) \<in> isSymStrs s} \<and> distinct ys)
    \<and> VerifySymbolIDString B h y t = Ok ((h, y) \<in> isSymStrs s)
    \<and> (\<exists>f. LookupNamePrefix B mapLower False pre t = Ok f \<and>
        (\<forall>n. sorted_wrt (<) (f n) \<and> set (f n) = {h. (n, h) \<in> isNames s \<and> prefix (toLower mapLower pre) n}))"
  using bolt.GetUnit_rep [OF assms(1,2)] bolt.LookupMethod_rep [OF assms(1-3)]
    bolt.SymbolIDStrings_rep [OF assms(1,2)] bolt.LookupNamePrefix_rep [OF assms(1,2,4)] by blast

section \<open>The theorems at a concrete database\<close>

definition freshDB :: "mem db" where
  "freshDB = (case Open memBolt (lit ''index.db'') (Inr RBT.empty) Removed (Inl ErrTimeout) of Ok d \<Rightarrow> d
     | _ \<Rightarrow> \<lparr>dbBolt = RBT.empty, dbPath = [], dbRecreated = False, dbReadOnly = True\<rparr>)"

lemma freshDB_init: "initBuckets memBolt RBT.empty = Ok (dbBolt freshDB)"
  and freshDB_open: "Open memBolt (lit ''index.db'') (Inr RBT.empty) Removed (Inl ErrTimeout) = Ok freshDB"
proof -
  have "\<exists>t. initBuckets memBolt RBT.empty = Ok t"
    by (simp add: initBuckets_def allBuckets_def memBolt_def memPut_def bucketPut_def maxKeySize_def
        maxValueSize_def schemaVersionKey_def schemaVersionBytes_def memBucket_def)
  then obtain t where t: "initBuckets memBolt RBT.empty = Ok t" ..
  moreover have "boUpdate memBolt f u = (case f u of Ok t' \<Rightarrow> (Ok (), t') | Err e \<Rightarrow> (Err e, u) | Panic \<Rightarrow> (Panic, u))" for f u
    by (simp add: memBolt_def)
  moreover have "\<not> discardStale memBolt RBT.empty" by (simp add: discardStale_def memBolt_def)
  ultimately have o: "Open memBolt (lit ''index.db'') (Inr RBT.empty) Removed (Inl ErrTimeout) =
      Ok \<lparr>dbBolt = t, dbPath = lit ''index.db'', dbRecreated = False, dbReadOnly = False\<rparr>"
    by (simp add: Open_def openStale_def openInit_def)
  then show "Open memBolt (lit ''index.db'') (Inr RBT.empty) Removed (Inl ErrTimeout) = Ok freshDB"
    by (simp add: freshDB_def)
  then show "initBuckets memBolt RBT.empty = Ok (dbBolt freshDB)" using o t by (metis db.select_convs(1) go.inject(1))
qed

lemma freshDB_rep: "indexRep memBolt (dbBolt freshDB) emptyIndex"
  by (rule memory.initBuckets_fresh [OF freshDB_init]) (simp add: memBolt_def)


definition sample_entry :: unit_entry where
  "sample_entry = \<lparr>uePkgHash = 7, uePointer = sample_pointer,
     ueIndex = \<lparr>pieNames = [\<lparr>neName = lit ''New'', neIDHash = 3\<rparr>], pieMethods = [], pieSymStrs = [],
       piePostings = [\<lparr>peTargetPkgHash = 1, peTargetIDHash = 2, peFile = lit ''a.go'', peLine = 1, peCol = 1, peEndCol = 4\<rparr>]\<rparr>\<rparr>"

lemma sample_entry_fits: "entryFits id sample_entry"
  by (simp add: entryFits_def sample_entry_def sample_pointer_def unit_pointer_fits_def files_fit_def len_ok_def lit_def
      unit_pointer_bytes_def str_bytes_def counted_def maxValueSize_def maxKeySize_def toLower_def asciiLower_def noNul_def
      postings_fit_def)

definition filledDB :: mem where
  "filledDB = snd (PutUnitsBatch memBolt id [sample_entry] (dbBolt freshDB))"

theorem put_units_refines_witness:
  "indexRep memBolt (dbBolt freshDB) emptyIndex \<and>
   ((fst (PutUnitsBatch memBolt id [sample_entry] (dbBolt freshDB)) = Ok () \<and> indexRep memBolt filledDB (addUnit id sample_entry emptyIndex)) \<or>
    ((\<exists>err. fst (PutUnitsBatch memBolt id [sample_entry] (dbBolt freshDB)) = Err err) \<and> filledDB = dbBolt freshDB))"
  using put_units_refines [OF memory.bolt_axioms freshDB_rep, of id "[sample_entry]"] freshDB_rep sample_entry_fits
  by (simp add: filledDB_def)

lemma filledDB_rep: "indexRep memBolt filledDB (addUnit id sample_entry emptyIndex)"
  using memory.putUnitEntries_rep [OF freshDB_rep, of id "[sample_entry]"] sample_entry_fits
  by (auto simp: filledDB_def PutUnitsBatch_def memBolt_def)

theorem references_exact_witness:
  "PostingsFor memBolt False 1 2 filledDB = Ok [\<lparr>prSrcPkgHash = 7, prBytes = 24,
     prLocations = [\<lparr>plFile = lit ''a.go'', plLine = 1, plCol = 1, plEndCol = 4\<rparr>]\<rparr>]"
proof -
  let ?k = "\<lparr>pgTargetPkgHash = 1, pgTargetIDHash = 2\<rparr>"
  have l: "locsOf (isPostings (addUnit id sample_entry emptyIndex) src) ?k =
      (if src = 7 then [\<lparr>plFile = lit ''a.go'', plLine = 1, plCol = 1, plEndCol = 4\<rparr>] else [])" for src
    by (simp add: addUnit_def sample_entry_def emptyIndex_def locsOf_def groupKey_def toLocation_def)
  obtain srcs where srcs: "sorted_wrt (<) srcs" "set srcs = {src. locsOf (isPostings (addUnit id sample_entry emptyIndex) src) ?k \<noteq> []}"
    "PostingsFor memBolt False 1 2 filledDB = Ok (map (\<lambda>src. \<lparr>prSrcPkgHash = src,
          prBytes = length (counted location_bytes (locsOf (isPostings (addUnit id sample_entry emptyIndex) src) ?k)),
          prLocations = locsOf (isPostings (addUnit id sample_entry emptyIndex) src) ?k\<rparr>) srcs)"
    using references_exact [OF memory.bolt_axioms filledDB_rep, of 1 2] by blast
  have "set srcs = {7}" using srcs(2) by (auto simp: l split: if_splits)
  then have "srcs = [7]"
    using srcs(1) by (intro strict_sorted_equal) simp_all
  then show ?thesis using srcs(3) by (simp add: l counted_def location_bytes_def str_bytes_def)
qed

theorem lookups_exact_witness:
  "GetUnit memBolt False 7 filledDB = Ok sample_pointer \<and>
   (\<exists>f. LookupNamePrefix memBolt id False (lit ''NE'') filledDB = Ok f \<and> set (f (lit ''new'')) = {3})"
proof -
  have p: "toLower id (lit ''NE'') = lit ''ne''" by (simp add: toLower_def lit_def asciiLower_def)
  have n: "noNul (lit ''m'')" "noNul (toLower id (lit ''NE''))" by (simp_all add: p) (simp_all add: noNul_def lit_def)
  have low: "toLower id (lit ''New'') = lit ''new''" by (simp add: toLower_def lit_def asciiLower_def)
  have "norm_pointer sample_pointer = sample_pointer" by (simp add: sample_pointer_def norm_pointer_def)
  moreover have "{h. (lit ''new'', h) \<in> isNames (addUnit id sample_entry emptyIndex) \<and> prefix (lit ''ne'') (lit ''new'')} = {3}"
    using low by (simp add: addUnit_def sample_entry_def emptyIndex_def) (simp add: lit_def)
  moreover have "isUnits (addUnit id sample_entry emptyIndex) 7 = Some sample_pointer" by (simp add: addUnit_def sample_entry_def)
  ultimately show ?thesis
    using lookups_exact [OF memory.bolt_axioms filledDB_rep n, of 7 "[]"] p by auto
qed

end
