(* ===== verification/Cas.thy ===== *)
theory Cas
  imports Store_DB
begin

text \<open>
  The content-addressed blob store of \<open>internal/store/cas.go\<close>, the membership markers that tie
  index databases to it, and the mark-and-sweep collection of \<open>internal/server/casgc.go\<close>.

  A CAS directory is modelled as the map from (shard directory, file name) to the file. What the
  operating system decides is an argument: the outcome of each call of \<open>Put\<close>, the directory
  listings a sweep sees, which files can be removed, and the results of opening the other
  databases. Times are integers in nanoseconds.
\<close>

section \<open>Names of blob files\<close>

definition hexDigit :: "nat \<Rightarrow> byte" where
  "hexDigit n = of_nat (if n < 10 then 48 + n else 87 + n)"

text \<open>\<open>fmt.Sprintf("%016x", key)\<close>\<close>

fun hexN :: "nat \<Rightarrow> nat \<Rightarrow> bytes" where
  "hexN 0 x = []"
| "hexN (Suc n) x = hexN n (x div 16) @ [hexDigit (x mod 16)]"

definition hex16 :: "u64 \<Rightarrow> bytes" where
  "hex16 key = hexN 16 (unat key)"

definition hexVal :: "byte \<Rightarrow> nat option" where
  "hexVal c = (if 48 \<le> c \<and> c \<le> 57 then Some (unat c - 48)
     else if 97 \<le> c \<and> c \<le> 102 then Some (unat c - 87)
     else if 65 \<le> c \<and> c \<le> 70 then Some (unat c - 55) else None)"

text \<open>\<open>strconv.ParseUint(s, 16, 64)\<close>\<close>

fun parseHex :: "nat \<Rightarrow> bytes \<Rightarrow> nat option" where
  "parseHex n [] = Some n"
| "parseHex n (c # cs) =
     (case hexVal c of
        None \<Rightarrow> None
      | Some d \<Rightarrow> if 16 * n + d \<ge> 2 ^ 64 then None else parseHex (16 * n + d) cs)"

definition parseUint16 :: "bytes \<Rightarrow> u64 option" where
  "parseUint16 s = (if s = [] then None else map_option of_nat (parseHex 0 s))"

type_synonym cas_path = "bytes \<times> bytes"

definition blobSuffix :: bytes where "blobSuffix = lit ''.blob''"

definition blobPath :: "u64 \<Rightarrow> cas_path" where
  "blobPath key = (take 2 (hex16 key), drop 2 (hex16 key) @ blobSuffix)"

text \<open>\<open>strings.CutSuffix\<close>\<close>

definition cutSuffix :: "bytes \<Rightarrow> bytes \<Rightarrow> bytes option" where
  "cutSuffix s suf = (if suffix suf s then Some (take (length s - length suf) s) else None)"

definition blobKeyFromFilename :: "bytes \<Rightarrow> bytes \<Rightarrow> u64 option" where
  "blobKeyFromFilename shardName fileName =
     (case cutSuffix fileName blobSuffix of
        None \<Rightarrow> None
      | Some h \<Rightarrow> if length shardName \<noteq> 2 \<or> length h \<noteq> 14 then None else parseUint16 (shardName @ h))"

definition isOrphanedPutTempFile :: "bytes \<Rightarrow> bool" where
  "isOrphanedPutTempFile name \<longleftrightarrow> prefix (lit ''tmp-'') name \<and> suffix blobSuffix name"

section \<open>Reading and writing blobs\<close>

record cas_file =
  cfData :: bytes
  cfModTime :: int

type_synonym cas_files = "cas_path \<rightharpoonup> cas_file"

definition Has :: "cas_files \<Rightarrow> u64 \<Rightarrow> bool" where
  "Has fs key \<longleftrightarrow> fs (blobPath key) \<noteq> None"

text \<open>\<open>readErr\<close> is an error of the read other than the file's absence.\<close>

definition casGet :: "bool \<Rightarrow> nat option \<Rightarrow> cas_files \<Rightarrow> u64 \<Rightarrow> (store_error, bytes option) go" where
  "casGet ctxErr readErr fs key =
     (if ctxErr then Err Cancelled
      else case fs (blobPath key) of
             None \<Rightarrow> Ok None
           | Some f \<Rightarrow> (case readErr of Some n \<Rightarrow> Err (IOError n) | None \<Rightarrow> Ok (Some (cfData f))))"

text \<open>The outcomes of the system calls of one \<open>Put\<close> (\<open>Some n\<close> is an error).\<close>

record put_io =
  ioMkdir :: "nat option"
  ioCreate :: "nat option"
  ioWrite :: "nat option"
  ioClose :: "nat option"
  ioRename :: "nat option"
  ioRemove :: "nat option"
  ioTempName :: bytes
  ioPartial :: bytes       \<comment> \<open>what the temporary file holds after a failed write\<close>
  ioClock :: int

definition removeTemp :: "put_io \<Rightarrow> cas_path \<Rightarrow> cas_files \<Rightarrow> cas_files" where
  "removeTemp io tmpPath fs = (if ioRemove io = None then fs(tmpPath := None) else fs)"

definition casPut :: "put_io \<Rightarrow> u64 \<Rightarrow> bytes \<Rightarrow> cas_files \<Rightarrow> (store_error, unit) go \<times> cas_files" where
  "casPut io key blob fs =
     (let path = blobPath key; dir = fst path; tmpPath = (dir, ioTempName io);
          file = (\<lambda>data. \<lparr>cfData = data, cfModTime = ioClock io\<rparr>)
      in case ioMkdir io of
           Some n \<Rightarrow> (Err (IOError n), fs)
         | None \<Rightarrow>
             (case ioCreate io of
                Some n \<Rightarrow> (Err (IOError n), fs)
              | None \<Rightarrow>
                  (case ioWrite io of
                     Some n \<Rightarrow> (Err (IOError n), removeTemp io tmpPath (fs(tmpPath \<mapsto> file (ioPartial io))))
                   | None \<Rightarrow>
                       (case ioClose io of
                          Some n \<Rightarrow> (Err (IOError n), removeTemp io tmpPath (fs(tmpPath \<mapsto> file blob)))
                        | None \<Rightarrow>
                            (case ioRename io of
                               Some n \<Rightarrow> (Err (IOError n), removeTemp io tmpPath (fs(tmpPath \<mapsto> file blob)))
                             | None \<Rightarrow> (Ok (), fs(tmpPath := None, path \<mapsto> file blob)))))))"

section \<open>Sweeping\<close>

definition GCInterval :: int where "GCInterval = 24 * 3600 * 10 ^ 9"
definition GraceWindow :: int where "GraceWindow = 48 * 3600 * 10 ^ 9"

record gc_stats =
  gsSweptCount :: nat
  gsSweptBytes :: nat
  gsKeptCount :: nat
  gsKeptBytes :: nat

definition noStats :: gc_stats where
  "noStats = \<lparr>gsSweptCount = 0, gsSweptBytes = 0, gsKeptCount = 0, gsKeptBytes = 0\<rparr>"

record dir_entry =
  deName :: bytes
  deIsDir :: bool
  deInfo :: "(int \<times> nat) option"     \<comment> \<open>modification time and size; \<open>None\<close> when \<open>Info\<close> fails\<close>

record shard_listing =
  slName :: bytes
  slIsDir :: bool
  slEntries :: "dir_entry list option"

definition removeSwept :: "(cas_path \<Rightarrow> bool) \<Rightarrow> cas_path \<Rightarrow> nat \<Rightarrow> cas_files \<times> gc_stats \<Rightarrow> cas_files \<times> gc_stats" where
  "removeSwept removable p sz = (\<lambda>(fs, st).
     if removable p \<and> fs p \<noteq> None
     then (fs(p := None), st\<lparr>gsSweptCount := gsSweptCount st + 1, gsSweptBytes := gsSweptBytes st + sz\<rparr>)
     else (fs, st))"

definition sweepOrphanedTempFile :: "(cas_path \<Rightarrow> bool) \<Rightarrow> int \<Rightarrow> bytes \<Rightarrow> dir_entry \<Rightarrow> cas_files \<times> gc_stats
    \<Rightarrow> cas_files \<times> gc_stats" where
  "sweepOrphanedTempFile removable cutoff shard e s =
     (case deInfo e of
        None \<Rightarrow> s
      | Some (mtime, sz) \<Rightarrow> if mtime > cutoff then s else removeSwept removable (shard, deName e) sz s)"

definition keepBlob :: "nat \<Rightarrow> cas_files \<times> gc_stats \<Rightarrow> cas_files \<times> gc_stats" where
  "keepBlob sz = (\<lambda>(fs, st). (fs, st\<lparr>gsKeptCount := gsKeptCount st + 1, gsKeptBytes := gsKeptBytes st + sz\<rparr>))"

definition sweepEntry :: "(cas_path \<Rightarrow> bool) \<Rightarrow> u64 set \<Rightarrow> int \<Rightarrow> bytes \<Rightarrow> dir_entry \<Rightarrow> cas_files \<times> gc_stats
    \<Rightarrow> cas_files \<times> gc_stats" where
  "sweepEntry removable marks cutoff shard e s =
     (if deIsDir e then s
      else case blobKeyFromFilename shard (deName e) of
             None \<Rightarrow> if isOrphanedPutTempFile (deName e) then sweepOrphanedTempFile removable cutoff shard e s else s
           | Some key \<Rightarrow>
               (case deInfo e of
                  None \<Rightarrow> s
                | Some (mtime, sz) \<Rightarrow>
                    if key \<in> marks \<or> mtime > cutoff then keepBlob sz s
                    else removeSwept removable (shard, deName e) sz s))"

definition sweepShard :: "(cas_path \<Rightarrow> bool) \<Rightarrow> u64 set \<Rightarrow> int \<Rightarrow> shard_listing \<Rightarrow> cas_files \<times> gc_stats
    \<Rightarrow> cas_files \<times> gc_stats" where
  "sweepShard removable marks cutoff shard s =
     (if \<not> slIsDir shard then s
      else case slEntries shard of
             None \<Rightarrow> s
           | Some es \<Rightarrow> fold (sweepEntry removable marks cutoff (slName shard)) es s)"

definition sweep :: "(cas_path \<Rightarrow> bool) \<Rightarrow> shard_listing list option \<Rightarrow> int \<Rightarrow> u64 set \<Rightarrow> int \<Rightarrow> cas_files
    \<Rightarrow> (store_error, gc_stats) go \<times> cas_files" where
  "sweep removable shards now marks grace fs =
     (case shards of
        None \<Rightarrow> (Err (IOError 0), fs)
      | Some ss \<Rightarrow>
          let (fs', st) = fold (sweepShard removable marks (now - grace)) ss (fs, noStats) in (Ok st, fs'))"

definition casGC :: "(cas_path \<Rightarrow> bool) \<Rightarrow> shard_listing list option \<Rightarrow> int \<Rightarrow> u64 set \<Rightarrow> cas_files
    \<Rightarrow> (store_error, gc_stats) go \<times> cas_files" where
  "casGC removable shards now marks = sweep removable shards now marks GraceWindow"

definition GCAged :: "(cas_path \<Rightarrow> bool) \<Rightarrow> shard_listing list option \<Rightarrow> int \<Rightarrow> int \<Rightarrow> cas_files
    \<Rightarrow> (store_error, gc_stats) go \<times> cas_files" where
  "GCAged removable shards now maxAge = sweep removable shards now {} maxAge"

text \<open>
  The throttle of \<open>MaybeGC\<close> and \<open>MaybeGCAged\<close>: \<open>stamp\<close> is the modification time of the
  stamp file, \<open>writeErr\<close> the outcome of writing it at time \<open>clock\<close>. The result is what the
  collection reported, whether it ran, the new stamp and the new directory.
\<close>

definition throttled :: "int option \<Rightarrow> nat option \<Rightarrow> int \<Rightarrow> int \<Rightarrow> int
    \<Rightarrow> (cas_files \<Rightarrow> (store_error, gc_stats) go \<times> cas_files) \<Rightarrow> cas_files
    \<Rightarrow> (store_error, gc_stats) go \<times> bool \<times> int option \<times> cas_files" where
  "throttled stamp writeErr clock now interval gc fs =
     (if (case stamp of Some m \<Rightarrow> now - m < interval | None \<Rightarrow> False) then (Ok noStats, False, stamp, fs)
      else case writeErr of
             Some n \<Rightarrow> (Err (IOError n), False, stamp, fs)
           | None \<Rightarrow> let (r, fs') = gc fs in (r, True, Some clock, fs'))"

definition MaybeGC :: "int option \<Rightarrow> nat option \<Rightarrow> int \<Rightarrow> (cas_path \<Rightarrow> bool) \<Rightarrow> shard_listing list option \<Rightarrow> int
    \<Rightarrow> u64 set \<Rightarrow> cas_files \<Rightarrow> (store_error, gc_stats) go \<times> bool \<times> int option \<times> cas_files" where
  "MaybeGC stamp writeErr clock removable shards now marks =
     throttled stamp writeErr clock now GCInterval (casGC removable shards now marks)"

definition MaybeGCAged :: "int option \<Rightarrow> nat option \<Rightarrow> int \<Rightarrow> (cas_path \<Rightarrow> bool) \<Rightarrow> shard_listing list option \<Rightarrow> int
    \<Rightarrow> int \<Rightarrow> int \<Rightarrow> cas_files \<Rightarrow> (store_error, gc_stats) go \<times> bool \<times> int option \<times> cas_files" where
  "MaybeGCAged stamp writeErr clock removable shards now maxAge interval =
     throttled stamp writeErr clock now interval (GCAged removable shards now maxAge)"

section \<open>Members\<close>

definition membersDirName :: bytes where "membersDirName = lit ''.members''"

definition hexBytes :: "bytes \<Rightarrow> bytes" where
  "hexBytes bs = concat (map (\<lambda>b. hexN 2 (unat b)) bs)"

definition markerName :: "(bytes \<Rightarrow> bytes) \<Rightarrow> bytes \<Rightarrow> bytes" where
  "markerName sum256 member = hexBytes (take 16 (sum256 member))"

definition recordCASMember :: "(bytes \<Rightarrow> bytes) \<Rightarrow> nat option \<Rightarrow> nat option \<Rightarrow> int \<Rightarrow> bytes \<Rightarrow> cas_files
    \<Rightarrow> (store_error, unit) go \<times> cas_files" where
  "recordCASMember sum256 mkdirErr writeErr clock member fs =
     (case mkdirErr of
        Some n \<Rightarrow> (Err (IOError n), fs)
      | None \<Rightarrow>
          (case writeErr of
             Some n \<Rightarrow> (Err (IOError n), fs)
           | None \<Rightarrow> (Ok (), fs((membersDirName, markerName sum256 member) \<mapsto>
               \<lparr>cfData = member, cfModTime = clock\<rparr>))))"

text \<open>\<open>es\<close> lists the members directory (\<open>None\<close>: it does not exist); unreadable markers are skipped.\<close>

definition CASMembers :: "(bytes \<Rightarrow> bool) \<Rightarrow> (store_error, dir_entry list option) go \<Rightarrow> cas_files
    \<Rightarrow> (store_error, bytes list) go" where
  "CASMembers readable es fs =
     go_bind es (\<lambda>l. case l of
        None \<Rightarrow> Ok []
      | Some ents \<Rightarrow> Ok (List.map_filter (\<lambda>e. if deIsDir e \<or> \<not> readable (deName e) then None
            else map_option cfData (fs (membersDirName, deName e))) ents))"

definition PutCASDir :: "'t bolt \<Rightarrow> (bytes \<Rightarrow> bytes) \<Rightarrow> nat option \<Rightarrow> nat option \<Rightarrow> int \<Rightarrow> bytes \<Rightarrow> 't db \<Rightarrow> cas_files
    \<Rightarrow> (store_error, unit) go \<times> 't db \<times> cas_files" where
  "PutCASDir B sum256 mkdirErr writeErr clock dir d fs =
     (case putMeta B casDirKey dir (dbBolt d) of
        (Ok _, t) \<Rightarrow>
          let (r, fs') = recordCASMember sum256 mkdirErr writeErr clock (dbPath d) fs in (r, d\<lparr>dbBolt := t\<rparr>, fs')
      | (Err e, t) \<Rightarrow> (Err e, d\<lparr>dbBolt := t\<rparr>, fs)
      | (Panic, t) \<Rightarrow> (Panic, d\<lparr>dbBolt := t\<rparr>, fs))"

section \<open>The collection run by the server\<close>

text \<open>What the collection finds at a member's path: whether it exists, and the result of opening it.\<close>

record 't candidate =
  caPath :: bytes
  caExists :: bool
  caOpen :: "bolt_error + 't"

definition collectCandidate :: "'t bolt \<Rightarrow> bytes \<Rightarrow> bytes \<Rightarrow> 't candidate \<Rightarrow> u64 set \<times> nat \<Rightarrow> u64 set \<times> nat" where
  "collectCandidate B casPath ownPath c = (\<lambda>(marks, unreadable).
     if caPath c = ownPath \<or> \<not> caExists c then (marks, unreadable)
     else case openReadOnlyTimeout (caPath c) (caOpen c) of
            Ok d \<Rightarrow>
              (case CASDir B (dbBolt d) of
                 Ok dir \<Rightarrow>
                   if dir = casPath
                   then (case CollectBlobKeys B (dbBolt d) marks of
                           Ok (marks', skipped) \<Rightarrow> (marks', if skipped > 0 then unreadable + 1 else unreadable)
                         | _ \<Rightarrow> (marks, unreadable + 1))
                   else (marks, unreadable)
               | Err e \<Rightarrow> (marks, if e = NotFound then unreadable else unreadable + 1)
               | Panic \<Rightarrow> (marks, unreadable))
          | Err e \<Rightarrow> (marks, if IsLocked e then unreadable + 1 else unreadable)
          | Panic \<Rightarrow> (marks, unreadable))"

text \<open>\<open>at\<close> gives the candidate found at each path.\<close>

definition collectOtherCASMarks :: "'t bolt \<Rightarrow> bytes \<Rightarrow> bytes \<Rightarrow> (store_error, bytes list) go \<Rightarrow> (bytes \<Rightarrow> 't candidate)
    \<Rightarrow> u64 set \<Rightarrow> u64 set \<times> nat" where
  "collectOtherCASMarks B casPath ownPath members at' marks =
     (case members of
        Ok paths \<Rightarrow> fold (\<lambda>p. collectCandidate B casPath ownPath ((at' p)\<lparr>caPath := p\<rparr>)) paths (marks, 0)
      | _ \<Rightarrow> (marks, 0))"

definition runCollection :: "bool \<Rightarrow> int option \<Rightarrow> nat option \<Rightarrow> int \<Rightarrow> (cas_path \<Rightarrow> bool) \<Rightarrow> shard_listing list option
    \<Rightarrow> int \<Rightarrow> u64 set \<Rightarrow> cas_files \<Rightarrow> (store_error, gc_stats) go \<times> bool \<times> int option \<times> cas_files" where
  "runCollection force stamp writeErr clock removable shards now marks fs =
     (if force then (case casGC removable shards now marks fs of (r, fs') \<Rightarrow> (r, True, stamp, fs'))
      else MaybeGC stamp writeErr clock removable shards now marks fs)"

text \<open>
  \<open>ownDB\<close> is the session's own database (\<open>None\<close> is nil), \<open>openErr\<close> the outcome of creating
  the CAS directory, \<open>members\<close> the result of \<open>CASMembers\<close>; the remaining arguments are those of
  the collection. The result is the statistics, whether a sweep ran, the stamp and the directory.
\<close>

definition RunCASGC :: "'t bolt \<Rightarrow> bytes \<Rightarrow> bytes \<Rightarrow> 't option \<Rightarrow> nat option \<Rightarrow> (store_error, bytes list) go
    \<Rightarrow> (bytes \<Rightarrow> 't candidate) \<Rightarrow> bool \<Rightarrow> int option \<Rightarrow> nat option \<Rightarrow> int \<Rightarrow> (cas_path \<Rightarrow> bool)
    \<Rightarrow> shard_listing list option \<Rightarrow> int \<Rightarrow> cas_files \<Rightarrow> gc_stats \<times> bool \<times> int option \<times> cas_files" where
  "RunCASGC B casPath ownPath ownDB openErr members at' force stamp writeErr clock removable shards now fs =
     (case ownDB of
        None \<Rightarrow> (noStats, False, stamp, fs)
      | Some t \<Rightarrow>
          (case openErr of
             Some n \<Rightarrow> (noStats, False, stamp, fs)
           | None \<Rightarrow>
               (case CollectBlobKeys B t {} of
                  Ok (own, skippedOwn) \<Rightarrow>
                    (case collectOtherCASMarks B casPath ownPath members at' own of
                       (marks, unreadable) \<Rightarrow>
                         if unreadable + skippedOwn > 0 then (noStats, False, stamp, fs)
                         else (case runCollection force stamp writeErr clock removable shards now marks fs of
                                 (Ok st, did, stamp', fs') \<Rightarrow> (if did then st else noStats, did, stamp', fs')
                               | (_, did, stamp', fs') \<Rightarrow> (noStats, False, stamp', fs')))
                | _ \<Rightarrow> (noStats, False, stamp, fs))))"

section \<open>Blob names are unique\<close>

lemma length_hexN [simp]: "length (hexN n x) = n"
  by (induction n arbitrary: x) simp_all

lemma unat_byte: "n < 256 \<Longrightarrow> unat (of_nat n :: byte) = n"
  by (simp add: unat_of_nat)

lemma hexVal_hexDigit: "d < 16 \<Longrightarrow> hexVal (hexDigit d) = Some d"
  by (auto simp: hexVal_def hexDigit_def unat_byte word_le_nat_alt)

lemma parseHex_append: "parseHex n (xs @ ys) = (case parseHex n xs of None \<Rightarrow> None | Some m \<Rightarrow> parseHex m ys)"
  by (induction xs arbitrary: n) (auto split: option.splits)

lemma parseHex_hexN: "x < 16 ^ n \<Longrightarrow> n \<le> 16 \<Longrightarrow> parseHex 0 (hexN n x) = Some x"
proof (induction n arbitrary: x)
  case (Suc n)
  have "x < 2 ^ 64"
    using Suc.prems power_increasing [of "Suc n" 16 "16 :: nat"] by simp
  moreover have "parseHex 0 (hexN n (x div 16)) = Some (x div 16)"
    using Suc.prems by (intro Suc.IH) (simp_all add: less_mult_imp_div_less mult.commute)
  ultimately show ?case by (simp add: parseHex_append hexVal_hexDigit)
qed simp

lemma parseUint16_hex16: "parseUint16 (hex16 k) = Some k"
  using parseHex_hexN [of "unat k" 16] unat_less [of k]
  by (auto simp: parseUint16_def hex16_def simp flip: length_greater_0_conv)

lemma blobKey_blobPath: "blobKeyFromFilename (fst (blobPath k)) (snd (blobPath k)) = Some k"
proof -
  have "cutSuffix (drop 2 (hex16 k) @ blobSuffix) blobSuffix = Some (drop 2 (hex16 k))"
    by (simp add: cutSuffix_def suffix_def)
  then show ?thesis by (simp add: blobKeyFromFilename_def blobPath_def hex16_def [symmetric] parseUint16_hex16) (simp add: hex16_def)
qed

lemma blobPath_inject [simp]: "blobPath a = blobPath b \<longleftrightarrow> a = b"
  by (metis blobKey_blobPath option.inject)

lemma parseHex_bad: "c \<in> set xs \<Longrightarrow> hexVal c = None \<Longrightarrow> parseHex n xs = None"
  by (induction xs arbitrary: n) (auto split: option.splits)

lemma temp_not_blob: "isOrphanedPutTempFile name \<Longrightarrow> blobKeyFromFilename shard name = None"
proof (cases "cutSuffix name blobSuffix")
  case (Some h)
  assume "isOrphanedPutTempFile name"
  then obtain r where name: "name = lit ''tmp-'' @ r" by (auto simp: isOrphanedPutTempFile_def prefix_def)
  show ?thesis
  proof (cases "length h = 14")
    case True
    have "h = take (length name - length blobSuffix) name" using Some by (auto simp: cutSuffix_def split: if_splits)
    then have "h = take 14 name" using True by auto
    then have "h = lit ''tmp-'' @ take 10 r" by (simp add: name)
    then have "116 \<in> set (shard @ h)" by (simp add: lit_def)
    then have "parseHex 0 (shard @ h) = None" by (rule parseHex_bad) (simp add: hexVal_def)
    then show ?thesis using Some by (simp add: blobKeyFromFilename_def parseUint16_def)
  qed (simp add: blobKeyFromFilename_def Some)
qed (simp add: blobKeyFromFilename_def)

section \<open>What a sweep removes\<close>

definition doomed :: "(cas_path \<Rightarrow> bool) \<Rightarrow> u64 set \<Rightarrow> int \<Rightarrow> bytes \<Rightarrow> dir_entry \<Rightarrow> bool" where
  "doomed removable marks cutoff shard e \<longleftrightarrow> \<not> deIsDir e \<and> removable (shard, deName e)
     \<and> (case deInfo e of None \<Rightarrow> False | Some (mtime, sz) \<Rightarrow> mtime \<le> cutoff)
     \<and> (case blobKeyFromFilename shard (deName e) of Some k \<Rightarrow> k \<notin> marks | None \<Rightarrow> isOrphanedPutTempFile (deName e))"

lemma removeSwept_files:
  "fst (removeSwept removable p sz s) q = (if removable p \<and> q = p then None else fst s q)"
  by (auto simp: removeSwept_def split: prod.splits)

lemma sweepEntry_files:
  "fst (sweepEntry removable marks cutoff shard e s) q =
     (if q = (shard, deName e) \<and> doomed removable marks cutoff shard e then None else fst s q)"
  by (auto simp: sweepEntry_def sweepOrphanedTempFile_def keepBlob_def doomed_def removeSwept_files
      split: option.splits prod.splits)

lemma sweepEntries_files:
  "fst (fold (sweepEntry removable marks cutoff shard) es s) q =
     (if \<exists>e \<in> set es. q = (shard, deName e) \<and> doomed removable marks cutoff shard e then None else fst s q)"
  by (induction es arbitrary: s) (auto simp: sweepEntry_files)

definition listed :: "shard_listing list \<Rightarrow> bytes \<Rightarrow> dir_entry \<Rightarrow> bool" where
  "listed ss shard e \<longleftrightarrow> (\<exists>l \<in> set ss. slIsDir l \<and> slName l = shard \<and> (\<exists>es. slEntries l = Some es \<and> e \<in> set es))"

lemma sweepShards_files:
  "fst (fold (sweepShard removable marks cutoff) ss s) q =
     (if \<exists>e. listed ss (fst q) e \<and> deName e = snd q \<and> doomed removable marks cutoff (fst q) e then None else fst s q)"
proof (induction ss arbitrary: s)
  case (Cons l ss)
  have "fst (sweepShard removable marks cutoff l s) q =
      (if \<exists>e. listed [l] (fst q) e \<and> deName e = snd q \<and> doomed removable marks cutoff (fst q) e then None else fst s q)"
    by (cases q) (auto simp: sweepShard_def listed_def sweepEntries_files split: option.splits)
  moreover have "listed (l # ss) sh e \<longleftrightarrow> listed [l] sh e \<or> listed ss sh e" for sh e by (auto simp: listed_def)
  ultimately show ?case by (auto simp: Cons.IH)
qed (simp add: listed_def)

text \<open>The listings of a sweep are those of the directory.\<close>

definition listsFiles :: "shard_listing list \<Rightarrow> cas_files \<Rightarrow> bool" where
  "listsFiles ss fs \<longleftrightarrow>
     (\<forall>shard e i. listed ss shard e \<and> \<not> deIsDir e \<and> deInfo e = Some i \<longrightarrow>
        (\<exists>f. fs (shard, deName e) = Some f \<and> i = (cfModTime f, length (cfData f))))
     \<and> (\<forall>p f. fs p = Some f \<longrightarrow> (\<exists>e. listed ss (fst p) e \<and> deName e = snd p \<and> \<not> deIsDir e
          \<and> deInfo e = Some (cfModTime f, length (cfData f))))"

definition garbage :: "u64 set \<Rightarrow> int \<Rightarrow> cas_path \<Rightarrow> cas_file \<Rightarrow> bool" where
  "garbage marks cutoff p f \<longleftrightarrow> cfModTime f \<le> cutoff
     \<and> (case blobKeyFromFilename (fst p) (snd p) of Some k \<Rightarrow> k \<notin> marks | None \<Rightarrow> isOrphanedPutTempFile (snd p))"

lemma sweep_files:
  "snd (sweep removable (Some ss) now marks grace fs) q =
     (if \<exists>e. listed ss (fst q) e \<and> deName e = snd q \<and> doomed removable marks (now - grace) (fst q) e then None else fs q)"
  using sweepShards_files [of removable marks "now - grace" ss "(fs, noStats)" q]
  by (cases "fold (sweepShard removable marks (now - grace)) ss (fs, noStats)") (auto simp: sweep_def)

lemma sweep_keeps_marked: "k \<in> marks \<Longrightarrow> snd (sweep removable ss now marks grace fs) (blobPath k) = fs (blobPath k)"
proof (cases ss)
  case (Some l)
  assume "k \<in> marks"
  then have "\<not> doomed removable marks cutoff (fst (blobPath k)) e" if "deName e = snd (blobPath k)" for cutoff e
    using that blobKey_blobPath [of k] by (simp add: doomed_def)
  then show ?thesis using Some by (auto simp: sweep_files)
qed (simp add: sweep_def)

lemma runCollection_keeps_marked:
  "k \<in> marks \<Longrightarrow>
    snd (snd (snd (runCollection force stamp writeErr clock removable shards now marks fs))) (blobPath k) = fs (blobPath k)"
  using sweep_keeps_marked [of k marks removable shards now GraceWindow fs]
  by (auto simp: runCollection_def MaybeGC_def throttled_def casGC_def Let_def split: prod.splits option.splits)

section \<open>Marks\<close>

definition unitRefs :: "'t bolt \<Rightarrow> 't \<Rightarrow> u64 set" where
  "unitRefs B t = {upBlobKey p |p k v. boGet B t bucketUnit k = Some v \<and> decodeUnitPointer v = Ok p}"

definition undecodable :: "'t bolt \<Rightarrow> 't \<Rightarrow> bool" where
  "undecodable B t \<longleftrightarrow> (\<exists>k v. boGet B t bucketUnit k = Some v \<and> (\<forall>p. decodeUnitPointer v \<noteq> Ok p))"

lemma collectStep_fold:
  "fold collectStep es (marks, n) =
     (marks \<union> {upBlobKey p |p k v. (k, v) \<in> set es \<and> decodeUnitPointer v = Ok p},
      n + length (filter (\<lambda>(k, v). \<forall>p. decodeUnitPointer v \<noteq> Ok p) es))"
proof (induction es arbitrary: marks n)
  case (Cons e es)
  obtain k v where e: "e = (k, v)" by (cases e)
  have "collectStep e (marks, n) =
      (case decodeUnitPointer v of Ok p \<Rightarrow> (insert (upBlobKey p) marks, n) | _ \<Rightarrow> (marks, n + 1))"
    by (simp add: collectStep_def e)
  then show ?case by (cases "decodeUnitPointer v") (auto simp: e Cons.IH)
qed simp

context bolt
begin

lemma CollectBlobKeys_ok:
  assumes "boHas B t bucketUnit"
  shows "\<exists>n. CollectBlobKeys B t marks = Ok (marks \<union> unitRefs B t, n) \<and> (0 < n \<longleftrightarrow> undecodable B t)"
proof -
  obtain es where es: "bucketScan B bucketUnit [] t = Ok es" using assms by (simp add: bucketScan_def)
  have set: "set es = {(k, v). boGet B t bucketUnit k = Some v}" using scan_set(1) [OF es] by simp
  have "{upBlobKey p |p k v. (k, v) \<in> set es \<and> decodeUnitPointer v = Ok p} = unitRefs B t"
    by (auto simp: set unitRefs_def)
  moreover have "0 < length (filter (\<lambda>(k, v). \<forall>p. decodeUnitPointer v \<noteq> Ok p) es) \<longleftrightarrow> undecodable B t"
    using set by (auto simp: undecodable_def filter_empty_conv)
  ultimately show ?thesis using es by (simp add: CollectBlobKeys_def collectStep_fold)
qed

lemma collectCandidate_mono:
  "marks \<subseteq> fst (collectCandidate B casPath ownPath c (marks, n)) \<and> n \<le> snd (collectCandidate B casPath ownPath c (marks, n))"
proof (cases "caPath c = ownPath \<or> \<not> caExists c")
  case False
  have "marks \<subseteq> m \<and> n \<le> (if sk > 0 then n + 1 else n)" if "CollectBlobKeys B t marks = Ok (m, sk)" for t m sk
    using that CollectBlobKeys_ok [of t marks] by (auto simp: CollectBlobKeys_def bucketScan_def split: if_splits)
  then show ?thesis using False by (auto simp: collectCandidate_def split: go.splits prod.splits)
qed (auto simp: collectCandidate_def)

lemma collect_fold_mono:
  "marks \<subseteq> fst (fold (\<lambda>p. collectCandidate B casPath ownPath ((at' p)\<lparr>caPath := p\<rparr>)) ps (marks, n)) \<and>
   n \<le> snd (fold (\<lambda>p. collectCandidate B casPath ownPath ((at' p)\<lparr>caPath := p\<rparr>)) ps (marks, n))"
proof (induction ps arbitrary: marks n)
  case (Cons p ps)
  obtain m' n' where c: "collectCandidate B casPath ownPath ((at' p)\<lparr>caPath := p\<rparr>) (marks, n) = (m', n')" by fastforce
  show ?case using Cons.IH [of m' n'] collectCandidate_mono [of marks casPath ownPath "(at' p)\<lparr>caPath := p\<rparr>" n] c by auto
qed simp

text \<open>The effect of one member of the list survives the rest of the collection.\<close>

lemma collect_member:
  assumes "p \<in> set ps"
  shows "\<exists>m n. fst (collectCandidate B casPath ownPath ((at' p)\<lparr>caPath := p\<rparr>) (m, n)) \<subseteq>
      fst (fold (\<lambda>p. collectCandidate B casPath ownPath ((at' p)\<lparr>caPath := p\<rparr>)) ps (marks, k))
    \<and> snd (collectCandidate B casPath ownPath ((at' p)\<lparr>caPath := p\<rparr>) (m, n)) \<le>
      snd (fold (\<lambda>p. collectCandidate B casPath ownPath ((at' p)\<lparr>caPath := p\<rparr>)) ps (marks, k))"
proof -
  let ?f = "\<lambda>p. collectCandidate B casPath ownPath ((at' p)\<lparr>caPath := p\<rparr>)"
  obtain us vs where ps: "ps = us @ p # vs" using assms by (meson split_list)
  obtain m n where mn: "fold ?f us (marks, k) = (m, n)" by fastforce
  have "fold ?f ps (marks, k) = fold ?f vs (?f p (m, n))" by (simp add: ps mn)
  then show ?thesis using collect_fold_mono [of "fst (?f p (m, n))" casPath ownPath at' vs "snd (?f p (m, n))"]
    by (intro exI [of _ m] exI [of _ n]) simp
qed

lemma collectCandidate_readable:
  assumes "p \<noteq> ownPath" "caExists c" "caOpen c = Inr t'" "CASDir B t' = Ok casPath" "boHas B t' bucketUnit"
  shows "unitRefs B t' \<subseteq> fst (collectCandidate B casPath ownPath (c\<lparr>caPath := p\<rparr>) (m, n))"
    and "undecodable B t' \<Longrightarrow> n < snd (collectCandidate B casPath ownPath (c\<lparr>caPath := p\<rparr>) (m, n))"
  using CollectBlobKeys_ok [OF assms(5), of m] assms
  by (auto simp: collectCandidate_def openReadOnlyTimeout_def)

lemma collectCandidate_locked:
  assumes "p \<noteq> ownPath" "caExists c" "caOpen c = Inl ErrTimeout"
  shows "n < snd (collectCandidate B casPath ownPath (c\<lparr>caPath := p\<rparr>) (m, n))"
  using assms by (simp add: collectCandidate_def openReadOnlyTimeout_def wrapOpenErr_def IsLocked_def)

lemma RunCASGC_marks:
  fixes casPath ownPath at' paths t
  defines "F \<equiv> fold (\<lambda>p. collectCandidate B casPath ownPath ((at' p)\<lparr>caPath := p\<rparr>)) paths (unitRefs B t, 0)"
  assumes own: "boHas B t bucketUnit"
    and run: "RunCASGC B casPath ownPath (Some t) openErr (Ok paths) at' force stamp writeErr clock removable shards now fs
      = (st, did, stamp', fs')"
  shows "(fs' = fs \<and> \<not> did) \<or>
    (\<not> undecodable B t \<and> snd F = 0 \<and> (\<forall>k \<in> fst F. fs' (blobPath k) = fs (blobPath k)))"
proof -
  obtain n where n: "CollectBlobKeys B t {} = Ok (unitRefs B t, n)" "0 < n \<longleftrightarrow> undecodable B t"
    using CollectBlobKeys_ok [OF own, of "{}"] by auto
  obtain M u where F: "F = (M, u)" by fastforce
  have c: "collectOtherCASMarks B casPath ownPath (Ok paths) at' (unitRefs B t) = (M, u)"
    using F by (simp add: collectOtherCASMarks_def F_def)
  show ?thesis
  proof (cases "openErr = None \<and> u + n = 0")
    case True
    obtain r d s' f where rc: "runCollection force stamp writeErr clock removable shards now M fs = (r, d, s', f)"
      by (metis prod_cases4)
    have "fs' = f" using run True n(1) c rc by (auto simp: RunCASGC_def split: go.splits)
    moreover have "f (blobPath k) = fs (blobPath k)" if "k \<in> M" for k
      using runCollection_keeps_marked [OF that, of force stamp writeErr clock removable shards now fs] rc by simp
    ultimately show ?thesis using True n(2) F by simp
  next
    case False
    then show ?thesis using run n(1) c by (auto simp: RunCASGC_def split: option.splits)
  qed
qed

end

section \<open>Properties\<close>


definition sample_io :: put_io where
  "sample_io = \<lparr>ioMkdir = None, ioCreate = None, ioWrite = None, ioClose = None, ioRename = None, ioRemove = None,
     ioTempName = lit ''tmp-1.blob'', ioPartial = [], ioClock = 5\<rparr>"


text \<open>
  C29. A sweep removes exactly the garbage: with the directory's own listings, a file disappears if
  and only if it is removable, older than the cutoff, and either a blob that is not marked or a
  temporary file left by an interrupted \<open>Put\<close>; every other file, of whatever name, stays as it is.\<close>
theorem cas_sweep_exact:
  assumes "listsFiles ss fs"
  shows "snd (sweep removable (Some ss) now marks grace fs) p =
    (case fs p of None \<Rightarrow> None | Some f \<Rightarrow> if removable p \<and> garbage marks (now - grace) p f then None else Some f)"
proof -
  let ?P = "\<exists>e. listed ss (fst p) e \<and> deName e = snd p \<and> doomed removable marks (now - grace) (fst p) e"
  have sound: "\<And>sh e i. listed ss sh e \<Longrightarrow> \<not> deIsDir e \<Longrightarrow> deInfo e = Some i \<Longrightarrow>
      \<exists>f. fs (sh, deName e) = Some f \<and> i = (cfModTime f, length (cfData f))"
    and complete: "\<And>p f. fs p = Some f \<Longrightarrow> \<exists>e. listed ss (fst p) e \<and> deName e = snd p \<and> \<not> deIsDir e
          \<and> deInfo e = Some (cfModTime f, length (cfData f))"
    using assms unfolding listsFiles_def by blast+
  have "?P \<longleftrightarrow> (\<exists>f. fs p = Some f \<and> removable p \<and> garbage marks (now - grace) p f)"
  proof
    assume ?P
    then obtain e where e: "listed ss (fst p) e" "deName e = snd p" "doomed removable marks (now - grace) (fst p) e" by blast
    then obtain i where i: "deInfo e = Some i" "\<not> deIsDir e" by (auto simp: doomed_def split: option.splits)
    then obtain f where "fs p = Some f" "i = (cfModTime f, length (cfData f))"
      using sound [OF e(1) i(2,1)] e(2) by (cases p) auto
    then show "\<exists>f. fs p = Some f \<and> removable p \<and> garbage marks (now - grace) p f"
      using e i by (cases p) (auto simp: doomed_def garbage_def split: option.splits)
  next
    assume "\<exists>f. fs p = Some f \<and> removable p \<and> garbage marks (now - grace) p f"
    then obtain f where f: "fs p = Some f" "removable p" "garbage marks (now - grace) p f" by blast
    from complete [OF f(1)] obtain e where e: "listed ss (fst p) e" "deName e = snd p" "\<not> deIsDir e"
      "deInfo e = Some (cfModTime f, length (cfData f))" by blast
    then have "doomed removable marks (now - grace) (fst p) e"
      using f(2,3) by (simp add: doomed_def garbage_def split: option.splits)
    then show ?P using e by blast
  qed
  then show ?thesis by (auto simp: sweep_files split: option.splits)
qed

definition sample_blobs :: cas_files where
  "sample_blobs = [blobPath 1 \<mapsto> \<lparr>cfData = [7], cfModTime = 0\<rparr>]"

definition sample_listing :: "shard_listing list" where
  "sample_listing = [\<lparr>slName = fst (blobPath 1), slIsDir = True,
     slEntries = Some [\<lparr>deName = snd (blobPath 1), deIsDir = False, deInfo = Some (0, 1)\<rparr>]\<rparr>]"

theorem cas_sweep_exact_witness:
  "listsFiles sample_listing sample_blobs \<and>
   snd (sweep (\<lambda>_. True) (Some sample_listing) 100 {} 50 sample_blobs) (blobPath 1) = None \<and>
   snd (sweep (\<lambda>_. True) (Some sample_listing) 100 {1} 50 sample_blobs) (blobPath 1) \<noteq> None"
proof -
  have l: "listsFiles sample_listing sample_blobs"
    by (auto simp: listsFiles_def listed_def sample_listing_def sample_blobs_def prod_eq_iff split: if_splits)
  have g: "garbage {} 50 (blobPath 1) \<lparr>cfData = [7], cfModTime = 0\<rparr>" "\<not> garbage {1} 50 (blobPath 1) \<lparr>cfData = [7], cfModTime = 0\<rparr>"
    using blobKey_blobPath [of 1] by (simp_all add: garbage_def)
  show ?thesis
    using cas_sweep_exact [OF l, of "\<lambda>_. True" 100 "{}" 50 "blobPath 1"] cas_sweep_exact [OF l, of "\<lambda>_. True" 100 "{1}" 50 "blobPath 1"] l g
    by (simp add: sample_blobs_def)
qed



end
