(* ===== verification/Scheduler.thy ===== *)
theory Scheduler
  imports Graph
begin

text \<open>
  The build scheduler of \<open>internal/index/scheduler.go\<close> and the worker goroutines that
  \<open>Build\<close> (\<open>internal/index/index.go\<close>) drives with it. The bookkeeping of
  \<open>newScheduler\<close> is a function; the concurrent run is a step relation whose steps are the
  atomic actions of the goroutines (a channel receive, the end of a job, one atomic decrement
  with its channel send, the final decrement with its close).
\<close>

section \<open>Which packages are scheduled, and after which\<close>

definition isExternalTestOfRoot :: "snapshot \<Rightarrow> package \<Rightarrow> bool" where
  "isExternalTestOfRoot snap pkg =
     (if pkForTest pkg = [] then False
      else case snPackages snap (pkForTest pkg) of
        None \<Rightarrow> False
      | Some base \<Rightarrow> pkRoot base \<and> pkDir base = pkDir pkg)"

definition schedulableRoot :: "snapshot \<Rightarrow> package \<Rightarrow> bool" where
  "schedulableRoot snap pkg \<longleftrightarrow> pkRoot pkg \<or> isExternalTestOfRoot snap pkg"

definition schedulableDepsOf :: "snapshot \<Rightarrow> path \<Rightarrow> package \<Rightarrow> path list" where
  "schedulableDepsOf snap path pkg =
     filter (\<lambda>dep. (case snPackages snap dep of None \<Rightarrow> False | Some d \<Rightarrow> pkRoot d) \<and> Before snap dep path)
       (pkImports pkg @ pkTestImports pkg)"

definition addDependents :: "snapshot \<Rightarrow> path \<Rightarrow> (path \<Rightarrow> path list) \<Rightarrow> path \<Rightarrow> path list" where
  "addDependents snap path dependents =
     (case snPackages snap path of
        None \<Rightarrow> dependents
      | Some pkg \<Rightarrow>
          if \<not> schedulableRoot snap pkg then dependents
          else fold (\<lambda>dep ds. ds(dep := ds dep @ [path])) (schedulableDepsOf snap path pkg) dependents)"

definition computeDependents :: "path list \<Rightarrow> snapshot \<Rightarrow> path \<Rightarrow> path list" where
  "computeDependents ks snap = fold (addDependents snap) ks (\<lambda>_. [])"

section \<open>The scheduler\<close>

text \<open>What a started goroutine is doing: the job, or the rest of its call of \<open>finish\<close>.\<close>

datatype worker = Processing | Finishing "path list" | Ended

record scheduler =
  scPending :: "path \<rightharpoonup> int"
  scDependents :: "path \<Rightarrow> path list"
  scReady :: "path list"
  scCap :: nat
  scLeft :: int
  scClosed :: bool
  scPanicked :: bool
  scWorkers :: "path \<rightharpoonup> worker"

definition countPending :: "snapshot \<Rightarrow> path \<Rightarrow> (path \<rightharpoonup> int) \<times> nat \<Rightarrow> (path \<rightharpoonup> int) \<times> nat" where
  "countPending snap path = (\<lambda>(pendingDeps, total).
     case snPackages snap path of
       None \<Rightarrow> (pendingDeps, total)
     | Some pkg \<Rightarrow>
         if \<not> schedulableRoot snap pkg then (pendingDeps, total)
         else (pendingDeps(path \<mapsto> int (length (schedulableDepsOf snap path pkg))), total + 1))"

text \<open>
  The three \<open>range\<close> loops may enumerate their maps in different orders: \<open>ds\<close> is the one of
  \<open>computeDependents\<close>, \<open>ks\<close> the one of the counting loop and \<open>rs\<close> the one that seeds the
  channel.
\<close>

definition newScheduler :: "path list \<Rightarrow> path list \<Rightarrow> path list \<Rightarrow> snapshot \<Rightarrow> scheduler \<times> nat" where
  "newScheduler ds ks rs snap =
     (let dependents = computeDependents ds snap;
          (pendingDeps, total) = fold (countPending snap) ks (Map.empty, 0);
          s = \<lparr>scPending = pendingDeps, scDependents = dependents, scReady = [], scCap = total,
               scLeft = int total, scClosed = False, scPanicked = False, scWorkers = Map.empty\<rparr>
      in if total = 0 then (s\<lparr>scClosed := True\<rparr>, 0)
         else (s\<lparr>scReady := filter (\<lambda>path. pendingDeps path = Some 0) rs\<rparr>, total))"

text \<open>A send on a closed channel panics, as does closing it twice.\<close>

definition sendReady :: "path \<Rightarrow> scheduler \<Rightarrow> scheduler" where
  "sendReady path s =
     (if scClosed s then s\<lparr>scPanicked := True\<rparr> else s\<lparr>scReady := scReady s @ [path]\<rparr>)"

definition closeReady :: "scheduler \<Rightarrow> scheduler" where
  "closeReady s = (if scClosed s then s\<lparr>scPanicked := True\<rparr> else s\<lparr>scClosed := True\<rparr>)"

definition pendingOf :: "scheduler \<Rightarrow> path \<Rightarrow> int" where
  "pendingOf s path = (case scPending s path of Some n \<Rightarrow> n | None \<Rightarrow> 0)"

text \<open>
  One round of the loop of \<open>finish\<close>. A missing counter is a nil pointer in the source, whose
  atomic decrement panics.
\<close>

definition releaseOne :: "path \<Rightarrow> scheduler \<Rightarrow> scheduler" where
  "releaseOne dependent s =
     (case scPending s dependent of
        None \<Rightarrow> s\<lparr>scPanicked := True\<rparr>
      | Some n \<Rightarrow>
          let s' = s\<lparr>scPending := (scPending s)(dependent \<mapsto> n - 1)\<rparr>
          in if n - 1 = 0 then sendReady dependent s' else s')"

definition retire :: "scheduler \<Rightarrow> scheduler" where
  "retire s = (let s' = s\<lparr>scLeft := scLeft s - 1\<rparr> in if scLeft s' = 0 then closeReady s' else s')"

definition setWorker :: "path \<Rightarrow> worker \<Rightarrow> scheduler \<Rightarrow> scheduler" where
  "setWorker path w s = s\<lparr>scWorkers := (scWorkers s)(path \<mapsto> w)\<rparr>"

text \<open>
  The interleaved run of \<open>Build\<close>: the dispatch loop receives a path and starts its goroutine,
  a job ends, and the goroutines run \<open>finish\<close>. A send waits while the channel's buffer is full.
\<close>

inductive sched_step :: "scheduler \<Rightarrow> scheduler \<Rightarrow> bool" where
  receive: "scReady s = path # rest \<Longrightarrow> sched_step s (setWorker path Processing (s\<lparr>scReady := rest\<rparr>))"
| job_done: "scWorkers s path = Some Processing \<Longrightarrow>
    sched_step s (setWorker path (Finishing (scDependents s path)) s)"
| release: "scWorkers s path = Some (Finishing (d # ds)) \<Longrightarrow> length (scReady s) < scCap s \<or> scClosed s \<Longrightarrow>
    sched_step s (setWorker path (Finishing ds) (releaseOne d s))"
| finished: "scWorkers s path = Some (Finishing []) \<Longrightarrow>
    sched_step s (setWorker path Ended (retire s))"

inductive_cases sched_stepE: "sched_step s s'"

text \<open>\<open>finish\<close> run without interruption.\<close>

definition finish :: "path \<Rightarrow> scheduler \<Rightarrow> scheduler" where
  "finish path s = retire (fold releaseOne (scDependents s path) s)"

section \<open>The units and their dependencies\<close>

definition units :: "snapshot \<Rightarrow> path set" where
  "units snap = {p. \<exists>pkg. snPackages snap p = Some pkg \<and> schedulableRoot snap pkg}"

definition depsOf :: "snapshot \<Rightarrow> path \<Rightarrow> path list" where
  "depsOf snap p = (case snPackages snap p of Some pkg \<Rightarrow> schedulableDepsOf snap p pkg | None \<Rightarrow> [])"

lemma depsOf_units: "d \<in> set (depsOf snap p) \<Longrightarrow> d \<in> units snap \<and> Before snap d p"
  by (auto simp: depsOf_def schedulableDepsOf_def units_def schedulableRoot_def split: option.splits)

lemma addDependents_count:
  "count_list (addDependents snap path ds d) p =
    count_list (ds d) p + (if p = path \<and> path \<in> units snap then count_list (depsOf snap path) d else 0)"
proof -
  have fold: "count_list (fold (\<lambda>dep ds. ds(dep := ds dep @ [path])) xs f d) p =
      count_list (f d) p + (if p = path then count_list xs d else 0)" for xs f p
    by (induction xs arbitrary: f) auto
  show ?thesis by (auto simp: addDependents_def units_def depsOf_def fold split: option.splits)
qed

lemma computeDependents_count:
  assumes "distinct ks"
  shows "count_list (computeDependents ks snap d) p =
    (if p \<in> set ks \<and> p \<in> units snap then count_list (depsOf snap p) d else 0)"
proof -
  have "count_list (fold (addDependents snap) ks f d) p = count_list (f d) p +
      (if p \<in> set ks \<and> p \<in> units snap then count_list (depsOf snap p) d else 0)" for f
    using assms by (induction ks arbitrary: f) (auto simp: addDependents_count)
  then show ?thesis by (simp add: computeDependents_def)
qed

lemma countPending_fold:
  assumes "distinct ks"
  shows "fst (fold (countPending snap) ks (m, t)) p =
      (if p \<in> set ks \<and> p \<in> units snap then Some (int (length (depsOf snap p))) else m p)"
    and "snd (fold (countPending snap) ks (m, t)) = t + card (set ks \<inter> units snap)"
  using assms
proof (induction ks arbitrary: m t)
  case (Cons k ks)
  have step: "countPending snap k (m, t) =
      (if k \<in> units snap then (m(k \<mapsto> int (length (depsOf snap k))), t + 1) else (m, t))" for m t
    by (auto simp: countPending_def units_def depsOf_def split: option.splits)
  { case 1 then show ?case using Cons.IH(1) by (auto simp: step) }
  { case 2 then show ?case using Cons.IH(2) by (auto simp: step) }
qed simp_all

section \<open>The invariant of a run\<close>

text \<open>How many decrements of \<open>p\<close>'s counter the unit \<open>d\<close> still has to make.\<close>

definition remaining :: "scheduler \<Rightarrow> path \<Rightarrow> path \<Rightarrow> nat" where
  "remaining s d p =
     (case scWorkers s d of
        Some Ended \<Rightarrow> 0
      | Some (Finishing ds) \<Rightarrow> count_list ds p
      | _ \<Rightarrow> count_list (scDependents s d) p)"

definition sched_inv :: "snapshot \<Rightarrow> scheduler \<Rightarrow> bool" where
  "sched_inv snap s \<longleftrightarrow>
     finite (units snap)
     \<and> (\<forall>d p. count_list (scDependents s d) p = (if p \<in> units snap then count_list (depsOf snap p) d else 0))
     \<and> (\<forall>p \<in> units snap. scPending s p = Some (\<Sum>d \<in> units snap. int (remaining s d p)))
     \<and> distinct (scReady s) \<and> set (scReady s) \<subseteq> units snap
     \<and> (\<forall>p \<in> set (scReady s). scWorkers s p = None)
     \<and> (\<forall>p \<in> units snap. (p \<in> set (scReady s) \<or> scWorkers s p \<noteq> None) = (pendingOf s p = 0))
     \<and> dom (scWorkers s) \<subseteq> units snap
     \<and> (\<forall>p ds. scWorkers s p = Some (Finishing ds) \<longrightarrow> set ds \<subseteq> units snap)
     \<and> scCap s = card (units snap)
     \<and> scLeft s = int (card {p \<in> units snap. scWorkers s p \<noteq> Some Ended})
     \<and> (scClosed s = (scLeft s = 0)) \<and> \<not> scPanicked s"

lemma sum_change_one:
  fixes f g :: "'a \<Rightarrow> int"
  assumes "finite A" and "a \<in> A" and "\<And>x. x \<in> A - {a} \<Longrightarrow> g x = f x"
  shows "sum g A = sum f A - f a + g a"
proof -
  have "sum g (A - {a}) = sum f (A - {a})" by (rule sum.cong) (use assms(3) in auto)
  then show ?thesis using sum.remove [OF assms(1,2), of f] sum.remove [OF assms(1,2), of g] by simp
qed

lemma pendingOf_sum:
  "sched_inv snap s \<Longrightarrow> p \<in> units snap \<Longrightarrow> pendingOf s p = (\<Sum>d \<in> units snap. int (remaining s d p))"
  by (simp add: sched_inv_def pendingOf_def)

lemma sched_invD:
  assumes "sched_inv snap s"
  shows "finite (units snap)"
    and "p \<in> units snap \<Longrightarrow> (p \<in> set (scReady s) \<or> scWorkers s p \<noteq> None) = (pendingOf s p = 0)"
    and "scWorkers s p = Some w \<Longrightarrow> p \<in> units snap"
    and "scLeft s = int (card {p \<in> units snap. scWorkers s p \<noteq> Some Ended})"
    and "scClosed s = (scLeft s = 0)" and "\<not> scPanicked s" and "scCap s = card (units snap)"
  using assms unfolding sched_inv_def by blast+

text \<open>A unit that is queued or started waits for nobody.\<close>

lemma remaining_zero:
  assumes inv: "sched_inv snap s" and p: "p \<in> units snap" and st: "p \<in> set (scReady s) \<or> scWorkers s p \<noteq> None"
    and d: "d \<in> units snap"
  shows "remaining s d p = 0"
proof -
  have "(\<Sum>d \<in> units snap. int (remaining s d p)) = 0"
    using sched_invD(2) [OF inv p] st pendingOf_sum [OF inv p] by simp
  then have "\<forall>d \<in> units snap. int (remaining s d p) = 0"
    by (subst (asm) sum_nonneg_eq_0_iff [OF sched_invD(1) [OF inv]]) simp_all
  then show ?thesis using d by simp
qed

lemma scLeft_pos:
  assumes inv: "sched_inv snap s" and w: "scWorkers s p = Some w" "w \<noteq> Ended"
  shows "0 < scLeft s" and "\<not> scClosed s" and "p \<in> units snap"
proof -
  show p: "p \<in> units snap" using sched_invD(3) [OF inv w(1)] .
  then have "{p \<in> units snap. scWorkers s p \<noteq> Some Ended} \<noteq> {}" using w by auto
  then show "0 < scLeft s" using sched_invD(1,4) [OF inv] by (simp add: card_gt_0_iff)
  then show "\<not> scClosed s" using sched_invD(5) [OF inv] by simp
qed

lemma setWorker_sel [simp]:
  "scPending (setWorker p w s) = scPending s" "scDependents (setWorker p w s) = scDependents s"
  "scReady (setWorker p w s) = scReady s" "scCap (setWorker p w s) = scCap s"
  "scLeft (setWorker p w s) = scLeft s" "scClosed (setWorker p w s) = scClosed s"
  "scPanicked (setWorker p w s) = scPanicked s"
  "scWorkers (setWorker p w s) = (scWorkers s)(p \<mapsto> w)"
  "pendingOf (setWorker p w s) = pendingOf s"
  by (simp_all add: setWorker_def pendingOf_def [abs_def])

lemma not_ended_upd:
  "w \<noteq> Ended \<Longrightarrow> p \<in> dom m \<longrightarrow> m p \<noteq> Some Ended \<Longrightarrow>
    {q \<in> U. (m(p \<mapsto> w)) q \<noteq> Some Ended} = {q \<in> U. m q \<noteq> Some Ended}"
  by (auto split: if_splits)

lemma inv_receive:
  assumes inv: "sched_inv snap s" and r: "scReady s = path # rest"
  shows "sched_inv snap (setWorker path Processing (s\<lparr>scReady := rest\<rparr>))"
proof -
  let ?s = "setWorker path Processing (s\<lparr>scReady := rest\<rparr>)"
  have path: "path \<in> units snap" "scWorkers s path = None" "path \<notin> set rest"
    using inv r by (auto simp: sched_inv_def)
  have rem: "remaining ?s d p = remaining s d p" for d p
    using path(2) by (auto simp: remaining_def split: option.splits worker.splits)
  have pend: "pendingOf ?s = pendingOf s" by (simp add: pendingOf_def [abs_def])
  have left: "{q \<in> units snap. scWorkers ?s q \<noteq> Some Ended} = {q \<in> units snap. scWorkers s q \<noteq> Some Ended}"
    using path(2) by auto
  show ?thesis
    unfolding sched_inv_def rem pend left
    using inv r path by (auto simp: sched_inv_def split: if_splits)
qed

lemma inv_job_done:
  assumes inv: "sched_inv snap s" and w: "scWorkers s path = Some Processing"
  shows "sched_inv snap (setWorker path (Finishing (scDependents s path)) s)"
proof -
  let ?s = "setWorker path (Finishing (scDependents s path)) s"
  have rem: "remaining ?s d p = remaining s d p" for d p
    using w by (auto simp: remaining_def split: option.splits worker.splits)
  have left: "{q \<in> units snap. scWorkers ?s q \<noteq> Some Ended} = {q \<in> units snap. scWorkers s q \<noteq> Some Ended}"
    using w by auto
  have ds: "set (scDependents s path) \<subseteq> units snap"
  proof
    fix p assume "p \<in> set (scDependents s path)"
    then have "count_list (scDependents s path) p \<noteq> 0" by (simp add: count_list_0_iff)
    then show "p \<in> units snap" using inv by (auto simp: sched_inv_def split: if_splits)
  qed
  have path: "path \<in> units snap" using inv w by (auto simp: sched_inv_def)
  show ?thesis
    unfolding sched_inv_def rem left
    using inv w ds path by (auto simp: sched_inv_def split: if_splits)
qed

lemma inv_release:
  assumes inv: "sched_inv snap s" and w: "scWorkers s path = Some (Finishing (d # ds))"
  shows "sched_inv snap (setWorker path (Finishing ds) (releaseOne d s))"
    and "length (scReady s) < scCap s"
proof -
  let ?U = "units snap"
  let ?n = "\<Sum>x \<in> ?U. int (remaining s x d)"
  have open': "\<not> scClosed s" "path \<in> ?U" using scLeft_pos [OF inv w] by simp_all
  have "set (d # ds) \<subseteq> ?U" using inv w unfolding sched_inv_def by blast
  then have d: "d \<in> ?U" "set ds \<subseteq> ?U" by simp_all
  have pd: "scPending s d = Some ?n" using inv d by (simp add: sched_inv_def)
  have fin: "finite ?U" using inv by (simp add: sched_inv_def)
  have "int (remaining s path d) \<le> ?n"
    by (rule member_le_sum [OF open'(2) _ fin]) simp
  moreover have "1 \<le> remaining s path d" using w by (simp add: remaining_def)
  ultimately have pos: "1 \<le> ?n" by linarith
  then have new: "d \<notin> set (scReady s)" "scWorkers s d = None"
    using inv d pd by (auto simp: sched_inv_def pendingOf_def)
  have room: "length (d # scReady s) \<le> card ?U"
    using inv d new(1) card_mono [OF fin, of "set (d # scReady s)"] distinct_card [of "d # scReady s"]
    by (simp add: sched_inv_def)
  then show "length (scReady s) < scCap s" using inv by (simp add: sched_inv_def)
  define s' where "s' = setWorker path (Finishing ds) (releaseOne d s)"
  have s': "scPending s' = (scPending s)(d \<mapsto> ?n - 1)" "scDependents s' = scDependents s"
    "scReady s' = (if ?n = 1 then scReady s @ [d] else scReady s)" "scCap s' = scCap s"
    "scLeft s' = scLeft s" "scClosed s' = scClosed s" "scPanicked s' = scPanicked s"
    "scWorkers s' = (scWorkers s)(path \<mapsto> Finishing ds)"
    using open' by (simp_all add: s'_def releaseOne_def pd sendReady_def Let_def)
  have "path \<noteq> d" using new(2) w by auto
  have rem: "remaining s' x p = (if x = path \<and> p = d then remaining s x p - 1 else remaining s x p)" for x p
    using w by (auto simp: remaining_def s' split: option.splits worker.splits)
  have sums: "(\<Sum>x \<in> ?U. int (remaining s' x p)) =
      (if p = d then ?n - 1 else (\<Sum>x \<in> ?U. int (remaining s x p)))" for p
  proof (cases "p = d")
    case True
    have "(\<Sum>x \<in> ?U. int (remaining s' x d)) = ?n - int (remaining s path d) + int (remaining s' path d)"
      by (rule sum_change_one [OF fin open'(2)]) (simp add: rem)
    then show ?thesis using True \<open>1 \<le> remaining s path d\<close> by (simp add: rem of_nat_diff)
  qed (simp add: rem)
  have pend: "pendingOf s' p = (if p = d then ?n - 1 else pendingOf s p)" for p
    by (simp add: pendingOf_def s')
  have left: "{q \<in> ?U. scWorkers s' q \<noteq> Some Ended} = {q \<in> ?U. scWorkers s q \<noteq> Some Ended}"
    using w by (auto simp: s')
  have pending: "\<forall>p \<in> ?U. scPending s' p = Some (\<Sum>x \<in> ?U. int (remaining s' x p))"
    unfolding sums using inv by (simp add: s' sched_inv_def)
  have parts: "distinct (scReady s)" "set (scReady s) \<subseteq> ?U" "\<forall>p \<in> set (scReady s). scWorkers s p = None"
    "\<forall>p \<in> ?U. (p \<in> set (scReady s) \<or> scWorkers s p \<noteq> None) = (pendingOf s p = 0)"
    using inv by (simp_all add: sched_inv_def)
  have ready: "distinct (scReady s')" "set (scReady s') \<subseteq> ?U" "\<forall>p \<in> set (scReady s'). scWorkers s' p = None"
    using parts(1-3) d new w \<open>path \<noteq> d\<close> by (auto simp: s')
  have started: "(p \<in> set (scReady s') \<or> scWorkers s' p \<noteq> None) = (pendingOf s' p = 0)" if "p \<in> ?U" for p
  proof (cases "p = d")
    case True
    then show ?thesis using new \<open>path \<noteq> d\<close> pos by (auto simp: s' pend)
  next
    case False
    then show ?thesis using bspec [OF parts(4) that] w by (auto simp: s' pend)
  qed
  have "\<forall>p ds'. scWorkers s' p = Some (Finishing ds') \<longrightarrow> set ds' \<subseteq> ?U"
    using inv d(2) by (simp add: s' sched_inv_def)
  moreover have "dom (scWorkers s') \<subseteq> ?U" using inv open'(2) by (simp add: s' sched_inv_def)
  ultimately have "sched_inv snap s'"
    unfolding sched_inv_def left using pending ready started inv by (simp add: s'(2,4-7) sched_inv_def)
  then show "sched_inv snap (setWorker path (Finishing ds) (releaseOne d s))" by (simp add: s'_def)
qed

lemma inv_finished:
  assumes inv: "sched_inv snap s" and w: "scWorkers s path = Some (Finishing [])"
  shows "sched_inv snap (setWorker path Ended (retire s))"
proof -
  let ?U = "units snap"
  define s' where "s' = setWorker path Ended (retire s)"
  have p: "0 < scLeft s" "\<not> scClosed s" "path \<in> ?U" using scLeft_pos [OF inv w] by simp_all
  have fin: "finite {q \<in> ?U. scWorkers s q \<noteq> Some Ended}" using inv by (simp add: sched_inv_def)
  have s': "scPending s' = scPending s" "scDependents s' = scDependents s" "scReady s' = scReady s"
    "scCap s' = scCap s" "scLeft s' = scLeft s - 1" "scClosed s' = (scLeft s - 1 = 0)"
    "scPanicked s' = scPanicked s" "scWorkers s' = (scWorkers s)(path \<mapsto> Ended)"
    "pendingOf s' = pendingOf s"
    using p by (simp_all add: s'_def retire_def closeReady_def Let_def pendingOf_def [abs_def])
  have rem: "remaining s' x q = remaining s x q" for x q
    using w by (auto simp: remaining_def s' split: option.splits worker.splits)
  have "{q \<in> ?U. scWorkers s' q \<noteq> Some Ended} = {q \<in> ?U. scWorkers s q \<noteq> Some Ended} - {path}"
    by (auto simp: s')
  then have left: "int (card {q \<in> ?U. scWorkers s' q \<noteq> Some Ended}) = scLeft s - 1"
    using inv fin p w by (simp add: sched_inv_def card_Diff_singleton)
  have "sched_inv snap s'"
    unfolding sched_inv_def rem left
    using inv w p by (auto simp: s' sched_inv_def split: if_splits)
  then show ?thesis by (simp add: s'_def)
qed

lemma sched_step_inv: "sched_step s s' \<Longrightarrow> sched_inv snap s \<Longrightarrow> sched_inv snap s'"
  by (erule sched_stepE) (simp_all add: inv_receive inv_job_done inv_release inv_finished)

section \<open>Starting, progress and termination\<close>

lemma sum_count_list:
  "finite U \<Longrightarrow> set xs \<subseteq> U \<Longrightarrow> (\<Sum>d \<in> U. int (count_list xs d)) = int (length xs)"
  by (metis of_nat_sum sum_count_set)

lemma newScheduler_inv:
  assumes ks: "distinct ks" "set ks = dom (snPackages snap)"
    and ds: "distinct ds" "set ds = dom (snPackages snap)"
    and rs: "distinct rs" "set rs = units snap"
  shows "sched_inv snap (fst (newScheduler ds ks rs snap))"
proof -
  let ?U = "units snap"
  have U: "?U \<subseteq> set ks" "set ks \<inter> ?U = ?U" "finite ?U"
    using ks(2) rs(2) finite_set [of rs] by (auto simp: units_def)
  define m where "m = fst (fold (countPending snap) ks (Map.empty, 0))"
  have m: "m p = (if p \<in> ?U then Some (int (length (depsOf snap p))) else None)" for p
    unfolding m_def using U(1) by (auto simp: countPending_fold(1) [OF ks(1)])
  have t: "snd (fold (countPending snap) ks (Map.empty, 0)) = card ?U"
    using U(2) by (simp add: countPending_fold(2) [OF ks(1)])
  define s where "s = fst (newScheduler ds ks rs snap)"
  have s: "scPending s = m" "scDependents s = computeDependents ds snap"
    "scReady s = filter (\<lambda>p. m p = Some 0) rs" "scCap s = card ?U" "scLeft s = int (card ?U)"
    "scClosed s = (card ?U = 0)" "\<not> scPanicked s" "scWorkers s = Map.empty"
    using rs U(3)
    by (auto simp: s_def newScheduler_def Let_def case_prod_beta m_def [symmetric] t filter_empty_conv)
  have dep: "count_list (scDependents s d) p = (if p \<in> ?U then count_list (depsOf snap p) d else 0)" for d p
    using U(1) ks ds by (auto simp: s(2) computeDependents_count [OF ds(1)])
  have pend: "scPending s p = Some (\<Sum>d \<in> ?U. int (remaining s d p))" if "p \<in> ?U" for p
  proof -
    have "(\<Sum>d \<in> ?U. int (remaining s d p)) = (\<Sum>d \<in> ?U. int (count_list (depsOf snap p) d))"
      using that dep by (simp add: remaining_def s(8))
    also have "\<dots> = int (length (depsOf snap p))"
      using depsOf_units by (intro sum_count_list [OF U(3)]) blast
    finally show ?thesis using that by (simp add: s(1) m)
  qed
  have "sched_inv snap s"
    unfolding sched_inv_def using dep pend U(3) rs
    by (auto simp: s pendingOf_def m split: if_splits)
  then show ?thesis by (simp add: s_def)
qed

text \<open>A run that has not processed everything can always go on: nothing deadlocks.\<close>

lemma sched_progress:
  assumes inv: "sched_inv snap s" and left: "\<exists>p \<in> units snap. scWorkers s p \<noteq> Some Ended"
  shows "\<exists>s'. sched_step s s'"
proof (rule ccontr)
  assume stuck: "\<not> (\<exists>s'. sched_step s s')"
  let ?A = "{p \<in> units snap. scWorkers s p \<noteq> Some Ended}"
  have fin: "finite ?A" using inv by (simp add: sched_inv_def)
  have nil: "scReady s = []" using stuck receive [of s] by (cases "scReady s") auto
  have none: "scWorkers s p = None \<or> scWorkers s p = Some Ended" for p
  proof (cases "scWorkers s p")
    case (Some w)
    show ?thesis
    proof (cases w)
      case Processing
      then show ?thesis using Some stuck job_done [of s p] by auto
    next
      case (Finishing ds)
      have room: "length (scReady s) < scCap s" if "ds = d # ds'" for d ds'
        using Some Finishing that inv_release(2) [OF inv] by blast
      show ?thesis using Some Finishing stuck finished [of s p] release [of s p] room
        by (cases ds) blast+
    qed (simp add: Some)
  qed simp
  obtain p where p: "p \<in> ?A" "\<And>q. q \<in> ?A \<Longrightarrow> \<not> Before snap q p"
    using snapshot_before.minimal_exists [OF fin, of snap] left by blast
  have "remaining s d p = 0" if "d \<in> units snap" for d
  proof (cases "scWorkers s d = Some Ended")
    case False
    then have "d \<in> ?A" "scWorkers s d = None" using that none by auto
    then have "count_list (depsOf snap p) d = 0"
      using p(2) [of d] depsOf_units [of d snap p] by (auto simp: count_list_0_iff)
    then show ?thesis
      using \<open>scWorkers s d = None\<close> inv p(1) by (simp add: remaining_def sched_inv_def)
  qed (simp add: remaining_def)
  then have "pendingOf s p = 0" using pendingOf_sum [OF inv] p(1) by simp
  then have "scWorkers s p \<noteq> None" using inv p(1) nil by (simp add: sched_inv_def)
  then show False using none [of p] p(1) by auto
qed

text \<open>Every step uses up some of a finite amount of work, so every run ends.\<close>

definition workOf :: "scheduler \<Rightarrow> path \<Rightarrow> nat" where
  "workOf s p =
     (case scWorkers s p of
        None \<Rightarrow> length (scDependents s p) + 3
      | Some Processing \<Rightarrow> length (scDependents s p) + 2
      | Some (Finishing ds) \<Rightarrow> length ds + 1
      | Some Ended \<Rightarrow> 0)"

definition work :: "snapshot \<Rightarrow> scheduler \<Rightarrow> nat" where
  "work snap s = (\<Sum>p \<in> units snap. workOf s p)"

lemma releaseOne_same [simp]:
  "scWorkers (releaseOne d s) = scWorkers s" "scDependents (releaseOne d s) = scDependents s"
  "scWorkers (retire s) = scWorkers s" "scDependents (retire s) = scDependents s"
  by (simp_all add: releaseOne_def sendReady_def retire_def closeReady_def Let_def split: option.splits)

lemma work_setWorker:
  assumes "finite (units snap)" and "p \<in> units snap"
    and same: "scWorkers s' = scWorkers s" "scDependents s' = scDependents s"
    and less: "workOf (setWorker p w s') p < workOf s p"
  shows "work snap (setWorker p w s') < work snap s"
  unfolding work_def
proof (rule sum_strict_mono_ex1 [OF assms(1)])
  show "\<forall>q \<in> units snap. workOf (setWorker p w s') q \<le> workOf s q"
    using less same by (auto simp: workOf_def split: option.splits worker.splits)
  show "\<exists>q \<in> units snap. workOf (setWorker p w s') q < workOf s q" using assms(2) less by blast
qed

lemma sched_step_work:
  assumes "sched_step s s'" and inv: "sched_inv snap s"
  shows "work snap s' < work snap s"
proof -
  have fin: "finite (units snap)" using inv by (simp add: sched_inv_def)
  have mem: "p \<in> units snap" if "scWorkers s p = Some w" for p w
    using inv that by (auto simp: sched_inv_def)
  have ready: "p \<in> units snap \<and> scWorkers s p = None" if "scReady s = p # r" for p r
    using inv that by (auto simp: sched_inv_def)
  from assms(1) show ?thesis
  proof (cases rule: sched_step.cases)
    case (receive path rest)
    then show ?thesis
      using ready [OF receive(2)] by (auto intro!: work_setWorker [OF fin] simp: workOf_def)
  next
    case (job_done path)
    then show ?thesis using mem [OF job_done(2)] by (auto intro!: work_setWorker [OF fin] simp: workOf_def)
  next
    case (release path d ds)
    then show ?thesis using mem [OF release(2)] by (auto intro!: work_setWorker [OF fin] simp: workOf_def)
  next
    case (finished path)
    then show ?thesis using mem [OF finished(2)] by (auto intro!: work_setWorker [OF fin] simp: workOf_def)
  qed
qed

section \<open>The contract of a build run\<close>

text \<open>The orders in which Go may enumerate the maps of one snapshot.\<close>

definition enumerates :: "path list \<Rightarrow> path list \<Rightarrow> path list \<Rightarrow> snapshot \<Rightarrow> bool" where
  "enumerates ds ks rs snap \<longleftrightarrow> distinct ds \<and> set ds = dom (snPackages snap)
     \<and> distinct ks \<and> set ks = dom (snPackages snap) \<and> distinct rs \<and> set rs = units snap"

lemma reachable_inv:
  assumes "enumerates ds ks rs snap" and "sched_step\<^sup>*\<^sup>* (fst (newScheduler ds ks rs snap)) s"
  shows "sched_inv snap s"
  using assms(2)
proof (induction rule: rtranclp_induct)
  case base
  then show ?case using assms(1) by (intro newScheduler_inv) (simp_all add: enumerates_def)
next
  case (step s s')
  then show ?case by (blast intro: sched_step_inv)
qed


definition sample_snapshot :: snapshot where
  "sample_snapshot = newSnapshot sample_paths sample_packages []"

lemma sample_units: "units sample_snapshot = dom sample_packages"
  by (auto simp: units_def sample_snapshot_def newSnapshot_def Let_def schedulableRoot_def
      sample_packages_def sample_package_def split: if_splits)

lemma sample_enumerates: "enumerates sample_paths sample_paths sample_paths sample_snapshot"
  using sample_scope
  by (simp add: enumerates_def sample_units) (simp add: sample_snapshot_def newSnapshot_def Let_def)


text \<open>
  C15. A build run always ends: no infinite sequence of steps exists, a state from which no step
  is possible has every package processed, the queue empty and the channel closed (so the
  dispatch loop of \<open>Build\<close> leaves its range and waits for goroutines that have all ended).
\<close>

theorem scheduler_terminates:
  assumes "enumerates ds ks rs snap"
  shows "(\<nexists>run. run 0 = fst (newScheduler ds ks rs snap) \<and> (\<forall>i. sched_step (run i) (run (Suc i))))
    \<and> (\<forall>s. sched_step\<^sup>*\<^sup>* (fst (newScheduler ds ks rs snap)) s \<and> (\<nexists>s'. sched_step s s')
        \<longrightarrow> (\<forall>p \<in> units snap. scWorkers s p = Some Ended) \<and> scReady s = [] \<and> scClosed s)"
proof (intro conjI allI impI notI)
  assume "\<exists>run. run 0 = fst (newScheduler ds ks rs snap) \<and> (\<forall>i. sched_step (run i) (run (Suc i)))"
  then obtain run where run: "run 0 = fst (newScheduler ds ks rs snap)"
    "\<And>i. sched_step (run i) (run (Suc i))" by blast
  have inv: "sched_inv snap (run i)" for i
  proof (induction i)
    case 0
    show ?case unfolding run(1) by (rule reachable_inv [OF assms]) simp
  next
    case (Suc i)
    then show ?case using sched_step_inv [OF run(2)] by blast
  qed
  have "work snap (run i) + i \<le> work snap (run 0)" for i
  proof (induction i)
    case (Suc i)
    then show ?case using sched_step_work [OF run(2) inv, of i] by simp
  qed simp
  from this [of "Suc (work snap (run 0))"] show False by simp
next
  fix s
  assume s: "sched_step\<^sup>*\<^sup>* (fst (newScheduler ds ks rs snap)) s \<and> (\<nexists>s'. sched_step s s')"
  then have inv: "sched_inv snap s" using reachable_inv [OF assms] by blast
  show all: "\<forall>p \<in> units snap. scWorkers s p = Some Ended"
    using sched_progress [OF inv] s by blast
  then have none: "{p \<in> units snap. scWorkers s p \<noteq> Some Ended} = {}" by blast
  show "scClosed s" unfolding sched_invD(5) [OF inv] sched_invD(4) [OF inv] none by simp
  show "scReady s = []" using s receive [of s] by (cases "scReady s") auto
qed

theorem scheduler_terminates_witness:
  "enumerates sample_paths sample_paths sample_paths sample_snapshot
    \<and> (\<nexists>run. run 0 = fst (newScheduler sample_paths sample_paths sample_paths sample_snapshot)
         \<and> (\<forall>i. sched_step (run i) (run (Suc i))))"
  using scheduler_terminates [OF sample_enumerates] sample_enumerates by blast

end
