(* ===== verification/Index_Unit.thy ===== *)
theory Index_Unit
  imports Cas Scheduler
begin

text \<open>
  The processing of one package by the indexer: content hashes and file stats
  (\<open>index/content_hash.go\<close>), unit keys and the table of the keys known in a run
  (\<open>index/unitkey.go\<close>), the export data given to the type checker (\<open>index/export_source.go\<close>), the
  files of a package (\<open>index/testfiles.go\<close>) and \<open>processUnit\<close> (\<open>index/unit.go\<close>) with its recovery
  of panics (\<open>index/index.go\<close>).

  The environment of a run holds what is fixed while it lasts: the graph, the options, the file
  system as the code reads it, and the results of the type checker. \<open>enCheck\<close> stands for
  \<open>checkOnePackage\<close>, which calls \<open>go/parser\<close> and \<open>go/types\<close> and extracts the facts from their
  objects; it is given the files, the reader and the export data of the packages it imports.
\<close>

section \<open>Hashes\<close>

definition fnvOffset :: u64 where "fnvOffset = 14695981039346656037"
definition fnvPrime :: u64 where "fnvPrime = 1099511628211"

text \<open>\<open>hash/fnv\<close>'s 64-bit FNV-1a of the bytes written.\<close>

definition fnv64a :: "bytes \<Rightarrow> u64" where
  "fnv64a bs = fold (\<lambda>b h. xor h (ucast b) * fnvPrime) bs fnvOffset"

definition Hash :: "bytes \<Rightarrow> u64" where
  "Hash s = fnv64a s"

definition BuildSymbolID :: "bytes \<Rightarrow> bytes \<Rightarrow> bytes" where
  "BuildSymbolID pkgPath objPath = pkgPath @ lit ''#'' @ objPath"

definition hashExport :: "bytes \<Rightarrow> u64" where
  "hashExport export = fnv64a export"

definition factsSchemaVersion :: u16 where "factsSchemaVersion = 4"

record dep_export_entry =
  deePath :: path
  deeExportHash :: u64

definition unitKeyBytes :: "u64 \<Rightarrow> dep_export_entry list \<Rightarrow> bytes" where
  "unitKeyBytes ownContentHash deps =
     put_u16 factsSchemaVersion @ put_u64 ownContentHash @ [0]
       @ concat (map (\<lambda>d. deePath d @ [0] @ put_u64 (deeExportHash d) @ [0]) deps)"

definition computeUnitKey :: "u64 \<Rightarrow> dep_export_entry list \<Rightarrow> u64" where
  "computeUnitKey ownContentHash deps = fnv64a (unitKeyBytes ownContentHash (sort_key deePath deps))"

section \<open>Environment and state\<close>

datatype index_error =
    StoreError store_error
  | ReadFailed bytes                       \<comment> \<open>a file that cannot be read for its content hash\<close>
  | DepFailed path path index_error        \<comment> \<open>a dependency that failed earlier in this run\<close>
  | DepUnknown path path                   \<comment> \<open>a dependency with no recorded key\<close>
  | CheckError nat                         \<comment> \<open>the type checker or the facts extraction failed\<close>
  | RecoveredPanic path
  | UnknownPackage path
  | Canceled

record check_result =
  crFacts :: bytes
  crExport :: bytes
  crIndex :: package_index_entries
  crIncomplete :: bool

type_synonym file_reader = "bytes \<Rightarrow> bytes option"

record 't index_env =
  enBolt :: "'t bolt"
  enLower :: "bytes \<Rightarrow> bytes"                        \<comment> \<open>Unicode case mapping beyond ASCII\<close>
  enSnap :: snapshot
  enToolchain :: bytes
  enFlags :: bytes
  enRelative :: bool
  enRel :: "bytes \<Rightarrow> bytes \<Rightarrow> bytes option"           \<comment> \<open>\<open>filepath.Rel\<close>\<close>
  enJoin :: "bytes \<Rightarrow> bytes \<Rightarrow> bytes"                 \<comment> \<open>\<open>filepath.Join\<close>\<close>
  enDisk :: file_reader
  enStat :: "bytes \<Rightarrow> (i64 \<times> i64) option"            \<comment> \<open>size and modification time\<close>
  enReadDir :: "bytes \<Rightarrow> (bytes \<times> bool) list option"  \<comment> \<open>names, and whether each is a directory\<close>
  enClause :: "bytes \<Rightarrow> bytes option"                \<comment> \<open>the package clause of a source text\<close>
  enCheck :: "path \<Rightarrow> bytes list \<Rightarrow> bytes list \<Rightarrow> file_reader \<Rightarrow> (path \<Rightarrow> (store_error, bytes option) go)
    \<Rightarrow> (index_error, check_result) go"
  enAsks :: "path \<Rightarrow> path list"                      \<comment> \<open>the imports the checker resolves, in order\<close>
  enPutIO :: "path \<Rightarrow> put_io"
  enReadErr :: "u64 \<Rightarrow> nat option"

record unit_key_record =
  ukBlobKey :: u64
  ukExportHash :: u64

text \<open>The mutable parts: the database, the blob store, the key table and the exports of this run.\<close>

record 't index_run =
  irBolt :: 't
  irCAS :: cas_files
  irKeys :: "path \<rightharpoonup> unit_key_record"
  irFailed :: "path \<rightharpoonup> index_error"
  irExports :: "path \<rightharpoonup> bytes"

section \<open>Files\<close>

definition relPath :: "'t index_env \<Rightarrow> bytes \<Rightarrow> bytes \<Rightarrow> bytes" where
  "relPath env root path =
     (case enRel env root path of
        None \<Rightarrow> path
      | Some rel \<Rightarrow> if prefix (lit ''..'') rel then path else rel)"

definition recordedPath :: "'t index_env \<Rightarrow> bytes \<Rightarrow> bytes" where
  "recordedPath env f = (if enRelative env then relPath env (snDir (enSnap env)) f else f)"

fun contentBytes :: "(bytes \<Rightarrow> bytes) \<Rightarrow> file_reader \<Rightarrow> bytes list \<Rightarrow> (index_error, bytes) go" where
  "contentBytes key readFile [] = Ok []"
| "contentBytes key readFile (f # fs) =
     (case readFile f of
        None \<Rightarrow> Err (ReadFailed f)
      | Some data \<Rightarrow> go_bind (contentBytes key readFile fs) (\<lambda>rest. Ok (key f @ [0] @ data @ [0] @ rest)))"

definition contentHash :: "'t index_env \<Rightarrow> file_reader \<Rightarrow> bytes list \<Rightarrow> (index_error, u64) go" where
  "contentHash env readFile goFiles =
     go_bind (contentBytes (recordedPath env) readFile (sort goFiles)) (\<lambda>bs. Ok (fnv64a (enFlags env @ [0] @ bs)))"

fun statFiles :: "'t index_env \<Rightarrow> bytes list \<Rightarrow> file_stat list option" where
  "statFiles env [] = Some []"
| "statFiles env (f # fs) =
     (case enStat env f of
        None \<Rightarrow> None
      | Some (sz, mtime) \<Rightarrow>
          map_option (\<lambda>out. \<lparr>fsPath = recordedPath env f, fsSize = sz, fsModTimeNanos = mtime\<rparr> # out) (statFiles env fs))"

definition statByPath :: "'t index_env \<Rightarrow> file_stat list \<Rightarrow> bytes \<rightharpoonup> file_stat" where
  "statByPath env stored =
     fold (\<lambda>fs m. m((if enRelative env then enJoin env (snDir (enSnap env)) (fsPath fs) else fsPath fs) \<mapsto> fs)) stored Map.empty"

definition filesStatMatch :: "'t index_env \<Rightarrow> bytes list \<Rightarrow> file_stat list \<Rightarrow> bool" where
  "filesStatMatch env goFiles stored \<longleftrightarrow> length goFiles = length stored
     \<and> list_all (\<lambda>f. case enStat env f of
          None \<Rightarrow> False
        | Some (sz, mtime) \<Rightarrow>
            (case statByPath env stored f of
               None \<Rightarrow> False
             | Some want \<Rightarrow> fsSize want = sz \<and> fsModTimeNanos want = mtime)) goFiles"

definition isTestGoFile :: "bytes \<Rightarrow> bool" where
  "isTestGoFile base \<longleftrightarrow> suffix (lit ''_test.go'') base \<and> \<not> prefix (lit ''.'') base \<and> \<not> prefix (lit ''_'') base"

definition packageClauseName :: "'t index_env \<Rightarrow> file_reader \<Rightarrow> bytes \<Rightarrow> bytes option" where
  "packageClauseName env reader path = (case reader path of None \<Rightarrow> None | Some src \<Rightarrow> enClause env src)"

fun canonicalPackageName :: "'t index_env \<Rightarrow> file_reader \<Rightarrow> bytes list \<Rightarrow> bytes option" where
  "canonicalPackageName env reader [] = None"
| "canonicalPackageName env reader (f # fs) =
     (case packageClauseName env reader f of Some name \<Rightarrow> Some name | None \<Rightarrow> canonicalPackageName env reader fs)"

definition testFilesInPackage :: "'t index_env \<Rightarrow> file_reader \<Rightarrow> package \<Rightarrow> bytes list" where
  "testFilesInPackage env reader pkg =
     (if pkForTest pkg \<noteq> [] then []
      else case canonicalPackageName env reader (pkGoFiles pkg) of
        None \<Rightarrow> []
      | Some name \<Rightarrow>
          (case enReadDir env (pkDir pkg) of
             None \<Rightarrow> []
           | Some entries \<Rightarrow>
               sort (filter (\<lambda>path. packageClauseName env reader path = Some name)
                 (map (\<lambda>(n, d). enJoin env (pkDir pkg) n) (filter (\<lambda>(n, d). \<not> d \<and> isTestGoFile n) entries)))))"

definition effectiveGoFiles :: "bytes list \<Rightarrow> bytes list \<Rightarrow> bytes list" where
  "effectiveGoFiles goFiles testFiles = (if testFiles = [] then goFiles else goFiles @ testFiles)"

section \<open>The key table\<close>

definition keysSet :: "path \<Rightarrow> unit_key_record \<Rightarrow> 't index_run \<Rightarrow> 't index_run" where
  "keysSet p r st = st\<lparr>irKeys := (irKeys st)(p \<mapsto> r)\<rparr>"

definition keysFail :: "path \<Rightarrow> index_error \<Rightarrow> 't index_run \<Rightarrow> 't index_run" where
  "keysFail p e st = st\<lparr>irFailed := (irFailed st)(p \<mapsto> e)\<rparr>"

definition keysFailure :: "path \<Rightarrow> 't index_run \<Rightarrow> index_error option" where
  "keysFailure p st = irFailed st p"

definition keysGet :: "'t index_env \<Rightarrow> path \<Rightarrow> 't index_run \<Rightarrow> unit_key_record option \<times> 't index_run" where
  "keysGet env p st =
     (case irKeys st p of
        Some r \<Rightarrow> (Some r, st)
      | None \<Rightarrow>
          if irFailed st p \<noteq> None then (None, st)
          else (case GetUnit (enBolt env) False (Hash p) (irBolt st) of
                  Ok u \<Rightarrow> (let r = \<lparr>ukBlobKey = upBlobKey u, ukExportHash = upExportHash u\<rparr> in (Some r, keysSet p r st))
                | _ \<Rightarrow> (None, st)))"

text \<open>A record read from the database is returned again even after the package has failed.\<close>

lemma keysGet_after_fail:
  "fst (keysGet env p st) = Some r \<Longrightarrow> fst (keysGet env p (keysFail p e (snd (keysGet env p st)))) = Some r"
  by (auto simp: keysGet_def keysFail_def keysSet_def Let_def split: option.splits go.splits if_splits)

section \<open>Export data for the type checker\<close>

definition exportsPut :: "path \<Rightarrow> bytes \<Rightarrow> 't index_run \<Rightarrow> 't index_run" where
  "exportsPut p blob st = st\<lparr>irExports := (irExports st)(p \<mapsto> blob)\<rparr>"

definition ExportData :: "'t index_env \<Rightarrow> path \<Rightarrow> 't index_run \<Rightarrow> (store_error, bytes option) go \<times> 't index_run" where
  "ExportData env p st =
     (case irExports st p of
        Some blob \<Rightarrow> (Ok (if blob = [] then None else Some blob), st)
      | None \<Rightarrow>
          (case keysGet env p st of
             (None, st') \<Rightarrow> (Ok None, st')
           | (Some r, st') \<Rightarrow>
               (case casGet False (enReadErr env (ukBlobKey r)) (irCAS st') (ukBlobKey r) of
                  Ok (Some blob) \<Rightarrow>
                    (go_bind (DecodeUnitBlob blob) (\<lambda>u. Ok (if ubExport u = [] then None else Some (ubExport u))), st')
                | Ok None \<Rightarrow> (Ok None, st')
                | Err e \<Rightarrow> (Err e, st')
                | Panic \<Rightarrow> (Panic, st'))))"

section \<open>One package\<close>

record unit_outcome =
  uoPkgHash :: u64
  uoEntry :: "unit_entry option"
  uoPtrRefresh :: "unit_pointer option"
  uoIncomplete :: bool

definition directDepImports :: "snapshot \<Rightarrow> package \<Rightarrow> path list" where
  "directDepImports snap pkg =
     filter (\<lambda>imp. (case snPackages snap imp of None \<Rightarrow> False | Some d \<Rightarrow> pkRoot d \<and> pkGoFiles d \<noteq> [])
         \<and> Before snap imp (pkImportPath pkg)) (pkImports pkg @ pkTestImports pkg)"

fun depExports :: "'t index_env \<Rightarrow> path \<Rightarrow> path list \<Rightarrow> 't index_run
    \<Rightarrow> (index_error, dep_export_entry list) go \<times> 't index_run" where
  "depExports env pkgPath [] st = (Ok [], st)"
| "depExports env pkgPath (imp # imps) st =
     (case keysGet env imp st of
        (None, st') \<Rightarrow>
          (Err (case keysFailure imp st' of Some e \<Rightarrow> DepFailed imp pkgPath e | None \<Rightarrow> DepUnknown imp pkgPath), st')
      | (Some r, st') \<Rightarrow>
          (case depExports env pkgPath imps st' of
             (res, st'') \<Rightarrow> (go_bind res (\<lambda>ds. Ok (\<lparr>deePath = imp, deeExportHash = ukExportHash r\<rparr> # ds)), st'')))"

definition directDepExports :: "'t index_env \<Rightarrow> package \<Rightarrow> 't index_run
    \<Rightarrow> (index_error, dep_export_entry list) go \<times> 't index_run" where
  "directDepExports env pkg st = depExports env (pkImportPath pkg) (directDepImports (enSnap env) pkg) st"

definition resolveOwnHash :: "'t index_env \<Rightarrow> file_reader \<Rightarrow> bytes list \<Rightarrow> bool \<Rightarrow> u64 \<Rightarrow> (index_error, u64) go" where
  "resolveOwnHash env reader goFiles statOK oldContentHash =
     (if statOK then Ok oldContentHash else contentHash env reader goFiles)"

definition unchangedOutcome :: "'t index_env \<Rightarrow> path \<Rightarrow> unit_pointer \<Rightarrow> bytes list \<Rightarrow> bool \<Rightarrow> bool \<Rightarrow> 't index_run
    \<Rightarrow> unit_outcome option \<times> 't index_run" where
  "unchangedOutcome env path old effectiveFiles statOK trustStat st =
     (let st' = keysSet path \<lparr>ukBlobKey = upBlobKey old, ukExportHash = upExportHash old\<rparr> st
      in (if statOK \<or> \<not> trustStat then None
          else map_option (\<lambda>files. \<lparr>uoPkgHash = Hash path, uoEntry = None,
                 uoPtrRefresh = Some (old\<lparr>upFiles := files\<rparr>), uoIncomplete = False\<rparr>) (statFiles env effectiveFiles),
          st'))"

definition entryOutcome :: "'t index_env \<Rightarrow> path \<Rightarrow> u64 \<Rightarrow> u64 \<Rightarrow> bytes \<Rightarrow> file_stat list \<Rightarrow> package_index_entries \<Rightarrow> bool
    \<Rightarrow> 't index_run \<Rightarrow> unit_outcome \<times> 't index_run" where
  "entryOutcome env path combined ownHash export files idx incomplete st =
     (let eh = hashExport export
      in (\<lparr>uoPkgHash = Hash path,
           uoEntry = Some \<lparr>uePkgHash = Hash path,
             uePointer = \<lparr>upBlobKey = combined, upContentHash = ownHash, upExportHash = eh,
               upToolchainFingerprint = enToolchain env, upFiles = files\<rparr>,
             ueIndex = idx\<rparr>,
           uoPtrRefresh = None, uoIncomplete = incomplete\<rparr>,
          keysSet path \<lparr>ukBlobKey = combined, ukExportHash = eh\<rparr> (exportsPut path export st)))"

definition casHitOutcome :: "'t index_env \<Rightarrow> path \<Rightarrow> u64 \<Rightarrow> u64 \<Rightarrow> bytes \<Rightarrow> 't index_run
    \<Rightarrow> (index_error, unit_outcome) go \<times> 't index_run" where
  "casHitOutcome env path combined ownHash blob st =
     (case DecodeUnitBlob blob of
        Ok u \<Rightarrow> (let (o', st') = entryOutcome env path combined ownHash (ubExport u) (ubFiles u) (ubIndex u) False st in (Ok o', st'))
      | Err e \<Rightarrow> (Err (StoreError e), st)
      | Panic \<Rightarrow> (Panic, st))"

definition checkAndStoreOutcome :: "'t index_env \<Rightarrow> file_reader \<Rightarrow> bool \<Rightarrow> path \<Rightarrow> package \<Rightarrow> bytes list \<Rightarrow> u64 \<Rightarrow> u64
    \<Rightarrow> 't index_run \<Rightarrow> (index_error, unit_outcome) go \<times> 't index_run" where
  "checkAndStoreOutcome env reader trustStat path pkg testFiles combined ownHash st =
     (let st1 = fold (\<lambda>p st. snd (ExportData env p st)) (enAsks env path) st
      in case enCheck env path (pkGoFiles pkg) testFiles reader (\<lambda>p. fst (ExportData env p st)) of
           Err e \<Rightarrow> (Err e, st1)
         | Panic \<Rightarrow> (Panic, st1)
         | Ok result \<Rightarrow>
             let files = (if trustStat then (case statFiles env (effectiveGoFiles (pkGoFiles pkg) testFiles) of Some f \<Rightarrow> f | None \<Rightarrow> [])
                          else [])
             in case EncodeUnitBlob \<lparr>ubFacts = crFacts result, ubExport = crExport result, ubFiles = files, ubIndex = crIndex result\<rparr> of
                  Ok blob \<Rightarrow>
                    (case casPut (enPutIO env path) combined blob (irCAS st1) of
                       (Ok _, fs) \<Rightarrow>
                         (let (o', st') = entryOutcome env path combined ownHash (crExport result) files (crIndex result)
                              (crIncomplete result) (st1\<lparr>irCAS := fs\<rparr>) in (Ok o', st'))
                     | (Err e, fs) \<Rightarrow> (Err (StoreError e), st1\<lparr>irCAS := fs\<rparr>)
                     | (Panic, fs) \<Rightarrow> (Panic, st1\<lparr>irCAS := fs\<rparr>))
                | Err e \<Rightarrow> (Err (StoreError e), st1)
                | Panic \<Rightarrow> (Panic, st1))"

text \<open>\<open>processUnit\<close>: the outcome, whether the package was skipped and whether it was type-checked.\<close>

type_synonym unit_result = "unit_outcome option \<times> bool \<times> bool"

definition buildFresh :: "'t index_env \<Rightarrow> file_reader \<Rightarrow> bool \<Rightarrow> path \<Rightarrow> package \<Rightarrow> bytes list \<Rightarrow> u64 \<Rightarrow> u64
    \<Rightarrow> 't index_run \<Rightarrow> (index_error, unit_result) go \<times> 't index_run" where
  "buildFresh env reader trustStat path pkg testFiles combined ownHash st =
     (case casGet False (enReadErr env combined) (irCAS st) combined of
        Err e \<Rightarrow> (Err (StoreError e), st)
      | Panic \<Rightarrow> (Panic, st)
      | Ok (Some blob) \<Rightarrow>
          (case casHitOutcome env path combined ownHash blob st of
             (res, st') \<Rightarrow> (go_bind res (\<lambda>o'. Ok (Some o', False, False)), st'))
      | Ok None \<Rightarrow>
          (case checkAndStoreOutcome env reader trustStat path pkg testFiles combined ownHash st of
             (res, st') \<Rightarrow> (go_bind res (\<lambda>o'. Ok (Some o', False, True)), st')))"

definition processUnit :: "'t index_env \<Rightarrow> file_reader \<Rightarrow> bool \<Rightarrow> path \<Rightarrow> 't index_run
    \<Rightarrow> (index_error, unit_result) go \<times> 't index_run" where
  "processUnit env reader trustStat path st =
     (case snPackages (enSnap env) path of
        None \<Rightarrow> (Panic, st)
      | Some pkg \<Rightarrow>
          if pkGoFiles pkg = [] then (Ok (None, True, False), st)
          else
            let testFiles = testFilesInPackage env reader pkg;
                effectiveFiles = effectiveGoFiles (pkGoFiles pkg) testFiles;
                old = (case GetUnit (enBolt env) False (Hash path) (irBolt st) of
                         Ok u \<Rightarrow> if upToolchainFingerprint u = enToolchain env then Some u else None
                       | _ \<Rightarrow> None);
                statOK = (case old of None \<Rightarrow> False
                          | Some u \<Rightarrow> trustStat \<and> upFiles u \<noteq> [] \<and> filesStatMatch env effectiveFiles (upFiles u))
            in case resolveOwnHash env reader effectiveFiles statOK (case old of None \<Rightarrow> 0 | Some u \<Rightarrow> upContentHash u) of
                 Err e \<Rightarrow> (Err e, st)
               | Panic \<Rightarrow> (Panic, st)
               | Ok ownHash \<Rightarrow>
                   (case directDepExports env pkg st of
                      (Err e, st1) \<Rightarrow> (Err e, st1)
                    | (Panic, st1) \<Rightarrow> (Panic, st1)
                    | (Ok deps, st1) \<Rightarrow>
                        let combined = computeUnitKey ownHash deps
                        in case old of
                             Some u \<Rightarrow>
                               if combined = upBlobKey u \<and> Has (irCAS st1) (upBlobKey u)
                               then (let (o', st2) = unchangedOutcome env path u effectiveFiles statOK trustStat st1
                                     in (Ok (o', True, False), st2))
                               else buildFresh env reader trustStat path pkg testFiles combined ownHash st1
                           | None \<Rightarrow> buildFresh env reader trustStat path pkg testFiles combined ownHash st1))"

text \<open>\<open>processUnitRecovered\<close>: a panic becomes an error, and every error marks the package as failed.\<close>

definition processUnitRecovered :: "'t index_env \<Rightarrow> file_reader \<Rightarrow> bool \<Rightarrow> path \<Rightarrow> 't index_run
    \<Rightarrow> (index_error + unit_result) \<times> 't index_run" where
  "processUnitRecovered env reader trustStat path st =
     (case processUnit env reader trustStat path st of
        (Ok r, st') \<Rightarrow> (Inr r, st')
      | (Err e, st') \<Rightarrow> (Inl e, keysFail path e st')
      | (Panic, st') \<Rightarrow> (Inl (RecoveredPanic path), keysFail path (RecoveredPanic path) st'))"

end
