(* ===== verification/Index_Sound.thy ===== *)
theory Index_Sound
  imports Index_Unit
begin

text \<open>
  What it means for the index to be right, and that \<open>processUnit\<close> keeps it so. A function \<open>R\<close>
  gives, for every unit key, the result of type-checking the sources with that key; it stands for
  the assumption that a key determines what it was computed from. \<open>keying\<close> says which key a build
  from scratch gives every package. The blob store and the database are sound when they hold
  nothing but results of \<open>R\<close>; this does not depend on the present sources, so it carries over from
  one run to the next.
\<close>

section \<open>The index of a build from scratch\<close>

definition isUnit :: "'t index_env \<Rightarrow> path \<Rightarrow> package \<Rightarrow> bool" where
  "isUnit env p pkg \<longleftrightarrow> snPackages (enSnap env) p = Some pkg \<and> schedulableRoot (enSnap env) pkg \<and> pkGoFiles pkg \<noteq> []"

definition filesOf :: "'t index_env \<Rightarrow> file_reader \<Rightarrow> package \<Rightarrow> bytes list" where
  "filesOf env rd pkg = effectiveGoFiles (pkGoFiles pkg) (testFilesInPackage env rd pkg)"

definition exportHashOf :: "(u64 \<Rightarrow> check_result) \<Rightarrow> u64 \<Rightarrow> u64" where
  "exportHashOf R k = hashExport (crExport (R k))"

definition depsOfUnit :: "'t index_env \<Rightarrow> (u64 \<Rightarrow> check_result) \<Rightarrow> (path \<Rightarrow> u64) \<Rightarrow> package \<Rightarrow> dep_export_entry list" where
  "depsOfUnit env R key pkg =
     map (\<lambda>d. \<lparr>deePath = d, deeExportHash = exportHashOf R (key d)\<rparr>) (directDepImports (enSnap env) pkg)"

definition keying :: "'t index_env \<Rightarrow> (path \<Rightarrow> file_reader) \<Rightarrow> (u64 \<Rightarrow> check_result) \<Rightarrow> (path \<Rightarrow> u64) \<Rightarrow> (path \<Rightarrow> u64) \<Rightarrow> bool" where
  "keying env rd R own key \<longleftrightarrow> (\<forall>p pkg. isUnit env p pkg \<longrightarrow> pkImportPath pkg = p
     \<and> contentHash env (rd p) (filesOf env (rd p) pkg) = Ok (own p)
     \<and> key p = computeUnitKey (own p) (depsOfUnit env R key pkg))"

definition exportOpt :: "bytes \<Rightarrow> bytes option" where
  "exportOpt b = (if b = [] then None else Some b)"

text \<open>The checker gives \<open>R\<close>'s result when it is given the export data of the direct dependencies.\<close>

definition checksTo :: "'t index_env \<Rightarrow> (path \<Rightarrow> file_reader) \<Rightarrow> (u64 \<Rightarrow> check_result) \<Rightarrow> (path \<Rightarrow> u64) \<Rightarrow> bool" where
  "checksTo env rd R key \<longleftrightarrow> (\<forall>p pkg ex result. isUnit env p pkg
     \<and> (\<forall>d \<in> set (directDepImports (enSnap env) pkg). ex d = Ok (exportOpt (crExport (R (key d)))))
     \<and> enCheck env p (pkGoFiles pkg) (testFilesInPackage env (rd p) pkg) (rd p) ex = Ok result \<longrightarrow> result = R (key p))"

definition blobOf :: "(u64 \<Rightarrow> check_result) \<Rightarrow> u64 \<Rightarrow> file_stat list \<Rightarrow> unit_blob" where
  "blobOf R k files = \<lparr>ubFacts = crFacts (R k), ubExport = crExport (R k), ubFiles = files, ubIndex = crIndex (R k)\<rparr>"

text \<open>File lists that fit a pointer record and a database value.\<close>

definition pointerWith :: "'t index_env \<Rightarrow> u64 \<Rightarrow> u64 \<Rightarrow> u64 \<Rightarrow> file_stat list \<Rightarrow> unit_pointer" where
  "pointerWith env k c x files =
     \<lparr>upBlobKey = k, upContentHash = c, upExportHash = x, upToolchainFingerprint = enToolchain env, upFiles = files\<rparr>"

definition smallFiles :: "'t index_env \<Rightarrow> file_stat list \<Rightarrow> bool" where
  "smallFiles env files \<longleftrightarrow> unit_pointer_fits (pointerWith env 0 0 0 files)
     \<and> length (unit_pointer_bytes (pointerWith env 0 0 0 files)) \<le> maxValueSize"

text \<open>
  Results and file lists that the blob format can hold, names as \<open>os.CreateTemp\<close> makes them, and no
  errors when the blob store is read.
\<close>

definition fitsFormat :: "'t index_env \<Rightarrow> (path \<Rightarrow> file_reader) \<Rightarrow> (u64 \<Rightarrow> check_result) \<Rightarrow> (path \<Rightarrow> u64) \<Rightarrow> bool" where
  "fitsFormat env rd R key \<longleftrightarrow> enReadErr env = (\<lambda>_. None) \<and> (\<forall>p pkg. isUnit env p pkg \<longrightarrow> isOrphanedPutTempFile (ioTempName (enPutIO env p))
     \<and> unit_blob_fits (blobOf R (key p) []) \<and> smallFiles env []
     \<and> entryFits (enLower env) \<lparr>uePkgHash = Hash p, uePointer = pointerWith env 0 0 0 [], ueIndex = crIndex (R (key p))\<rparr>
     \<and> (\<forall>fs. statFiles env (filesOf env (rd p) pkg) = Some fs \<longrightarrow> unit_blob_fits (blobOf R (key p) fs) \<and> smallFiles env fs))"

section \<open>Sound stores\<close>

definition casSound :: "'t index_env \<Rightarrow> (u64 \<Rightarrow> check_result) \<Rightarrow> cas_files \<Rightarrow> bool" where
  "casSound env R fs \<longleftrightarrow> (\<forall>k f. fs (blobPath k) = Some f \<longrightarrow>
     (\<exists>files. DecodeUnitBlob (cfData f) = Ok (blobOf R k files) \<and> smallFiles env files))"

text \<open>
  A recorded pointer is honest when its export hash is that of its key, and its content hash is the
  present one if its key is or, for a package read from disk, its file stats are. The second is the
  premise of every stat-based check: unchanged size and modification time mean unchanged content.
\<close>

definition honest :: "'t index_env \<Rightarrow> (path \<Rightarrow> file_reader) \<Rightarrow> (u64 \<Rightarrow> check_result) \<Rightarrow> (path \<Rightarrow> u64) \<Rightarrow> (path \<Rightarrow> u64)
    \<Rightarrow> path \<Rightarrow> package \<Rightarrow> unit_pointer \<Rightarrow> bool" where
  "honest env rd R own key p pkg u \<longleftrightarrow> upExportHash u = exportHashOf R (upBlobKey u)
     \<and> (upBlobKey u = key p \<or> rd p = enDisk env \<and> upFiles u \<noteq> [] \<and> filesStatMatch env (filesOf env (rd p) pkg) (upFiles u)
        \<longrightarrow> upContentHash u = own p)"

definition dbSound :: "'t index_env \<Rightarrow> (path \<Rightarrow> file_reader) \<Rightarrow> (u64 \<Rightarrow> check_result) \<Rightarrow> (path \<Rightarrow> u64) \<Rightarrow> (path \<Rightarrow> u64) \<Rightarrow> 't \<Rightarrow> bool" where
  "dbSound env rd R own key t \<longleftrightarrow> (\<forall>p pkg u. isUnit env p pkg \<and> GetUnit (enBolt env) False (Hash p) t = Ok u
     \<and> upToolchainFingerprint u = enToolchain env \<longrightarrow> honest env rd R own key p pkg u)"

definition pointerRight :: "'t index_env \<Rightarrow> (u64 \<Rightarrow> check_result) \<Rightarrow> (path \<Rightarrow> u64) \<Rightarrow> (path \<Rightarrow> u64) \<Rightarrow> path \<Rightarrow> unit_pointer \<Rightarrow> bool" where
  "pointerRight env R own key p u \<longleftrightarrow> upBlobKey u = key p \<and> upContentHash u = own p
     \<and> upExportHash u = exportHashOf R (key p) \<and> upToolchainFingerprint u = enToolchain env"

text \<open>The key table knows the right key of a package, or reads it from the database when asked.\<close>

definition keyKnown :: "'t index_env \<Rightarrow> (u64 \<Rightarrow> check_result) \<Rightarrow> (path \<Rightarrow> u64) \<Rightarrow> 't index_run \<Rightarrow> path \<Rightarrow> bool" where
  "keyKnown env R key st d \<longleftrightarrow>
     (case irKeys st d of
        Some r \<Rightarrow> r = \<lparr>ukBlobKey = key d, ukExportHash = exportHashOf R (key d)\<rparr>
      | None \<Rightarrow> irFailed st d = None \<and> (\<exists>u. GetUnit (enBolt env) False (Hash d) (irBolt st) = Ok u
          \<and> upBlobKey u = key d \<and> upExportHash u = exportHashOf R (key d)))"

definition runSound :: "'t index_env \<Rightarrow> (path \<Rightarrow> file_reader) \<Rightarrow> (u64 \<Rightarrow> check_result) \<Rightarrow> (path \<Rightarrow> u64) \<Rightarrow> (path \<Rightarrow> u64)
    \<Rightarrow> path set \<Rightarrow> 't index_run \<Rightarrow> bool" where
  "runSound env rd R own key D st \<longleftrightarrow> casSound env R (irCAS st) \<and> dbSound env rd R own key (irBolt st)
     \<and> (\<forall>d b. irExports st d = Some b \<longrightarrow> b = crExport (R (key d)))
     \<and> (\<forall>d \<in> D. keyKnown env R key st d \<and> Has (irCAS st) (key d))"

text \<open>What the outcome of a package tells its caller to write, or that the database has it already.\<close>

definition outcomeRight :: "'t index_env \<Rightarrow> (u64 \<Rightarrow> check_result) \<Rightarrow> (path \<Rightarrow> u64) \<Rightarrow> (path \<Rightarrow> u64) \<Rightarrow> path \<Rightarrow> 't
    \<Rightarrow> unit_outcome option \<Rightarrow> bool" where
  "outcomeRight env R own key p t o' \<longleftrightarrow>
     (case o' of
        None \<Rightarrow> \<exists>u. GetUnit (enBolt env) False (Hash p) t = Ok u \<and> pointerRight env R own key p u
      | Some uo \<Rightarrow> uoPkgHash uo = Hash p \<and>
          (case uoEntry uo of
             Some e \<Rightarrow> uoPtrRefresh uo = None \<and> uePkgHash e = Hash p \<and> pointerRight env R own key p (uePointer e)
               \<and> smallFiles env (upFiles (uePointer e)) \<and> ueIndex e = crIndex (R (key p))
           | None \<Rightarrow> (\<exists>u. uoPtrRefresh uo = Some u \<and> pointerRight env R own key p u \<and> smallFiles env (upFiles u))
               \<and> (\<exists>u. GetUnit (enBolt env) False (Hash p) t = Ok u \<and> pointerRight env R own key p u)))"

section \<open>Reading dependencies\<close>

lemma runSoundD:
  assumes "runSound env rd R own key D st"
  shows "casSound env R (irCAS st)" "dbSound env rd R own key (irBolt st)"
    "irExports st d = Some b \<Longrightarrow> b = crExport (R (key d))"
    "d \<in> D \<Longrightarrow> keyKnown env R key st d"
    "d \<in> D \<Longrightarrow> Has (irCAS st) (key d)"
  using assms by (simp_all add: runSound_def)

lemma keyKnown_cong:
  "irKeys st' = irKeys st \<Longrightarrow> irFailed st' = irFailed st \<Longrightarrow> irBolt st' = irBolt st \<Longrightarrow> keyKnown env R key st' d = keyKnown env R key st d"
  by (simp add: keyKnown_def split: option.splits)

lemma keyKnown_get:
  "keyKnown env R key st d \<Longrightarrow> fst (keysGet env d st) = Some \<lparr>ukBlobKey = key d, ukExportHash = exportHashOf R (key d)\<rparr>"
  by (auto simp: keyKnown_def keysGet_def Let_def split: option.splits)

lemma keyKnown_memo:
  assumes "keyKnown env R key st q"
  shows "keyKnown env R key (snd (keysGet env p st)) q"
  using assms unfolding keyKnown_def keysGet_def
  by (auto simp: keysSet_def Let_def split: option.splits go.splits if_splits)

text \<open>Looking up keys and export data changes nothing but the key table, which stays right.\<close>

lemma keysGet_keeps:
  assumes S: "runSound env rd R own key D st"
  shows "runSound env rd R own key D (snd (keysGet env p st)) \<and> irBolt (snd (keysGet env p st)) = irBolt st
    \<and> irCAS (snd (keysGet env p st)) = irCAS st"
proof -
  have f: "irBolt (snd (keysGet env p st)) = irBolt st" "irCAS (snd (keysGet env p st)) = irCAS st"
    "irExports (snd (keysGet env p st)) = irExports st"
    by (simp_all add: keysGet_def keysSet_def Let_def split: option.splits go.splits)
  then show ?thesis using S keyKnown_memo [of env R key st _ p] by (auto simp: runSound_def)
qed

lemma depExports_sound:
  "runSound env rd R own key D st \<Longrightarrow> set imps \<subseteq> D \<Longrightarrow>
   \<exists>st'. depExports env q imps st = (Ok (map (\<lambda>d. \<lparr>deePath = d, deeExportHash = exportHashOf R (key d)\<rparr>) imps), st')
     \<and> runSound env rd R own key D st' \<and> irBolt st' = irBolt st \<and> irCAS st' = irCAS st"
proof (induction imps arbitrary: st)
  case (Cons d imps)
  obtain st1 where k: "keysGet env d st = (Some \<lparr>ukBlobKey = key d, ukExportHash = exportHashOf R (key d)\<rparr>, st1)"
    using keyKnown_get [OF runSoundD(4) [OF Cons.prems(1)]] Cons.prems(2) by (metis list.set_intros(1) prod.collapse subsetD)
  have st1: "runSound env rd R own key D st1" "irBolt st1 = irBolt st" "irCAS st1 = irCAS st"
    using keysGet_keeps [OF Cons.prems(1), of d] k by simp_all
  then show ?case using Cons.IH [OF st1(1)] Cons.prems(2) k by auto
qed simp

lemma ExportData_sound:
  assumes S: "runSound env rd R own key D st" and F: "fitsFormat env rd R key" and d: "d \<in> D"
  shows "fst (ExportData env d st) = Ok (exportOpt (crExport (R (key d))))"
proof (cases "irExports st d")
  case None
  obtain st1 where k: "keysGet env d st = (Some \<lparr>ukBlobKey = key d, ukExportHash = exportHashOf R (key d)\<rparr>, st1)"
    using keyKnown_get [OF runSoundD(4) [OF S d]] by (metis prod.collapse)
  have c: "irCAS st1 = irCAS st" using keysGet_keeps [OF S, of d] k by simp
  obtain f where f: "irCAS st (blobPath (key d)) = Some f" using runSoundD(5) [OF S d] by (auto simp: Has_def)
  obtain files where "DecodeUnitBlob (cfData f) = Ok (blobOf R (key d) files)"
    using runSoundD(1) [OF S] f by (auto simp: casSound_def)
  then show ?thesis using F None f k c
    by (simp add: ExportData_def casGet_def exportOpt_def blobOf_def fitsFormat_def)
next
  case (Some b)
  then show ?thesis using runSoundD(3) [OF S Some] by (simp add: ExportData_def exportOpt_def)
qed

lemma ExportData_keeps:
  assumes S: "runSound env rd R own key D st"
  shows "runSound env rd R own key D (snd (ExportData env p st)) \<and> irBolt (snd (ExportData env p st)) = irBolt st"
proof (cases "irExports st p")
  case None
  obtain r st' where k: "keysGet env p st = (r, st')" by (cases "keysGet env p st")
  then have "snd (ExportData env p st) = st'"
    using None by (auto simp: ExportData_def split: option.splits go.splits)
  then show ?thesis using keysGet_keeps [OF S, of p] k by simp
qed (use S in \<open>simp add: ExportData_def\<close>)

lemma asks_keep:
  "runSound env rd R own key D st \<Longrightarrow>
   runSound env rd R own key D (fold (\<lambda>p st. snd (ExportData env p st)) ps st)
   \<and> irBolt (fold (\<lambda>p st. snd (ExportData env p st)) ps st) = irBolt st"
proof (induction ps arbitrary: st)
  case (Cons q ps)
  then show ?case using ExportData_keeps [OF Cons.prems, of q] by auto
qed simp

section \<open>Writing one package\<close>

lemma runSound_processed:
  assumes S: "runSound env rd R own key D st" and c: "casSound env R fs" and h: "Has fs (key p)"
    and m: "\<And>k. irCAS st (blobPath k) \<noteq> None \<Longrightarrow> fs (blobPath k) \<noteq> None"
    and e: "irExports st' = irExports st \<or> irExports st' = (irExports st)(p \<mapsto> crExport (R (key p)))"
    and o: "irCAS st' = fs" "irBolt st' = irBolt st" "irKeys st' = (irKeys st)(p \<mapsto> \<lparr>ukBlobKey = key p, ukExportHash = exportHashOf R (key p)\<rparr>)"
      "irFailed st' = irFailed st"
  shows "runSound env rd R own key (insert p D) st'"
  unfolding runSound_def
proof (intro conjI allI impI ballI)
  show "casSound env R (irCAS st')" "dbSound env rd R own key (irBolt st')" using S c o by (simp_all add: runSound_def)
  show "b = crExport (R (key d))" if "irExports st' d = Some b" for d b
    using that e runSoundD(3) [OF S, of d b] by (auto split: if_splits)
  fix d assume "d \<in> insert p D"
  then show "keyKnown env R key st' d"
    using runSoundD(4) [OF S, of d] o by (cases "d = p") (auto simp: keyKnown_def split: option.splits)
  show "Has (irCAS st') (key d)"
    using \<open>d \<in> insert p D\<close> runSoundD(5) [OF S, of d] h m o(1) by (auto simp: Has_def)
qed

lemma temp_path:
  assumes "isOrphanedPutTempFile n"
  shows "blobPath j \<noteq> (shard, n)"
  using temp_not_blob [OF assms] blobKey_blobPath [of j] by (metis fst_conv option.distinct(1) snd_conv)

lemma casPut_ok:
  assumes "casPut io k blob fs = (Ok u, fs')" and t: "isOrphanedPutTempFile (ioTempName io)"
  shows "fs' (blobPath j) = (if j = k then Some \<lparr>cfData = blob, cfModTime = ioClock io\<rparr> else fs (blobPath j))"
  using assms(1) temp_path [OF t] unfolding casPut_def Let_def by (auto split: option.splits)

lemma casPut_failed:
  assumes "casPut io k blob fs = (r, fs')" "r \<noteq> Ok ()" and t: "isOrphanedPutTempFile (ioTempName io)"
  shows "fs' (blobPath j) = fs (blobPath j)"
  using assms(1,2) temp_path [OF t] unfolding casPut_def Let_def removeTemp_def by (auto split: option.splits if_splits)

lemma casSound_cong: "casSound env R fs \<Longrightarrow> (\<And>k. fs' (blobPath k) = fs (blobPath k)) \<Longrightarrow> casSound env R fs'"
  by (simp add: casSound_def)

lemma runSound_CAS:
  "runSound env rd R own key D st \<Longrightarrow> (\<And>k. fs (blobPath k) = irCAS st (blobPath k)) \<Longrightarrow> runSound env rd R own key D (st\<lparr>irCAS := fs\<rparr>)"
  by (auto simp: runSound_def casSound_def Has_def keyKnown_cong [of "st\<lparr>irCAS := fs\<rparr>" st])

lemma smallFiles_norm: "smallFiles env files \<Longrightarrow> smallFiles env (map norm_file files)"
proof -
  have "length (file_bytes (norm_file f)) = length (file_bytes f)" for f by (simp add: file_bytes_def norm_file_def str_bytes_def)
  then have "length (concat (map file_bytes (map norm_file files))) = length (concat (map file_bytes files))"
    by (simp add: length_concat o_def)
  moreover assume "smallFiles env files"
  ultimately show ?thesis
    by (simp add: smallFiles_def pointerWith_def unit_pointer_fits_def files_fit_def len_ok_def list_all_iff norm_file_def
        unit_pointer_bytes_def counted_def)
qed

lemma entryOutcome_right:
  assumes s: "smallFiles env files" and "entryOutcome env p (key p) (own p) (crExport (R (key p))) files (crIndex (R (key p))) inc st = (o', st')"
  shows "outcomeRight env R own key p t (Some o')"
    and "st' = st\<lparr>irExports := (irExports st)(p \<mapsto> crExport (R (key p))), irKeys := (irKeys st)(p \<mapsto> \<lparr>ukBlobKey = key p, ukExportHash = exportHashOf R (key p)\<rparr>)\<rparr>"
  using assms(2) s by (auto simp: entryOutcome_def outcomeRight_def pointerRight_def exportHashOf_def keysSet_def exportsPut_def Let_def)

text \<open>The result of a step for package \<open>p\<close> with state \<open>st'\<close>: right, or an error that leaves the run sound.\<close>

definition stepSound :: "'t index_env \<Rightarrow> (path \<Rightarrow> file_reader) \<Rightarrow> (u64 \<Rightarrow> check_result) \<Rightarrow> (path \<Rightarrow> u64) \<Rightarrow> (path \<Rightarrow> u64)
    \<Rightarrow> path set \<Rightarrow> path \<Rightarrow> 't \<Rightarrow> (index_error, unit_outcome option \<times> bool \<times> bool) go \<times> 't index_run \<Rightarrow> bool" where
  "stepSound env rd R own key D p t r \<longleftrightarrow> irBolt (snd r) = t \<and>
     (case fst r of
        Ok (o', skipped, checked) \<Rightarrow> runSound env rd R own key (insert p D) (snd r) \<and> outcomeRight env R own key p t o'
      | _ \<Rightarrow> runSound env rd R own key D (snd r))"

lemma checkAndStore_sound:
  assumes S: "runSound env rd R own key D st" and F: "fitsFormat env rd R key" and C: "checksTo env rd R key"
    and u: "isUnit env p pkg" and d: "set (directDepImports (enSnap env) pkg) \<subseteq> D"
    and r: "checkAndStoreOutcome env (rd p) ts p pkg (testFilesInPackage env (rd p) pkg) (key p) (own p) st = (res, st')"
  shows "stepSound env rd R own key D p (irBolt st) (go_bind res (\<lambda>o'. Ok (Some o', False, True)), st')"
proof -
  define st1 where "st1 = fold (\<lambda>p st. snd (ExportData env p st)) (enAsks env p) st"
  have S1: "runSound env rd R own key D st1" "irBolt st1 = irBolt st" using asks_keep [OF S, of "enAsks env p"] by (simp_all add: st1_def)
  have tmp: "isOrphanedPutTempFile (ioTempName (enPutIO env p))" using F u by (auto simp: fitsFormat_def)
  define chk where "chk = enCheck env p (pkGoFiles pkg) (testFilesInPackage env (rd p) pkg) (rd p) (\<lambda>q. fst (ExportData env q st))"
  have chk_ok: "result = R (key p)" if "chk = Ok result" for result
  proof -
    have "\<forall>q \<in> set (directDepImports (enSnap env) pkg). fst (ExportData env q st) = Ok (exportOpt (crExport (R (key q))))"
      using ExportData_sound [OF S F] d by blast
    then show ?thesis
      using C [unfolded checksTo_def, rule_format, of p pkg "\<lambda>q. fst (ExportData env q st)" result] u that
      unfolding chk_def by simp
  qed
  show ?thesis
  proof (cases chk)
    case (Ok result)
    note R = chk_ok [OF Ok]
    define files where "files = (if ts then (case statFiles env (effectiveGoFiles (pkGoFiles pkg) (testFilesInPackage env (rd p) pkg)) of Some f \<Rightarrow> f | None \<Rightarrow> []) else [])"
    have fit: "unit_blob_fits (blobOf R (key p) files)" and small: "smallFiles env files"
      using F u unfolding fitsFormat_def files_def filesOf_def by (auto split: option.splits)
    obtain blob where b: "EncodeUnitBlob (blobOf R (key p) files) = Ok blob" "DecodeUnitBlob blob = Ok (norm_blob (blobOf R (key p) files))"
      using blob_codec.enc_dec [OF fit] by blast
    obtain pr fs where put: "casPut (enPutIO env p) (key p) blob (irCAS st1) = (pr, fs)" by fastforce
    have run: "checkAndStoreOutcome env (rd p) ts p pkg (testFilesInPackage env (rd p) pkg) (key p) (own p) st =
        (case pr of
           Ok _ \<Rightarrow> (let (o', st') = entryOutcome env p (key p) (own p) (crExport (R (key p))) files (crIndex (R (key p)))
                        (crIncomplete (R (key p))) (st1\<lparr>irCAS := fs\<rparr>) in (Ok o', st'))
         | Err e \<Rightarrow> (Err (StoreError e), st1\<lparr>irCAS := fs\<rparr>) | Panic \<Rightarrow> (Panic, st1\<lparr>irCAS := fs\<rparr>))"
      using Ok R b(1) put unfolding checkAndStoreOutcome_def st1_def [symmetric] chk_def [symmetric]
      by (simp add: Let_def files_def [symmetric] blobOf_def)
    show ?thesis
    proof (cases "pr = Ok ()")
      case True
      obtain o' st'' where o: "entryOutcome env p (key p) (own p) (crExport (R (key p))) files (crIndex (R (key p)))
          (crIncomplete (R (key p))) (st1\<lparr>irCAS := fs\<rparr>) = (o', st'')" by fastforce
      note e = entryOutcome_right [where key = key and own = own and R = R and p = p, OF small o]
      note f = casPut_ok [OF put [unfolded True] tmp]
      have "casSound env R fs" using runSoundD(1) [OF S1(1)] b(2) unfolding casSound_def f
        by (auto simp: norm_blob_def blobOf_def smallFiles_norm small)
      then have "runSound env rd R own key (insert p D) st''"
        by (rule runSound_processed [OF S1(1)]) (auto simp: e(2) Has_def f)
      moreover have "res = Ok o'" "st' = st''" using r run True o by simp_all
      moreover have "irBolt st'' = irBolt st" using e(2) S1(2) by simp
      ultimately show ?thesis using e(1) [of "irBolt st"] by (simp add: stepSound_def)
    next
      case False
      have "runSound env rd R own key D (st1\<lparr>irCAS := fs\<rparr>)"
        by (rule runSound_CAS [OF S1(1)]) (rule casPut_failed [OF put False tmp])
      moreover have "pr \<noteq> Ok x" for x using False by (cases x) simp
      ultimately show ?thesis using r run S1(2) by (cases pr) (auto simp: stepSound_def)
    qed
  next
    case (Err e)
    then show ?thesis using r S1 unfolding checkAndStoreOutcome_def st1_def [symmetric] chk_def [symmetric]
      by (auto simp: stepSound_def Let_def)
  next
    case Panic
    then show ?thesis using r S1 unfolding checkAndStoreOutcome_def st1_def [symmetric] chk_def [symmetric]
      by (auto simp: stepSound_def Let_def)
  qed
qed

lemma casHit_sound:
  assumes S: "runSound env rd R own key D st" and b: "irCAS st (blobPath (key p)) = Some f"
    and r: "casHitOutcome env p (key p) (own p) (cfData f) st = (res, st')"
  shows "stepSound env rd R own key D p (irBolt st) (go_bind res (\<lambda>o'. Ok (Some o', False, False)), st')"
proof -
  obtain files where dec: "DecodeUnitBlob (cfData f) = Ok (blobOf R (key p) files)" and small: "smallFiles env files"
    using runSoundD(1) [OF S] b by (auto simp: casSound_def)
  obtain o' st'' where o: "entryOutcome env p (key p) (own p) (crExport (R (key p))) files (crIndex (R (key p))) False st = (o', st'')"
    by fastforce
  note e = entryOutcome_right [where key = key and own = own and R = R and p = p, OF small o]
  have "runSound env rd R own key (insert p D) st''"
    by (rule runSound_processed [OF S runSoundD(1) [OF S]]) (use b in \<open>auto simp: e(2) Has_def\<close>)
  moreover have "res = Ok o'" "st' = st''" using r dec o by (simp_all add: casHitOutcome_def blobOf_def)
  moreover have "irBolt st'' = irBolt st" using e(2) by simp
  ultimately show ?thesis using e(1) [of "irBolt st"] by (simp add: stepSound_def)
qed

lemma buildFresh_sound:
  assumes S: "runSound env rd R own key D st" and F: "fitsFormat env rd R key" and C: "checksTo env rd R key"
    and u: "isUnit env p pkg" and d: "set (directDepImports (enSnap env) pkg) \<subseteq> D"
  shows "stepSound env rd R own key D p (irBolt st)
    (buildFresh env (rd p) ts p pkg (testFilesInPackage env (rd p) pkg) (key p) (own p) st)"
proof (cases "irCAS st (blobPath (key p))")
  case None
  obtain res st' where r: "checkAndStoreOutcome env (rd p) ts p pkg (testFilesInPackage env (rd p) pkg) (key p) (own p) st = (res, st')"
    by fastforce
  from checkAndStore_sound [OF S F C u d r] show ?thesis by (simp add: buildFresh_def casGet_def None r)
next
  case (Some f)
  obtain res st' where r: "casHitOutcome env p (key p) (own p) (cfData f) st = (res, st')" by fastforce
  have "enReadErr env (key p) = None" using F by (simp add: fitsFormat_def)
  with casHit_sound [OF S Some r] show ?thesis by (simp add: buildFresh_def casGet_def Some r)
qed

lemma unchanged_sound:
  assumes small: "\<And>fs. statFiles env files = Some fs \<Longrightarrow> smallFiles env fs" and S: "runSound env rd R own key D st" and g: "GetUnit (enBolt env) False (Hash p) (irBolt st) = Ok u"
    and r: "pointerRight env R own key p u" and h: "Has (irCAS st) (key p)"
  shows "stepSound env rd R own key D p (irBolt st)
    (let (o', st2) = unchangedOutcome env p u files statOK ts st in (Ok (o', True, False), st2))"
proof -
  obtain o' st2 where o: "unchangedOutcome env p u files statOK ts st = (o', st2)" by fastforce
  have st2: "st2 = st\<lparr>irKeys := (irKeys st)(p \<mapsto> \<lparr>ukBlobKey = key p, ukExportHash = exportHashOf R (key p)\<rparr>)\<rparr>"
    using o r by (auto simp: unchangedOutcome_def keysSet_def pointerRight_def Let_def)
  have "runSound env rd R own key (insert p D) st2"
    by (rule runSound_processed [OF S runSoundD(1) [OF S] h]) (simp_all add: st2)
  moreover have "outcomeRight env R own key p (irBolt st) o'"
    using o g r small by (cases "statFiles env files") (auto simp: unchangedOutcome_def outcomeRight_def pointerRight_def Let_def split: if_splits)
  ultimately show ?thesis by (simp add: o stepSound_def) (simp add: st2)
qed

text \<open>
  \<open>processUnit\<close> either keeps the recorded pointer, which is then right, or goes on with the key of a
  build from scratch.
\<close>

lemma processUnit_cases:
  assumes S: "runSound env rd R own key D st" and K: "keying env rd R own key"
    and u: "isUnit env p pkg" and d: "set (directDepImports (enSnap env) pkg) \<subseteq> D" and ts: "ts \<Longrightarrow> rd p = enDisk env"
  obtains st1 where "runSound env rd R own key D st1" "irBolt st1 = irBolt st" "irCAS st1 = irCAS st"
    "(\<exists>v statOK. GetUnit (enBolt env) False (Hash p) (irBolt st) = Ok v \<and> pointerRight env R own key p v \<and> Has (irCAS st) (key p)
       \<and> processUnit env (rd p) ts p st =
         (let (o', st2) = unchangedOutcome env p v (filesOf env (rd p) pkg) statOK ts st1 in (Ok (o', True, False), st2)))
     \<or> processUnit env (rd p) ts p st = buildFresh env (rd p) ts p pkg (testFilesInPackage env (rd p) pkg) (key p) (own p) st1"
proof -
  let ?tf = "testFilesInPackage env (rd p) pkg"
  let ?ef = "effectiveGoFiles (pkGoFiles pkg) ?tf"
  have k: "pkImportPath pkg = p" "contentHash env (rd p) ?ef = Ok (own p)" "key p = computeUnitKey (own p) (depsOfUnit env R key pkg)"
    using K u unfolding keying_def filesOf_def by blast+
  obtain st1 where dep: "directDepExports env pkg st = (Ok (depsOfUnit env R key pkg), st1)"
    and st1: "runSound env rd R own key D st1" "irBolt st1 = irBolt st" "irCAS st1 = irCAS st"
    using depExports_sound [OF S d] unfolding directDepExports_def depsOfUnit_def by blast
  have pk: "snPackages (enSnap env) p = Some pkg" "pkGoFiles pkg \<noteq> []" using u by (simp_all add: isUnit_def)
  define old where "old = (case GetUnit (enBolt env) False (Hash p) (irBolt st) of
      Ok u \<Rightarrow> if upToolchainFingerprint u = enToolchain env then Some u else None | _ \<Rightarrow> None)"
  define statOK where "statOK = (case old of None \<Rightarrow> False | Some u \<Rightarrow> ts \<and> upFiles u \<noteq> [] \<and> filesStatMatch env ?ef (upFiles u))"
  have old: "GetUnit (enBolt env) False (Hash p) (irBolt st) = Ok v" "upToolchainFingerprint v = enToolchain env"
    "honest env rd R own key p pkg v" if "old = Some v" for v
  proof -
    show "GetUnit (enBolt env) False (Hash p) (irBolt st) = Ok v" "upToolchainFingerprint v = enToolchain env"
      using that by (auto simp: old_def split: go.splits if_splits)
    then show "honest env rd R own key p pkg v" using runSoundD(2) [OF S] u unfolding dbSound_def by blast
  qed
  have own: "resolveOwnHash env (rd p) ?ef statOK (case old of None \<Rightarrow> 0 | Some u \<Rightarrow> upContentHash u) = Ok (own p)"
    using k(2) old(3) ts by (auto simp: resolveOwnHash_def statOK_def honest_def filesOf_def split: option.splits)
  have run: "processUnit env (rd p) ts p st =
      (case old of
         Some u \<Rightarrow> if key p = upBlobKey u \<and> Has (irCAS st) (upBlobKey u)
           then (let (o', st2) = unchangedOutcome env p u ?ef statOK ts st1 in (Ok (o', True, False), st2))
           else buildFresh env (rd p) ts p pkg ?tf (key p) (own p) st1
       | None \<Rightarrow> buildFresh env (rd p) ts p pkg ?tf (key p) (own p) st1)"
    unfolding processUnit_def pk option.case Let_def old_def [symmetric] statOK_def [symmetric] own go.case dep prod.case k(3) [symmetric]
    using pk(2) by (simp add: st1(3) split: option.splits)
  show ?thesis
  proof (cases "\<exists>v. old = Some v \<and> key p = upBlobKey v \<and> Has (irCAS st) (upBlobKey v)")
    case True
    then obtain v where v: "old = Some v" "key p = upBlobKey v" "Has (irCAS st) (upBlobKey v)" by blast
    have "pointerRight env R own key p v" using old(2,3) [OF v(1)] v(2) by (simp add: pointerRight_def honest_def)
    moreover have "processUnit env (rd p) ts p st =
        (let (o', st2) = unchangedOutcome env p v (filesOf env (rd p) pkg) statOK ts st1 in (Ok (o', True, False), st2))"
      using v run by (simp add: filesOf_def)
    moreover have "Has (irCAS st) (key p)" using v(2,3) by simp
    ultimately show ?thesis using that [OF st1] old(1) [OF v(1)] by blast
  next
    case False
    then have "processUnit env (rd p) ts p st = buildFresh env (rd p) ts p pkg ?tf (key p) (own p) st1"
      by (auto simp: run split: option.splits)
    then show ?thesis using that [OF st1] by blast
  qed
qed

theorem processUnit_sound:
  assumes S: "runSound env rd R own key D st" and K: "keying env rd R own key"
    and F: "fitsFormat env rd R key" and C: "checksTo env rd R key"
    and u: "isUnit env p pkg" and d: "set (directDepImports (enSnap env) pkg) \<subseteq> D" and ts: "ts \<Longrightarrow> rd p = enDisk env"
  shows "stepSound env rd R own key D p (irBolt st) (processUnit env (rd p) ts p st)"
proof (rule processUnit_cases [OF S K u d ts], assumption, elim disjE exE conjE)
  fix st1 v statOK
  assume st1: "runSound env rd R own key D st1" "irBolt st1 = irBolt st" "irCAS st1 = irCAS st"
    and v: "GetUnit (enBolt env) False (Hash p) (irBolt st) = Ok v" "pointerRight env R own key p v" "Has (irCAS st) (key p)"
    "processUnit env (rd p) ts p st =
       (let (o', st2) = unchangedOutcome env p v (filesOf env (rd p) pkg) statOK ts st1 in (Ok (o', True, False), st2))"
  show ?thesis unfolding v(4) st1(2) [symmetric]
    by (rule unchanged_sound [OF _ st1(1)]) (use F u v st1 in \<open>auto simp: fitsFormat_def\<close>)
next
  fix st1
  assume st1: "runSound env rd R own key D st1" "irBolt st1 = irBolt st"
    and "processUnit env (rd p) ts p st = buildFresh env (rd p) ts p pkg (testFilesInPackage env (rd p) pkg) (key p) (own p) st1"
  then show ?thesis using buildFresh_sound [OF st1(1) F C u d, of ts] by simp
qed

end
