(* ===== verification/Index_Build.thy ===== *)
theory Index_Build
  imports Index_Sound
begin

text \<open>
  \<open>Build\<close> (\<open>index/index.go\<close>) with the accumulation and batching of its results
  (\<open>index/results.go\<close>). The jobs run in an order in which every package comes after its
  dependencies, as the scheduler guarantees; each job's lookups and its recording are one step.
\<close>

section \<open>Results\<close>

record index_stats =
  stProcessed :: nat
  stSkipped :: nat
  stErrors :: nat
  stTypeChecked :: nat
  stIncomplete :: nat
  stChanged :: "path list"

definition noIndexStats :: index_stats where
  "noIndexStats = \<lparr>stProcessed = 0, stSkipped = 0, stErrors = 0, stTypeChecked = 0, stIncomplete = 0, stChanged = []\<rparr>"

record build_results =
  brBatchSize :: int
  brPending :: "unit_entry list"
  brPendingPtrs :: "(u64 \<times> unit_pointer) list"
  brStats :: index_stats
  brErrs :: "index_error list"     \<comment> \<open>the errors joined in \<open>err\<close>\<close>
  brCrashed :: bool                \<comment> \<open>a commit panicked, which ends the process\<close>

definition newBuildResults :: "int \<Rightarrow> build_results" where
  "newBuildResults batchSize =
     \<lparr>brBatchSize = batchSize, brPending = [], brPendingPtrs = [], brStats = noIndexStats, brErrs = [], brCrashed = False\<rparr>"

type_synonym 't build = "build_results \<times> 't index_run"

definition countErrors :: "nat \<Rightarrow> build_results \<Rightarrow> build_results" where
  "countErrors n br = br\<lparr>brStats := (brStats br)\<lparr>stErrors := stErrors (brStats br) + n\<rparr>\<rparr>"

definition flushPendingLocked :: "'t index_env \<Rightarrow> 't build \<Rightarrow> 't build" where
  "flushPendingLocked env = (\<lambda>(br, st).
     if brPending br = [] then (br, st)
     else case PutUnitsBatch (enBolt env) (enLower env) (brPending br) (irBolt st) of
       (Ok _, t) \<Rightarrow> (br\<lparr>brPending := []\<rparr>, st\<lparr>irBolt := t\<rparr>)
     | (Err e, t) \<Rightarrow> (countErrors (length (brPending br)) (br\<lparr>brPending := []\<rparr>), st\<lparr>irBolt := t\<rparr>)
     | (Panic, t) \<Rightarrow> (br\<lparr>brPending := [], brCrashed := True\<rparr>, st\<lparr>irBolt := t\<rparr>))"

definition flushPtrsLocked :: "'t index_env \<Rightarrow> 't build \<Rightarrow> 't build" where
  "flushPtrsLocked env = (\<lambda>(br, st).
     if brPendingPtrs br = [] then (br, st)
     else let (r, t) = PutUnitPointersBatch (enBolt env) (brPendingPtrs br) (irBolt st)
          in (br\<lparr>brPendingPtrs := [], brCrashed := (brCrashed br \<or> r = Panic)\<rparr>, st\<lparr>irBolt := t\<rparr>))"

text \<open>The map of pending pointers as its entries, the latest first.\<close>

definition ptrsPut :: "u64 \<Rightarrow> unit_pointer \<Rightarrow> (u64 \<times> unit_pointer) list \<Rightarrow> (u64 \<times> unit_pointer) list" where
  "ptrsPut h u m = (h, u) # filter (\<lambda>(k, v). k \<noteq> h) m"

definition queueEntry :: "'t index_env \<Rightarrow> unit_entry \<Rightarrow> 't build \<Rightarrow> 't build" where
  "queueEntry env e = (\<lambda>(br, st).
     let br1 = br\<lparr>brPending := brPending br @ [e]\<rparr>
     in if int (length (brPending br1)) \<ge> brBatchSize br1 then flushPendingLocked env (br1, st) else (br1, st))"

definition queuePtr :: "'t index_env \<Rightarrow> u64 \<Rightarrow> unit_pointer \<Rightarrow> 't build \<Rightarrow> 't build" where
  "queuePtr env h u = (\<lambda>(br, st).
     let br1 = br\<lparr>brPendingPtrs := ptrsPut h u (brPendingPtrs br)\<rparr>
     in if int (length (brPendingPtrs br1)) \<ge> brBatchSize br1 then flushPtrsLocked env (br1, st) else (br1, st))"

definition queueOutcomeLocked :: "'t index_env \<Rightarrow> unit_outcome option \<Rightarrow> 't build \<Rightarrow> 't build" where
  "queueOutcomeLocked env outcome b =
     (case outcome of
        None \<Rightarrow> b
      | Some o' \<Rightarrow>
          let b1 = (case uoEntry o' of None \<Rightarrow> b | Some e \<Rightarrow> queueEntry env e b)
          in case uoPtrRefresh o' of None \<Rightarrow> b1 | Some u \<Rightarrow> queuePtr env (uoPkgHash o') u b1)"

definition countResult :: "index_error + unit_result \<Rightarrow> index_stats \<Rightarrow> index_stats" where
  "countResult res s =
     (case res of
        Inl e \<Rightarrow> s\<lparr>stErrors := stErrors s + 1\<rparr>
      | Inr (o', skipped, typeChecked) \<Rightarrow>
          if skipped then s\<lparr>stSkipped := stSkipped s + 1\<rparr>
          else s\<lparr>stProcessed := stProcessed s + 1,
                 stTypeChecked := stTypeChecked s + of_bool typeChecked,
                 stIncomplete := stIncomplete s + of_bool (case o' of None \<Rightarrow> False | Some uo \<Rightarrow> uoIncomplete uo)\<rparr>)"

definition outcomeOf :: "index_error + unit_result \<Rightarrow> unit_outcome option" where
  "outcomeOf res = (case res of Inl e \<Rightarrow> None | Inr (o', skipped, typeChecked) \<Rightarrow> o')"

definition doneCount :: "index_stats \<Rightarrow> nat" where
  "doneCount s = stProcessed s + stSkipped s + stErrors s"

definition recordResult :: "'t index_env \<Rightarrow> index_error + unit_result \<Rightarrow> 't build \<Rightarrow> nat \<times> 't build" where
  "recordResult env res = (\<lambda>(br, st).
     let b = queueOutcomeLocked env (outcomeOf res) (br\<lparr>brStats := countResult res (brStats br)\<rparr>, st)
     in (doneCount (brStats (fst b)), b))"

definition addErrLocked :: "index_error \<Rightarrow> build_results \<Rightarrow> build_results" where
  "addErrLocked e br = br\<lparr>brErrs := brErrs br @ [e]\<rparr>"

definition recordFatal :: "index_error \<Rightarrow> 't build \<Rightarrow> nat \<times> 't build" where
  "recordFatal e = (\<lambda>(br, st).
     let br1 = addErrLocked e (countErrors 1 br) in (doneCount (brStats br1), (br1, st)))"

definition flushResults :: "'t index_env \<Rightarrow> 't build \<Rightarrow> 't build" where
  "flushResults env b = flushPtrsLocked env (flushPendingLocked env b)"

section \<open>Build\<close>

text \<open>\<open>cancelled p\<close>: the context ended before the job of \<open>p\<close> got the semaphore.\<close>

definition runBuildJob :: "'t index_env \<Rightarrow> (path \<Rightarrow> bool) \<Rightarrow> path \<Rightarrow> 't build \<Rightarrow> nat \<times> 't build" where
  "runBuildJob env cancelled p = (\<lambda>(br, st).
     if cancelled p then recordFatal Canceled (br, st)
     else let (res, st') = processUnitRecovered env (enDisk env) True p st in recordResult env res (br, st'))"

definition runJobs :: "'t index_env \<Rightarrow> (path \<Rightarrow> bool) \<Rightarrow> path list \<Rightarrow> 't build \<Rightarrow> 't build" where
  "runJobs env cancelled order b = fold (\<lambda>p b. snd (runBuildJob env cancelled p b)) order b"

definition newRun :: "'t \<Rightarrow> cas_files \<Rightarrow> 't index_run" where
  "newRun t fs = \<lparr>irBolt = t, irCAS = fs, irKeys = Map.empty, irFailed = Map.empty, irExports = Map.empty\<rparr>"

text \<open>\<open>Panic\<close>: the process ended in a panic of a commit.\<close>

definition BuildIndex :: "'t index_env \<Rightarrow> (path \<Rightarrow> bool) \<Rightarrow> int \<Rightarrow> path list \<Rightarrow> 't \<Rightarrow> cas_files
    \<Rightarrow> (unit, index_stats \<times> index_error list) go \<times> 't index_run" where
  "BuildIndex env cancelled batchSize order t fs =
     (if order = [] then (Ok (noIndexStats, []), newRun t fs)
      else let (br, st) = flushResults env (runJobs env cancelled order (newBuildResults (if batchSize \<le> 0 then 50 else batchSize), newRun t fs))
           in if brCrashed br then (Panic, st)
              else if brErrs br \<noteq> [] then (Ok (brStats br, brErrs br), st)
              else case PutBuildFingerprint (enBolt env) (enToolchain env) (irBolt st) of
                     (Ok _, t') \<Rightarrow> (Ok (brStats br, []), st\<lparr>irBolt := t'\<rparr>)
                   | (Err e, t') \<Rightarrow> (Ok (brStats br, [StoreError e]), st\<lparr>irBolt := t'\<rparr>)
                   | (Panic, t') \<Rightarrow> (Panic, st\<lparr>irBolt := t'\<rparr>))"

section \<open>Database writes\<close>

definition dbRight :: "'t index_env \<Rightarrow> (u64 \<Rightarrow> check_result) \<Rightarrow> (path \<Rightarrow> u64) \<Rightarrow> (path \<Rightarrow> u64) \<Rightarrow> path \<Rightarrow> 't \<Rightarrow> bool" where
  "dbRight env R own key p t \<longleftrightarrow> (\<exists>u. GetUnit (enBolt env) False (Hash p) t = Ok u \<and> pointerRight env R own key p u)"

text \<open>A committed transaction that wrote the pointers \<open>ws\<close>, in this order.\<close>

definition wrote :: "'t bolt \<Rightarrow> (u64 \<times> unit_pointer) list \<Rightarrow> 't \<Rightarrow> 't \<Rightarrow> bool" where
  "wrote B ws t t' \<longleftrightarrow> (\<exists>s s'. indexRep B t s \<and> indexRep B t' s' \<and> isUnits s' = fold (\<lambda>(h, u) m. m(h \<mapsto> u)) ws (isUnits s))"

lemma fold_upd_cases:
  "(\<exists>u. (h, u) \<in> set ws \<and> fold (\<lambda>(h, u) m. m(h \<mapsto> u)) ws m h = Some u)
   \<or> (h \<notin> fst ` set ws \<and> fold (\<lambda>(h, u) m. m(h \<mapsto> u)) ws m h = m h)"
proof (induction ws rule: rev_induct)
  case (snoc w ws)
  then show ?case by (cases w) (auto simp: image_Un)
qed simp

lemma wrote_GetUnit:
  assumes "bolt B" and w: "wrote B ws t t'"
  shows "(\<exists>u. (h, u) \<in> set ws \<and> GetUnit B False h t' = Ok (norm_pointer u))
    \<or> (h \<notin> fst ` set ws \<and> GetUnit B False h t' = GetUnit B False h t)"
proof -
  obtain s s' where s: "indexRep B t s" "indexRep B t' s'" "isUnits s' = fold (\<lambda>(h, u) m. m(h \<mapsto> u)) ws (isUnits s)"
    using w by (auto simp: wrote_def)
  show ?thesis
    using fold_upd_cases [of h ws "isUnits s"]
    unfolding bolt.GetUnit_rep [OF assms(1) s(1)] bolt.GetUnit_rep [OF assms(1) s(2)] s(3) by auto
qed

lemma PutUnitsBatch_wrote:
  assumes "bolt B" "indexRep B t s" "list_all (entryFits lower) es" "PutUnitsBatch B lower es t = (Ok (), t')"
  shows "wrote B (map (\<lambda>e. (uePkgHash e, uePointer e)) es) t t'"
proof -
  have "indexRep B t' (fold (addUnit lower) es s)" using bolt.PutUnitsBatch_rep [OF assms(1-3)] assms(4) by auto
  moreover have "isUnits (fold (addUnit lower) es s') = fold (\<lambda>(h, u) m. m(h \<mapsto> u)) (map (\<lambda>e. (uePkgHash e, uePointer e)) es) (isUnits s')" for s'
    by (induction es arbitrary: s') (simp_all add: addUnit_def)
  ultimately show ?thesis using assms(2) unfolding wrote_def by blast
qed


context bolt
begin

lemma putUnitPointer_rep:
  assumes r: "indexRep B t s" and fit: "unit_pointer_fits p" "length (unit_pointer_bytes p) \<le> maxValueSize"
  shows "\<exists>t'. putUnitPointer B h p t = Ok t' \<and> indexRep B t' (s\<lparr>isUnits := (isUnits s)(h \<mapsto> p)\<rparr>)"
proof -
  obtain t' where t': "putUnitPointer B h p t = Ok t'" "\<And>c. boHas B t' c = boHas B t c"
    "\<And>c j. boGet B t' c j = (if c = bucketUnit \<and> j = hashKey h then Some (unit_pointer_bytes p) else boGet B t c j)"
    using putUnitPointer_ok [of t p h] r fit by (auto simp: indexRep_def allBuckets_def)
  have post: "represents B t' (isPostings s)"
    by (rule represents_frame [of t]) (use r t' in \<open>auto simp: indexRep_def\<close>)
  have "unitsRep B t' ((isUnits s)(h \<mapsto> p))"
    using r fit by (auto simp: indexRep_def unitsRep_def t'(3) hashKey_def split: if_splits)
  then have "indexRep B t' (s\<lparr>isUnits := (isUnits s)(h \<mapsto> p)\<rparr>)"
    using r post by (simp add: indexRep_def keySet_def t'(2,3))
  with t'(1) show ?thesis by blast
qed

lemma putUnitPointers_rep:
  "indexRep B t s \<Longrightarrow> (\<And>h p. (h, p) \<in> set ws \<Longrightarrow> unit_pointer_fits p \<and> length (unit_pointer_bytes p) \<le> maxValueSize) \<Longrightarrow>
   \<exists>t' s'. go_foldM (\<lambda>(h, p). putUnitPointer B h p) ws t = Ok t' \<and> indexRep B t' s'
     \<and> isUnits s' = fold (\<lambda>(h, u) m. m(h \<mapsto> u)) ws (isUnits s)"
proof (induction ws arbitrary: t s)
  case (Cons w ws)
  obtain h p where w: "w = (h, p)" by fastforce
  obtain t1 where t1: "putUnitPointer B h p t = Ok t1" "indexRep B t1 (s\<lparr>isUnits := (isUnits s)(h \<mapsto> p)\<rparr>)"
    using putUnitPointer_rep [OF Cons.prems(1), of p h] Cons.prems(2) w by auto
  have "unit_pointer_fits q \<and> length (unit_pointer_bytes q) \<le> maxValueSize" if "(g, q) \<in> set ws" for g q
    using Cons.prems(2) [of g q] that by simp
  from Cons.IH [OF t1(2) this] show ?case using t1(1) w by simp
qed auto

end

text \<open>A refused write of pointers leaves the database as it was.\<close>

lemma PutUnitPointersBatch_wrote:
  assumes "bolt B" "indexRep B t s"
    and "\<And>h p. (h, p) \<in> set ws \<Longrightarrow> unit_pointer_fits p \<and> length (unit_pointer_bytes p) \<le> maxValueSize"
  shows "(wrote B ws t (snd (PutUnitPointersBatch B ws t)) \<or> snd (PutUnitPointersBatch B ws t) = t)
    \<and> fst (PutUnitPointersBatch B ws t) \<noteq> Panic"
proof -
  obtain t' s' where t': "go_foldM (\<lambda>(h, p). putUnitPointer B h p) ws t = Ok t'" "indexRep B t' s'"
    "isUnits s' = fold (\<lambda>(h, u) m. m(h \<mapsto> u)) ws (isUnits s)"
    using bolt.putUnitPointers_rep [OF assms(1,2), of ws] assms(3) by blast
  have "wrote B ws t t'" using t'(2,3) assms(2) unfolding wrote_def by blast
  then show ?thesis
    using bolt.update_ok [where f = "go_foldM (\<lambda>(h, p). putUnitPointer B h p) ws", OF assms(1) t'(1)]
    unfolding PutUnitPointersBatch_def by auto
qed

end
