(* ===== verification/Build_Sound.thy ===== *)
theory Build_Sound
  imports Index_Build
begin

text \<open>
  A build run as a whole: whatever the database and the blob store held before, a run of \<open>Build\<close>
  that reports no error leaves the index a build from scratch gives. The jobs run in the order in
  which the goroutines of a complete run of the scheduler end them.
\<close>

section \<open>The order of the jobs\<close>

definition jobsDone :: "scheduler \<Rightarrow> path set" where
  "jobsDone s = {p. \<exists>w. scWorkers s p = Some w \<and> w \<noteq> Processing}"

text \<open>\<open>sched_run s0 order s\<close>: the run from \<open>s0\<close> to \<open>s\<close> ends the jobs \<open>order\<close>.\<close>

inductive sched_run :: "scheduler \<Rightarrow> path list \<Rightarrow> scheduler \<Rightarrow> bool" for s0 where
  start: "sched_run s0 [] s0"
| other: "sched_run s0 order s \<Longrightarrow> sched_step s s' \<Longrightarrow> jobsDone s' = jobsDone s \<Longrightarrow> sched_run s0 order s'"
| job: "sched_run s0 order s \<Longrightarrow> sched_step s s' \<Longrightarrow> p \<notin> jobsDone s \<Longrightarrow> jobsDone s' = insert p (jobsDone s) \<Longrightarrow>
    sched_run s0 (order @ [p]) s'"

definition jobsInOrder :: "snapshot \<Rightarrow> path list \<Rightarrow> bool" where
  "jobsInOrder snap order \<longleftrightarrow> distinct order \<and> (\<forall>i < length order. set (depsOf snap (order ! i)) \<subseteq> set (take i order))"

lemma jobsInOrder_snoc:
  "jobsInOrder snap (xs @ [p]) \<longleftrightarrow> jobsInOrder snap xs \<and> p \<notin> set xs \<and> set (depsOf snap p) \<subseteq> set xs"
  by (auto simp: jobsInOrder_def nth_append less_Suc_eq)

lemma deps_done:
  assumes inv: "sched_inv snap s" and p: "scWorkers s p \<noteq> None"
  shows "set (depsOf snap p) \<subseteq> jobsDone s"
proof
  fix d assume d: "d \<in> set (depsOf snap p)"
  have pu: "p \<in> units snap" using p sched_invD(3) [OF inv] by blast
  have "remaining s d p = 0" using remaining_zero [OF inv pu] p depsOf_units [OF d] by blast
  moreover have "count_list (scDependents s d) p \<noteq> 0"
    using inv pu d unfolding sched_inv_def by (metis count_list_0_iff)
  ultimately show "d \<in> jobsDone s" by (auto simp: remaining_def jobsDone_def split: option.splits worker.splits)
qed

lemma sched_run_order:
  assumes "sched_run (fst (newScheduler ds ks rs snap)) order s" and e: "enumerates ds ks rs snap"
  shows "sched_step\<^sup>*\<^sup>* (fst (newScheduler ds ks rs snap)) s \<and> set order = jobsDone s \<and> jobsInOrder snap order"
  using assms(1)
proof induction
  case start
  then show ?case by (auto simp: newScheduler_def jobsDone_def jobsInOrder_def Let_def split: prod.splits)
next
  case (other order s s')
  then show ?case by auto
next
  case (job order s s' p)
  have reach: "sched_step\<^sup>*\<^sup>* (fst (newScheduler ds ks rs snap)) s'" using job by auto
  have "scWorkers s' p \<noteq> None" using job.hyps by (auto simp: jobsDone_def)
  from deps_done [OF reachable_inv [OF e reach] this]
  have "set (depsOf snap p) \<subseteq> set order" using job depsOf_units [of p snap p] snapshot_before.irrefl by auto
  then show ?case using job reach by (auto simp: jobsInOrder_snoc)
qed

text \<open>A run that cannot go on has ended the jobs of all packages.\<close>

lemma complete_order:
  assumes "enumerates ds ks rs snap" "sched_run (fst (newScheduler ds ks rs snap)) order s" "\<nexists>s'. sched_step s s'"
  shows "set order = units snap" "jobsInOrder snap order"
proof -
  note r = sched_run_order [OF assms(2,1)]
  have inv: "sched_inv snap s" using r reachable_inv [OF assms(1)] by blast
  have "\<forall>p \<in> units snap. scWorkers s p = Some Ended" using sched_progress [OF inv] assms(3) by blast
  then have "jobsDone s = units snap" using sched_invD(3) [OF inv] by (auto simp: jobsDone_def)
  then show "set order = units snap" "jobsInOrder snap order" using r by auto
qed

section \<open>Writes of right pointers\<close>

definition indexed :: "'t index_env \<Rightarrow> path set" where
  "indexed env = {p. \<exists>pkg. isUnit env p pkg}"

definition diskReader :: "'t index_env \<Rightarrow> path \<Rightarrow> file_reader" where
  "diskReader env p = enDisk env"

definition rightWrite :: "'t index_env \<Rightarrow> (u64 \<Rightarrow> check_result) \<Rightarrow> (path \<Rightarrow> u64) \<Rightarrow> (path \<Rightarrow> u64) \<Rightarrow> u64 \<Rightarrow> unit_pointer \<Rightarrow> bool" where
  "rightWrite env R own key h u \<longleftrightarrow>
     (\<exists>q \<in> indexed env. h = Hash q \<and> pointerRight env R own key q u \<and> smallFiles env (upFiles u))"

lemma smallFiles_pointer:
  assumes "smallFiles env files" "upFiles u = files" "upToolchainFingerprint u = enToolchain env"
  shows "unit_pointer_fits u \<and> length (unit_pointer_bytes u) \<le> maxValueSize"
  using assms by (simp add: smallFiles_def pointerWith_def unit_pointer_fits_def unit_pointer_bytes_def)

lemma rightWrite_fits:
  "rightWrite env R own key h u \<Longrightarrow> unit_pointer_fits u \<and> length (unit_pointer_bytes u) \<le> maxValueSize"
  using smallFiles_pointer [of env "upFiles u" u] by (auto simp: rightWrite_def pointerRight_def)

lemma outcome_entry_fits:
  assumes "fitsFormat env rd R key" "isUnit env p pkg" "pointerRight env R own key p (uePointer e)"
    "smallFiles env (upFiles (uePointer e))" "ueIndex e = crIndex (R (key p))"
  shows "entryFits (enLower env) e"
  using assms smallFiles_pointer [of env _ "uePointer e"]
  by (auto simp: fitsFormat_def entryFits_def pointerRight_def)

lemma pointerRight_norm: "pointerRight env R own key p (norm_pointer u) = pointerRight env R own key p u"
  by (simp add: pointerRight_def norm_pointer_def)

lemma pointerRight_honest: "pointerRight env R own key p u \<Longrightarrow> honest env rd R own key p pkg u"
  by (simp add: pointerRight_def honest_def)

text \<open>A transaction that writes only right pointers.\<close>

definition wroteRight :: "'t index_env \<Rightarrow> (u64 \<Rightarrow> check_result) \<Rightarrow> (path \<Rightarrow> u64) \<Rightarrow> (path \<Rightarrow> u64) \<Rightarrow> (u64 \<times> unit_pointer) list
    \<Rightarrow> 't \<Rightarrow> 't \<Rightarrow> bool" where
  "wroteRight env R own key ws t t' \<longleftrightarrow> wrote (enBolt env) ws t t' \<and> (\<forall>(h, u) \<in> set ws. rightWrite env R own key h u)"

lemma wrote_right:
  assumes B: "bolt (enBolt env)" and inj: "inj_on Hash (indexed env)" and w: "wroteRight env R own key ws t t'"
    and q: "q \<in> indexed env"
  shows "(\<exists>u. GetUnit (enBolt env) False (Hash q) t' = Ok u \<and> pointerRight env R own key q u)
    \<or> (Hash q \<notin> fst ` set ws \<and> GetUnit (enBolt env) False (Hash q) t' = GetUnit (enBolt env) False (Hash q) t)"
proof -
  have "pointerRight env R own key q u" if "(Hash q, u) \<in> set ws" for u
    using w that inj_onD [OF inj, of q] q by (auto simp: wroteRight_def rightWrite_def)
  moreover have "wrote (enBolt env) ws t t'" using w by (simp add: wroteRight_def)
  ultimately show ?thesis using wrote_GetUnit [OF B, of ws t t' "Hash q"] pointerRight_norm by blast
qed

lemma wrote_dbSound:
  assumes "bolt (enBolt env)" "inj_on Hash (indexed env)" "wroteRight env R own key ws t t'" "dbSound env rd R own key t"
  shows "dbSound env rd R own key t'"
  unfolding dbSound_def
proof (intro allI impI)
  fix p pkg u
  assume *: "isUnit env p pkg \<and> GetUnit (enBolt env) False (Hash p) t' = Ok u \<and> upToolchainFingerprint u = enToolchain env"
  then have "p \<in> indexed env" by (auto simp: indexed_def)
  from wrote_right [OF assms(1-3) this] show "honest env rd R own key p pkg u"
    using * assms(4) pointerRight_honest unfolding dbSound_def by fastforce
qed

lemma wrote_dbRight:
  assumes "bolt (enBolt env)" "inj_on Hash (indexed env)" "wroteRight env R own key ws t t'"
    "q \<in> indexed env" "dbRight env R own key q t \<or> Hash q \<in> fst ` set ws"
  shows "dbRight env R own key q t'"
  using wrote_right [OF assms(1-4)] assms(5) by (auto simp: dbRight_def)

section \<open>The invariant of a run without errors\<close>

text \<open>\<open>D\<close> is the set of packages whose jobs have ended.\<close>

definition buildGood :: "'t index_env \<Rightarrow> (u64 \<Rightarrow> check_result) \<Rightarrow> (path \<Rightarrow> u64) \<Rightarrow> (path \<Rightarrow> u64) \<Rightarrow> path set \<Rightarrow> 't build \<Rightarrow> bool" where
  "buildGood env R own key D = (\<lambda>(br, st).
     brErrs br = [] \<and> \<not> brCrashed br
     \<and> (\<exists>s. indexRep (enBolt env) (irBolt st) s) \<and> runSound env (diskReader env) R own key D st
     \<and> (\<forall>e \<in> set (brPending br). rightWrite env R own key (uePkgHash e) (uePointer e) \<and> entryFits (enLower env) e)
     \<and> (\<forall>(h, u) \<in> set (brPendingPtrs br). rightWrite env R own key h u)
     \<and> (\<forall>q \<in> D. dbRight env R own key q (irBolt st) \<or> Hash q \<in> uePkgHash ` set (brPending br)))"

lemma runSound_wrote:
  assumes B: "bolt (enBolt env)" and inj: "inj_on Hash (indexed env)" and D: "D \<subseteq> indexed env"
    and S: "runSound env rd R own key D st" and w: "wroteRight env R own key ws (irBolt st) t'"
  shows "runSound env rd R own key D (st\<lparr>irBolt := t'\<rparr>)"
proof -
  have "keyKnown env R key (st\<lparr>irBolt := t'\<rparr>) d" if "d \<in> D" for d
  proof -
    have "d \<in> indexed env" using D that by blast
    from wrote_right [OF B inj w this] runSoundD(4) [OF S that] show ?thesis
      unfolding keyKnown_def by (auto simp: pointerRight_def split: option.splits)
  qed
  then show ?thesis using S wrote_dbSound [OF B inj w runSoundD(2) [OF S]] by (simp add: runSound_def)
qed

lemma buildGood_wrote:
  assumes B: "bolt (enBolt env)" and inj: "inj_on Hash (indexed env)" and D: "D \<subseteq> indexed env"
    and g: "buildGood env R own key D (br, st)" and w: "wroteRight env R own key ws (irBolt st) t'"
    and p: "set (brPending br') \<subseteq> set (brPending br)" "set (brPendingPtrs br') \<subseteq> set (brPendingPtrs br)"
    and k: "uePkgHash ` set (brPending br) \<subseteq> uePkgHash ` set (brPending br') \<union> fst ` set ws"
    and c: "brErrs br' = []" "\<not> brCrashed br'"
  shows "buildGood env R own key D (br', st\<lparr>irBolt := t'\<rparr>)"
proof -
  have "\<exists>s. indexRep (enBolt env) t' s" using w by (auto simp: wroteRight_def wrote_def)
  moreover have "runSound env (diskReader env) R own key D (st\<lparr>irBolt := t'\<rparr>)"
    using g by (auto simp: buildGood_def intro!: runSound_wrote [OF B inj D _ w])
  moreover have "dbRight env R own key q t' \<or> Hash q \<in> uePkgHash ` set (brPending br')" if "q \<in> D" for q
  proof -
    have "dbRight env R own key q (irBolt st) \<or> Hash q \<in> uePkgHash ` set (brPending br)" using g that by (simp add: buildGood_def)
    then show ?thesis using wrote_dbRight [OF B inj w, of q] k that D by blast
  qed
  ultimately show ?thesis using g p c by (auto simp: buildGood_def)
qed

definition errorsOf :: "'t build \<Rightarrow> nat" where
  "errorsOf b = stErrors (brStats (fst b))"

lemma flushPending_good:
  assumes B: "bolt (enBolt env)" and inj: "inj_on Hash (indexed env)" and D: "D \<subseteq> indexed env"
    and g: "buildGood env R own key D b" and e: "errorsOf (flushPendingLocked env b) = 0"
  shows "buildGood env R own key D (flushPendingLocked env b) \<and> brPending (fst (flushPendingLocked env b)) = []"
proof -
  obtain br st where b: "b = (br, st)" by fastforce
  obtain r t' where put: "PutUnitsBatch (enBolt env) (enLower env) (brPending br) (irBolt st) = (r, t')" by fastforce
  show ?thesis
  proof (cases "brPending br = []")
    case False
    obtain s where s: "indexRep (enBolt env) (irBolt st) s" using g by (auto simp: b buildGood_def)
    have fit: "list_all (entryFits (enLower env)) (brPending br)" using g by (auto simp: b buildGood_def list_all_iff)
    have "r \<noteq> Panic" using bolt.PutUnitsBatch_rep [OF B s fit] put by auto
    then have "r = Ok ()" using e False put by (auto simp: b flushPendingLocked_def errorsOf_def countErrors_def split: go.splits)
    then have w: "wroteRight env R own key (map (\<lambda>e. (uePkgHash e, uePointer e)) (brPending br)) (irBolt st) t'"
      using PutUnitsBatch_wrote [OF B s fit] put g by (auto simp: wroteRight_def b buildGood_def)
    have "buildGood env R own key D (br\<lparr>brPending := []\<rparr>, st\<lparr>irBolt := t'\<rparr>)"
      by (rule buildGood_wrote [OF B inj D _ w]) (use g b in \<open>auto simp: image_image buildGood_def\<close>)
    then show ?thesis using \<open>r = Ok ()\<close> False put by (simp add: b flushPendingLocked_def)
  qed (use g b in \<open>simp add: flushPendingLocked_def\<close>)
qed

lemma flushPtrs_good:
  assumes B: "bolt (enBolt env)" and inj: "inj_on Hash (indexed env)" and D: "D \<subseteq> indexed env"
    and g: "buildGood env R own key D b"
  shows "buildGood env R own key D (flushPtrsLocked env b)"
proof -
  obtain br st where b: "b = (br, st)" by fastforce
  obtain r t' where put: "PutUnitPointersBatch (enBolt env) (brPendingPtrs br) (irBolt st) = (r, t')" by fastforce
  obtain s where s: "indexRep (enBolt env) (irBolt st) s" using g by (auto simp: b buildGood_def)
  have ok: "rightWrite env R own key h u" if "(h, u) \<in> set (brPendingPtrs br)" for h u using g that by (auto simp: b buildGood_def)
  have w: "wrote (enBolt env) (brPendingPtrs br) (irBolt st) t' \<or> t' = irBolt st" "r \<noteq> Panic"
    using PutUnitPointersBatch_wrote [OF B s, of "brPendingPtrs br"] rightWrite_fits [OF ok] put by auto
  have "buildGood env R own key D (br\<lparr>brPendingPtrs := [], brCrashed := False\<rparr>, st\<lparr>irBolt := t'\<rparr>)"
    using w(1)
  proof
    assume "wrote (enBolt env) (brPendingPtrs br) (irBolt st) t'"
    then have "wroteRight env R own key (brPendingPtrs br) (irBolt st) t'" using ok by (auto simp: wroteRight_def)
    from buildGood_wrote [OF B inj D g [unfolded b] this] show ?thesis using g by (auto simp: b buildGood_def)
  qed (use g b in \<open>auto simp: buildGood_def\<close>)
  moreover have "\<not> brCrashed br" using g by (simp add: b buildGood_def)
  ultimately show ?thesis using g put w(2) by (simp add: b flushPtrsLocked_def)
qed

section \<open>One job\<close>

lemma buildGood_insert:
  assumes g: "buildGood env R own key D (br, st0)" and b: "irBolt st = irBolt st0"
    and S: "runSound env (diskReader env) R own key (insert p D) st"
    and e: "\<forall>e \<in> set (brPending br'). e \<in> set (brPending br) \<or> rightWrite env R own key (uePkgHash e) (uePointer e) \<and> entryFits (enLower env) e"
    and u: "\<forall>(h, u) \<in> set (brPendingPtrs br'). (h, u) \<in> set (brPendingPtrs br) \<or> rightWrite env R own key h u"
    and k: "set (brPending br) \<subseteq> set (brPending br')"
    and p: "dbRight env R own key p (irBolt st) \<or> Hash p \<in> uePkgHash ` set (brPending br')"
    and c: "brErrs br' = brErrs br" "brCrashed br' = brCrashed br"
  shows "buildGood env R own key (insert p D) (br', st)"
  using g b S e u k p c unfolding buildGood_def by (simp add: ball_Un) blast

text \<open>The entry of an outcome, queued.\<close>

lemma queued_entry_good:
  assumes D: "D \<subseteq> indexed env" and F: "fitsFormat env (diskReader env) R key" and unit: "isUnit env p pkg"
    and g: "buildGood env R own key D (br, st0)" and b: "irBolt st = irBolt st0"
    and S: "runSound env (diskReader env) R own key (insert p D) st"
    and o: "outcomeRight env R own key p (irBolt st) (Some uo)" and en: "uoEntry uo = Some en"
  shows "buildGood env R own key (insert p D) (br\<lparr>brPending := brPending br @ [en]\<rparr>, st)" "uoPtrRefresh uo = None"
proof -
  have e: "uoPtrRefresh uo = None" "uePkgHash en = Hash p" "pointerRight env R own key p (uePointer en)"
    "smallFiles env (upFiles (uePointer en))" "ueIndex en = crIndex (R (key p))"
    using o en by (auto simp: outcomeRight_def)
  have "rightWrite env R own key (uePkgHash en) (uePointer en) \<and> entryFits (enLower env) en"
    using e unit outcome_entry_fits [OF F unit e(3-5)] by (auto simp: rightWrite_def indexed_def)
  then show "buildGood env R own key (insert p D) (br\<lparr>brPending := brPending br @ [en]\<rparr>, st)"
    by (intro buildGood_insert [OF g b S]) (auto simp: e)
qed (use o en in \<open>auto simp: outcomeRight_def\<close>)

lemma queueOutcome_good:
  assumes B: "bolt (enBolt env)" and inj: "inj_on Hash (indexed env)" and D: "D \<subseteq> indexed env"
    and F: "fitsFormat env (diskReader env) R key" and unit: "isUnit env p pkg"
    and g: "buildGood env R own key D (br, st0)" and b: "irBolt st = irBolt st0"
    and S: "runSound env (diskReader env) R own key (insert p D) st"
    and o: "outcomeRight env R own key p (irBolt st) o'"
    and e: "errorsOf (queueOutcomeLocked env o' (br, st)) = 0"
  shows "buildGood env R own key (insert p D) (queueOutcomeLocked env o' (br, st))"
proof (cases o')
  case None
  then show ?thesis using o by (auto simp: queueOutcomeLocked_def outcomeRight_def dbRight_def intro!: buildGood_insert [OF g b S])
next
  case (Some uo)
  have p: "p \<in> indexed env" "insert p D \<subseteq> indexed env" using unit D by (auto simp: indexed_def)
  show ?thesis
  proof (cases "uoEntry uo")
    case None
    obtain u where u: "uoPtrRefresh uo = Some u" "pointerRight env R own key p u" "smallFiles env (upFiles u)" "uoPkgHash uo = Hash p"
      and db: "dbRight env R own key p (irBolt st)"
      using o None by (auto simp: Some outcomeRight_def dbRight_def)
    let ?br = "br\<lparr>brPendingPtrs := ptrsPut (Hash p) u (brPendingPtrs br)\<rparr>"
    have "rightWrite env R own key (Hash p) u" using u p by (auto simp: rightWrite_def)
    then have "buildGood env R own key (insert p D) (?br, st)"
      by (intro buildGood_insert [OF g b S]) (auto simp: ptrsPut_def db)
    then show ?thesis
      using flushPtrs_good [OF B inj p(2)] None u by (simp add: Some queueOutcomeLocked_def queuePtr_def Let_def)
  next
    case (Some en)
    note en = queued_entry_good [OF D F unit g b S o [unfolded \<open>o' = Some uo\<close>] Some]
    then show ?thesis
      using flushPending_good [OF B inj p(2)] Some e
      by (auto simp: \<open>o' = Some uo\<close> queueOutcomeLocked_def queueEntry_def Let_def split: if_splits)
  qed
qed

lemma flush_errors:
  "errorsOf b \<le> errorsOf (flushPendingLocked env b)" "errorsOf (flushPtrsLocked env b) = errorsOf b"
  by (auto simp: flushPendingLocked_def flushPtrsLocked_def errorsOf_def countErrors_def split: prod.splits go.splits)

lemma queueOutcome_errors: "errorsOf b \<le> errorsOf (queueOutcomeLocked env o' b)"
proof -
  have e: "errorsOf b \<le> errorsOf (queueEntry env en b)" for en b
    using flush_errors(1) [of "((fst b)\<lparr>brPending := brPending (fst b) @ [en]\<rparr>, snd b)" env]
    by (auto simp: queueEntry_def Let_def errorsOf_def split: prod.splits)
  have p: "errorsOf (queuePtr env h u b) = errorsOf b" for h u b
    using flush_errors(2) [of env "((fst b)\<lparr>brPendingPtrs := ptrsPut h u (brPendingPtrs (fst b))\<rparr>, snd b)"]
    by (auto simp: queuePtr_def Let_def errorsOf_def split: prod.splits)
  show ?thesis using e p by (auto simp: queueOutcomeLocked_def Let_def split: option.splits)
qed

lemma countResult_errors: "stErrors s \<le> stErrors (countResult res s)"
  and countResult_failed: "stErrors (countResult (Inl e) s) \<noteq> 0"
  by (auto simp: countResult_def split: sum.splits)

lemma job_errors: "errorsOf b \<le> errorsOf (snd (runBuildJob env cancelled p b))"
proof -
  obtain br st where b: "b = (br, st)" by fastforce
  obtain res st' where r: "processUnitRecovered env (enDisk env) True p st = (res, st')" by fastforce
  show ?thesis
    using queueOutcome_errors [of "(br\<lparr>brStats := countResult res (brStats br)\<rparr>, st')" env "outcomeOf res"]
      countResult_errors [of "brStats br" res]
    by (auto simp: b r runBuildJob_def recordResult_def recordFatal_def addErrLocked_def countErrors_def errorsOf_def Let_def)
qed

lemma runJobs_errors: "errorsOf b \<le> errorsOf (runJobs env cancelled order b)"
proof (induction order arbitrary: b)
  case (Cons p order)
  show ?case using Cons.IH [of "snd (runBuildJob env cancelled p b)"] job_errors [of b env cancelled p]
    by (simp add: runJobs_def)
qed (simp add: runJobs_def)

lemma buildGood_stats: "buildGood env R own key D (br\<lparr>brStats := x\<rparr>, st) = buildGood env R own key D (br, st)"
  by (simp add: buildGood_def)

lemma directDeps_indexed:
  assumes "isUnit env p pkg" "pkImportPath pkg = p"
  shows "set (directDepImports (enSnap env) pkg) \<subseteq> set (depsOf (enSnap env) p) \<inter> indexed env"
  using assms by (auto simp: directDepImports_def depsOf_def schedulableDepsOf_def indexed_def isUnit_def schedulableRoot_def
      split: option.splits)

text \<open>The hypotheses on the sources, the checker and the formats, with a reader per package or the disk.\<close>

definition indexable :: "'t index_env \<Rightarrow> (path \<Rightarrow> file_reader) \<Rightarrow> (u64 \<Rightarrow> check_result) \<Rightarrow> (path \<Rightarrow> u64) \<Rightarrow> (path \<Rightarrow> u64) \<Rightarrow> bool" where
  "indexable env rd R own key \<longleftrightarrow> bolt (enBolt env) \<and> inj_on Hash (indexed env) \<and> keying env rd R own key
     \<and> fitsFormat env rd R key \<and> checksTo env rd R key"

definition buildable :: "'t index_env \<Rightarrow> (u64 \<Rightarrow> check_result) \<Rightarrow> (path \<Rightarrow> u64) \<Rightarrow> (path \<Rightarrow> u64) \<Rightarrow> bool" where
  "buildable env R own key \<longleftrightarrow> indexable env (diskReader env) R own key"

lemma buildableD:
  assumes "buildable env R own key"
  shows "bolt (enBolt env)" "inj_on Hash (indexed env)" "keying env (diskReader env) R own key"
    "fitsFormat env (diskReader env) R key" "checksTo env (diskReader env) R key"
  using assms by (simp_all add: buildable_def indexable_def)

lemma job_good:
  assumes A: "buildable env R own key" and p: "p \<in> units (enSnap env)"
    and D: "D \<subseteq> indexed env" "set (depsOf (enSnap env) p) \<inter> indexed env \<subseteq> D"
    and g: "buildGood env R own key D b" and e: "errorsOf (snd (runBuildJob env cancelled p b)) = 0"
  shows "buildGood env R own key (D \<union> {p} \<inter> indexed env) (snd (runBuildJob env cancelled p b))"
proof -
  obtain br st where b: "b = (br, st)" by fastforce
  obtain r st' where run: "processUnit env (enDisk env) True p st = (r, st')" by fastforce
  have c: "\<not> cancelled p"
  proof
    assume "cancelled p"
    then show False using e by (simp add: b runBuildJob_def recordFatal_def addErrLocked_def countErrors_def errorsOf_def Let_def)
  qed
  have ok: "\<exists>x. r = Ok x"
  proof (rule ccontr)
    assume "\<nexists>x. r = Ok x"
    then obtain er st2 where rec: "processUnitRecovered env (enDisk env) True p st = (Inl er, st2)"
      using run by (cases r) (auto simp: processUnitRecovered_def)
    show False
      using e c queueOutcome_errors [of "(br\<lparr>brStats := countResult (Inl er) (brStats br)\<rparr>, st2)" env "outcomeOf (Inl er)"]
        countResult_failed [of er "brStats br"]
      by (simp add: b runBuildJob_def rec recordResult_def Let_def errorsOf_def)
  qed
  then obtain o' skipped checked where r: "r = Ok (o', skipped, checked)" by auto
  define br1 where "br1 = br\<lparr>brStats := countResult (Inr (o', skipped, checked)) (brStats br)\<rparr>"
  have g1: "buildGood env R own key D (br1, st)" using g by (simp add: b br1_def buildGood_stats)
  have job: "snd (runBuildJob env cancelled p b) = queueOutcomeLocked env o' (br1, st')"
    using c run r by (simp add: b runBuildJob_def processUnitRecovered_def recordResult_def outcomeOf_def br1_def Let_def)
  obtain pkg where pkg: "snPackages (enSnap env) p = Some pkg" "schedulableRoot (enSnap env) pkg" using p by (auto simp: units_def)
  show ?thesis
  proof (cases "pkGoFiles pkg = []")
    case True
    then have "p \<notin> indexed env" using pkg by (auto simp: indexed_def isUnit_def)
    moreover have "o' = None" "st' = st" using run r pkg True by (auto simp: processUnit_def)
    ultimately show ?thesis using g1 job by (simp add: queueOutcomeLocked_def)
  next
    case False
    then have u: "isUnit env p pkg" using pkg by (simp add: isUnit_def)
    have S: "runSound env (diskReader env) R own key D st" using g b by (simp add: buildGood_def)
    have K: "keying env (diskReader env) R own key" and F: "fitsFormat env (diskReader env) R key"
      and C: "checksTo env (diskReader env) R key" and B: "bolt (enBolt env)" and inj: "inj_on Hash (indexed env)"
      by (rule buildableD [OF A])+
    have "pkImportPath pkg = p" using K u by (auto simp: keying_def)
    then have deps: "set (directDepImports (enSnap env) pkg) \<subseteq> D" using directDeps_indexed [OF u] D(2) by blast
    have "stepSound env (diskReader env) R own key D p (irBolt st) (r, st')"
      using processUnit_sound [OF S K F C u deps, of True] run by (simp add: diskReader_def)
    then have st': "irBolt st' = irBolt st" "runSound env (diskReader env) R own key (insert p D) st'"
      "outcomeRight env R own key p (irBolt st') o'"
      by (simp_all add: stepSound_def r)
    have "buildGood env R own key (insert p D) (queueOutcomeLocked env o' (br1, st'))"
      by (rule queueOutcome_good [OF B inj D(1) F u g1 st']) (use e job in simp)
    moreover have "D \<union> {p} \<inter> indexed env = insert p D" using u by (auto simp: indexed_def)
    ultimately show ?thesis using job by simp
  qed
qed

lemma runJobs_good:
  assumes A: "buildable env R own key" and g: "buildGood env R own key {} b"
  shows "jobsInOrder (enSnap env) order \<Longrightarrow> set order \<subseteq> units (enSnap env) \<Longrightarrow> errorsOf (runJobs env cancelled order b) = 0 \<Longrightarrow>
    buildGood env R own key (set order \<inter> indexed env) (runJobs env cancelled order b)"
proof (induction order rule: rev_induct)
  case (snoc p order)
  let ?b = "runJobs env cancelled order b"
  have run: "runJobs env cancelled (order @ [p]) b = snd (runBuildJob env cancelled p ?b)" by (simp add: runJobs_def)
  have e: "errorsOf ?b = 0" using snoc.prems(3) job_errors [of ?b env cancelled p] run by simp
  have good: "buildGood env R own key (set order \<inter> indexed env) ?b"
    by (rule snoc.IH) (use snoc.prems e in \<open>auto simp: jobsInOrder_snoc\<close>)
  have "buildGood env R own key (set order \<inter> indexed env \<union> {p} \<inter> indexed env) (snd (runBuildJob env cancelled p ?b))"
    by (rule job_good [OF A _ _ _ good]) (use snoc.prems run in \<open>auto simp: jobsInOrder_snoc\<close>)
  moreover have "set order \<inter> indexed env \<union> {p} \<inter> indexed env = set (order @ [p]) \<inter> indexed env" by auto
  ultimately show ?case by (simp only: run)
qed (use g in \<open>simp add: runJobs_def\<close>)

section \<open>The whole run\<close>

lemma indexed_units: "indexed env \<subseteq> units (enSnap env)"
  by (auto simp: indexed_def isUnit_def units_def)

lemma PutBuildFingerprint_rep:
  assumes B: "bolt B" and r: "indexRep B t s"
  shows "indexRep B (snd (PutBuildFingerprint B fp t)) s"
proof (cases "snd (PutBuildFingerprint B fp t) = t")
  case False
  define t' where "t' = snd (PutBuildFingerprint B fp t)"
  have "bucketPut B bucketMeta buildFingerprintKey fp t = Ok t'"
    using bolt.update_cases [OF B, of "bucketPut B bucketMeta buildFingerprintKey fp" t] False
    by (auto simp: PutBuildFingerprint_def putMeta_def t'_def)
  then have put: "boHas B t bucketMeta" "boPut B t bucketMeta buildFingerprintKey fp = Ok t'"
    by (simp_all add: bucketPut_def split: if_splits)
  note frame = bolt.has_put [OF B put(2)] bolt.get_put [OF B put]
  have "represents B t' (isPostings s)"
    by (rule bolt.represents_frame [OF B, of t]) (use r in \<open>simp_all add: frame indexRep_def\<close>)
  then have "indexRep B t' s" using r by (simp add: indexRep_def unitsRep_def keySet_def frame)
  then show ?thesis by (simp add: t'_def)
qed (use r in simp)

lemma Build_run:
  assumes "bolt (enBolt env)" "order \<noteq> []" "BuildIndex env cancelled n order t fs = (Ok (stats, errs), st)"
  defines "b \<equiv> flushResults env (runJobs env cancelled order (newBuildResults (if n \<le> 0 then 50 else n), newRun t fs))"
  shows "errorsOf b = stErrors stats" "irCAS st = irCAS (snd b)"
    "indexRep (enBolt env) (irBolt (snd b)) s \<Longrightarrow> indexRep (enBolt env) (irBolt st) s"
  using assms(2,3) PutBuildFingerprint_rep [OF assms(1), of "irBolt (snd b)" s "enToolchain env"]
  unfolding BuildIndex_def b_def [symmetric] by (auto simp: errorsOf_def split: prod.splits if_splits go.splits)

lemma Build_good:
  assumes A: "buildable env R own key" and o: "set order = units (enSnap env)" "jobsInOrder (enSnap env) order"
    and i: "indexRep (enBolt env) t s" and c: "casSound env R fs" and d: "dbSound env (diskReader env) R own key t"
    and b: "BuildIndex env cancelled n order t fs = (Ok (stats, errs), st)" and e: "stErrors stats = 0"
  shows "casSound env R (irCAS st) \<and> (\<exists>s. indexRep (enBolt env) (irBolt st) s)
    \<and> (\<forall>p \<in> indexed env. dbRight env R own key p (irBolt st) \<and> Has (irCAS st) (key p))"
proof (cases "order = []")
  case True
  then have "indexed env = {}" using o(1) by (auto simp: indexed_def units_def isUnit_def)
  moreover have "irCAS st = fs" "irBolt st = t" using b True by (auto simp: BuildIndex_def newRun_def)
  ultimately show ?thesis using c i by auto
next
  case False
  have B: "bolt (enBolt env)" "inj_on Hash (indexed env)" by (rule buildableD [OF A])+
  define b0 where "b0 = (newBuildResults (if n \<le> 0 then 50 else n), newRun t fs)"
  define b1 where "b1 = runJobs env cancelled order b0"
  note run = Build_run [OF B(1) False b, folded b0_def, folded b1_def]
  have e1: "errorsOf (flushPendingLocked env b1) = 0" "errorsOf b1 = 0"
    using run(1) e flush_errors(1) [of b1 env] by (simp_all add: flushResults_def flush_errors(2))
  have "buildGood env R own key {} b0"
    using i c d by (auto simp: buildGood_def b0_def newBuildResults_def newRun_def runSound_def)
  then have g: "buildGood env R own key (indexed env) b1"
    using runJobs_good [OF A, of b0 order cancelled] o e1(2) unfolding b1_def by (simp add: Int_absorb1 [OF indexed_units])
  from flushPending_good [OF B order_refl g e1(1)]
  have "buildGood env R own key (indexed env) (flushPendingLocked env b1)" "brPending (fst (flushPendingLocked env b1)) = []" by blast+
  moreover obtain br2 st2 where b2: "flushPendingLocked env b1 = (br2, st2)" by fastforce
  ultimately have "buildGood env R own key (indexed env) (flushPtrsLocked env (br2, st2))" "brPending br2 = []"
    using flushPtrs_good [OF B order_refl] by auto
  then have "buildGood env R own key (indexed env) (flushResults env b1)" "brPending (fst (flushResults env b1)) = []"
    by (auto simp: flushResults_def b2 flushPtrsLocked_def split: prod.splits)
  moreover obtain br3 st3 where b3: "flushResults env b1 = (br3, st3)" by fastforce
  ultimately have g3: "buildGood env R own key (indexed env) (br3, st3)" "brPending br3 = []" by simp_all
  then obtain s' where s': "indexRep (enBolt env) (irBolt st3) s'" "indexRep (enBolt env) (irBolt st) s'"
    using run(3) b3 by (auto simp: buildGood_def)
  have S: "runSound env (diskReader env) R own key (indexed env) st3" using g3(1) by (simp add: buildGood_def)
  have "dbRight env R own key p (irBolt st)" if "p \<in> indexed env" for p
    using g3 that by (auto simp: buildGood_def dbRight_def bolt.GetUnit_rep [OF B(1) s'(1)] bolt.GetUnit_rep [OF B(1) s'(2)])
  then show ?thesis using s'(2) S run(2) b3 by (auto dest: runSoundD(1,5))
qed

text \<open>Every run of the scheduler can be completed.\<close>

lemma step_jobsDone:
  assumes "sched_step s s'" "sched_inv snap s"
  shows "jobsDone s' = jobsDone s \<or> (\<exists>p. p \<notin> jobsDone s \<and> jobsDone s' = insert p (jobsDone s))"
  using assms(1)
proof cases
  case (receive path rest)
  then have "scWorkers s path = None" using assms(2) by (simp add: sched_inv_def)
  then show ?thesis using receive by (auto simp: jobsDone_def)
next
  case (job_done path)
  then have "path \<notin> jobsDone s \<and> jobsDone s' = insert path (jobsDone s)" by (auto simp: jobsDone_def)
  then show ?thesis by blast
next
  case (release path d ds)
  then show ?thesis by (auto simp: jobsDone_def)
next
  case (finished path)
  then have "scWorkers (retire s) = scWorkers s" by (auto simp: retire_def closeReady_def Let_def)
  then show ?thesis using finished by (auto simp: jobsDone_def)
qed

lemma complete_run_exists:
  assumes "enumerates ds ks rs snap"
  shows "\<exists>order sched. sched_run (fst (newScheduler ds ks rs snap)) order sched \<and> (\<nexists>s'. sched_step sched s')"
proof -
  let ?s0 = "fst (newScheduler ds ks rs snap)"
  have "\<exists>order' sched. sched_run ?s0 order' sched \<and> (\<nexists>s'. sched_step sched s')" if "sched_run ?s0 order s" for order s
    using that
  proof (induction "work snap s" arbitrary: order s rule: less_induct)
    case less
    have inv: "sched_inv snap s" using sched_run_order [OF less.prems assms] reachable_inv [OF assms] by blast
    show ?case
    proof (cases "\<exists>s'. sched_step s s'")
      case True
      then obtain s' where s': "sched_step s s'" by blast
      have "\<exists>order'. sched_run ?s0 order' s'"
        using step_jobsDone [OF s' inv] sched_run.other [OF less.prems s'] sched_run.job [OF less.prems s'] by blast
      then show ?thesis using less.hyps [OF sched_step_work [OF s' inv]] by blast
    qed (use less.prems in blast)
  qed
  then show ?thesis using sched_run.start by blast
qed

end
