(* ===== verification/Build_Live.thy ===== *)
theory Build_Live
  imports Build_Sound
begin

text \<open>
  The contract of \<open>Build\<close>: a run that counts no error leaves the index of a build from scratch, and
  where neither the checker nor a write fails the run counts no error.
\<close>

section \<open>Runs without failures\<close>

text \<open>
  Every commit and every write to the blob store succeeds, and the checker accepts every package
  whose dependencies' export data it is given.
\<close>

definition quietIO :: "put_io \<Rightarrow> bool" where
  "quietIO io \<longleftrightarrow> ioMkdir io = None \<and> ioCreate io = None \<and> ioWrite io = None \<and> ioClose io = None \<and> ioRename io = None"

definition nothingFails :: "'t index_env \<Rightarrow> (path \<Rightarrow> file_reader) \<Rightarrow> (u64 \<Rightarrow> check_result) \<Rightarrow> (path \<Rightarrow> u64) \<Rightarrow> bool" where
  "nothingFails env rd R key \<longleftrightarrow> length (enToolchain env) \<le> maxValueSize \<and> (\<forall>f t t'. f t = Ok t' \<longrightarrow> boUpdate (enBolt env) f t = (Ok (), t'))
     \<and> (\<forall>p pkg. isUnit env p pkg \<longrightarrow> quietIO (enPutIO env p)
       \<and> (\<forall>ex. (\<forall>d \<in> set (directDepImports (enSnap env) pkg). ex d = Ok (exportOpt (crExport (R (key d)))))
          \<longrightarrow> (\<exists>result. enCheck env p (pkGoFiles pkg) (testFilesInPackage env (rd p) pkg) (rd p) ex = Ok result)))"

lemma nothingFails_commit: "nothingFails env rd R key \<Longrightarrow> f t = Ok t' \<Longrightarrow> boUpdate (enBolt env) f t = (Ok (), t')"
  unfolding nothingFails_def by simp

lemma quiet_casPut: "quietIO io \<Longrightarrow> \<exists>fs'. casPut io k blob fs = (Ok (), fs')"
  by (simp add: quietIO_def casPut_def Let_def)

lemma checkAndStore_ok:
  assumes A: "indexable env rd R own key" and Q: "nothingFails env rd R key"
    and S: "runSound env rd R own key D st" and u: "isUnit env p pkg"
    and d: "set (directDepImports (enSnap env) pkg) \<subseteq> D"
  shows "\<exists>o'. fst (checkAndStoreOutcome env (rd p) ts p pkg (testFilesInPackage env (rd p) pkg) (key p) (own p) st) = Ok o'"
proof -
  have F: "fitsFormat env rd R key" and C: "checksTo env rd R key" using A by (simp_all add: indexable_def)
  let ?tf = "testFilesInPackage env (rd p) pkg"
  have ex: "\<forall>q \<in> set (directDepImports (enSnap env) pkg). fst (ExportData env q st) = Ok (exportOpt (crExport (R (key q))))"
    using ExportData_sound [OF S F] d by blast
  then obtain result where r: "enCheck env p (pkGoFiles pkg) ?tf (rd p) (\<lambda>q. fst (ExportData env q st)) = Ok result"
    using Q [unfolded nothingFails_def, THEN conjunct2, THEN conjunct2, rule_format, OF u, THEN conjunct2, rule_format, of "\<lambda>q. fst (ExportData env q st)"] by blast
  have R: "result = R (key p)"
    using C [unfolded checksTo_def, rule_format, of p pkg "\<lambda>q. fst (ExportData env q st)" result] u ex r by simp
  define files where "files = (if ts then (case statFiles env (effectiveGoFiles (pkGoFiles pkg) ?tf) of Some f \<Rightarrow> f | None \<Rightarrow> []) else [])"
  have "unit_blob_fits (blobOf R (key p) files)"
    using F u unfolding fitsFormat_def files_def filesOf_def by (auto split: option.splits)
  then obtain blob where b: "EncodeUnitBlob (blobOf R (key p) files) = Ok blob" using blob_codec.enc_dec by blast
  have "quietIO (enPutIO env p)" using Q u by (auto simp: nothingFails_def)
  then obtain fs where put: "casPut (enPutIO env p) (key p) blob (irCAS (fold (\<lambda>p st. snd (ExportData env p st)) (enAsks env p) st)) = (Ok (), fs)"
    using quiet_casPut by blast
  show ?thesis
    using b put unfolding checkAndStoreOutcome_def by (simp add: r R Let_def files_def [symmetric] blobOf_def split: prod.splits)
qed

lemma processUnit_ok:
  assumes A: "indexable env rd R own key" and Q: "nothingFails env rd R key"
    and S: "runSound env rd R own key D st" and u: "isUnit env p pkg"
    and d: "set (directDepImports (enSnap env) pkg) \<subseteq> D" and ts: "ts \<Longrightarrow> rd p = enDisk env"
  shows "\<exists>x. fst (processUnit env (rd p) ts p st) = Ok x"
proof -
  have K: "keying env rd R own key" and F: "fitsFormat env rd R key" using A by (simp_all add: indexable_def)
  obtain st1 where S1: "runSound env rd R own key D st1" and
    "(\<exists>v statOK. processUnit env (rd p) ts p st =
        (let (o', st2) = unchangedOutcome env p v (filesOf env (rd p) pkg) statOK ts st1 in (Ok (o', True, False), st2)))
     \<or> processUnit env (rd p) ts p st = buildFresh env (rd p) ts p pkg (testFilesInPackage env (rd p) pkg) (key p) (own p) st1"
    by (rule processUnit_cases [OF S K u d ts]) (assumption, blast)
  then consider v statOK where "processUnit env (rd p) ts p st =
        (let (o', st2) = unchangedOutcome env p v (filesOf env (rd p) pkg) statOK ts st1 in (Ok (o', True, False), st2))"
    | (fresh) "processUnit env (rd p) ts p st = buildFresh env (rd p) ts p pkg (testFilesInPackage env (rd p) pkg) (key p) (own p) st1"
    by blast
  then show ?thesis
  proof cases
    case fresh
    show ?thesis
    proof (cases "irCAS st1 (blobPath (key p))")
      case None
      then show ?thesis using checkAndStore_ok [OF A Q S1 u d, of ts] by (auto simp: fresh buildFresh_def casGet_def split: prod.splits)
    next
      case (Some f)
      obtain files where "DecodeUnitBlob (cfData f) = Ok (blobOf R (key p) files)"
        using runSoundD(1) [OF S1] Some by (auto simp: casSound_def)
      then show ?thesis using F Some
        by (auto simp: fresh buildFresh_def casGet_def casHitOutcome_def fitsFormat_def Let_def split: prod.splits)
    qed
  qed (auto simp: Let_def split: prod.splits)
qed

lemma flushPending_ok:
  assumes A: "buildable env R own key" and Q: "nothingFails env (diskReader env) R key" and g: "buildGood env R own key D b"
  shows "errorsOf (flushPendingLocked env b) = errorsOf b"
proof -
  obtain br st where b: "b = (br, st)" by fastforce
  obtain s where s: "indexRep (enBolt env) (irBolt st) s" "list_all (entryFits (enLower env)) (brPending br)"
    using g by (auto simp: b buildGood_def list_all_iff)
  have B: "bolt (enBolt env)" by (rule buildableD [OF A])
  obtain t' where t': "go_foldM (putUnitEntry (enBolt env) (enLower env)) (brPending br) (irBolt st) = Ok t'"
    using bolt.putUnitEntries_rep [OF B s] by blast
  have "PutUnitsBatch (enBolt env) (enLower env) (brPending br) (irBolt st) = (Ok (), t')"
    unfolding PutUnitsBatch_def by (rule nothingFails_commit [OF Q]) (rule t')
  then show ?thesis by (simp add: b flushPendingLocked_def errorsOf_def)
qed

lemma queueOutcome_ok:
  assumes A: "buildable env R own key" and Q: "nothingFails env (diskReader env) R key" and D: "D \<subseteq> indexed env" and unit: "isUnit env p pkg"
    and g: "buildGood env R own key D (br, st0)" and b: "irBolt st = irBolt st0"
    and S: "runSound env (diskReader env) R own key (insert p D) st"
    and o: "outcomeRight env R own key p (irBolt st) o'"
  shows "errorsOf (queueOutcomeLocked env o' (br, st)) = errorsOf (br, st)"
proof (cases o')
  case (Some uo)
  have F: "fitsFormat env (diskReader env) R key" by (rule buildableD [OF A])
  show ?thesis
  proof (cases "uoEntry uo")
    case None
    then show ?thesis
      by (auto simp: Some queueOutcomeLocked_def queuePtr_def flushPtrsLocked_def errorsOf_def Let_def split: option.splits prod.splits)
  next
    case (Some en)
    note q = queued_entry_good [OF D F unit g b S o [unfolded \<open>o' = Some uo\<close>] Some]
    show ?thesis using flushPending_ok [OF A Q q(1)] q(2) Some
      by (simp add: \<open>o' = Some uo\<close> queueOutcomeLocked_def queueEntry_def Let_def) (simp add: errorsOf_def)
  qed
qed (simp add: queueOutcomeLocked_def)

lemma job_ok:
  assumes A: "buildable env R own key" and Q: "nothingFails env (diskReader env) R key" and p: "p \<in> units (enSnap env)" "\<not> cancelled p"
    and D: "D \<subseteq> indexed env" "set (depsOf (enSnap env) p) \<inter> indexed env \<subseteq> D"
    and g: "buildGood env R own key D b"
  shows "errorsOf (snd (runBuildJob env cancelled p b)) = errorsOf b"
proof -
  obtain br st where b: "b = (br, st)" by fastforce
  obtain pkg where pkg: "snPackages (enSnap env) p = Some pkg" "schedulableRoot (enSnap env) pkg" using p by (auto simp: units_def)
  show ?thesis
  proof (cases "pkGoFiles pkg = []")
    case True
    then show ?thesis using p pkg
      by (simp add: b runBuildJob_def processUnitRecovered_def processUnit_def recordResult_def outcomeOf_def countResult_def
          queueOutcomeLocked_def errorsOf_def Let_def)
  next
    case False
    then have u: "isUnit env p pkg" using pkg by (simp add: isUnit_def)
    have S: "runSound env (diskReader env) R own key D st" using g b by (simp add: buildGood_def)
    have K: "keying env (diskReader env) R own key" and F: "fitsFormat env (diskReader env) R key"
      and C: "checksTo env (diskReader env) R key" by (rule buildableD [OF A])+
    have "pkImportPath pkg = p" using K u by (auto simp: keying_def)
    then have deps: "set (directDepImports (enSnap env) pkg) \<subseteq> D" using directDeps_indexed [OF u] D(2) by blast
    obtain o' skipped checked st' where run: "processUnit env (enDisk env) True p st = (Ok (o', skipped, checked), st')"
      using processUnit_ok [OF A [unfolded buildable_def] Q S u deps, of True, unfolded diskReader_def] by (cases "processUnit env (enDisk env) True p st") auto
    have "stepSound env (diskReader env) R own key D p (irBolt st) (Ok (o', skipped, checked), st')"
      using processUnit_sound [OF S K F C u deps, of True] run by (simp add: diskReader_def)
    then have st': "irBolt st' = irBolt st" "runSound env (diskReader env) R own key (insert p D) st'"
      "outcomeRight env R own key p (irBolt st') o'" by (simp_all add: stepSound_def)
    define br1 where "br1 = br\<lparr>brStats := countResult (Inr (o', skipped, checked)) (brStats br)\<rparr>"
    have g1: "buildGood env R own key D (br1, st)" using g by (simp add: b br1_def buildGood_stats)
    have "errorsOf (br1, st') = errorsOf b" by (simp add: br1_def b errorsOf_def countResult_def)
    moreover have "snd (runBuildJob env cancelled p b) = queueOutcomeLocked env o' (br1, st')"
      using p run by (simp add: b runBuildJob_def processUnitRecovered_def recordResult_def outcomeOf_def br1_def Let_def)
    ultimately show ?thesis using queueOutcome_ok [OF A Q D(1) u g1 st'] by simp
  qed
qed

lemma runJobs_ok:
  assumes A: "buildable env R own key" and Q: "nothingFails env (diskReader env) R key" and g: "buildGood env R own key {} b" "errorsOf b = 0"
  shows "jobsInOrder (enSnap env) order \<Longrightarrow> set order \<subseteq> units (enSnap env) \<Longrightarrow> (\<forall>p \<in> set order. \<not> cancelled p) \<Longrightarrow>
    errorsOf (runJobs env cancelled order b) = 0"
proof (induction order rule: rev_induct)
  case (snoc p order)
  let ?b = "runJobs env cancelled order b"
  have e: "errorsOf ?b = 0" by (rule snoc.IH) (use snoc.prems in \<open>auto simp: jobsInOrder_snoc\<close>)
  have good: "buildGood env R own key (set order \<inter> indexed env) ?b"
    by (rule runJobs_good [OF A g(1) _ _ e]) (use snoc.prems in \<open>auto simp: jobsInOrder_snoc\<close>)
  have "errorsOf (snd (runBuildJob env cancelled p ?b)) = errorsOf ?b"
    by (rule job_ok [OF A Q _ _ _ _ good]) (use snoc.prems in \<open>auto simp: jobsInOrder_snoc\<close>)
  then show ?case using e by (simp add: runJobs_def)
qed (use g in \<open>simp add: runJobs_def\<close>)

lemma fingerprint_ok:
  assumes B: "bolt (enBolt env)" and Q: "nothingFails env (diskReader env) R key" and i: "indexRep (enBolt env) t s"
  shows "\<exists>t'. PutBuildFingerprint (enBolt env) (enToolchain env) t = (Ok (), t')"
proof -
  have "boHas (enBolt env) t bucketMeta" using i by (simp add: indexRep_def allBuckets_def)
  then obtain t' where "bucketPut (enBolt env) bucketMeta buildFingerprintKey (enToolchain env) t = Ok t'"
    using bolt.put_ok [OF B, of t bucketMeta buildFingerprintKey "enToolchain env"] Q
    by (auto simp: bucketPut_def nothingFails_def buildFingerprintKey_def lit_def maxKeySize_def)
  then have "boUpdate (enBolt env) (bucketPut (enBolt env) bucketMeta buildFingerprintKey (enToolchain env)) t = (Ok (), t')"
    by (rule nothingFails_commit [OF Q])
  then show ?thesis by (simp add: PutBuildFingerprint_def putMeta_def)
qed

lemma Build_ok:
  assumes A: "buildable env R own key" and Q: "nothingFails env (diskReader env) R key"
    and o: "set order = units (enSnap env)" "jobsInOrder (enSnap env) order" "\<forall>p \<in> set order. \<not> cancelled p"
    and i: "indexRep (enBolt env) t s" and c: "casSound env R fs" and d: "dbSound env (diskReader env) R own key t"
  shows "\<exists>stats st. BuildIndex env cancelled n order t fs = (Ok (stats, []), st) \<and> stErrors stats = 0"
proof (cases "order = []")
  case False
  have B: "bolt (enBolt env)" "inj_on Hash (indexed env)" by (rule buildableD [OF A])+
  define b0 where "b0 = (newBuildResults (if n \<le> 0 then 50 else n), newRun t fs)"
  define b1 where "b1 = runJobs env cancelled order b0"
  have g0: "buildGood env R own key {} b0"
    using i c d by (auto simp: buildGood_def b0_def newBuildResults_def newRun_def runSound_def)
  have "errorsOf b0 = 0" by (simp add: b0_def newBuildResults_def noIndexStats_def errorsOf_def)
  from runJobs_ok [OF A Q g0 this o(2) _ o(3)] have e1: "errorsOf b1 = 0" using o(1) by (simp add: b1_def)
  have g1: "buildGood env R own key (set order \<inter> indexed env) b1"
    unfolding b1_def by (rule runJobs_good [OF A g0 o(2)]) (use o e1 in \<open>simp_all add: b1_def\<close>)
  have e2: "errorsOf (flushPendingLocked env b1) = 0" using flushPending_ok [OF A Q g1] e1 by simp
  have "buildGood env R own key (set order \<inter> indexed env) (flushPendingLocked env b1)"
    using flushPending_good [OF B _ g1 e2] by simp
  from flushPtrs_good [OF B _ this]
  have g2: "buildGood env R own key (set order \<inter> indexed env) (flushResults env b1)" by (simp add: flushResults_def)
  obtain br st where b2: "flushResults env b1 = (br, st)" by fastforce
  have "errorsOf (flushResults env b1) = 0" using e2 by (simp add: flushResults_def flush_errors(2))
  then have br: "brErrs br = []" "\<not> brCrashed br" "\<exists>s. indexRep (enBolt env) (irBolt st) s" "stErrors (brStats br) = 0"
    using g2 by (simp_all add: b2 buildGood_def errorsOf_def)
  obtain t' where "PutBuildFingerprint (enBolt env) (enToolchain env) (irBolt st) = (Ok (), t')"
    using fingerprint_ok [OF B(1) Q] br(3) by blast
  then have "BuildIndex env cancelled n order t fs = (Ok (brStats br, []), st\<lparr>irBolt := t'\<rparr>)"
    using False br b2 by (simp add: BuildIndex_def b1_def b0_def)
  then show ?thesis using br(4) by blast
qed (simp add: BuildIndex_def noIndexStats_def)

section \<open>Two packages\<close>

definition chain_packages :: package_map where
  "chain_packages = [lit ''a'' \<mapsto> (sample_package (lit ''a'') [] [])\<lparr>pkGoFiles := [lit ''a.go'']\<rparr>,
     lit ''b'' \<mapsto> (sample_package (lit ''b'') [lit ''a''] [])\<lparr>pkGoFiles := [lit ''b.go'']\<rparr>]"

definition chain_result :: check_result where
  "chain_result = \<lparr>crFacts = [1], crExport = [2], crIndex = \<lparr>pieNames = [], pieMethods = [], pieSymStrs = [], piePostings = []\<rparr>, crIncomplete = False\<rparr>"

definition chain_env :: "mem index_env" where
  "chain_env = \<lparr>enBolt = memBolt, enLower = id, enSnap = newSnapshot [lit ''a'', lit ''b''] chain_packages [],
     enToolchain = lit ''go'', enFlags = [], enRelative = False, enRel = (\<lambda>_ _. None), enJoin = (@),
     enDisk = (\<lambda>f. Some f), enStat = (\<lambda>_. Some (1, 1)), enReadDir = (\<lambda>_. None), enClause = (\<lambda>_. None),
     enCheck = (\<lambda>_ _ _ _ _. Ok chain_result), enAsks = (\<lambda>_. []),
     enPutIO = (\<lambda>_. \<lparr>ioMkdir = None, ioCreate = None, ioWrite = None, ioClose = None, ioRename = None, ioRemove = None,
       ioTempName = lit ''tmp-1.blob'', ioPartial = [], ioClock = 0\<rparr>),
     enReadErr = (\<lambda>_. None)\<rparr>"


definition chain_own :: "(path \<Rightarrow> file_reader) \<Rightarrow> path \<Rightarrow> u64" where
  "chain_own rd p = (case contentHash chain_env (rd p) [p @ lit ''.go''] of Ok h \<Rightarrow> h | _ \<Rightarrow> 0)"

definition chain_key :: "(path \<Rightarrow> file_reader) \<Rightarrow> path \<Rightarrow> u64" where
  "chain_key rd p = computeUnitKey (chain_own rd p) (if p = lit ''b'' then [\<lparr>deePath = lit ''a'', deeExportHash = hashExport [2]\<rparr>] else [])"

lemma chain_before: "Before (enSnap chain_env) (lit ''a'') (lit ''b'')"
  by code_simp

lemma chain_neq: "lit ''a'' \<noteq> lit ''b''"
  by (simp add: lit_def)

lemma chain_Hash: "Hash (lit ''a'') \<noteq> Hash (lit ''b'')"
  by code_simp

lemma chain_packages_of: "snPackages (enSnap chain_env) = chain_packages"
  by (simp add: chain_env_def newSnapshot_def Let_def)

lemma chain_isUnit: "isUnit chain_env p pkg \<longleftrightarrow> chain_packages p = Some pkg"
  by (auto simp: isUnit_def chain_packages_of chain_packages_def schedulableRoot_def sample_package_def split: if_splits)

lemma chain_unit_cases:
  assumes "isUnit chain_env p pkg"
  obtains "p = lit ''a''" "pkg = (sample_package (lit ''a'') [] [])\<lparr>pkGoFiles := [lit ''a.go'']\<rparr>"
  | "p = lit ''b''" "pkg = (sample_package (lit ''b'') [lit ''a''] [])\<lparr>pkGoFiles := [lit ''b.go'']\<rparr>"
  using assms by (auto simp: chain_isUnit chain_packages_def split: if_splits)

lemma chain_indexed: "indexed chain_env = {lit ''a'', lit ''b''}"
  by (auto simp: indexed_def chain_isUnit chain_packages_def split: if_splits)

lemma chain_files: "isUnit chain_env p pkg \<Longrightarrow> filesOf chain_env rd pkg = [p @ lit ''.go''] \<and> pkImportPath pkg = p"
  by (erule chain_unit_cases) (simp_all add: filesOf_def effectiveGoFiles_def testFilesInPackage_def packageClauseName_def chain_env_def
    sample_package_def lit_def split: option.splits)

lemma chain_deps: "isUnit chain_env p pkg \<Longrightarrow> directDepImports (enSnap chain_env) pkg = (if p = lit ''b'' then [lit ''a''] else [])"
  using chain_before by (elim chain_unit_cases) (auto simp: directDepImports_def sample_package_def chain_packages_of chain_packages_def chain_neq)

lemma chain_keying:
  assumes "\<And>p f. \<exists>b. rd p f = Some b"
  shows "keying chain_env rd (\<lambda>_. chain_result) (chain_own rd) (chain_key rd)"
  unfolding keying_def
proof (intro allI impI)
  fix p pkg assume u: "isUnit chain_env p pkg"
  obtain b where "rd p (p @ lit ''.go'') = Some b" using assms by blast
  then have "contentHash chain_env (rd p) [p @ lit ''.go''] = Ok (chain_own rd p)"
    by (simp add: chain_own_def contentHash_def)
  moreover have "chain_key rd p = computeUnitKey (chain_own rd p) (depsOfUnit chain_env (\<lambda>_. chain_result) (chain_key rd) pkg)"
    by (simp add: chain_key_def depsOfUnit_def chain_deps [OF u] exportHashOf_def chain_result_def)
  ultimately show "pkImportPath pkg = p \<and> contentHash chain_env (rd p) (filesOf chain_env (rd p) pkg) = Ok (chain_own rd p)
      \<and> chain_key rd p = computeUnitKey (chain_own rd p) (depsOfUnit chain_env (\<lambda>_. chain_result) (chain_key rd) pkg)"
    using chain_files [OF u] by simp
qed

lemma chain_smallFiles: "p = lit ''a'' \<or> p = lit ''b'' \<Longrightarrow> files = [] \<or> files = [\<lparr>fsPath = p @ lit ''.go'', fsSize = 1, fsModTimeNanos = 1\<rparr>] \<Longrightarrow>
    smallFiles chain_env files \<and> unit_blob_fits (blobOf (\<lambda>_. chain_result) k files)"
  by (auto simp: smallFiles_def pointerWith_def unit_pointer_fits_def files_fit_def len_ok_def unit_pointer_bytes_def counted_def
      str_bytes_def file_bytes_def maxValueSize_def chain_env_def lit_def unit_blob_fits_def blobOf_def chain_result_def index_fits_def)

lemma chain_fitsFormat: "fitsFormat chain_env rd (\<lambda>_. chain_result) key"
proof -
  have st: "statFiles chain_env [f] = Some [\<lparr>fsPath = f, fsSize = 1, fsModTimeNanos = 1\<rparr>]" for f
    by (simp add: chain_env_def recordedPath_def)
  have tmp: "isOrphanedPutTempFile (ioTempName (enPutIO chain_env p))" for p
    by (simp add: chain_env_def isOrphanedPutTempFile_def blobSuffix_def lit_def prefix_def suffix_def)
  have e: "entryFits (enLower chain_env) \<lparr>uePkgHash = Hash p, uePointer = pointerWith chain_env 0 0 0 [], ueIndex = crIndex chain_result\<rparr>" for p
    using chain_smallFiles [of "lit ''a''" "[]"] by (simp add: entryFits_def smallFiles_def chain_result_def postings_fit_def maxValueSize_def)
  have p: "p = lit ''a'' \<or> p = lit ''b''" if "isUnit chain_env p pkg" for p pkg using that by (rule chain_unit_cases) auto
  show ?thesis unfolding fitsFormat_def
    using chain_smallFiles [OF p] tmp e by (auto simp: chain_files st simp del: statFiles.simps) (simp add: chain_env_def)
qed

lemma chain_indexable:
  "(\<And>p f. \<exists>b. rd p f = Some b) \<Longrightarrow> indexable chain_env rd (\<lambda>_. chain_result) (chain_own rd) (chain_key rd)"
  using chain_keying chain_fitsFormat memory.bolt_axioms chain_Hash
  by (auto simp: indexable_def chain_indexed checksTo_def) (simp_all add: chain_env_def)

lemma chain_buildable: "buildable chain_env (\<lambda>_. chain_result) (chain_own (diskReader chain_env)) (chain_key (diskReader chain_env))"
  unfolding buildable_def by (rule chain_indexable) (simp add: diskReader_def chain_env_def)

lemma chain_nothingFails: "nothingFails chain_env rd (\<lambda>_. chain_result) key"
  by (simp add: nothingFails_def quietIO_def chain_env_def memBolt_def lit_def maxValueSize_def)

text \<open>
  C1. Incremental equals from scratch: whatever pointers the database and whatever blobs the store
  held before, a complete run of \<open>Build\<close> that counts no error leaves, for every package with
  files, the pointer and the blob of a build from scratch, a well-formed database and a blob store
  in which every blob is the checker's result for its key. The order of the jobs is the one of any run of the scheduler;
  the hypotheses are that keys and stats identify contents and that the old records are honest.
\<close>

theorem build_from_any_cache:
  assumes "buildable env R own key" "indexRep (enBolt env) t s" "casSound env R fs" "dbSound env (diskReader env) R own key t"
    and "enumerates ds ks rs (enSnap env)" "sched_run (fst (newScheduler ds ks rs (enSnap env))) order sched" "\<nexists>s'. sched_step sched s'"
    and "BuildIndex env cancelled n order t fs = (Ok (stats, errs), st)" "stErrors stats = 0"
  shows "casSound env R (irCAS st) \<and> (\<exists>s. indexRep (enBolt env) (irBolt st) s)
    \<and> (\<forall>p \<in> indexed env.
        (\<exists>u. GetUnit (enBolt env) False (Hash p) (irBolt st) = Ok u \<and> pointerRight env R own key p u)
        \<and> (\<exists>blob files. casGet False None (irCAS st) (key p) = Ok (Some blob) \<and> DecodeUnitBlob blob = Ok (blobOf R (key p) files)))"
proof -
  note good = Build_good [OF assms(1) complete_order [OF assms(5-7)] assms(2-4,8,9)]
  have "\<exists>blob files. casGet False None (irCAS st) (key p) = Ok (Some blob) \<and> DecodeUnitBlob blob = Ok (blobOf R (key p) files)"
    if "Has (irCAS st) (key p)" for p
    using good that by (auto simp: Has_def casSound_def casGet_def) blast
  then show ?thesis using good unfolding dbRight_def by blast
qed

lemma chain_enumerates: "enumerates [lit ''a'', lit ''b''] [lit ''a'', lit ''b''] [lit ''a'', lit ''b''] (enSnap chain_env)"
proof -
  have "units (enSnap chain_env) = {lit ''a'', lit ''b''}"
    by (auto simp: units_def chain_packages_of chain_packages_def schedulableRoot_def sample_package_def split: if_splits)
  then show ?thesis by (auto simp: enumerates_def chain_packages_of chain_packages_def chain_neq split: if_splits)
qed

text \<open>A first build of the two packages.\<close>

lemma chain_start:
  "indexRep (enBolt chain_env) (dbBolt freshDB) emptyIndex" "casSound chain_env R Map.empty"
  "dbSound chain_env rd R own key (dbBolt freshDB)"
proof -
  have B: "enBolt chain_env = memBolt" by (simp add: chain_env_def)
  show "indexRep (enBolt chain_env) (dbBolt freshDB) emptyIndex" using freshDB_rep by (simp add: B)
  show "casSound chain_env R Map.empty" by (simp add: casSound_def)
  show "dbSound chain_env rd R own key (dbBolt freshDB)"
    by (simp add: dbSound_def B memory.GetUnit_rep [OF freshDB_rep] emptyIndex_def)
qed

lemma chain_run:
  obtains order sched stats st where
    "sched_run (fst (newScheduler [lit ''a'', lit ''b''] [lit ''a'', lit ''b''] [lit ''a'', lit ''b''] (enSnap chain_env))) order sched"
    "\<nexists>s'. sched_step sched s'" "set order = units (enSnap chain_env)" "jobsInOrder (enSnap chain_env) order"
    "BuildIndex chain_env (\<lambda>_. False) 0 order (dbBolt freshDB) Map.empty = (Ok (stats, []), st)" "stErrors stats = 0"
proof -
  obtain order sched where run: "sched_run (fst (newScheduler [lit ''a'', lit ''b''] [lit ''a'', lit ''b''] [lit ''a'', lit ''b''] (enSnap chain_env))) order sched"
    "\<nexists>s'. sched_step sched s'" using complete_run_exists [OF chain_enumerates] by blast
  note o = complete_order [OF chain_enumerates run]
  show ?thesis
    using that [OF run o] Build_ok [OF chain_buildable chain_nothingFails o _ chain_start, of "\<lambda>_. False" 0] by auto
qed

theorem build_from_any_cache_witness:
  "\<exists>order sched stats st. sched_run (fst (newScheduler [lit ''a'', lit ''b''] [lit ''a'', lit ''b''] [lit ''a'', lit ''b''] (enSnap chain_env))) order sched
     \<and> BuildIndex chain_env (\<lambda>_. False) 0 order (dbBolt freshDB) Map.empty = (Ok (stats, []), st) \<and> stErrors stats = 0
     \<and> (\<exists>u. GetUnit memBolt False (Hash (lit ''b'')) (irBolt st) = Ok u \<and> upBlobKey u = chain_key (diskReader chain_env) (lit ''b''))"
proof -
  obtain order sched stats st where r:
    "sched_run (fst (newScheduler [lit ''a'', lit ''b''] [lit ''a'', lit ''b''] [lit ''a'', lit ''b''] (enSnap chain_env))) order sched"
    "\<nexists>s'. sched_step sched s'" "BuildIndex chain_env (\<lambda>_. False) 0 order (dbBolt freshDB) Map.empty = (Ok (stats, []), st)" "stErrors stats = 0"
    using chain_run by metis
  have "\<exists>u. GetUnit memBolt False (Hash (lit ''b'')) (irBolt st) = Ok u \<and> upBlobKey u = chain_key (diskReader chain_env) (lit ''b'')"
    using build_from_any_cache [OF chain_buildable chain_start chain_enumerates r]
    by (auto simp: chain_indexed pointerRight_def) (simp add: chain_env_def)
  then show ?thesis using r by blast
qed

end
