(* ===== verification/Reindex.thy ===== *)
theory Reindex
  imports Build_Live
begin

text \<open>
  \<open>Reindex\<close> (\<open>index/reindex.go\<close>): a changed package, read through the editor's overlay, and then the
  packages that import it, directly or not, in the graph's build order, each resolved by
  \<open>processUnit\<close> and written at once. The writes of concurrent calls are ordered by generations
  (\<open>index/generation.go\<close>).
\<close>

section \<open>Generations\<close>

record gen_table =
  gtNext :: u64
  gtDone :: "u64 \<Rightarrow> u64"     \<comment> \<open>a missing entry reads as 0\<close>

definition newGenTable :: gen_table where
  "newGenTable = \<lparr>gtNext = 0, gtDone = (\<lambda>_. 0)\<rparr>"

definition nextGen :: "gen_table \<Rightarrow> u64 \<times> gen_table" where
  "nextGen g = (let n = gtNext g + 1 in (n, g\<lparr>gtNext := n\<rparr>))"

definition tryCommit :: "u64 \<Rightarrow> u64 \<Rightarrow> gen_table \<Rightarrow> bool \<times> gen_table" where
  "tryCommit pkgHash gen g =
     (if gen < gtDone g pkgHash then (False, g) else (True, g\<lparr>gtDone := (gtDone g)(pkgHash := gen)\<rparr>))"

section \<open>One package\<close>

definition orderedReverseClosure :: "snapshot \<Rightarrow> path \<Rightarrow> path list" where
  "orderedReverseClosure snap changedPkg =
     filter (\<lambda>p. p \<noteq> changedPkg \<and> p \<in> set (ClosureUnits snap changedPkg)) (snOrder snap)"

text \<open>How a hop ends: without error, with an error that is fatal or not, or in a panic of the database.\<close>

datatype hop = HopOk | HopErr bool index_error | HopPanic

record 't reindex =
  rxStats :: index_stats
  rxGens :: gen_table
  rxRun :: "'t index_run"

definition setBolt :: "'t \<Rightarrow> 't reindex \<Rightarrow> 't reindex" where
  "setBolt t x = x\<lparr>rxRun := (rxRun x)\<lparr>irBolt := t\<rparr>\<rparr>"

definition refreshPointer :: "'t index_env \<Rightarrow> unit_outcome \<Rightarrow> 't reindex \<Rightarrow> hop \<times> 't reindex" where
  "refreshPointer env o' x =
     (case uoPtrRefresh o' of
        None \<Rightarrow> (HopOk, x)
      | Some u \<Rightarrow>
          (case PutUnitPointersBatch (enBolt env) [(uoPkgHash o', u)] (irBolt (rxRun x)) of
             (Panic, t) \<Rightarrow> (HopPanic, setBolt t x)
           | (_, t) \<Rightarrow> (HopOk, setBolt t x)))"

definition persistOutcome :: "'t index_env \<Rightarrow> unit_outcome \<Rightarrow> 't reindex \<Rightarrow> hop \<times> 't reindex" where
  "persistOutcome env o' x =
     (case uoEntry o' of
        None \<Rightarrow> refreshPointer env o' x
      | Some e \<Rightarrow>
          (case PutUnit (enBolt env) (enLower env) e (irBolt (rxRun x)) of
             (Ok _, t) \<Rightarrow> refreshPointer env o' (setBolt t x)
           | (Err er, t) \<Rightarrow>
               (HopErr True (StoreError er), setBolt t (x\<lparr>rxStats := (rxStats x)\<lparr>stErrors := stErrors (rxStats x) + 1\<rparr>\<rparr>))
           | (Panic, t) \<Rightarrow> (HopPanic, setBolt t x)))"

definition countHop :: "path \<Rightarrow> bool \<Rightarrow> bool \<Rightarrow> index_stats \<Rightarrow> index_stats" where
  "countHop path skipped typeChecked s =
     (if skipped then s\<lparr>stSkipped := stSkipped s + 1\<rparr>
      else s\<lparr>stProcessed := stProcessed s + 1, stChanged := stChanged s @ [path],
             stTypeChecked := stTypeChecked s + of_bool typeChecked\<rparr>)"

definition reindexOne :: "'t index_env \<Rightarrow> path \<Rightarrow> file_reader \<Rightarrow> bool \<Rightarrow> u64 \<Rightarrow> 't reindex \<Rightarrow> hop \<times> 't reindex" where
  "reindexOne env path reader trustStat gen x =
     (case processUnitRecovered env reader trustStat path (rxRun x) of
        (Inl e, st) \<Rightarrow>
          (HopErr False e, x\<lparr>rxRun := st, rxStats := (rxStats x)\<lparr>stErrors := stErrors (rxStats x) + 1\<rparr>\<rparr>)
      | (Inr (outcome, skipped, typeChecked), st) \<Rightarrow>
          (let x1 = x\<lparr>rxRun := st, rxStats := countHop path skipped typeChecked (rxStats x)\<rparr>
           in case outcome of
                None \<Rightarrow> (HopOk, x1)
              | Some o' \<Rightarrow>
                  (case tryCommit (uoPkgHash o') gen (rxGens x1) of
                     (False, g) \<Rightarrow> (HopOk, x1\<lparr>rxGens := g\<rparr>)
                   | (True, g) \<Rightarrow> persistOutcome env o' (x1\<lparr>rxGens := g\<rparr>))))"

section \<open>Reindex\<close>

text \<open>\<open>cancelled\<close> holds the closure packages before which the context has ended.\<close>

fun reindexLoop :: "'t index_env \<Rightarrow> (path \<Rightarrow> bool) \<Rightarrow> u64 \<Rightarrow> path list \<Rightarrow> index_error list \<Rightarrow> 't reindex
    \<Rightarrow> (unit, index_error list) go \<times> 't reindex" where
  "reindexLoop env cancelled gen [] errs x = (Ok errs, x)"
| "reindexLoop env cancelled gen (path # rest) errs x =
     (if cancelled path then (Ok (errs @ [Canceled]), x)
      else case reindexOne env path (enDisk env) True gen x of
        (HopOk, x') \<Rightarrow> reindexLoop env cancelled gen rest errs x'
      | (HopErr fatal e, x') \<Rightarrow>
          if fatal then (Ok (errs @ [e]), x') else reindexLoop env cancelled gen rest (errs @ [e]) x'
      | (HopPanic, x') \<Rightarrow> (Panic, x'))"

definition Reindex :: "'t index_env \<Rightarrow> (path \<Rightarrow> bool) \<Rightarrow> path \<Rightarrow> file_reader \<Rightarrow> gen_table \<Rightarrow> 't \<Rightarrow> cas_files
    \<Rightarrow> (unit, index_error list) go \<times> 't reindex" where
  "Reindex env cancelled changedPkg reader gt t fs =
     (if snPackages (enSnap env) changedPkg = None
      then (Ok [UnknownPackage changedPkg], \<lparr>rxStats = noIndexStats, rxGens = gt, rxRun = newRun t fs\<rparr>)
      else
        let (gen, gt1) = nextGen gt
        in case reindexOne env changedPkg reader False gen \<lparr>rxStats = noIndexStats, rxGens = gt1, rxRun = newRun t fs\<rparr> of
             (HopErr fatal e, x) \<Rightarrow> (Ok [e], x)
           | (HopPanic, x) \<Rightarrow> (Panic, x)
           | (HopOk, x) \<Rightarrow> reindexLoop env cancelled gen (orderedReverseClosure (enSnap env) changedPkg) [] x)"

section \<open>One hop keeps the index right\<close>

definition reindexGood :: "'t index_env \<Rightarrow> (path \<Rightarrow> file_reader) \<Rightarrow> (u64 \<Rightarrow> check_result) \<Rightarrow> (path \<Rightarrow> u64) \<Rightarrow> (path \<Rightarrow> u64)
    \<Rightarrow> u64 \<Rightarrow> path set \<Rightarrow> 't reindex \<Rightarrow> bool" where
  "reindexGood env rd R own key gen D x \<longleftrightarrow> (\<exists>s. indexRep (enBolt env) (irBolt (rxRun x)) s)
     \<and> runSound env rd R own key D (rxRun x) \<and> (\<forall>q \<in> D. dbRight env R own key q (irBolt (rxRun x)))
     \<and> D \<subseteq> indexed env \<and> (\<forall>h. gtDone (rxGens x) h \<le> gen)"

lemma reindexGood_wrote:
  assumes B: "bolt (enBolt env)" and inj: "inj_on Hash (indexed env)"
    and g: "\<exists>s. indexRep (enBolt env) (irBolt (rxRun x)) s" "runSound env rd R own key D (rxRun x)" "D \<subseteq> indexed env"
      "\<forall>h. gtDone (rxGens x) h \<le> gen"
    and w: "wroteRight env R own key ws (irBolt (rxRun x)) t"
    and q: "\<forall>q \<in> D. dbRight env R own key q (irBolt (rxRun x)) \<or> Hash q \<in> fst ` set ws"
  shows "reindexGood env rd R own key gen D (setBolt t x)"
proof -
  have "\<exists>s. indexRep (enBolt env) t s" using w by (auto simp: wroteRight_def wrote_def)
  moreover have "\<forall>q \<in> D. dbRight env R own key q t" using wrote_dbRight [OF B inj w] q g(3) by blast
  ultimately show ?thesis using g runSound_wrote [OF B inj g(3) g(2) w] by (simp add: reindexGood_def setBolt_def)
qed

lemma persist_good:
  assumes A: "indexable env rd R own key" and u: "isUnit env p pkg"
    and g: "\<exists>s. indexRep (enBolt env) (irBolt (rxRun x)) s" "runSound env rd R own key (insert p D) (rxRun x)" "D \<subseteq> indexed env"
      "\<forall>h. gtDone (rxGens x) h \<le> gen" "\<forall>q \<in> D. dbRight env R own key q (irBolt (rxRun x))"
    and o: "outcomeRight env R own key p (irBolt (rxRun x)) (Some o')"
    and r: "persistOutcome env o' x = (HopOk, x')"
  shows "reindexGood env rd R own key gen (insert p D) x'"
proof -
  have B: "bolt (enBolt env)" and inj: "inj_on Hash (indexed env)" and F: "fitsFormat env rd R key" using A by (simp_all add: indexable_def)
  have p: "p \<in> indexed env" "insert p D \<subseteq> indexed env" using u g(3) by (auto simp: indexed_def)
  obtain s where s: "indexRep (enBolt env) (irBolt (rxRun x)) s" using g(1) by blast
  show ?thesis
  proof (cases "uoEntry o'")
    case None
    obtain v where v: "uoPtrRefresh o' = Some v" "uoPkgHash o' = Hash p" "rightWrite env R own key (Hash p) v"
      and db: "dbRight env R own key p (irBolt (rxRun x))"
      using o None p by (auto simp: outcomeRight_def rightWrite_def dbRight_def)
    obtain pr t where put: "PutUnitPointersBatch (enBolt env) [(Hash p, v)] (irBolt (rxRun x)) = (pr, t)" by fastforce
    have x': "x' = setBolt t x" using r None v put by (auto simp: persistOutcome_def refreshPointer_def split: go.splits)
    have "wrote (enBolt env) [(Hash p, v)] (irBolt (rxRun x)) t \<or> t = irBolt (rxRun x)"
      using PutUnitPointersBatch_wrote [OF B s, of "[(Hash p, v)]"] rightWrite_fits [OF v(3)] put by auto
    then show ?thesis
    proof
      assume "wrote (enBolt env) [(Hash p, v)] (irBolt (rxRun x)) t"
      then have w: "wroteRight env R own key [(Hash p, v)] (irBolt (rxRun x)) t" using v by (simp add: wroteRight_def)
      show ?thesis unfolding x' by (rule reindexGood_wrote [OF B inj g(1,2) p(2) g(4) w]) (use g(5) db in auto)
    next
      assume "t = irBolt (rxRun x)"
      then show ?thesis using g db p by (simp add: x' reindexGood_def setBolt_def)
    qed
  next
    case (Some e)
    have e: "uoPtrRefresh o' = None" "uePkgHash e = Hash p" "pointerRight env R own key p (uePointer e)"
      "smallFiles env (upFiles (uePointer e))" "ueIndex e = crIndex (R (key p))"
      using o Some by (auto simp: outcomeRight_def)
    have fit: "list_all (entryFits (enLower env)) [e]" using outcome_entry_fits [OF F u e(3-5)] by simp
    obtain t where put: "PutUnitsBatch (enBolt env) (enLower env) [e] (irBolt (rxRun x)) = (Ok (), t)" and x': "x' = setBolt t x"
      using r Some e(1) by (auto simp: persistOutcome_def PutUnit_def refreshPointer_def split: go.splits prod.splits)
    have w: "wroteRight env R own key [(Hash p, uePointer e)] (irBolt (rxRun x)) t"
      using PutUnitsBatch_wrote [OF B s fit put] e p by (auto simp: wroteRight_def rightWrite_def)
    show ?thesis unfolding x' by (rule reindexGood_wrote [OF B inj g(1,2) p(2) g(4) w]) (use g(5) in auto)
  qed
qed

lemma hop_good:
  assumes A: "indexable env rd R own key" and p: "p \<in> units (enSnap env)" and ts: "ts \<Longrightarrow> rd p = enDisk env"
    and d: "set (depsOf (enSnap env) p) \<inter> indexed env \<subseteq> D"
    and g: "reindexGood env rd R own key gen D x" and r: "reindexOne env p (rd p) ts gen x = (HopOk, x')"
  shows "reindexGood env rd R own key gen (D \<union> {p} \<inter> indexed env) x'"
proof -
  obtain res st where run: "processUnit env (rd p) ts p (rxRun x) = (res, st)" by fastforce
  obtain o' skipped checked where res: "res = Ok (o', skipped, checked)"
    using r run by (cases res) (auto simp: reindexOne_def processUnitRecovered_def)
  define x1 where "x1 = x\<lparr>rxRun := st, rxStats := countHop p skipped checked (rxStats x)\<rparr>"
  have commit: "tryCommit h gen (rxGens x) = (True, (rxGens x)\<lparr>gtDone := (gtDone (rxGens x))(h := gen)\<rparr>)" for h
    using g by (simp add: tryCommit_def reindexGood_def not_less)
  have hop: "(case o' of None \<Rightarrow> (HopOk, x1)
      | Some uo \<Rightarrow> persistOutcome env uo (x1\<lparr>rxGens := (rxGens x)\<lparr>gtDone := (gtDone (rxGens x))(uoPkgHash uo := gen)\<rparr>\<rparr>)) = (HopOk, x')"
    using r run commit by (auto simp: reindexOne_def processUnitRecovered_def res x1_def Let_def split: option.splits)
  obtain pkg where pkg: "snPackages (enSnap env) p = Some pkg" "schedulableRoot (enSnap env) pkg" using p by (auto simp: units_def)
  show ?thesis
  proof (cases "pkGoFiles pkg = []")
    case True
    then have "p \<notin> indexed env" using pkg by (auto simp: indexed_def isUnit_def)
    moreover have "o' = None" "st = rxRun x" using run res pkg True by (auto simp: processUnit_def)
    ultimately show ?thesis using g hop by (auto simp: x1_def reindexGood_def)
  next
    case False
    then have u: "isUnit env p pkg" using pkg by (simp add: isUnit_def)
    have S: "runSound env rd R own key D (rxRun x)" using g by (simp add: reindexGood_def)
    have K: "keying env rd R own key" and F: "fitsFormat env rd R key" and C: "checksTo env rd R key" using A by (simp_all add: indexable_def)
    have "pkImportPath pkg = p" using K u by (auto simp: keying_def)
    then have deps: "set (directDepImports (enSnap env) pkg) \<subseteq> D" using directDeps_indexed [OF u] d by blast
    have "stepSound env rd R own key D p (irBolt (rxRun x)) (res, st)"
      using processUnit_sound [OF S K F C u deps, of ts] ts run by simp
    then have st: "irBolt st = irBolt (rxRun x)" "runSound env rd R own key (insert p D) st" "outcomeRight env R own key p (irBolt st) o'"
      by (simp_all add: stepSound_def res)
    have D: "D \<union> {p} \<inter> indexed env = insert p D" "p \<in> indexed env" using u by (auto simp: indexed_def)
    show ?thesis
    proof (cases o')
      case None
      then show ?thesis using hop st g D by (auto simp: x1_def reindexGood_def outcomeRight_def dbRight_def)
    next
      case (Some uo)
      have "persistOutcome env uo (x1\<lparr>rxGens := (rxGens x)\<lparr>gtDone := (gtDone (rxGens x))(uoPkgHash uo := gen)\<rparr>\<rparr>) = (HopOk, x')"
        using hop Some by simp
      from persist_good [OF A u _ _ _ _ _ _ this, where D = D] show ?thesis
        using st g Some unfolding D(1) by (auto simp: x1_def reindexGood_def)
    qed
  qed
qed

section \<open>What a change can affect\<close>

text \<open>The pairs of a direct dependency and a package whose key depends on it.\<close>

definition keyEdges :: "'t index_env \<Rightarrow> (path \<times> path) set" where
  "keyEdges env = {(d, p). \<exists>pkg. isUnit env p pkg \<and> d \<in> set (directDepImports (enSnap env) pkg)}"

definition affected :: "'t index_env \<Rightarrow> path \<Rightarrow> path set" where
  "affected env changed = (keyEdges env)\<^sup>* `` {changed}"

lemma keyEdges_Before:
  assumes "keying env rd R own key" "(d, p) \<in> keyEdges env"
  shows "Before (enSnap env) d p" "d \<in> indexed env" "p \<in> indexed env"
proof -
  obtain pkg where u: "isUnit env p pkg" and d: "d \<in> set (directDepImports (enSnap env) pkg)"
    using assms(2) by (auto simp: keyEdges_def)
  have "pkImportPath pkg = p" using assms(1) u by (auto simp: keying_def)
  then show "Before (enSnap env) d p" "d \<in> indexed env" "p \<in> indexed env"
    using directDeps_indexed [OF u] d depsOf_units [of d "enSnap env" p] u by (auto simp: indexed_def)
qed

lemma affected_Before:
  assumes K: "keying env rd R own key"
  shows "(c, p) \<in> (keyEdges env)\<^sup>+ \<Longrightarrow> Before (enSnap env) c p \<and> p \<in> indexed env"
proof (induction rule: trancl_induct)
  case (base p)
  then show ?case using keyEdges_Before [OF K] by blast
next
  case (step p q)
  then show ?case using keyEdges_Before [OF K step.hyps(2)] snapshot_before.trans by blast
qed

text \<open>A package that does not depend on the changed one keeps its key.\<close>

lemma unaffected_key:
  assumes K: "keying env rd R own key" and K0: "keying env rd0 R own0 key0"
    and o: "\<And>p. p \<noteq> changed \<Longrightarrow> own0 p = own p"
  shows "p \<in> indexed env \<Longrightarrow> p \<notin> affected env changed \<Longrightarrow> key0 p = key p \<and> own0 p = own p"
proof (induction "case snPos (enSnap env) p of Some n \<Rightarrow> n | None \<Rightarrow> 0" arbitrary: p rule: less_induct)
  case less
  obtain pkg where u: "isUnit env p pkg" using less.prems(1) by (auto simp: indexed_def)
  have "key0 d = key d" if d: "d \<in> set (directDepImports (enSnap env) pkg)" for d
  proof -
    have e: "(d, p) \<in> keyEdges env" using u d by (auto simp: keyEdges_def)
    have "d \<notin> affected env changed"
      using e less.prems(2) by (auto simp: affected_def intro: rtrancl.rtrancl_into_rtrancl)
    moreover have "Before (enSnap env) d p" "d \<in> indexed env" using keyEdges_Before [OF K e] by blast+
    ultimately show ?thesis using less.hyps [of d] by (auto simp: Before_def split: option.splits)
  qed
  then have "depsOfUnit env R key0 pkg = depsOfUnit env R key pkg" by (simp add: depsOfUnit_def)
  moreover have "own0 p = own p" using o [of p] less.prems(2) by (auto simp: affected_def)
  moreover have "key0 p = computeUnitKey (own0 p) (depsOfUnit env R key0 pkg)" "key p = computeUnitKey (own p) (depsOfUnit env R key pkg)"
    using K K0 u by (auto simp: keying_def)
  ultimately show ?case by simp
qed

section \<open>The order of the closure\<close>

text \<open>A snapshot as \<open>newSnapshot\<close> makes it from a graph without import cycles.\<close>

definition wellFormed :: "snapshot \<Rightarrow> bool" where
  "wellFormed snap \<longleftrightarrow> (\<exists>ks pkgs dir. snap = newSnapshot ks pkgs dir \<and> distinct ks \<and> set ks = dom pkgs
     \<and> acyclic (edgeRel (dom pkgs) (importsOf pkgs)))"

lemma wellFormedE:
  assumes "wellFormed snap"
  shows "distinct (snOrder snap)" "set (snOrder snap) = dom (snPackages snap)"
    and "Before snap a b \<longleftrightarrow> earlier (snOrder snap) a b"
    and "set (ClosureUnits snap c) = (importsDirectly (snPackages snap))\<^sup>* `` {c}"
proof -
  obtain ks pkgs dir where s: "snap = newSnapshot ks pkgs dir" "distinct ks" "set ks = dom pkgs"
    "acyclic (edgeRel (dom pkgs) (importsOf pkgs))" using assms by (auto simp: wellFormed_def)
  have o: "snOrder snap = topoOrder ks pkgs" "snPackages snap = pkgs" by (simp_all add: s(1) newSnapshot_def Let_def)
  note perm = topoOrder_perm [OF s(2), of pkgs, unfolded s(3), OF s(4)]
  show "distinct (snOrder snap)" "set (snOrder snap) = dom (snPackages snap)" using perm by (simp_all add: o)
  show "Before snap a b \<longleftrightarrow> earlier (snOrder snap) a b" using Before_newSnapshot [OF perm(2)] by (simp add: s(1) newSnapshot_def Let_def)
  show "set (ClosureUnits snap c) = (importsDirectly (snPackages snap))\<^sup>* `` {c}"
    using ClosureUnits_correct(1) [OF s(2,3)] s(3,4) by (simp add: o(2)) (simp add: s(1))
qed

lemma affected_closure:
  assumes w: "wellFormed (enSnap env)" and p: "p \<in> affected env changed" "p \<noteq> changed"
  shows "p \<in> set (orderedReverseClosure (enSnap env) changed)"
proof -
  have sub: "keyEdges env \<subseteq> importsDirectly (snPackages (enSnap env))"
    by (auto simp: keyEdges_def importsDirectly_def isUnit_def directDepImports_def allImportsOf_def split: option.splits)
  then have "p \<in> set (ClosureUnits (enSnap env) changed)"
    using p(1) rtrancl_mono [OF sub] unfolding wellFormedE(4) [OF w] affected_def by blast
  moreover have "p \<in> dom (snPackages (enSnap env))"
    using p by (auto simp: affected_def keyEdges_def isUnit_def elim: rtranclE)
  ultimately show ?thesis using p(2) wellFormedE(2) [OF w] by (simp add: orderedReverseClosure_def)
qed

lemma filter_split:
  "filter P xs = ys @ b # zs \<Longrightarrow> \<exists>us vs. xs = us @ b # vs \<and> filter P us = ys"
proof (induction ys arbitrary: xs)
  case Nil
  then obtain us vs where "xs = us @ b # vs" "\<forall>u \<in> set us. \<not> P u" using filter_eq_ConsD [of P xs b zs] by auto
  then show ?case by (metis filter_False)
next
  case (Cons y ys)
  then obtain us vs where xs: "xs = us @ y # vs" "\<forall>u \<in> set us. \<not> P u" "P y" "filter P vs = ys @ b # zs"
    using filter_eq_ConsD [of P xs y "ys @ b # zs"] by auto
  then obtain us' vs' where "vs = us' @ b # vs'" "filter P us' = ys" using Cons.IH by blast
  then have "xs = (us @ y # us') @ b # vs'" "filter P (us @ y # us') = y # ys" using xs by simp_all
  then show ?case by blast
qed

lemma earlier_filter:
  assumes d: "distinct xs" and e: "earlier xs a b" and "P a" "filter P xs = ys @ b # zs"
  shows "a \<in> set ys"
proof -
  obtain us vs where xs: "xs = us @ b # vs" "filter P us = ys" using filter_split [OF assms(4)] by blast
  obtain i j where ij: "i < j" "j < length xs" "xs ! i = a" "xs ! j = b" using e by (auto simp: earlier_def)
  have "xs ! length us = b" "length us < length xs" by (simp_all add: xs(1))
  then have "j = length us" using ij d by (metis nth_eq_iff_index_eq)
  then have "a \<in> set us" using ij by (simp add: xs(1) nth_append) (metis nth_mem)
  then show ?thesis using xs(2) assms(3) by auto
qed

section \<open>The whole call\<close>

lemma reindexLoop_good:
  assumes A: "indexable env rd R own key"
    and n: "\<And>ys p zs. hops = ys @ p # zs \<Longrightarrow> rd p = enDisk env \<and> p \<in> units (enSnap env)
      \<and> set (depsOf (enSnap env) p) \<inter> indexed env \<subseteq> D \<union> set ys"
    and g: "reindexGood env rd R own key gen D x" and r: "reindexLoop env cancelled gen hops [] x = (Ok [], x')"
  shows "reindexGood env rd R own key gen (D \<union> set hops \<inter> indexed env) x'"
  using n g r
proof (induction hops arbitrary: D x)
  case (Cons p hops)
  have grows: "errs \<noteq> [] \<Longrightarrow> reindexLoop env cancelled gen hs errs y \<noteq> (Ok [], y')" for hs errs y y'
    by (induction hs arbitrary: errs y) (auto split: prod.splits hop.splits)
  obtain h x1 where hop: "reindexOne env p (enDisk env) True gen x = (h, x1)" by fastforce
  have "h = HopOk" "reindexLoop env cancelled gen hops [] x1 = (Ok [], x')"
    using Cons.prems(3) hop grows [of "[_]"] by (auto split: if_splits hop.splits)
  note p = Cons.prems(1) [of "[]" p hops, simplified]
  have g1: "reindexGood env rd R own key gen (D \<union> {p} \<inter> indexed env) x1"
    by (rule hop_good [OF A _ _ _ Cons.prems(2), where ts = True]) (use p hop \<open>h = HopOk\<close> in auto)
  have "reindexGood env rd R own key gen ((D \<union> {p} \<inter> indexed env) \<union> set hops \<inter> indexed env) x'"
  proof (rule Cons.IH [OF _ g1])
    show "reindexLoop env cancelled gen hops [] x1 = (Ok [], x')" by fact
    show "rd q = enDisk env \<and> q \<in> units (enSnap env) \<and> set (depsOf (enSnap env) q) \<inter> indexed env \<subseteq> D \<union> {p} \<inter> indexed env \<union> set ys"
      if "hops = ys @ q # zs" for ys q zs
      using Cons.prems(1) [of "p # ys" q zs] that by auto
  qed
  moreover have "D \<union> {p} \<inter> indexed env \<union> set hops \<inter> indexed env = D \<union> set (p # hops) \<inter> indexed env" by auto
  ultimately show ?case by simp
qed simp

text \<open>The changed package is read through the overlay, every other package from disk.\<close>

definition overlayReader :: "'t index_env \<Rightarrow> path \<Rightarrow> file_reader \<Rightarrow> path \<Rightarrow> file_reader" where
  "overlayReader env changed reader p = (if p = changed then reader else enDisk env)"

text \<open>The packages whose recorded pointers and blobs are those of a build from scratch.\<close>

definition upToDate :: "'t index_env \<Rightarrow> (u64 \<Rightarrow> check_result) \<Rightarrow> (path \<Rightarrow> u64) \<Rightarrow> (path \<Rightarrow> u64) \<Rightarrow> 't \<Rightarrow> cas_files \<Rightarrow> path \<Rightarrow> bool" where
  "upToDate env R own key t fs p \<longleftrightarrow> dbRight env R own key p t \<and> Has fs (key p)"

lemma reindex_deps:
  assumes w: "wellFormed (enSnap env)" and K: "keying env rd R own key"
    and h: "orderedReverseClosure (enSnap env) changed = ys @ p # zs"
    and d: "d \<in> set (depsOf (enSnap env) p) \<inter> indexed env"
  shows "d \<in> (indexed env - affected env changed) \<union> {changed} \<inter> indexed env \<union> set ys"
proof (cases "d \<in> affected env changed \<and> d \<noteq> changed")
  case True
  then have "d \<in> set (orderedReverseClosure (enSnap env) changed)" using affected_closure [OF w] by blast
  moreover have "earlier (snOrder (enSnap env)) d p" using d depsOf_units [of d "enSnap env" p] wellFormedE(3) [OF w] by blast
  ultimately have "d \<in> set ys"
    using earlier_filter [OF wellFormedE(1) [OF w] _ _ h [unfolded orderedReverseClosure_def]] by (auto simp: orderedReverseClosure_def)
  then show ?thesis by blast
qed (use d in auto)

lemma reindex_start:
  assumes A: "indexable env rd R own key" and K0: "keying env rd0 R own0 key0" and o: "\<And>p. p \<noteq> changed \<Longrightarrow> own0 p = own p"
    and i: "indexRep (enBolt env) t s" and c: "casSound env R fs" and d: "dbSound env rd R own key t"
    and before: "\<And>p. p \<in> indexed env \<Longrightarrow> upToDate env R own0 key0 t fs p" and g: "\<forall>h. gtDone gt h \<le> gen"
  shows "reindexGood env rd R own key gen (indexed env - affected env changed) \<lparr>rxStats = noIndexStats, rxGens = gt, rxRun = newRun t fs\<rparr>"
proof -
  have K: "keying env rd R own key" using A by (simp add: indexable_def)
  have u: "upToDate env R own key t fs p" if "p \<in> indexed env - affected env changed" for p
    using before [of p] unaffected_key [where changed = changed and p = p, OF K K0 o] that by (auto simp: upToDate_def dbRight_def pointerRight_def)
  have "keyKnown env R key (newRun t fs) p" if "p \<in> indexed env - affected env changed" for p
    using u [OF that] by (auto simp: keyKnown_def newRun_def upToDate_def dbRight_def pointerRight_def)
  then show ?thesis using i c d u g by (auto simp: reindexGood_def runSound_def newRun_def upToDate_def)
qed

lemma changed_deps:
  assumes K: "keying env rd R own key" and u: "isUnit env changed pkg" and d: "d \<in> set (depsOf (enSnap env) changed) \<inter> indexed env"
  shows "d \<notin> affected env changed"
proof
  assume a: "d \<in> affected env changed"
  have b: "Before (enSnap env) d changed" using d depsOf_units by blast
  then have "d \<noteq> changed" using snapshot_before.irrefl by blast
  then have "(changed, d) \<in> (keyEdges env)\<^sup>+" using a by (auto simp: affected_def rtrancl_eq_or_trancl)
  from affected_Before [OF K this] show False using b snapshot_before.irrefl snapshot_before.trans by blast
qed

lemma reindexed_all:
  assumes w: "wellFormed (enSnap env)"
  shows "indexed env - affected env changed \<union> {changed} \<inter> indexed env \<union> set (orderedReverseClosure (enSnap env) changed) \<inter> indexed env = indexed env"
  using affected_closure [OF w, of _ changed] by blast

lemma closure_hops:
  assumes "wellFormed (enSnap env)" "keying env rd R own key" "set (orderedReverseClosure (enSnap env) changed) \<subseteq> units (enSnap env)"
    and s: "orderedReverseClosure (enSnap env) changed = ys @ p # zs"
  shows "overlayReader env changed reader p = enDisk env \<and> p \<in> units (enSnap env)
    \<and> set (depsOf (enSnap env) p) \<inter> indexed env \<subseteq> (indexed env - affected env changed) \<union> {changed} \<inter> indexed env \<union> set ys"
proof -
  have "p \<in> set (orderedReverseClosure (enSnap env) changed)" using s by simp
  then have "p \<noteq> changed" "p \<in> units (enSnap env)" using assms(3) by (auto simp: orderedReverseClosure_def)
  then show ?thesis using reindex_deps [OF assms(1,2) s] by (auto simp: overlayReader_def)
qed

text \<open>
  C2. Reindexing repairs the index after an edit: if every package was up to date before, a call of
  \<open>Reindex\<close> for the edited package that returns no error leaves every package of the workspace up to
  date with the edited sources, although it only visits the packages that import the edited one.
  Keys and file stats are assumed to identify contents, and the packages of the closure to belong
  to the workspace.
\<close>

theorem reindex_repairs:
  assumes A: "indexable env (overlayReader env changed reader) R own key" and w: "wellFormed (enSnap env)"
    and K0: "keying env rd0 R own0 key0" and o: "\<And>p. p \<noteq> changed \<Longrightarrow> own0 p = own p"
    and i: "indexRep (enBolt env) t s" and c: "casSound env R fs" and d: "dbSound env (overlayReader env changed reader) R own key t"
    and before: "\<And>p. p \<in> indexed env \<Longrightarrow> upToDate env R own0 key0 t fs p"
    and g: "\<And>h. gtDone gt h \<le> gtNext gt + 1" and u: "changed \<in> indexed env"
    and cl: "set (orderedReverseClosure (enSnap env) changed) \<subseteq> units (enSnap env)"
    and r: "Reindex env cancelled changed reader gt t fs = (Ok [], x)"
  shows "casSound env R (irCAS (rxRun x)) \<and> (\<forall>p \<in> indexed env. upToDate env R own key (irBolt (rxRun x)) (irCAS (rxRun x)) p)"
proof -
  let ?rd = "overlayReader env changed reader" and ?D = "indexed env - affected env changed"
  let ?hops = "orderedReverseClosure (enSnap env) changed"
  have K: "keying env ?rd R own key" using A by (simp add: indexable_def)
  obtain pkg where pkg: "isUnit env changed pkg" using u by (auto simp: indexed_def)
  define gen where "gen = gtNext gt + 1"
  define x0 where "x0 = \<lparr>rxStats = noIndexStats, rxGens = gt\<lparr>gtNext := gen\<rparr>, rxRun = newRun t fs\<rparr>"
  have g0: "reindexGood env ?rd R own key gen ?D x0"
    unfolding x0_def by (rule reindex_start [OF A K0 o i c d before]) (use g in \<open>simp_all add: gen_def\<close>)
  obtain h x1 where hop: "reindexOne env changed reader False gen x0 = (h, x1)" by fastforce
  have h: "h = HopOk" "reindexLoop env cancelled gen ?hops [] x1 = (Ok [], x)"
    using r hop pkg by (auto simp: Reindex_def nextGen_def gen_def x0_def isUnit_def Let_def split: hop.splits)
  have g1: "reindexGood env ?rd R own key gen (?D \<union> {changed} \<inter> indexed env) x1"
    by (rule hop_good [OF A _ _ _ g0, where ts = False])
      (use pkg hop h changed_deps [OF K pkg] in \<open>auto simp: units_def isUnit_def overlayReader_def\<close>)
  have "reindexGood env ?rd R own key gen (?D \<union> {changed} \<inter> indexed env \<union> set ?hops \<inter> indexed env) x"
    by (rule reindexLoop_good [OF A closure_hops [OF w K cl] g1 h(2)])
  then show ?thesis unfolding reindexed_all [OF w] by (auto simp: reindexGood_def runSound_def upToDate_def)
qed

section \<open>Calls without failures\<close>

lemma persist_ok:
  assumes A: "indexable env rd R own key" and Q: "nothingFails env rd R key" and u: "isUnit env p pkg"
    and s: "indexRep (enBolt env) (irBolt (rxRun x)) s"
    and o: "outcomeRight env R own key p (irBolt (rxRun x)) (Some o')"
  shows "fst (persistOutcome env o' x) = HopOk"
proof -
  have B: "bolt (enBolt env)" and F: "fitsFormat env rd R key" using A by (simp_all add: indexable_def)
  have p: "p \<in> indexed env" using u by (auto simp: indexed_def)
  show ?thesis
  proof (cases "uoEntry o'")
    case None
    obtain v where v: "uoPtrRefresh o' = Some v" "uoPkgHash o' = Hash p" "rightWrite env R own key (Hash p) v"
      using o None p by (auto simp: outcomeRight_def rightWrite_def)
    have "fst (PutUnitPointersBatch (enBolt env) [(Hash p, v)] (irBolt (rxRun x))) \<noteq> Panic"
      using PutUnitPointersBatch_wrote [OF B s, of "[(Hash p, v)]"] rightWrite_fits [OF v(3)] by auto
    then show ?thesis using None v by (auto simp: persistOutcome_def refreshPointer_def split: go.splits prod.splits)
  next
    case (Some e)
    have e: "uoPtrRefresh o' = None" "pointerRight env R own key p (uePointer e)"
      "smallFiles env (upFiles (uePointer e))" "ueIndex e = crIndex (R (key p))"
      using o Some by (auto simp: outcomeRight_def)
    have fit: "list_all (entryFits (enLower env)) [e]" using outcome_entry_fits [OF F u e(2-4)] by simp
    obtain t' where t': "go_foldM (putUnitEntry (enBolt env) (enLower env)) [e] (irBolt (rxRun x)) = Ok t'"
      using bolt.putUnitEntries_rep [OF B s fit] by blast
    have "PutUnitsBatch (enBolt env) (enLower env) [e] (irBolt (rxRun x)) = (Ok (), t')"
      unfolding PutUnitsBatch_def by (rule nothingFails_commit [OF Q]) (rule t')
    then show ?thesis using Some e(1) by (simp add: persistOutcome_def PutUnit_def refreshPointer_def)
  qed
qed

lemma hop_ok:
  assumes A: "indexable env rd R own key" and Q: "nothingFails env rd R key"
    and p: "p \<in> units (enSnap env)" and ts: "ts \<Longrightarrow> rd p = enDisk env"
    and d: "set (depsOf (enSnap env) p) \<inter> indexed env \<subseteq> D" and g: "reindexGood env rd R own key gen D x"
  shows "\<exists>x'. reindexOne env p (rd p) ts gen x = (HopOk, x')"
proof -
  obtain pkg where pkg: "snPackages (enSnap env) p = Some pkg" "schedulableRoot (enSnap env) pkg" using p by (auto simp: units_def)
  show ?thesis
  proof (cases "pkGoFiles pkg = []")
    case True
    then show ?thesis using pkg by (simp add: reindexOne_def processUnitRecovered_def processUnit_def)
  next
    case False
    then have u: "isUnit env p pkg" using pkg by (simp add: isUnit_def)
    have S: "runSound env rd R own key D (rxRun x)" using g by (simp add: reindexGood_def)
    have K: "keying env rd R own key" and F: "fitsFormat env rd R key" and C: "checksTo env rd R key" using A by (simp_all add: indexable_def)
    have "pkImportPath pkg = p" using K u by (auto simp: keying_def)
    then have deps: "set (directDepImports (enSnap env) pkg) \<subseteq> D" using directDeps_indexed [OF u] d by blast
    obtain o' skipped checked st where run: "processUnit env (rd p) ts p (rxRun x) = (Ok (o', skipped, checked), st)"
      using processUnit_ok [OF A Q S u deps, of ts] ts by (cases "processUnit env (rd p) ts p (rxRun x)") auto
    have "stepSound env rd R own key D p (irBolt (rxRun x)) (Ok (o', skipped, checked), st)"
      using processUnit_sound [OF S K F C u deps, of ts] ts run by simp
    then have st: "irBolt st = irBolt (rxRun x)" "outcomeRight env R own key p (irBolt st) o'" by (simp_all add: stepSound_def)
    have commit: "tryCommit h gen (rxGens x) = (True, (rxGens x)\<lparr>gtDone := (gtDone (rxGens x))(h := gen)\<rparr>)" for h
      using g by (simp add: tryCommit_def reindexGood_def not_less)
    obtain s where s: "indexRep (enBolt env) (irBolt st) s" using g st(1) by (auto simp: reindexGood_def)
    have "fst (persistOutcome env uo y) = HopOk" if "rxRun y = st" "o' = Some uo" for uo y
      using persist_ok [OF A Q u, of y s uo] s st(2) that by simp
    then have "fst (reindexOne env p (rd p) ts gen x) = HopOk"
      using run commit by (simp add: reindexOne_def processUnitRecovered_def Let_def split: option.splits)
    then show ?thesis by (metis prod.collapse)
  qed
qed

lemma reindexLoop_ok:
  assumes A: "indexable env rd R own key" and Q: "nothingFails env rd R key"
    and n: "\<And>ys p zs. hops = ys @ p # zs \<Longrightarrow> rd p = enDisk env \<and> p \<in> units (enSnap env)
      \<and> set (depsOf (enSnap env) p) \<inter> indexed env \<subseteq> D \<union> set ys"
    and g: "reindexGood env rd R own key gen D x" and c: "\<And>p. p \<in> set hops \<Longrightarrow> \<not> cancelled p"
  shows "\<exists>x'. reindexLoop env cancelled gen hops [] x = (Ok [], x')"
  using n g c
proof (induction hops arbitrary: D x)
  case (Cons p hops)
  note p = Cons.prems(1) [of "[]" p hops, simplified]
  obtain x1 where hop: "reindexOne env p (enDisk env) True gen x = (HopOk, x1)"
    using hop_ok [OF A Q, of p True D gen x] p Cons.prems(2) by auto
  have g1: "reindexGood env rd R own key gen (D \<union> {p} \<inter> indexed env) x1"
    by (rule hop_good [OF A _ _ _ Cons.prems(2), where ts = True]) (use p hop in auto)
  have "rd q = enDisk env \<and> q \<in> units (enSnap env) \<and> set (depsOf (enSnap env) q) \<inter> indexed env \<subseteq> D \<union> {p} \<inter> indexed env \<union> set ys"
    if "hops = ys @ q # zs" for ys q zs
    using Cons.prems(1) [of "p # ys" q zs] that by auto
  from Cons.IH [OF this g1] Cons.prems(3) show ?case using hop by simp
qed simp

lemma Reindex_ok:
  assumes A: "indexable env (overlayReader env changed reader) R own key" and Q: "nothingFails env (overlayReader env changed reader) R key"
    and w: "wellFormed (enSnap env)" and K0: "keying env rd0 R own0 key0" and o: "\<And>p. p \<noteq> changed \<Longrightarrow> own0 p = own p"
    and i: "indexRep (enBolt env) t s" and c: "casSound env R fs" and d: "dbSound env (overlayReader env changed reader) R own key t"
    and before: "\<And>p. p \<in> indexed env \<Longrightarrow> upToDate env R own0 key0 t fs p"
    and g: "\<And>h. gtDone gt h \<le> gtNext gt + 1" and u: "changed \<in> indexed env"
    and cl: "set (orderedReverseClosure (enSnap env) changed) \<subseteq> units (enSnap env)"
  shows "\<exists>x. Reindex env (\<lambda>_. False) changed reader gt t fs = (Ok [], x)"
proof -
  let ?rd = "overlayReader env changed reader" and ?D = "indexed env - affected env changed"
  have K: "keying env ?rd R own key" using A by (simp add: indexable_def)
  obtain pkg where pkg: "isUnit env changed pkg" using u by (auto simp: indexed_def)
  define gen where "gen = gtNext gt + 1"
  define x0 where "x0 = \<lparr>rxStats = noIndexStats, rxGens = gt\<lparr>gtNext := gen\<rparr>, rxRun = newRun t fs\<rparr>"
  have g0: "reindexGood env ?rd R own key gen ?D x0"
    unfolding x0_def by (rule reindex_start [OF A K0 o i c d before]) (use g in \<open>simp_all add: gen_def\<close>)
  have pu: "changed \<in> units (enSnap env)" using pkg by (auto simp: units_def isUnit_def)
  have dc: "set (depsOf (enSnap env) changed) \<inter> indexed env \<subseteq> ?D" using changed_deps [OF K pkg] by blast
  have rd: "?rd changed = reader" by (simp add: overlayReader_def)
  obtain x1 where hop: "reindexOne env changed reader False gen x0 = (HopOk, x1)"
    using hop_ok [OF A Q pu _ dc g0, of False, unfolded rd] by auto
  have g1: "reindexGood env ?rd R own key gen (?D \<union> {changed} \<inter> indexed env) x1"
    by (rule hop_good [OF A pu _ dc g0, where ts = False]) (simp_all add: rd hop)
  have "\<exists>x. reindexLoop env (\<lambda>_. False) gen (orderedReverseClosure (enSnap env) changed) [] x1 = (Ok [], x)"
    by (rule reindexLoop_ok [OF A Q closure_hops [OF w K cl] g1], assumption, simp)
  then show ?thesis using hop pkg by (simp add: Reindex_def nextGen_def gen_def x0_def isUnit_def Let_def)
qed

section \<open>An edit of the first of two packages\<close>

definition edited :: file_reader where
  "edited f = Some (f @ lit ''x'')"

definition edit_reader :: "path \<Rightarrow> file_reader" where
  "edit_reader = overlayReader chain_env (lit ''a'') edited"

lemma chain_wellFormed: "wellFormed (enSnap chain_env)"
proof -
  have "acyclic (edgeRel (dom chain_packages) (importsOf chain_packages))"
  proof (rule acyclic_subset)
    show "acyclic (measure (\<lambda>p. if p = lit ''b'' then 1 else 0 :: nat))" by (simp add: wf_acyclic)
    show "edgeRel (dom chain_packages) (importsOf chain_packages) \<subseteq> measure (\<lambda>p. if p = lit ''b'' then 1 else 0)"
      using chain_neq by (auto simp: edgeRel_def importsOf_def chain_packages_def sample_package_def split: if_splits)
  qed
  moreover have "distinct [lit ''a'', lit ''b'']" "set [lit ''a'', lit ''b''] = dom chain_packages"
    using chain_neq by (auto simp: chain_packages_def split: if_splits)
  moreover have "enSnap chain_env = newSnapshot [lit ''a'', lit ''b''] chain_packages []" by (simp add: chain_env_def)
  ultimately show ?thesis unfolding wellFormed_def by blast
qed

lemma chain_closure: "set (orderedReverseClosure (enSnap chain_env) c) \<subseteq> units (enSnap chain_env)"
proof -
  have "units (enSnap chain_env) = dom chain_packages"
    by (auto simp: units_def chain_packages_of chain_packages_def schedulableRoot_def sample_package_def split: if_splits)
  then show ?thesis using wellFormedE(2) [OF chain_wellFormed] by (auto simp: orderedReverseClosure_def chain_packages_of)
qed

lemma chain_own_bytes:
  "rd p (p @ lit ''.go'') = Some data \<Longrightarrow> chain_own rd p = fnv64a ([0] @ (p @ lit ''.go'') @ [0] @ data @ [0])"
  by (simp add: chain_own_def contentHash_def recordedPath_def) (simp add: chain_env_def)

lemma le_enc_numeral: "le_enc (numeral k) x = of_nat (x mod 256) # le_enc (pred_numeral k) (x div 256)"
  using le_enc.simps(2) [of "pred_numeral k" x] by (simp only: numeral_eq_Suc [of k, symmetric])

lemma edit_key: "chain_key (diskReader chain_env) (lit ''a'') \<noteq> chain_key edit_reader (lit ''a'')"
proof -
  have own: "chain_own (diskReader chain_env) (lit ''a'') = fnv64a ([0] @ lit ''a.go'' @ [0] @ lit ''a.go'' @ [0])"
    "chain_own edit_reader (lit ''a'') = fnv64a ([0] @ lit ''a.go'' @ [0] @ lit ''a.gox'' @ [0])"
    using chain_own_bytes [of "diskReader chain_env" "lit ''a''" "lit ''a.go''"] chain_own_bytes [of edit_reader "lit ''a''" "lit ''a.gox''"]
    by (simp_all add: diskReader_def chain_env_def edit_reader_def overlayReader_def edited_def lit_def)
  have hash: "fnv64a ([0] @ lit ''a.go'' @ [0] @ lit ''a.go'' @ [0]) = 16564540672796405917"
    "fnv64a ([0] @ lit ''a.go'' @ [0] @ lit ''a.gox'' @ [0]) = 2771712635204437167"
    by code_simp+
  have "unitKeyBytes 16564540672796405917 [] = [4, 0, 157, 48, 138, 173, 250, 17, 225, 229, 0]"
    "unitKeyBytes 2771712635204437167 [] = [4, 0, 175, 132, 210, 224, 244, 25, 119, 38, 0]"
    by (simp_all add: unitKeyBytes_def factsSchemaVersion_def put_u16_def put_u64_def le_enc_numeral)
  moreover have "fnv64a [4, 0, 157, 48, 138, 173, 250, 17, 225, 229, 0]
      \<noteq> fnv64a [4, 0, 175, 132, 210, 224, 244, 25, 119, 38, 0]"
    by code_simp
  ultimately have "fnv64a (unitKeyBytes 16564540672796405917 []) \<noteq> fnv64a (unitKeyBytes 2771712635204437167 [])" by simp
  then show ?thesis unfolding chain_key_def own hash computeUnitKey_def by (simp add: chain_neq)
qed

lemma edit_own: "p \<noteq> lit ''a'' \<Longrightarrow> chain_own (diskReader chain_env) p = chain_own edit_reader p"
  by (simp add: chain_own_def edit_reader_def overlayReader_def diskReader_def)

lemma edit_total: "\<exists>b. edit_reader p f = Some b"
  by (simp add: edit_reader_def overlayReader_def edited_def chain_env_def)

text \<open>The recorded pointers are those of the first build, none of which has the key of the edited package.\<close>

lemma edit_dbSound:
  assumes "\<And>p. p \<in> indexed chain_env \<Longrightarrow> dbRight chain_env (\<lambda>_. chain_result) (chain_own (diskReader chain_env)) (chain_key (diskReader chain_env)) p t"
  shows "dbSound chain_env edit_reader (\<lambda>_. chain_result) (chain_own edit_reader) (chain_key edit_reader) t"
  unfolding dbSound_def
proof (intro allI impI)
  fix p pkg u
  assume *: "isUnit chain_env p pkg \<and> GetUnit (enBolt chain_env) False (Hash p) t = Ok u \<and> upToolchainFingerprint u = enToolchain chain_env"
  then have r: "pointerRight chain_env (\<lambda>_. chain_result) (chain_own (diskReader chain_env)) (chain_key (diskReader chain_env)) p u"
    using assms [of p] by (auto simp: indexed_def dbRight_def)
  have "edit_reader (lit ''a'') \<noteq> enDisk chain_env"
    by (auto simp: edit_reader_def overlayReader_def edited_def chain_env_def lit_def dest: fun_cong [where x = "[]"])
  then show "honest chain_env edit_reader (\<lambda>_. chain_result) (chain_own edit_reader) (chain_key edit_reader) p pkg u"
    using r edit_key edit_own [of p] by (auto simp: honest_def pointerRight_def exportHashOf_def)
qed

theorem reindex_repairs_witness:
  "\<exists>t fs x. upToDate chain_env (\<lambda>_. chain_result) (chain_own (diskReader chain_env)) (chain_key (diskReader chain_env)) t fs (lit ''a'')
     \<and> Reindex chain_env (\<lambda>_. False) (lit ''a'') edited newGenTable t fs = (Ok [], x)
     \<and> upToDate chain_env (\<lambda>_. chain_result) (chain_own edit_reader) (chain_key edit_reader) (irBolt (rxRun x)) (irCAS (rxRun x)) (lit ''a'')"
proof -
  let ?R = "\<lambda>_ :: u64. chain_result" and ?o0 = "chain_own (diskReader chain_env)" and ?k0 = "chain_key (diskReader chain_env)"
  obtain order stats st where o: "set order = units (enSnap chain_env)" "jobsInOrder (enSnap chain_env) order"
    and b: "BuildIndex chain_env (\<lambda>_. False) 0 order (dbBolt freshDB) Map.empty = (Ok (stats, []), st)" "stErrors stats = 0"
    using chain_run by metis
  define t fs where "t = irBolt st" and "fs = irCAS st"
  note good = Build_good [OF chain_buildable o chain_start b, folded t_def fs_def]
  obtain s where s: "indexRep (enBolt chain_env) t s" using good by blast
  have before: "upToDate chain_env ?R ?o0 ?k0 t fs p" if "p \<in> indexed chain_env" for p using good that by (simp add: upToDate_def)
  have A: "indexable chain_env (overlayReader chain_env (lit ''a'') edited) ?R (chain_own edit_reader) (chain_key edit_reader)"
    using chain_indexable [OF edit_total] by (simp add: edit_reader_def)
  have K0: "keying chain_env (diskReader chain_env) ?R ?o0 ?k0" using chain_buildable by (rule buildableD)
  have d: "dbSound chain_env (overlayReader chain_env (lit ''a'') edited) ?R (chain_own edit_reader) (chain_key edit_reader) t"
    using edit_dbSound [of t] good by (simp add: edit_reader_def)
  have g: "gtDone newGenTable h \<le> gtNext newGenTable + 1" for h by (simp add: newGenTable_def)
  have a: "lit ''a'' \<in> indexed chain_env" by (simp add: chain_indexed)
  obtain x where x: "Reindex chain_env (\<lambda>_. False) (lit ''a'') edited newGenTable t fs = (Ok [], x)"
    using Reindex_ok [OF A chain_nothingFails chain_wellFormed K0 edit_own s _ d before g a chain_closure] good by blast
  have "upToDate chain_env ?R (chain_own edit_reader) (chain_key edit_reader) (irBolt (rxRun x)) (irCAS (rxRun x)) (lit ''a'')"
    using reindex_repairs [OF A chain_wellFormed K0 edit_own s _ d before g a chain_closure x] good a by blast
  then show ?thesis using before [OF a] x by blast
qed

end
