(* ===== verification/Revalidate.thy ===== *)
theory Revalidate
  imports Reindex
begin

text \<open>
  The check whether an index is still current (\<open>index/revalidate.go\<close>): \<open>packageChanged\<close> for one
  package, \<open>RevalidateStale\<close> for the packages of the workspace, and that an empty answer means
  exactly that every package is up to date.
\<close>

section \<open>One package\<close>

fun recordedDeps :: "'t index_env \<Rightarrow> path list \<Rightarrow> 't index_run \<Rightarrow> dep_export_entry list option \<times> 't index_run" where
  "recordedDeps env [] st = (Some [], st)"
| "recordedDeps env (imp # imps) st =
     (case keysGet env imp st of
        (None, st') \<Rightarrow> (None, st')
      | (Some r, st') \<Rightarrow>
          (case recordedDeps env imps st' of
             (ds, st'') \<Rightarrow> (map_option ((#) \<lparr>deePath = imp, deeExportHash = ukExportHash r\<rparr>) ds, st'')))"

definition packageChanged :: "'t index_env \<Rightarrow> cas_files option \<Rightarrow> path \<Rightarrow> package \<Rightarrow> 't index_run
    \<Rightarrow> (index_error, bool) go \<times> 't index_run" where
  "packageChanged env cas path pkg st =
     (case GetUnit (enBolt env) False (Hash path) (irBolt st) of
        Err NotFound \<Rightarrow> (Ok True, st)
      | Err e \<Rightarrow> (Err (StoreError e), st)
      | Panic \<Rightarrow> (Panic, st)
      | Ok old \<Rightarrow>
          if upToolchainFingerprint old \<noteq> enToolchain env then (Ok True, st)
          else
            let effectiveFiles = effectiveGoFiles (pkGoFiles pkg) (testFilesInPackage env (enDisk env) pkg);
                ownHash = (if upFiles old \<noteq> [] \<and> filesStatMatch env effectiveFiles (upFiles old) then Ok (upContentHash old)
                           else contentHash env (enDisk env) effectiveFiles)
            in case ownHash of
                 Err e \<Rightarrow> (Err e, st)
               | Panic \<Rightarrow> (Panic, st)
               | Ok h \<Rightarrow>
                   (case recordedDeps env (directDepImports (enSnap env) pkg) st of
                      (None, st') \<Rightarrow> (Ok True, st')
                    | (Some deps, st') \<Rightarrow>
                        (Ok (computeUnitKey h deps \<noteq> upBlobKey old
                             \<or> (case cas of None \<Rightarrow> False | Some fs \<Rightarrow> \<not> Has fs (upBlobKey old))), st')))"

section \<open>The workspace\<close>

text \<open>\<open>openCAS\<close> is what \<open>store.OpenCAS\<close> finds in a directory.\<close>

definition blobCAS :: "'t index_env \<Rightarrow> (bytes \<Rightarrow> (store_error, cas_files) go) \<Rightarrow> 't \<Rightarrow> (index_error, cas_files option) go" where
  "blobCAS env openCAS t =
     (case CASDir (enBolt env) t of
        Err NotFound \<Rightarrow> Ok None
      | Err e \<Rightarrow> Err (StoreError e)
      | Panic \<Rightarrow> Panic
      | Ok dir \<Rightarrow> (case openCAS dir of Ok cas \<Rightarrow> Ok (Some cas) | Err e \<Rightarrow> Err (StoreError e) | Panic \<Rightarrow> Panic))"

text \<open>\<open>Some True\<close>: the fingerprint is missing or another one.\<close>

definition fingerprintStale :: "'t index_env \<Rightarrow> 't \<Rightarrow> (index_error, bool) go" where
  "fingerprintStale env t =
     (case BuildFingerprint (enBolt env) t of
        Err NotFound \<Rightarrow> Ok True
      | Err e \<Rightarrow> Err (StoreError e)
      | Panic \<Rightarrow> Panic
      | Ok fp \<Rightarrow> Ok (fp \<noteq> enToolchain env))"

definition PackageChanged :: "'t index_env \<Rightarrow> (bytes \<Rightarrow> (store_error, cas_files) go) \<Rightarrow> path \<Rightarrow> 't \<Rightarrow> (index_error, bool) go" where
  "PackageChanged env openCAS path t =
     go_bind (fingerprintStale env t) (\<lambda>stale.
       if stale then Ok True
       else case snPackages (enSnap env) path of
         None \<Rightarrow> Err (UnknownPackage path)
       | Some pkg \<Rightarrow> go_bind (blobCAS env openCAS t) (\<lambda>cas. fst (packageChanged env cas path pkg (newRun t Map.empty))))"

text \<open>
  The goroutines of \<open>revalidateImpl\<close> in the order in which they run: the stale packages, the first
  error and whether one panicked. \<open>cancelled\<close> holds the packages whose semaphore was not acquired.
\<close>

record 't revalidation =
  rvStale :: "path list"
  rvErr :: "index_error option"
  rvCrashed :: bool
  rvRun :: "'t index_run"

definition firstErr :: "index_error \<Rightarrow> 't revalidation \<Rightarrow> 't revalidation" where
  "firstErr e v = (case rvErr v of None \<Rightarrow> v\<lparr>rvErr := Some e\<rparr> | Some _ \<Rightarrow> v)"

definition revalidateOne :: "'t index_env \<Rightarrow> cas_files option \<Rightarrow> (path \<Rightarrow> bool) \<Rightarrow> path \<Rightarrow> 't revalidation \<Rightarrow> 't revalidation" where
  "revalidateOne env cas cancelled path v =
     (case snPackages (enSnap env) path of
        None \<Rightarrow> v
      | Some pkg \<Rightarrow>
          if \<not> schedulableRoot (enSnap env) pkg \<or> pkGoFiles pkg = [] then v
          else if cancelled path then firstErr Canceled v
          else case packageChanged env cas path pkg (rvRun v) of
                 (Ok changed, st) \<Rightarrow> v\<lparr>rvRun := st, rvStale := rvStale v @ (if changed then [path] else [])\<rparr>
               | (Err e, st) \<Rightarrow> firstErr e (v\<lparr>rvRun := st\<rparr>)
               | (Panic, st) \<Rightarrow> v\<lparr>rvRun := st, rvCrashed := True\<rparr>)"

definition revalidateImpl :: "'t index_env \<Rightarrow> (bytes \<Rightarrow> (store_error, cas_files) go) \<Rightarrow> (path \<Rightarrow> bool) \<Rightarrow> path list \<Rightarrow> 't
    \<Rightarrow> (index_error, path list \<times> bool) go" where
  "revalidateImpl env openCAS cancelled order t =
     go_bind (fingerprintStale env t) (\<lambda>stale.
       if stale then Ok ([], True)
       else go_bind (blobCAS env openCAS t) (\<lambda>cas.
         let v = fold (revalidateOne env cas cancelled) order
               \<lparr>rvStale = [], rvErr = None, rvCrashed = False, rvRun = newRun t Map.empty\<rparr>
         in if rvCrashed v then Panic
            else case rvErr v of Some e \<Rightarrow> Err e | None \<Rightarrow> Ok (sort (rvStale v), False)))"

definition RevalidateStale :: "'t index_env \<Rightarrow> (bytes \<Rightarrow> (store_error, cas_files) go) \<Rightarrow> (path \<Rightarrow> bool) \<Rightarrow> path list \<Rightarrow> 't
    \<Rightarrow> (index_error, path list \<times> bool) go" where
  "RevalidateStale env openCAS cancelled order t = revalidateImpl env openCAS cancelled order t"

definition Revalidate :: "'t index_env \<Rightarrow> (bytes \<Rightarrow> (store_error, cas_files) go) \<Rightarrow> (path \<Rightarrow> bool) \<Rightarrow> path list \<Rightarrow> 't
    \<Rightarrow> (index_error, bool) go" where
  "Revalidate env openCAS cancelled order t =
     go_bind (revalidateImpl env openCAS cancelled order t) (\<lambda>(stale, wholeDBStale). Ok (wholeDBStale \<or> stale \<noteq> []))"

section \<open>The key table is a cache of the database\<close>

definition recordOf :: "'t index_env \<Rightarrow> 't \<Rightarrow> path \<Rightarrow> unit_key_record option" where
  "recordOf env t d =
     (case GetUnit (enBolt env) False (Hash d) t of
        Ok u \<Rightarrow> Some \<lparr>ukBlobKey = upBlobKey u, ukExportHash = upExportHash u\<rparr> | _ \<Rightarrow> None)"

definition cacheInv :: "'t index_env \<Rightarrow> 't \<Rightarrow> 't index_run \<Rightarrow> bool" where
  "cacheInv env t st \<longleftrightarrow> irBolt st = t \<and> irFailed st = Map.empty \<and> (\<forall>d r. irKeys st d = Some r \<longrightarrow> recordOf env t d = Some r)"

lemma keysGet_cache:
  assumes "cacheInv env t st"
  shows "fst (keysGet env d st) = recordOf env t d \<and> cacheInv env t (snd (keysGet env d st))"
  using assms by (auto simp: cacheInv_def keysGet_def keysSet_def recordOf_def Let_def split: option.splits go.splits)

lemma recordedDeps_cache:
  "cacheInv env t st \<Longrightarrow> fst (recordedDeps env imps st) =
      (if \<forall>d \<in> set imps. recordOf env t d \<noteq> None
       then Some (map (\<lambda>d. \<lparr>deePath = d, deeExportHash = ukExportHash (the (recordOf env t d))\<rparr>) imps) else None)
    \<and> cacheInv env t (snd (recordedDeps env imps st))"
proof (induction imps arbitrary: st)
  case (Cons d imps)
  obtain r st1 where k: "keysGet env d st = (r, st1)" by fastforce
  have "r = recordOf env t d" "cacheInv env t st1" using keysGet_cache [OF Cons.prems, of d] k by auto
  then show ?case using Cons.IH [of st1] k by (auto split: option.splits prod.splits)
qed simp

lemma packageChanged_cache:
  assumes "cacheInv env t st" "cacheInv env t st'"
  shows "fst (packageChanged env cas p pkg st) = fst (packageChanged env cas p pkg st') \<and> cacheInv env t (snd (packageChanged env cas p pkg st))"
proof -
  let ?imps = "directDepImports (enSnap env) pkg"
  obtain d st1 d' st2 where r: "recordedDeps env ?imps st = (d, st1)" "recordedDeps env ?imps st' = (d', st2)" by fastforce
  then have d: "recordedDeps env ?imps st = (d, st1)" "recordedDeps env ?imps st' = (d, st2)" "cacheInv env t st1"
    using recordedDeps_cache [OF assms(1), of ?imps] recordedDeps_cache [OF assms(2), of ?imps] by simp_all
  have "irBolt st = t" "irBolt st' = t" using assms by (simp_all add: cacheInv_def)
  then show ?thesis using assms(1) d unfolding packageChanged_def
    by (simp add: Let_def split: go.splits store_error.splits option.splits)
qed

lemma irBolt_newRun: "irBolt (newRun t fs) = t"
  by (simp add: newRun_def)

lemma cacheInv_newRun: "cacheInv env t (newRun t fs)"
  by (simp add: cacheInv_def newRun_def)

text \<open>The answer for one package, whatever was looked up before.\<close>

definition changedAnswer :: "'t index_env \<Rightarrow> cas_files option \<Rightarrow> 't \<Rightarrow> path \<Rightarrow> (index_error, bool) go" where
  "changedAnswer env cas t p =
     (case snPackages (enSnap env) p of None \<Rightarrow> Ok False | Some pkg \<Rightarrow> fst (packageChanged env cas p pkg (newRun t Map.empty)))"

lemma revalidateOne_answer:
  assumes c: "cacheInv env t (rvRun v)" and v': "v' = revalidateOne env cas cancelled p v"
    and ok: "\<not> rvCrashed v'" "rvErr v' = None"
  shows "cacheInv env t (rvRun v') \<and> \<not> rvCrashed v \<and> rvErr v = None
    \<and> (p \<in> indexed env \<longrightarrow> (\<exists>b. changedAnswer env cas t p = Ok b))
    \<and> rvStale v' = rvStale v @ (if p \<in> indexed env \<and> changedAnswer env cas t p = Ok True then [p] else [])"
proof (cases "\<exists>pkg. isUnit env p pkg")
  case True
  then obtain pkg where pkg: "snPackages (enSnap env) p = Some pkg" "schedulableRoot (enSnap env) pkg" "pkGoFiles pkg \<noteq> []" "p \<in> indexed env"
    by (auto simp: isUnit_def indexed_def)
  obtain r st where r: "packageChanged env cas p pkg (rvRun v) = (r, st)" by fastforce
  have "changedAnswer env cas t p = r" "cacheInv env t st"
    using packageChanged_cache [OF c cacheInv_newRun, of cas p pkg Map.empty] r pkg by (simp_all add: changedAnswer_def)
  then show ?thesis using v' ok pkg r
    by (cases r) (auto simp: revalidateOne_def firstErr_def split: if_splits option.splits)
next
  case False
  then have "v' = v" "p \<notin> indexed env" using v' by (auto simp: revalidateOne_def isUnit_def indexed_def split: option.splits)
  then show ?thesis using c ok by simp
qed

lemma revalidate_fold:
  assumes "cacheInv env t (rvRun v)"
    and "\<not> rvCrashed (fold (revalidateOne env cas cancelled) order v)" "rvErr (fold (revalidateOne env cas cancelled) order v) = None"
  shows "\<not> rvCrashed v \<and> rvErr v = None \<and> (\<forall>p \<in> set order \<inter> indexed env. \<exists>b. changedAnswer env cas t p = Ok b)
    \<and> rvStale (fold (revalidateOne env cas cancelled) order v)
        = rvStale v @ filter (\<lambda>p. p \<in> indexed env \<and> changedAnswer env cas t p = Ok True) order
    \<and> cacheInv env t (rvRun (fold (revalidateOne env cas cancelled) order v))"
  using assms(2,3)
proof (induction order rule: rev_induct)
  case (snoc p order)
  let ?w = "fold (revalidateOne env cas cancelled) order v"
  define v' where "v' = revalidateOne env cas cancelled p ?w"
  have fold: "fold (revalidateOne env cas cancelled) (order @ [p]) v = v'" by (simp add: v'_def)
  have ok': "\<not> rvCrashed v'" "rvErr v' = None" using snoc.prems unfolding fold by simp_all
  have mono: "\<not> rvCrashed ?w" "rvErr ?w = None"
    using ok' unfolding v'_def revalidateOne_def firstErr_def by (auto split: option.splits if_splits prod.splits go.splits)
  note IH = snoc.IH [OF mono]
  then have c: "cacheInv env t (rvRun ?w)" by blast
  from revalidateOne_answer [OF c v'_def ok'] show ?case unfolding fold using IH by auto
qed (use assms(1) in simp)

section \<open>What the answer means\<close>

lemma answer_exact:
  assumes K: "keying env (diskReader env) R own key" and d: "dbSound env (diskReader env) R own key t"
    and u: "isUnit env p pkg" and deps: "\<forall>d \<in> set (directDepImports (enSnap env) pkg). dbRight env R own key d t"
    and a: "changedAnswer env (Some fs) t p = Ok b"
  shows "b \<longleftrightarrow> \<not> upToDate env R own key t fs p"
proof -
  let ?files = "effectiveGoFiles (pkGoFiles pkg) (testFilesInPackage env (enDisk env) pkg)"
  have k: "contentHash env (enDisk env) ?files = Ok (own p)" "key p = computeUnitKey (own p) (depsOfUnit env R key pkg)"
    using K u unfolding keying_def filesOf_def diskReader_def by blast+
  have "recordOf env t d = Some \<lparr>ukBlobKey = key d, ukExportHash = exportHashOf R (key d)\<rparr>"
    if "d \<in> set (directDepImports (enSnap env) pkg)" for d
    using deps that by (auto simp: recordOf_def dbRight_def pointerRight_def)
  then have rec: "fst (recordedDeps env (directDepImports (enSnap env) pkg) (newRun t Map.empty)) = Some (depsOfUnit env R key pkg)"
    using recordedDeps_cache [where imps = "directDepImports (enSnap env) pkg", OF cacheInv_newRun [of env t Map.empty]]
    by (simp add: depsOfUnit_def)
  have pkg: "snPackages (enSnap env) p = Some pkg" using u by (simp add: isUnit_def)
  show ?thesis
  proof (cases "\<exists>old. GetUnit (enBolt env) False (Hash p) t = Ok old \<and> upToolchainFingerprint old = enToolchain env")
    case True
    then obtain old where old: "GetUnit (enBolt env) False (Hash p) t = Ok old" "upToolchainFingerprint old = enToolchain env" by blast
    then have h: "honest env (diskReader env) R own key p pkg old" using d u by (auto simp: dbSound_def)
    have h1: "(if upFiles old \<noteq> [] \<and> filesStatMatch env ?files (upFiles old) then Ok (upContentHash old) else contentHash env (enDisk env) ?files) = Ok (own p)"
      using h k(1) by (auto simp: honest_def filesOf_def diskReader_def)
    obtain st' where st': "recordedDeps env (directDepImports (enSnap env) pkg) (newRun t Map.empty) = (Some (depsOfUnit env R key pkg), st')"
      using rec by (metis prod.collapse)
    have "changedAnswer env (Some fs) t p = Ok (key p \<noteq> upBlobKey old \<or> \<not> Has fs (upBlobKey old))"
      using old pkg st' unfolding changedAnswer_def packageChanged_def
      by (simp add: h1 irBolt_newRun k(2) [symmetric])
    then have "b \<longleftrightarrow> key p \<noteq> upBlobKey old \<or> \<not> Has fs (upBlobKey old)" unfolding a by simp
    moreover have "dbRight env R own key p t \<longleftrightarrow> upBlobKey old = key p"
      using old h unfolding dbRight_def pointerRight_def honest_def by auto
    ultimately show ?thesis unfolding upToDate_def by metis
  next
    case False
    then have "\<not> upToDate env R own key t fs p" by (auto simp: upToDate_def dbRight_def pointerRight_def)
    moreover have b
      using a False pkg unfolding changedAnswer_def packageChanged_def
      by (auto simp: newRun_def split: go.splits store_error.splits if_splits)
    ultimately show ?thesis by blast
  qed
qed

lemma no_stale_up_to_date:
  assumes K: "keying env (diskReader env) R own key" and d: "dbSound env (diskReader env) R own key t"
    and a: "\<And>p. p \<in> indexed env \<Longrightarrow> changedAnswer env (Some fs) t p = Ok False"
  shows "p \<in> indexed env \<Longrightarrow> upToDate env R own key t fs p"
proof (induction "case snPos (enSnap env) p of Some n \<Rightarrow> n | None \<Rightarrow> 0" arbitrary: p rule: less_induct)
  case less
  obtain pkg where u: "isUnit env p pkg" using less.prems by (auto simp: indexed_def)
  have "dbRight env R own key q t" if q: "q \<in> set (directDepImports (enSnap env) pkg)" for q
  proof -
    have e: "(q, p) \<in> keyEdges env" using u q by (auto simp: keyEdges_def)
    have "Before (enSnap env) q p" "q \<in> indexed env" using keyEdges_Before [OF K e] by blast+
    then show ?thesis using less.hyps [of q] by (auto simp: Before_def upToDate_def split: option.splits)
  qed
  then show ?case using answer_exact [OF K d u _ a [OF less.prems]] by blast
qed


section \<open>A database with nothing recorded\<close>

definition emptyBuilt :: mem where
  "emptyBuilt = snd (putMeta memBolt casDirKey (lit ''cas'') (snd (PutBuildFingerprint memBolt (lit ''go'') (dbBolt freshDB))))"

lemma memory_update: "f t = Ok t' \<Longrightarrow> boUpdate memBolt f t = (Ok (), t')"
  by (simp add: memBolt_def)

lemma memory_putMeta:
  assumes "indexRep memBolt t s" "k \<noteq> []" "length k \<le> maxKeySize" "length v \<le> maxValueSize"
  shows "indexRep memBolt (snd (putMeta memBolt k v t)) s
    \<and> getMeta memBolt j (snd (putMeta memBolt k v t)) = (if j = k then Ok v else getMeta memBolt j t)"
proof -
  have has: "boHas memBolt t bucketMeta" using assms(1) by (simp add: indexRep_def allBuckets_def)
  obtain t' where t': "boPut memBolt t bucketMeta k v = Ok t'" using memory.put_ok [OF has assms(2-4)] by blast
  then have "bucketPut memBolt bucketMeta k v t = Ok t'" using has by (simp add: bucketPut_def)
  then have put: "snd (putMeta memBolt k v t) = t'" using memory_update [of "bucketPut memBolt bucketMeta k v" t] by (simp add: putMeta_def)
  note frame = memory.has_put [OF t'] memory.get_put [OF has t']
  have "represents memBolt t' (isPostings s)"
    by (rule memory.represents_frame [of t]) (use assms(1) in \<open>simp_all add: frame indexRep_def\<close>)
  then have "indexRep memBolt t' s" using assms(1) by (simp add: indexRep_def unitsRep_def keySet_def frame)
  moreover have "getMeta memBolt j t' = (if j = k then Ok v else getMeta memBolt j t)"
    using has by (simp add: getMeta_def bucketGet_def frame)
  ultimately show ?thesis by (simp add: put)
qed

lemma emptyBuilt_facts:
  "indexRep memBolt emptyBuilt emptyIndex" "BuildFingerprint memBolt emptyBuilt = Ok (lit ''go'')" "CASDir memBolt emptyBuilt = Ok (lit ''cas'')"
proof -
  define t1 where "t1 = snd (PutBuildFingerprint memBolt (lit ''go'') (dbBolt freshDB))"
  have keys: "buildFingerprintKey \<noteq> []" "length buildFingerprintKey \<le> maxKeySize" "casDirKey \<noteq> []" "length casDirKey \<le> maxKeySize"
    "length (lit ''go'') \<le> maxValueSize" "length (lit ''cas'') \<le> maxValueSize" "casDirKey \<noteq> buildFingerprintKey" "buildFingerprintKey \<noteq> casDirKey"
    by (simp_all add: buildFingerprintKey_def casDirKey_def lit_def maxKeySize_def maxValueSize_def)
  have t1: "indexRep memBolt t1 emptyIndex" "getMeta memBolt buildFingerprintKey t1 = Ok (lit ''go'')"
    using memory_putMeta [OF freshDB_rep keys(1,2,5)] by (simp_all add: t1_def PutBuildFingerprint_def)
  have "emptyBuilt = snd (putMeta memBolt casDirKey (lit ''cas'') t1)" by (simp add: emptyBuilt_def t1_def)
  then show "indexRep memBolt emptyBuilt emptyIndex" "BuildFingerprint memBolt emptyBuilt = Ok (lit ''go'')" "CASDir memBolt emptyBuilt = Ok (lit ''cas'')"
    using memory_putMeta [OF t1(1) keys(3,4,6)] t1(2) keys by (simp_all add: BuildFingerprint_def CASDir_def)
qed


end
