(* ===== verification/Check_Files.thy ===== *)
theory Check_Files
  imports Graph Position Cas "HOL-Library.AList" "HOL-Library.Product_Lexorder"
begin

text \<open>
  The files of a package as the recheck engine sees them (\<open>check/recheck.go\<close>,
  \<open>check/graphsource.go\<close>, \<open>check/result.go\<close> and \<open>check/diagnostics.go\<close>): which package a file
  belongs to, which files of a directory are the package, the memoised reads, the content hash, the
  parse of the files and the diagnostics of a checked package.

  A \<open>world\<close> is what the code can observe of its surroundings at one moment: the disk, the
  open documents and the clock. Operations that look at the surroundings take the world of that
  moment; a long operation takes several. The parser, the scanner, the digest and the functions of
  \<open>path/filepath\<close> are fields of the environment. A map whose iteration order matters is an
  association list without duplicate keys; its order stands for the order of the iteration.
\<close>

section \<open>Surroundings\<close>

type_synonym instant = int

record world =
  woReadDir :: "path \<Rightarrow> (nat, (bytes \<times> bool) list) go"
  woStat :: "path \<Rightarrow> (instant \<times> int) option"
  woRead :: "path \<Rightarrow> (nat, bytes) go"
  woIsOpen :: "(path \<Rightarrow> bool) option"
  woOpenIn :: "(path \<Rightarrow> path list) option"
  woNow :: instant

text \<open>The answers of \<open>parser.ParseFile\<close>: the tree, if any, and the error, which is a list of
  positioned errors or something else.\<close>

record token_position =
  tpFilename :: path
  tpOffset :: int
  tpLine :: int
  tpColumn :: int

record scan_error =
  sePos :: token_position
  seMsg :: bytes

datatype parse_error = ParseErrors "scan_error list" | OtherParseError bytes

datatype scanned = ScanLiteral bytes | ScanKeyword bytes | ScanOther

record 'a check_env =
  ceJoin :: "path \<Rightarrow> bytes \<Rightarrow> path"
  ceBase :: "path \<Rightarrow> bytes"
  ceDir :: "path \<Rightarrow> path"
  ceClause :: "path \<Rightarrow> bytes \<Rightarrow> bytes option"
  ceParse :: "path \<Rightarrow> bytes \<Rightarrow> 'a option \<times> parse_error option"
  ceScan :: "bytes \<Rightarrow> nat \<times> scanned"
  ceErrText :: "nat \<Rightarrow> bytes"
  ceHash :: "bytes \<Rightarrow> bytes"

datatype check_error =
  ReadDirFailed nat
| ReadFailed path nat
| NoPackageClause
| NoKnownPackage path
| NotInPackage bytes
| CtxCanceled
| RecheckPanicked path

section \<open>Package paths and units\<close>

definition adhocPkgPathPrefix :: bytes where
  "adhocPkgPathPrefix = lit ''adhoc:''"

definition externalTestPkgPathMarker :: bytes where
  "externalTestPkgPathMarker = lit '' [external_test]''"

definition externalTestVariant :: "bytes \<Rightarrow> bytes option" where
  "externalTestVariant pkgPath = cutSuffix pkgPath externalTestPkgPathMarker"

datatype unit_variant = VariantBase | VariantExternalTest

record unit_key =
  unDir :: path
  unVariant :: unit_variant

definition unitKeyFor :: "bytes \<Rightarrow> path \<Rightarrow> unit_key" where
  "unitKeyFor pkgPath dir =
     (case externalTestVariant pkgPath of
        Some _ \<Rightarrow> \<lparr>unDir = dir, unVariant = VariantExternalTest\<rparr>
      | None \<Rightarrow> \<lparr>unDir = dir, unVariant = VariantBase\<rparr>)"

record pkg_info =
  piPkgPath :: bytes
  piGoFiles :: "path list"

section \<open>Resolution against the import graph\<close>

record graph_index =
  giSnap :: snapshot
  giFileToPkg :: "path \<rightharpoonup> path"
  giDirToPkg :: "path \<rightharpoonup> path"

text \<open>\<open>ks\<close> is the order in which Go enumerates \<open>snap.Packages\<close>.\<close>

definition indexPackage :: "snapshot \<Rightarrow> path \<Rightarrow> graph_index \<Rightarrow> graph_index" where
  "indexPackage snap pkgPath g =
     (case snPackages snap pkgPath of
        None \<Rightarrow> g
      | Some pkg \<Rightarrow>
          if pkForTest pkg \<noteq> [] then g
          else g\<lparr>giFileToPkg := fold (\<lambda>f m. m(f \<mapsto> pkgPath)) (pkGoFiles pkg) (giFileToPkg g),
                 giDirToPkg := (giDirToPkg g)(pkDir pkg \<mapsto> pkgPath)\<rparr>)"

definition buildGraphIndex :: "path list \<Rightarrow> snapshot \<Rightarrow> graph_index" where
  "buildGraphIndex ks snap =
     fold (indexPackage snap) ks \<lparr>giSnap = snap, giFileToPkg = Map.empty, giDirToPkg = Map.empty\<rparr>"

record graph_source =
  gsReader :: "(path \<Rightarrow> (nat, bytes) go) option"
  gsIdx :: graph_index

definition NewGraphSource :: "path list \<Rightarrow> snapshot \<Rightarrow> (path \<Rightarrow> (nat, bytes) go) option \<Rightarrow> graph_source" where
  "NewGraphSource ks snap reader = \<lparr>gsReader = reader, gsIdx = buildGraphIndex ks snap\<rparr>"

definition Retarget :: "path list \<Rightarrow> snapshot \<Rightarrow> graph_source \<Rightarrow> graph_source" where
  "Retarget ks snap g = g\<lparr>gsIdx := buildGraphIndex ks snap\<rparr>"

definition gsClauseName :: "'a check_env \<Rightarrow> graph_source \<Rightarrow> path \<Rightarrow> bytes option" where
  "gsClauseName env g p =
     (case gsReader g of
        None \<Rightarrow> None
      | Some reader \<Rightarrow> (case reader p of Ok src \<Rightarrow> ceClause env p src | _ \<Rightarrow> None))"

fun firstClauseName :: "(path \<Rightarrow> bytes option) \<Rightarrow> path list \<Rightarrow> bytes option" where
  "firstClauseName clause [] = None"
| "firstClauseName clause (f # fs) =
     (case clause f of Some name \<Rightarrow> Some name | None \<Rightarrow> firstClauseName clause fs)"

definition basePackageName :: "'a check_env \<Rightarrow> graph_source \<Rightarrow> package \<Rightarrow> bytes option" where
  "basePackageName env g pkg = firstClauseName (gsClauseName env g) (pkGoFiles pkg)"

definition externalTestPkgPathFor :: "'a check_env \<Rightarrow> graph_source \<Rightarrow> path \<Rightarrow> package \<Rightarrow> bytes option" where
  "externalTestPkgPathFor env g p pkg =
     (if \<not> suffix (lit ''_test.go'') p then None
      else case gsClauseName env g p of
        None \<Rightarrow> None
      | Some name \<Rightarrow>
          (case basePackageName env g pkg of
             None \<Rightarrow> None
           | Some baseName \<Rightarrow>
               if name \<noteq> baseName @ lit ''_test'' then None
               else Some (pkImportPath pkg @ externalTestPkgPathMarker)))"

type_synonym resolved = "(bytes \<times> path \<times> path list) option"

definition adhocPackageForFile :: "'a check_env \<Rightarrow> graph_source \<Rightarrow> path \<Rightarrow> resolved" where
  "adhocPackageForFile env g p =
     (case gsClauseName env g p of
        None \<Rightarrow> None
      | Some _ \<Rightarrow> Some (adhocPkgPathPrefix @ ceDir env p, ceDir env p, []))"

definition PackageForFile :: "'a check_env \<Rightarrow> graph_source \<Rightarrow> path \<Rightarrow> resolved" where
  "PackageForFile env g p =
     (let idx = gsIdx g in
      case giFileToPkg idx p of
        Some pp \<Rightarrow>
          (case snPackages (giSnap idx) pp of
             None \<Rightarrow> None
           | Some pkg \<Rightarrow> Some (pp, pkDir pkg, pkGoFiles pkg))
      | None \<Rightarrow>
          (case giDirToPkg idx (ceDir env p) of
             None \<Rightarrow> adhocPackageForFile env g p
           | Some pp \<Rightarrow>
               (case snPackages (giSnap idx) pp of
                  None \<Rightarrow> None
                | Some pkg \<Rightarrow>
                    (case externalTestPkgPathFor env g p pkg of
                       Some ext \<Rightarrow> Some (ext, pkDir pkg, [])
                     | None \<Rightarrow> Some (pp, pkDir pkg, pkGoFiles pkg)))))"

definition PackageDir :: "graph_source \<Rightarrow> bytes \<Rightarrow> (path \<times> path list) option" where
  "PackageDir g pkgPath =
     map_option (\<lambda>pkg. (pkDir pkg, pkGoFiles pkg)) (snPackages (giSnap (gsIdx g)) pkgPath)"

definition IsRoot :: "graph_source \<Rightarrow> bytes \<Rightarrow> bool" where
  "IsRoot g pkgPath = (case snPackages (giSnap (gsIdx g)) pkgPath of None \<Rightarrow> False | Some pkg \<Rightarrow> pkRoot pkg)"

definition gsSnapshot :: "graph_source \<Rightarrow> snapshot" where
  "gsSnapshot g = giSnap (gsIdx g)"

section \<open>Memoised reads\<close>

definition maxFileCache :: nat where "maxFileCache = 4096"

record file_cache_entry =
  fcModTime :: instant
  fcSize :: int
  fcData :: bytes
  fcLastUsed :: instant

type_synonym file_cache = "(path \<times> file_cache_entry) list"

text \<open>The choice of the least recently used entry, shared by the two caches of the engine.\<close>

fun oldestEntry :: "('e \<Rightarrow> instant) \<Rightarrow> ('k \<Rightarrow> bool) \<Rightarrow> ('k \<times> 'e) list \<Rightarrow> ('k \<times> instant) option \<Rightarrow> ('k \<times> instant) option" where
  "oldestEntry used skip [] best = best"
| "oldestEntry used skip ((k, e) # rest) best =
     (if skip k then oldestEntry used skip rest best
      else case best of
        None \<Rightarrow> oldestEntry used skip rest (Some (k, used e))
      | Some (_, t) \<Rightarrow> oldestEntry used skip rest (if used e < t then Some (k, used e) else best))"

definition evictFileCacheLocked :: "file_cache \<Rightarrow> file_cache" where
  "evictFileCacheLocked fc =
     (case oldestEntry fcLastUsed (\<lambda>_. False) fc None of
        None \<Rightarrow> fc
      | Some (p, _) \<Rightarrow> AList.delete p fc)"

text \<open>\<open>w1\<close> is the world at the check for an open document and the stat, \<open>w2\<close> the one at the read.\<close>

definition readAndStore :: "world \<Rightarrow> world \<Rightarrow> path \<Rightarrow> instant \<times> int \<Rightarrow> file_cache \<Rightarrow> (nat, bytes) go \<times> file_cache" where
  "readAndStore w1 w2 p info fc =
     (case woRead w2 p of
        Ok data \<Rightarrow>
          (Ok data,
           AList.update p \<lparr>fcModTime = fst info, fcSize = snd info, fcData = data, fcLastUsed = woNow w1\<rparr>
             (if map_of fc p = None \<and> maxFileCache \<le> length fc then evictFileCacheLocked fc else fc))
      | r \<Rightarrow> (r, fc))"

definition readFile :: "world \<Rightarrow> world \<Rightarrow> path \<Rightarrow> file_cache \<Rightarrow> (nat, bytes) go \<times> file_cache" where
  "readFile w1 w2 p fc =
     (if (case woIsOpen w1 of Some isOpen \<Rightarrow> isOpen p | None \<Rightarrow> False) then (woRead w2 p, fc)
      else case woStat w1 p of
        None \<Rightarrow> (woRead w2 p, fc)
      | Some info \<Rightarrow>
          (case map_of fc p of
             Some entry \<Rightarrow>
               if fcModTime entry = fst info \<and> fcSize entry = snd info
               then (Ok (fcData entry), AList.update p (entry\<lparr>fcLastUsed := woNow w1\<rparr>) fc)
               else readAndStore w1 w2 p info fc
           | None \<Rightarrow> readAndStore w1 w2 p info fc))"

section \<open>The files of a unit\<close>

definition isCandidateGoFile :: "bytes \<Rightarrow> bool" where
  "isCandidateGoFile name \<longleftrightarrow>
     suffix (lit ''.go'') name \<and> \<not> prefix (lit ''.'') name \<and> \<not> prefix (lit ''_'') name"

fun unionOpen :: "'a check_env \<Rightarrow> path list \<Rightarrow> path list \<Rightarrow> path list" where
  "unionOpen env files [] = files"
| "unionOpen env files (p # ps) =
     (if p \<in> set files \<or> \<not> isCandidateGoFile (ceBase env p) then unionOpen env files ps
      else unionOpen env (files @ [p]) ps)"

definition listCandidateFiles :: "'a check_env \<Rightarrow> world \<Rightarrow> path \<Rightarrow> (check_error, path list) go" where
  "listCandidateFiles env w dir =
     (case woReadDir w dir of
        Ok entries \<Rightarrow>
          (let files = map (\<lambda>(n, _). ceJoin env dir n) (filter (\<lambda>(n, isDir). \<not> isDir \<and> isCandidateGoFile n) entries)
           in Ok (sort (case woOpenIn w of None \<Rightarrow> files | Some openIn \<Rightarrow> unionOpen env files (openIn dir))))
      | Err e \<Rightarrow> Err (ReadDirFailed e)
      | Panic \<Rightarrow> Panic)"

definition engineClauseName :: "'a check_env \<Rightarrow> world \<Rightarrow> path \<Rightarrow> file_cache \<Rightarrow> bytes option \<times> file_cache" where
  "engineClauseName env w p fc =
     (case readFile w w p fc of
        (Ok src, fc') \<Rightarrow> (ceClause env p src, fc')
      | (_, fc') \<Rightarrow> (None, fc'))"

fun firstMatching :: "'a check_env \<Rightarrow> world \<Rightarrow> (bytes \<Rightarrow> bool) \<Rightarrow> path list \<Rightarrow> file_cache \<Rightarrow> bytes option \<times> file_cache" where
  "firstMatching env w P [] fc = (None, fc)"
| "firstMatching env w P (f # fs) fc =
     (case engineClauseName env w f fc of
        (Some name, fc') \<Rightarrow> if P name then (Some name, fc') else firstMatching env w P fs fc'
      | (None, fc') \<Rightarrow> firstMatching env w P fs fc')"

definition engineCanonicalName :: "'a check_env \<Rightarrow> world \<Rightarrow> pkg_info \<Rightarrow> path list \<Rightarrow> file_cache
    \<Rightarrow> (check_error, bytes) go \<times> file_cache" where
  "engineCanonicalName env w pi candidates fc =
     (let test = suffix (lit ''_test'');
          found = (\<lambda>(r, fc'). (case r of Some name \<Rightarrow> Ok name | None \<Rightarrow> Err NoPackageClause, fc'))
      in if externalTestVariant (piPkgPath pi) \<noteq> None then found (firstMatching env w test candidates fc)
         else case firstMatching env w (Not \<circ> test) (piGoFiles pi) fc of
           (Some name, fc') \<Rightarrow> (Ok name, fc')
         | (None, fc') \<Rightarrow> found (firstMatching env w (Not \<circ> test) candidates fc'))"

fun filesNamed :: "'a check_env \<Rightarrow> world \<Rightarrow> bytes \<Rightarrow> path list \<Rightarrow> file_cache \<Rightarrow> path list \<times> file_cache" where
  "filesNamed env w name [] fc = ([], fc)"
| "filesNamed env w name (p # ps) fc =
     (let (pn, fc') = engineClauseName env w p fc; (rest, fc'') = filesNamed env w name ps fc'
      in (if pn = Some name then p # rest else rest, fc''))"

definition resolveFiles :: "'a check_env \<Rightarrow> world \<Rightarrow> pkg_info \<Rightarrow> path \<Rightarrow> file_cache
    \<Rightarrow> (check_error, path list) go \<times> file_cache" where
  "resolveFiles env w pi dir fc =
     (case listCandidateFiles env w dir of
        Ok candidates \<Rightarrow>
          (case engineCanonicalName env w pi candidates fc of
             (Ok name, fc') \<Rightarrow> (let (files, fc'') = filesNamed env w name candidates fc' in (Ok files, fc''))
           | (Err e, fc') \<Rightarrow> (Err e, fc')
           | (Panic, fc') \<Rightarrow> (Panic, fc'))
      | Err e \<Rightarrow> (Err e, fc)
      | Panic \<Rightarrow> (Panic, fc))"

text \<open>The bytes \<open>contentHash\<close> writes to the digest.\<close>

fun hashInput :: "world \<Rightarrow> path list \<Rightarrow> file_cache \<Rightarrow> (check_error, bytes) go \<times> file_cache" where
  "hashInput w [] fc = (Ok [], fc)"
| "hashInput w (p # ps) fc =
     (case readFile w w p fc of
        (Ok data, fc') \<Rightarrow>
          (case hashInput w ps fc' of
             (Ok rest, fc'') \<Rightarrow> (Ok (p @ [0] @ data @ [0] @ rest), fc'')
           | (r, fc'') \<Rightarrow> (r, fc''))
      | (Err e, fc') \<Rightarrow> (Err (ReadFailed p e), fc')
      | (Panic, fc') \<Rightarrow> (Panic, fc'))"

definition engineContentHash :: "'a check_env \<Rightarrow> world \<Rightarrow> path list \<Rightarrow> file_cache
    \<Rightarrow> (check_error, bytes) go \<times> file_cache" where
  "engineContentHash env w files fc =
     (let (r, fc') = hashInput w files fc in (go_bind r (\<lambda>bs. Ok (hexBytes (ceHash env bs))), fc'))"

definition resolvePackage :: "'a check_env \<Rightarrow> world \<Rightarrow> (path \<Rightarrow> resolved) \<Rightarrow> unit_key \<Rightarrow> (check_error, pkg_info) go" where
  "resolvePackage env w pkgForFile key =
     go_bind (listCandidateFiles env w (unDir key)) (\<lambda>candidates.
       case find (\<lambda>p. case pkgForFile p of
                    None \<Rightarrow> False
                  | Some (pkgPath, d, _) \<Rightarrow> d = unDir key \<and> unitKeyFor pkgPath d = key) candidates of
         None \<Rightarrow> Err (NoKnownPackage (unDir key))
       | Some p \<Rightarrow>
           (case pkgForFile p of
              Some (pkgPath, _, goFiles) \<Rightarrow> Ok \<lparr>piPkgPath = pkgPath, piGoFiles = goFiles\<rparr>
            | None \<Rightarrow> Err (NoKnownPackage (unDir key))))"

section \<open>Parsing\<close>

text \<open>\<open>scanner.ErrorList.Sort\<close>: by file, line, column and message.\<close>

definition sortErrors :: "scan_error list \<Rightarrow> scan_error list" where
  "sortErrors = sort_key (\<lambda>e. (tpFilename (sePos e), tpLine (sePos e), tpColumn (sePos e), seMsg e))"

definition errorAtFile :: "path \<Rightarrow> bytes \<Rightarrow> scan_error" where
  "errorAtFile p msg = \<lparr>sePos = \<lparr>tpFilename = p, tpOffset = 0, tpLine = 0, tpColumn = 0\<rparr>, seMsg = msg\<rparr>"

fun parseLoop :: "'a check_env \<Rightarrow> world \<Rightarrow> path list \<Rightarrow> 'a list \<Rightarrow> (path \<rightharpoonup> bytes) \<Rightarrow> scan_error list
    \<Rightarrow> 'a list \<times> (path \<rightharpoonup> bytes) \<times> scan_error list" where
  "parseLoop env w [] out texts errs = (out, texts, errs)"
| "parseLoop env w (p # ps) out texts errs =
     (case woRead w p of
        Ok src \<Rightarrow>
          (let (f, err) = ceParse env p src
           in parseLoop env w ps (case f of Some t \<Rightarrow> out @ [t] | None \<Rightarrow> out) (texts(p \<mapsto> src))
                (errs @ (case err of
                   None \<Rightarrow> []
                 | Some (ParseErrors l) \<Rightarrow> l
                 | Some (OtherParseError msg) \<Rightarrow> [errorAtFile p msg])))
      | Err e \<Rightarrow> parseLoop env w ps out texts (errs @ [errorAtFile p (ceErrText env e)])
      | Panic \<Rightarrow> parseLoop env w ps out texts errs)"

definition parseFiles :: "'a check_env \<Rightarrow> world \<Rightarrow> path list \<Rightarrow> 'a list \<times> (path \<rightharpoonup> bytes) \<times> scan_error list" where
  "parseFiles env w files =
     (let (out, texts, errs) = parseLoop env w files [] Map.empty [] in (out, texts, sortErrors errs))"

end
