(* ===== verification/Check_Result.thy ===== *)
theory Check_Result
  imports Check_Files
begin

text \<open>
  The result of a recheck (\<open>check/result.go\<close>) and its diagnostics (\<open>check/diagnostics.go\<close>).
  The trees of the parser (\<open>'a\<close>) and the package of the type checker (\<open>'p\<close>) are opaque. The
  positions of a file set are the field \<open>ckPosition\<close>; a file's name is found through its tree's
  position, which a tree without package clause does not have.
\<close>

section \<open>Checked packages\<close>

record type_error =
  teSpan :: "(int \<times> int) option"
  tePos :: int
  teMsg :: bytes
  teSoft :: bool

record ('a, 'p) checked =
  ckPkgPath :: bytes
  ckDir :: path
  ckPosition :: "int \<Rightarrow> token_position"
  ckFileName :: "'a \<Rightarrow> path option"
  ckFiles :: "'a list"
  ckPkg :: 'p
  ckParseErrs :: "scan_error list"
  ckTypeErrs :: "type_error list"
  ckTexts :: "path \<rightharpoonup> bytes"
  ckContentHash :: bytes
  ckBuiltAt :: instant

definition FromSource :: "bytes \<Rightarrow> path \<Rightarrow> (int \<Rightarrow> token_position) \<Rightarrow> ('a \<Rightarrow> path option) \<Rightarrow> 'a list \<Rightarrow> 'p
    \<Rightarrow> (path \<rightharpoonup> bytes) \<Rightarrow> instant \<Rightarrow> ('a, 'p) checked" where
  "FromSource pkgPath dir position fileName files pkg texts now =
     \<lparr>ckPkgPath = pkgPath, ckDir = dir, ckPosition = position, ckFileName = fileName, ckFiles = files,
      ckPkg = pkg, ckParseErrs = [], ckTypeErrs = [], ckTexts = texts, ckContentHash = [], ckBuiltAt = now\<rparr>"

definition FileText :: "('a, 'p) checked \<Rightarrow> path \<Rightarrow> bytes option" where
  "FileText cp p = ckTexts cp p"

section \<open>Diagnostics\<close>

datatype severity = SeverityError | SeverityWarning

record check_diag =
  dgFile :: path
  dgStartLine :: u32
  dgStartCol :: u32
  dgEndLine :: u32
  dgEndCol :: u32
  dgMessage :: bytes
  dgSeverity :: severity

text \<open>The scanner is started at \<open>offset\<close>; it gives the offset of the first token and the token.\<close>

definition identEnd :: "'a check_env \<Rightarrow> bytes \<Rightarrow> int \<Rightarrow> int" where
  "identEnd env src offset =
     (if offset < 0 \<or> offset \<ge> int (length src) then offset
      else case ceScan env (drop (nat offset) src) of
        (pos, tok) \<Rightarrow>
          if pos \<noteq> 0 then offset
          else (case tok of
                  ScanLiteral l \<Rightarrow> offset + int (length l)
                | ScanKeyword k \<Rightarrow> offset + int (length k)
                | ScanOther \<Rightarrow> offset))"

definition typeErrorRange :: "(int \<Rightarrow> token_position) \<Rightarrow> type_error \<Rightarrow> (token_position \<times> token_position) option" where
  "typeErrorRange position e =
     (case teSpan e of
        None \<Rightarrow> None
      | Some (s, t) \<Rightarrow> if s = 0 \<or> t = 0 \<or> s = t then None else Some (position s, position t))"

definition diagAt :: "'a check_env \<Rightarrow> world \<Rightarrow> token_position \<Rightarrow> token_position \<Rightarrow> bytes \<Rightarrow> severity \<Rightarrow> check_diag option" where
  "diagAt env w start end' msg sev =
     (case woRead w (tpFilename start) of
        Ok src \<Rightarrow>
          (case UTF16PositionForByteOffset src (tpOffset start) of
             None \<Rightarrow> None
           | Some startPos \<Rightarrow>
               (let endOffset = (if tpOffset end' \<le> tpOffset start then identEnd env src (tpOffset start) else tpOffset end');
                    endPos = (if endOffset > tpOffset start
                              then (case UTF16PositionForByteOffset src endOffset of Some e \<Rightarrow> e | None \<Rightarrow> startPos)
                              else startPos)
                in Some \<lparr>dgFile = tpFilename start, dgStartLine = poLine startPos, dgStartCol = poCharacter startPos,
                     dgEndLine = poLine endPos, dgEndCol = poCharacter endPos, dgMessage = msg, dgSeverity = sev\<rparr>))
      | _ \<Rightarrow> None)"

definition typeErrorDiag :: "'a check_env \<Rightarrow> world \<Rightarrow> (int \<Rightarrow> token_position) \<Rightarrow> type_error \<Rightarrow> check_diag option" where
  "typeErrorDiag env w position e =
     (let (start, end') = (case typeErrorRange position e of
                             Some r \<Rightarrow> r | None \<Rightarrow> (position (tePos e), position (tePos e)))
      in diagAt env w start end' (teMsg e) (if teSoft e then SeverityWarning else SeverityError))"

definition Diagnostics :: "'a check_env \<Rightarrow> world \<Rightarrow> ('a, 'p) checked \<Rightarrow> check_diag list" where
  "Diagnostics env w cp =
     List.map_filter (\<lambda>e. diagAt env w (sePos e) (sePos e) (seMsg e) SeverityError) (ckParseErrs cp)
     @ List.map_filter (typeErrorDiag env w (ckPosition cp)) (ckTypeErrs cp)"

record recheck_result =
  crPkgPath :: bytes
  crDir :: path
  crFiles :: "path list"
  crDiags :: "check_diag list"
  crBuiltAt :: instant

definition newResult :: "('a, 'p) checked \<Rightarrow> check_diag list \<Rightarrow> recheck_result" where
  "newResult cp diags =
     \<lparr>crPkgPath = ckPkgPath cp, crDir = ckDir cp, crFiles = List.map_filter (ckFileName cp) (ckFiles cp),
      crDiags = diags, crBuiltAt = ckBuiltAt cp\<rparr>"

section \<open>A diagnostic lies inside its file\<close>

text \<open>The two ends of a diagnostic are the positions of byte offsets of the file, in order.\<close>

definition diagSpans :: "bytes \<Rightarrow> check_diag \<Rightarrow> nat \<Rightarrow> nat \<Rightarrow> bool" where
  "diagSpans src d s t \<longleftrightarrow> s \<le> t \<and> t \<le> length src
     \<and> UTF16PositionForByteOffset src (int s) = Some \<lparr>poLine = dgStartLine d, poCharacter = dgStartCol d\<rparr>
     \<and> UTF16PositionForByteOffset src (int t) = Some \<lparr>poLine = dgEndLine d, poCharacter = dgEndCol d\<rparr>"

lemma UTF16Position_bounds: "UTF16PositionForByteOffset src k = Some p \<Longrightarrow> 0 \<le> k \<and> k \<le> int (length src)"
  by (auto simp: UTF16PositionForByteOffset_def split: if_splits)

lemma diagAt_spans:
  assumes "diagAt env w start end' msg sev = Some d"
  obtains src s t where "woRead w (dgFile d) = Ok src" "diagSpans src d s t" "dgFile d = tpFilename start"
    "int s = tpOffset start" "dgMessage d = msg" "dgSeverity d = sev"
proof -
  obtain src startPos where R: "woRead w (tpFilename start) = Ok src"
    and S: "UTF16PositionForByteOffset src (tpOffset start) = Some startPos"
    using assms by (auto simp: diagAt_def split: go.splits option.splits)
  let ?e = "if tpOffset end' \<le> tpOffset start then identEnd env src (tpOffset start) else tpOffset end'"
  let ?p = "if ?e > tpOffset start then (case UTF16PositionForByteOffset src ?e of Some e \<Rightarrow> e | None \<Rightarrow> startPos) else startPos"
  have D: "d = \<lparr>dgFile = tpFilename start, dgStartLine = poLine startPos, dgStartCol = poCharacter startPos,
      dgEndLine = poLine ?p, dgEndCol = poCharacter ?p, dgMessage = msg, dgSeverity = sev\<rparr>"
    using assms by (simp add: diagAt_def R S Let_def)
  obtain t where t: "tpOffset start \<le> int t" "UTF16PositionForByteOffset src (int t) = Some ?p"
  proof (cases "?e > tpOffset start \<and> UTF16PositionForByteOffset src ?e \<noteq> None")
    case True
    then obtain e where e: "UTF16PositionForByteOffset src ?e = Some e" by blast
    then have "0 \<le> ?e" by (blast dest: UTF16Position_bounds)
    with True e show thesis by (intro that [of "nat ?e"]) simp_all
  next
    case False
    then have "?p = startPos" by (auto split: option.splits)
    moreover have "0 \<le> tpOffset start" using UTF16Position_bounds [OF S] by blast
    ultimately show thesis using S by (intro that [of "nat (tpOffset start)"]) simp_all
  qed
  have b: "0 \<le> tpOffset start" "int t \<le> int (length src)" using UTF16Position_bounds [OF S] UTF16Position_bounds [OF t(2)] by blast+
  show thesis
    by (rule that [of src "nat (tpOffset start)" t]) (use R S t b in \<open>simp_all add: D diagSpans_def nat_le_iff\<close>)
qed

lemma map_filterE: "d \<in> set (List.map_filter f xs) \<Longrightarrow> (\<And>x. x \<in> set xs \<Longrightarrow> f x = Some d \<Longrightarrow> P) \<Longrightarrow> P"
  by (auto simp: List.map_filter_def)

lemma diagnostics_inside_files:
  assumes "d \<in> set (Diagnostics env w cp)"
  shows "\<exists>src s t. woRead w (dgFile d) = Ok src \<and> diagSpans src d s t"
proof -
  obtain start end' msg sev where "diagAt env w start end' msg sev = Some d"
    using assms by (auto simp: Diagnostics_def typeErrorDiag_def Let_def split: prod.splits elim!: map_filterE)
  then show ?thesis by (rule diagAt_spans) blast
qed

end
