(* ===== verification/Check_Engine.thy ===== *)
theory Check_Engine
  imports Check_Result
begin

text \<open>
  The recheck engine (\<open>check/check.go\<close> and \<open>runRecheck\<close> of \<open>check/recheck.go\<close>).

  The engine's state is one record. Timers, contexts and flights are entries of lists, named by
  their index; a goroutine that runs a recheck is an entry of \<open>enProcs\<close> with a program counter, a
  request that waits in \<open>Get\<close> or \<open>GetPackage\<close> an entry of \<open>enGets\<close>. What the code does under one
  lock is one step; local work in between is part of the step that follows it, with the check of the
  context that ends it. Waiting on \<open>e.mu\<close> is not a step of its own. The wait group \<open>pendingWG\<close> is an integer.
  \<open>enCommitted\<close>, \<open>enPublished\<close> and \<open>enDropped\<close> record what has happened and are not read: the
  cache writes, the calls of \<open>OnResult\<close> and the armed timers that were stopped without a
  \<open>Done\<close>.
\<close>

section \<open>State\<close>

definition defaultMaxLRU :: int where "defaultMaxLRU = 6"
definition defaultDebounceDelay :: int where "defaultDebounceDelay = 200 * 10 ^ 6"

record options =
  opMaxLRU :: int
  opDebounceDelay :: int
  opOnResult :: bool

record ('a, 'p) cache_entry =
  caPkg :: "('a, 'p) checked"
  caLastUsed :: instant

record dir_state =
  dsTimer :: "nat option"
  dsCancel :: "nat option"
  dsEpoch :: nat
  dsGen :: nat
  dsDoneGen :: nat
  dsPubGen :: nat

datatype timer_state = Armed | Fired | Stopped

record timer =
  tmKey :: unit_key
  tmState :: timer_state

record ('a, 'p) flight =
  flKey :: unit_key
  flHash :: bytes
  flDone :: bool
  flResult :: "(check_error, ('a, 'p) checked) go option"

datatype ('a, 'p) pc =
  PcFire
| PcLookup
| PcGen pkg_info
| PcHash pkg_info nat
| PcParse pkg_info nat "path list" bytes
| PcTypes pkg_info nat bytes "'a list" "path \<rightharpoonup> bytes" "scan_error list"
| PcCommit nat "('a, 'p) checked"
| PcRetired nat "('a, 'p) checked"
| PcPublish nat "('a, 'p) checked"
| PcReturn "(check_error, ('a, 'p) checked) go"
| PcUnregister
| PcEnd

record ('a, 'p) proc =
  prKey :: unit_key
  prFlight :: "nat option"
  prCtx :: nat
  prEpoch :: "nat option"
  prRetry :: bool
  prPc :: "('a, 'p) pc"

datatype ('a, 'p) get_pc =
  GtRecord unit_key pkg_info
| GtHash unit_key pkg_info
| GtLookup unit_key bytes
| GtJoin unit_key bytes
| GtSpawn nat
| GtWait unit_key bytes nat
| GtReturn "(check_error, ('a, 'p) checked) go"

record ('a, 'p) engine =
  enOpts :: options
  enStopped :: bool
  enRetired :: bool
  enFocus :: path
  enDirs :: "unit_key \<rightharpoonup> pkg_info"
  enCache :: "(unit_key \<times> ('a, 'p) cache_entry) list"
  enJobs :: "unit_key \<rightharpoonup> dir_state"
  enFlightOf :: "unit_key \<rightharpoonup> nat"
  enFiles :: file_cache
  enPending :: int
  enTimers :: "timer list"
  enCtxs :: "bool list"
  enFlights :: "('a, 'p) flight list"
  enProcs :: "('a, 'p) proc list"
  enGets :: "('a, 'p) get_pc list"
  enCommitted :: "(unit_key \<times> nat \<times> ('a, 'p) checked) list"
  enPublished :: "(unit_key \<times> nat \<times> recheck_result) list"
  enDropped :: nat

definition NewEngine :: "options \<Rightarrow> ('a, 'p) engine" where
  "NewEngine opts =
     \<lparr>enOpts = opts\<lparr>opMaxLRU := if opMaxLRU opts \<le> 0 then defaultMaxLRU else opMaxLRU opts,
                   opDebounceDelay := if opDebounceDelay opts \<le> 0 then defaultDebounceDelay else opDebounceDelay opts\<rparr>,
      enStopped = False, enRetired = False, enFocus = [], enDirs = Map.empty, enCache = [], enJobs = Map.empty,
      enFlightOf = Map.empty, enFiles = [], enPending = 0, enTimers = [], enCtxs = [], enFlights = [], enProcs = [],
      enGets = [], enCommitted = [], enPublished = [], enDropped = 0\<rparr>"

section \<open>Timers, contexts and jobs\<close>

definition newDirState :: dir_state where
  "newDirState = \<lparr>dsTimer = None, dsCancel = None, dsEpoch = 0, dsGen = 0, dsDoneGen = 0, dsPubGen = 0\<rparr>"

definition jobStateLocked :: "unit_key \<Rightarrow> ('a, 'p) engine \<Rightarrow> dir_state" where
  "jobStateLocked key e = (case enJobs e key of Some st \<Rightarrow> st | None \<Rightarrow> newDirState)"

definition setJob :: "unit_key \<Rightarrow> dir_state \<Rightarrow> ('a, 'p) engine \<Rightarrow> ('a, 'p) engine" where
  "setJob key st e = e\<lparr>enJobs := (enJobs e)(key \<mapsto> st)\<rparr>"

text \<open>\<open>time.Timer.Stop\<close>: whether the timer was still armed.\<close>

definition isArmed :: "('a, 'p) engine \<Rightarrow> nat \<Rightarrow> bool" where
  "isArmed e t \<longleftrightarrow> t < length (enTimers e) \<and> tmState (enTimers e ! t) = Armed"

definition stopTimer :: "nat \<Rightarrow> ('a, 'p) engine \<Rightarrow> ('a, 'p) engine" where
  "stopTimer t e = (if isArmed e t then e\<lparr>enTimers := (enTimers e)[t := (enTimers e ! t)\<lparr>tmState := Stopped\<rparr>]\<rparr> else e)"

text \<open>Stops the timer, with and without the \<open>Done\<close> for it.\<close>

definition stopTimerDone :: "nat option \<Rightarrow> ('a, 'p) engine \<Rightarrow> ('a, 'p) engine" where
  "stopTimerDone t e =
     (case t of
        None \<Rightarrow> e
      | Some t \<Rightarrow> if isArmed e t then (stopTimer t e)\<lparr>enPending := enPending e - 1\<rparr> else e)"

definition stopTimerOnly :: "nat option \<Rightarrow> ('a, 'p) engine \<Rightarrow> ('a, 'p) engine" where
  "stopTimerOnly t e =
     (case t of
        None \<Rightarrow> e
      | Some t \<Rightarrow> if isArmed e t then (stopTimer t e)\<lparr>enDropped := enDropped e + 1\<rparr> else e)"

definition cancelCtx :: "nat option \<Rightarrow> ('a, 'p) engine \<Rightarrow> ('a, 'p) engine" where
  "cancelCtx c e = (case c of None \<Rightarrow> e | Some c \<Rightarrow> e\<lparr>enCtxs := (enCtxs e)[c := True]\<rparr>)"

definition armDebounceLocked :: "unit_key \<Rightarrow> ('a, 'p) engine \<Rightarrow> ('a, 'p) engine" where
  "armDebounceLocked key e =
     (let st = jobStateLocked key e; e1 = stopTimerDone (dsTimer st) e
      in setJob key (st\<lparr>dsTimer := Some (length (enTimers e1))\<rparr>)
           (e1\<lparr>enPending := enPending e1 + 1, enTimers := enTimers e1 @ [\<lparr>tmKey = key, tmState = Armed\<rparr>]\<rparr>))"

definition unitKnownLocked :: "unit_key \<Rightarrow> ('a, 'p) engine \<Rightarrow> bool" where
  "unitKnownLocked key e \<longleftrightarrow> enDirs e key \<noteq> None \<or> map_of (enCache e) key \<noteq> None"

definition Invalidate :: "path \<Rightarrow> ('a, 'p) engine \<Rightarrow> ('a, 'p) engine" where
  "Invalidate dir e =
     (let extKey = \<lparr>unDir = dir, unVariant = VariantExternalTest\<rparr>;
          keys = \<lparr>unDir = dir, unVariant = VariantBase\<rparr> # (if unitKnownLocked extKey e then [extKey] else [])
      in fold armDebounceLocked keys e)"

definition invalidateUnit :: "unit_key \<Rightarrow> ('a, 'p) engine \<Rightarrow> ('a, 'p) engine" where
  "invalidateUnit key e =
     (if \<not> unitKnownLocked key e then e
      else armDebounceLocked key (e\<lparr>enCache := AList.delete key (enCache e)\<rparr>))"

definition InvalidateDependency :: "path list \<Rightarrow> ('a, 'p) engine \<Rightarrow> ('a, 'p) engine" where
  "InvalidateDependency dirs e =
     fold (\<lambda>dir e. invalidateUnit \<lparr>unDir = dir, unVariant = VariantExternalTest\<rparr>
                     (invalidateUnit \<lparr>unDir = dir, unVariant = VariantBase\<rparr> e)) dirs e"

definition SetFocus :: "resolved \<Rightarrow> ('a, 'p) engine \<Rightarrow> ('a, 'p) engine" where
  "SetFocus pkg e =
     (case pkg of
        None \<Rightarrow> e
      | Some (pkgPath, dir, goFiles) \<Rightarrow>
          e\<lparr>enFocus := dir, enDirs := (enDirs e)(unitKeyFor pkgPath dir \<mapsto> \<lparr>piPkgPath = pkgPath, piGoFiles = goFiles\<rparr>)\<rparr>)"

text \<open>
  \<open>Retire\<close> and \<open>Stop\<close> first set \<open>retired\<close> and then take the lock; the two parts are two
  steps. \<open>ks\<close> is the order in which Go enumerates \<open>e.jobs\<close>.
\<close>

definition retireJob :: "unit_key \<Rightarrow> ('a, 'p) engine \<Rightarrow> ('a, 'p) engine" where
  "retireJob key e =
     (case enJobs e key of
        None \<Rightarrow> e
      | Some st \<Rightarrow> cancelCtx (dsCancel st) (setJob key (st\<lparr>dsTimer := None\<rparr>) (stopTimerOnly (dsTimer st) e)))"

definition stopJob :: "unit_key \<Rightarrow> ('a, 'p) engine \<Rightarrow> ('a, 'p) engine" where
  "stopJob key e =
     (case enJobs e key of
        None \<Rightarrow> e
      | Some st \<Rightarrow> cancelCtx (dsCancel st) (setJob key (st\<lparr>dsTimer := None\<rparr>) (stopTimerDone (dsTimer st) e)))"

definition retireLocked :: "unit_key list \<Rightarrow> ('a, 'p) engine \<Rightarrow> ('a, 'p) engine" where
  "retireLocked ks e = fold retireJob ks e"

definition stopLocked :: "unit_key list \<Rightarrow> ('a, 'p) engine \<Rightarrow> ('a, 'p) engine" where
  "stopLocked ks e = fold stopJob ks (e\<lparr>enStopped := True\<rparr>)"

definition setRetired :: "('a, 'p) engine \<Rightarrow> ('a, 'p) engine" where
  "setRetired e = e\<lparr>enRetired := True\<rparr>"

definition Retire :: "unit_key list \<Rightarrow> ('a, 'p) engine \<Rightarrow> ('a, 'p) engine" where
  "Retire ks e = retireLocked ks (setRetired e)"

definition Stop :: "unit_key list \<Rightarrow> ('a, 'p) engine \<Rightarrow> ('a, 'p) engine" where
  "Stop ks e = stopLocked ks (setRetired e)"

text \<open>\<open>Wait\<close> returns when the counter is zero.\<close>

definition waitReturns :: "('a, 'p) engine \<Rightarrow> bool" where
  "waitReturns e \<longleftrightarrow> enPending e = 0"

section \<open>The cache\<close>

definition evictLocked :: "('a, 'p) engine \<Rightarrow> ('a, 'p) engine" where
  "evictLocked e =
     (case oldestEntry caLastUsed (\<lambda>key. unDir key = enFocus e) (enCache e) None of
        None \<Rightarrow> e
      | Some (key, _) \<Rightarrow> e\<lparr>enCache := AList.delete key (enCache e)\<rparr>)"

text \<open>The result is whether the generation was current.\<close>

definition commitCache :: "instant \<Rightarrow> unit_key \<Rightarrow> nat \<Rightarrow> ('a, 'p) checked \<Rightarrow> ('a, 'p) engine \<Rightarrow> bool \<times> ('a, 'p) engine" where
  "commitCache now key gen cp e =
     (let st = jobStateLocked key e
      in if gen < dsDoneGen st then (False, setJob key st e)
         else let e1 = setJob key (st\<lparr>dsDoneGen := gen\<rparr>) e;
                  e2 = (if map_of (enCache e1) key = None \<and> opMaxLRU (enOpts e1) \<le> int (length (enCache e1))
                        then evictLocked e1 else e1)
              in (True, e2\<lparr>enCache := AList.update key \<lparr>caPkg = cp, caLastUsed = now\<rparr> (enCache e2),
                           enCommitted := enCommitted e2 @ [(key, gen, cp)]\<rparr>))"

definition commitPublish :: "'a check_env \<Rightarrow> world \<Rightarrow> unit_key \<Rightarrow> nat \<Rightarrow> ('a, 'p) checked \<Rightarrow> ('a, 'p) engine \<Rightarrow> ('a, 'p) engine" where
  "commitPublish env w key gen cp e =
     (let result = newResult cp (Diagnostics env w cp); st = jobStateLocked key e
      in if gen < dsPubGen st then e
         else (setJob key (st\<lparr>dsPubGen := gen\<rparr>) e)\<lparr>enPublished := enPublished e @ [(key, gen, result)]\<rparr>)"

section \<open>Rechecks\<close>

definition setPc :: "nat \<Rightarrow> ('a, 'p) pc \<Rightarrow> ('a, 'p) engine \<Rightarrow> ('a, 'p) engine" where
  "setPc i c e = e\<lparr>enProcs := (enProcs e)[i := (enProcs e ! i)\<lparr>prPc := c\<rparr>]\<rparr>"

abbreviation procKey :: "('a, 'p) engine \<Rightarrow> nat \<Rightarrow> unit_key" where
  "procKey e i \<equiv> prKey (enProcs e ! i)"

definition ctxErr :: "('a, 'p) engine \<Rightarrow> nat \<Rightarrow> bool" where
  "ctxErr e i =
     (case prFlight (enProcs e ! i) of
        Some _ \<Rightarrow> enStopped e
      | None \<Rightarrow> prCtx (enProcs e ! i) < length (enCtxs e) \<and> enCtxs e ! prCtx (enProcs e ! i))"

text \<open>The timer's function starts: \<open>fireRecheck\<close> is about to call \<open>startJob\<close>.\<close>

definition fireTimer :: "nat \<Rightarrow> ('a, 'p) engine \<Rightarrow> ('a, 'p) engine" where
  "fireTimer t e =
     e\<lparr>enTimers := (enTimers e)[t := (enTimers e ! t)\<lparr>tmState := Fired\<rparr>],
       enProcs := enProcs e @ [\<lparr>prKey = tmKey (enTimers e ! t), prFlight = None, prCtx = 0, prEpoch = None,
                                prRetry = False, prPc = PcFire\<rparr>]\<rparr>"

definition startJob :: "nat \<Rightarrow> ('a, 'p) engine \<Rightarrow> ('a, 'p) engine" where
  "startJob i e =
     (let key = procKey e i in
      if enStopped e
      then e\<lparr>enCtxs := enCtxs e @ [True],
             enProcs := (enProcs e)[i := (enProcs e ! i)\<lparr>prCtx := length (enCtxs e), prPc := PcLookup\<rparr>]\<rparr>
      else let st = jobStateLocked key e;
               e1 = cancelCtx (dsCancel st) (stopTimerOnly (dsTimer st) e);
               c = length (enCtxs e1); epoch = dsEpoch st + 1
           in (setJob key (st\<lparr>dsTimer := None, dsEpoch := epoch, dsCancel := Some c\<rparr>) e1)
                \<lparr>enCtxs := enCtxs e1 @ [False],
                 enProcs := (enProcs e)[i := (enProcs e ! i)\<lparr>prCtx := c, prEpoch := Some epoch, prPc := PcLookup\<rparr>]\<rparr>)"

definition finishJob :: "nat \<Rightarrow> ('a, 'p) engine \<Rightarrow> ('a, 'p) engine" where
  "finishJob i e =
     (case prEpoch (enProcs e ! i) of
        None \<Rightarrow> e
      | Some epoch \<Rightarrow>
          (case enJobs e (procKey e i) of
             None \<Rightarrow> e
           | Some st \<Rightarrow> if dsEpoch st = epoch then setJob (procKey e i) (st\<lparr>dsCancel := None\<rparr>) e else e))"

text \<open>\<open>runRecheck\<close>, one definition per stage. The last line of a stage is its check of the context.\<close>

definition stageEnd :: "nat \<Rightarrow> ('a, 'p) pc \<Rightarrow> ('a, 'p) engine \<Rightarrow> ('a, 'p) engine" where
  "stageEnd i c e = setPc i (if ctxErr e i then PcReturn (Err CtxCanceled) else c) e"

definition recheckLookup :: "'a check_env \<Rightarrow> world \<Rightarrow> (path \<Rightarrow> resolved) \<Rightarrow> nat \<Rightarrow> ('a, 'p) engine \<Rightarrow> ('a, 'p) engine" where
  "recheckLookup env w pkgForFile i e =
     (case enDirs e (procKey e i) of
        Some pi \<Rightarrow> stageEnd i (PcGen pi) e
      | None \<Rightarrow>
          (case resolvePackage env w pkgForFile (procKey e i) of
             Ok pi \<Rightarrow> stageEnd i (PcGen pi) (e\<lparr>enDirs := (enDirs e)(procKey e i \<mapsto> pi)\<rparr>)
           | Err err \<Rightarrow> setPc i (PcReturn (Err err)) e
           | Panic \<Rightarrow> setPc i (PcReturn Panic) e))"

definition nextGenStep :: "nat \<Rightarrow> pkg_info \<Rightarrow> ('a, 'p) engine \<Rightarrow> ('a, 'p) engine" where
  "nextGenStep i pi e =
     (let st = jobStateLocked (procKey e i) e; gen = dsGen st + 1
      in setPc i (PcHash pi gen) (setJob (procKey e i) (st\<lparr>dsGen := gen\<rparr>) e))"

definition filesAndHash :: "'a check_env \<Rightarrow> world \<Rightarrow> pkg_info \<Rightarrow> path \<Rightarrow> file_cache
    \<Rightarrow> (check_error, path list \<times> bytes) go \<times> file_cache" where
  "filesAndHash env w pi dir fc =
     (case resolveFiles env w pi dir fc of
        (Ok files, fc') \<Rightarrow>
          (let (r, fc'') = engineContentHash env w files fc' in (go_bind r (\<lambda>hash. Ok (files, hash)), fc''))
      | (Err err, fc') \<Rightarrow> (Err err, fc')
      | (Panic, fc') \<Rightarrow> (Panic, fc'))"

definition recheckHash :: "'a check_env \<Rightarrow> world \<Rightarrow> nat \<Rightarrow> pkg_info \<Rightarrow> nat \<Rightarrow> ('a, 'p) engine \<Rightarrow> ('a, 'p) engine" where
  "recheckHash env w i pi gen e =
     (let (r, fc) = filesAndHash env w pi (unDir (procKey e i)) (enFiles e); e1 = e\<lparr>enFiles := fc\<rparr>
      in case r of
           Ok (files, hash) \<Rightarrow> stageEnd i (PcParse pi gen files hash) e1
         | Err err \<Rightarrow> setPc i (PcReturn (Err err)) e1
         | Panic \<Rightarrow> setPc i (PcReturn Panic) e1)"

definition recheckParse :: "'a check_env \<Rightarrow> world \<Rightarrow> nat \<Rightarrow> pkg_info \<Rightarrow> nat \<Rightarrow> path list \<Rightarrow> bytes \<Rightarrow> ('a, 'p) engine \<Rightarrow> ('a, 'p) engine" where
  "recheckParse env w i pi gen files hash e =
     (let (out, texts, errs) = parseFiles env w files in stageEnd i (PcTypes pi gen hash out texts errs) e)"

text \<open>What \<open>typecheck.CheckPackage\<close> returned, with the file set's positions.\<close>

record ('a, 'p) type_outcome =
  toPkg :: 'p
  toErrs :: "type_error list"
  toPosition :: "int \<Rightarrow> token_position"
  toFileName :: "'a \<Rightarrow> path option"

definition checkedOf :: "('a, 'p) type_outcome \<Rightarrow> instant \<Rightarrow> pkg_info \<Rightarrow> path \<Rightarrow> bytes \<Rightarrow> 'a list \<Rightarrow> (path \<rightharpoonup> bytes)
    \<Rightarrow> scan_error list \<Rightarrow> ('a, 'p) checked" where
  "checkedOf tc now pi dir hash out texts errs =
     \<lparr>ckPkgPath = piPkgPath pi, ckDir = dir, ckPosition = toPosition tc, ckFileName = toFileName tc, ckFiles = out,
      ckPkg = toPkg tc, ckParseErrs = errs, ckTypeErrs = toErrs tc, ckTexts = texts, ckContentHash = hash, ckBuiltAt = now\<rparr>"

definition recheckTypes :: "('a, 'p) type_outcome \<Rightarrow> instant \<Rightarrow> nat \<Rightarrow> pkg_info \<Rightarrow> nat \<Rightarrow> bytes \<Rightarrow> 'a list \<Rightarrow> (path \<rightharpoonup> bytes)
    \<Rightarrow> scan_error list \<Rightarrow> ('a, 'p) engine \<Rightarrow> ('a, 'p) engine" where
  "recheckTypes tc now i pi gen hash out texts errs e =
     stageEnd i (PcCommit gen (checkedOf tc now pi (unDir (procKey e i)) hash out texts errs)) e"

definition recheckCommit :: "instant \<Rightarrow> nat \<Rightarrow> nat \<Rightarrow> ('a, 'p) checked \<Rightarrow> ('a, 'p) engine \<Rightarrow> ('a, 'p) engine" where
  "recheckCommit now i gen cp e =
     (let (ok, e1) = commitCache now (procKey e i) gen cp e
      in setPc i (if \<not> ok \<or> \<not> opOnResult (enOpts e) then PcReturn (Ok cp) else PcRetired gen cp) e1)"

definition recheckRetired :: "nat \<Rightarrow> nat \<Rightarrow> ('a, 'p) checked \<Rightarrow> ('a, 'p) engine \<Rightarrow> ('a, 'p) engine" where
  "recheckRetired i gen cp e = setPc i (if enRetired e then PcReturn (Ok cp) else PcPublish gen cp) e"

definition recheckPublish :: "'a check_env \<Rightarrow> world \<Rightarrow> nat \<Rightarrow> nat \<Rightarrow> ('a, 'p) checked \<Rightarrow> ('a, 'p) engine \<Rightarrow> ('a, 'p) engine" where
  "recheckPublish env w i gen cp e = setPc i (PcReturn (Ok cp)) (commitPublish env w (procKey e i) gen cp e)"

text \<open>A panic of the parser, the type checker or the callback, which only a flight recovers.\<close>

definition recheckPanic :: "nat \<Rightarrow> ('a, 'p) engine \<Rightarrow> ('a, 'p) engine" where
  "recheckPanic i e = setPc i (PcReturn (Err (RecheckPanicked (unDir (procKey e i))))) e"

text \<open>\<open>fireRecheck\<close> after \<open>runRecheck\<close> has returned: it retries once, or ends the job.\<close>

definition fireReturn :: "nat \<Rightarrow> (check_error, ('a, 'p) checked) go \<Rightarrow> ('a, 'p) engine \<Rightarrow> ('a, 'p) engine" where
  "fireReturn i r e =
     (if (case r of Err _ \<Rightarrow> True | _ \<Rightarrow> False) \<and> \<not> ctxErr e i \<and> \<not> prRetry (enProcs e ! i)
      then e\<lparr>enProcs := (enProcs e)[i := (enProcs e ! i)\<lparr>prRetry := True, prPc := PcLookup\<rparr>]\<rparr>
      else (setPc i PcEnd (finishJob i e))\<lparr>enPending := enPending e - 1\<rparr>)"

text \<open>The deferred functions of \<open>runFlight\<close>: the result is broadcast, then the flight is removed.\<close>

definition flightDone :: "nat \<Rightarrow> nat \<Rightarrow> (check_error, ('a, 'p) checked) go \<Rightarrow> ('a, 'p) engine \<Rightarrow> ('a, 'p) engine" where
  "flightDone i f r e =
     setPc i PcUnregister (e\<lparr>enFlights := (enFlights e)[f := (enFlights e ! f)\<lparr>flDone := True, flResult := Some r\<rparr>]\<rparr>)"

definition flightUnregister :: "nat \<Rightarrow> nat \<Rightarrow> ('a, 'p) engine \<Rightarrow> ('a, 'p) engine" where
  "flightUnregister i f e =
     (setPc i PcEnd (if enFlightOf e (procKey e i) = Some f
                     then e\<lparr>enFlightOf := (enFlightOf e)(procKey e i := None)\<rparr> else e))
       \<lparr>enPending := enPending e - 1\<rparr>"

section \<open>Requests\<close>

definition addGet :: "('a, 'p) get_pc \<Rightarrow> ('a, 'p) engine \<Rightarrow> ('a, 'p) engine" where
  "addGet g e = e\<lparr>enGets := enGets e @ [g]\<rparr>"

definition setGet :: "nat \<Rightarrow> ('a, 'p) get_pc \<Rightarrow> ('a, 'p) engine \<Rightarrow> ('a, 'p) engine" where
  "setGet j g e = e\<lparr>enGets := (enGets e)[j := g]\<rparr>"

definition engineGet :: "bool \<Rightarrow> (path \<Rightarrow> resolved) \<Rightarrow> path \<Rightarrow> ('a, 'p) engine \<Rightarrow> ('a, 'p) engine" where
  "engineGet canceled pkgForFile filePath e =
     addGet (if canceled then GtReturn (Err CtxCanceled)
             else case pkgForFile filePath of
               None \<Rightarrow> GtReturn (Err (NotInPackage filePath))
             | Some (pkgPath, dir, goFiles) \<Rightarrow>
                 GtRecord (unitKeyFor pkgPath dir) \<lparr>piPkgPath = pkgPath, piGoFiles = goFiles\<rparr>) e"

definition GetPackage :: "bool \<Rightarrow> (bytes \<Rightarrow> (path \<times> path list) option) \<Rightarrow> bytes \<Rightarrow> ('a, 'p) engine \<Rightarrow> ('a, 'p) engine" where
  "GetPackage canceled pkgDir pkgPath e =
     addGet (if canceled then GtReturn (Err CtxCanceled)
             else case pkgDir pkgPath of
               None \<Rightarrow> GtReturn (Err (NotInPackage pkgPath))
             | Some (dir, goFiles) \<Rightarrow>
                 GtRecord (unitKeyFor pkgPath dir) \<lparr>piPkgPath = pkgPath, piGoFiles = goFiles\<rparr>) e"

text \<open>\<open>getUnit\<close> in its critical sections.\<close>

definition getUnitRecord :: "nat \<Rightarrow> unit_key \<Rightarrow> pkg_info \<Rightarrow> ('a, 'p) engine \<Rightarrow> ('a, 'p) engine" where
  "getUnitRecord j key pi e = setGet j (GtHash key pi) (e\<lparr>enDirs := (enDirs e)(key \<mapsto> pi)\<rparr>)"

definition getUnitHash :: "'a check_env \<Rightarrow> world \<Rightarrow> nat \<Rightarrow> unit_key \<Rightarrow> pkg_info \<Rightarrow> ('a, 'p) engine \<Rightarrow> ('a, 'p) engine" where
  "getUnitHash env w j key pi e =
     (let (r, fc) = filesAndHash env w pi (unDir key) (enFiles e); e1 = e\<lparr>enFiles := fc\<rparr>
      in setGet j (case r of Ok (_, hash) \<Rightarrow> GtLookup key hash | Err err \<Rightarrow> GtReturn (Err err) | Panic \<Rightarrow> GtReturn Panic) e1)"

definition getUnitLookup :: "instant \<Rightarrow> nat \<Rightarrow> unit_key \<Rightarrow> bytes \<Rightarrow> ('a, 'p) engine \<Rightarrow> ('a, 'p) engine" where
  "getUnitLookup now j key hash e =
     (case map_of (enCache e) key of
        Some entry \<Rightarrow>
          if ckContentHash (caPkg entry) = hash
          then setGet j (GtReturn (Ok (caPkg entry)))
                 (e\<lparr>enCache := AList.update key (entry\<lparr>caLastUsed := now\<rparr>) (enCache e)\<rparr>)
          else setGet j (GtJoin key hash) e
      | None \<Rightarrow> setGet j (GtJoin key hash) e)"

definition newFlight :: "unit_key \<Rightarrow> bytes \<Rightarrow> ('a, 'p) flight" where
  "newFlight key hash = \<lparr>flKey = key, flHash = hash, flDone = False, flResult = None\<rparr>"

definition getOrStartFlight :: "nat \<Rightarrow> unit_key \<Rightarrow> bytes \<Rightarrow> ('a, 'p) engine \<Rightarrow> ('a, 'p) engine" where
  "getOrStartFlight j key hash e =
     (case enFlightOf e key of
        Some f \<Rightarrow>
          if flHash (enFlights e ! f) = hash then setGet j (GtWait key hash f) e
          else setGet j (GtSpawn (length (enFlights e)))
                 (e\<lparr>enFlights := enFlights e @ [newFlight key hash], enFlightOf := (enFlightOf e)(key \<mapsto> length (enFlights e))\<rparr>)
      | None \<Rightarrow> setGet j (GtSpawn (length (enFlights e)))
                 (e\<lparr>enFlights := enFlights e @ [newFlight key hash], enFlightOf := (enFlightOf e)(key \<mapsto> length (enFlights e))\<rparr>))"

definition spawnFlight :: "nat \<Rightarrow> nat \<Rightarrow> ('a, 'p) engine \<Rightarrow> ('a, 'p) engine" where
  "spawnFlight j f e =
     setGet j (GtWait (flKey (enFlights e ! f)) (flHash (enFlights e ! f)) f)
       (e\<lparr>enPending := enPending e + 1,
          enProcs := enProcs e @ [\<lparr>prKey = flKey (enFlights e ! f), prFlight = Some f, prCtx = 0, prEpoch = None,
                                   prRetry = False, prPc = PcLookup\<rparr>]\<rparr>)"

section \<open>Steps\<close>

text \<open>\<open>recheckStep\<close> are the steps of the goroutine \<open>i\<close> that runs a recheck, \<open>requestStep\<close>
  those of a request, \<open>engineStep\<close> adds the firing of timers, the cancellation of a request and the
  calls from outside.\<close>

definition running :: "('a, 'p) pc \<Rightarrow> bool" where
  "running c \<longleftrightarrow> (case c of PcFire \<Rightarrow> False | PcReturn _ \<Rightarrow> False | PcUnregister \<Rightarrow> False | PcEnd \<Rightarrow> False | _ \<Rightarrow> True)"

inductive recheckStep :: "'a check_env \<Rightarrow> nat \<Rightarrow> ('a, 'p) engine \<Rightarrow> ('a, 'p) engine \<Rightarrow> bool" for env i e where
  start: "i < length (enProcs e) \<Longrightarrow> prPc (enProcs e ! i) = PcFire \<Longrightarrow> recheckStep env i e (startJob i e)"
| lookup: "i < length (enProcs e) \<Longrightarrow> prPc (enProcs e ! i) = PcLookup \<Longrightarrow> recheckStep env i e (recheckLookup env w pkgForFile i e)"
| gen: "i < length (enProcs e) \<Longrightarrow> prPc (enProcs e ! i) = PcGen pi \<Longrightarrow> recheckStep env i e (nextGenStep i pi e)"
| hash: "i < length (enProcs e) \<Longrightarrow> prPc (enProcs e ! i) = PcHash pi gen \<Longrightarrow> recheckStep env i e (recheckHash env w i pi gen e)"
| parse: "i < length (enProcs e) \<Longrightarrow> prPc (enProcs e ! i) = PcParse pi gen files hash \<Longrightarrow>
    recheckStep env i e (recheckParse env w i pi gen files hash e)"
| types: "i < length (enProcs e) \<Longrightarrow> prPc (enProcs e ! i) = PcTypes pi gen hash out texts errs \<Longrightarrow>
    recheckStep env i e (recheckTypes tc now i pi gen hash out texts errs e)"
| commit: "i < length (enProcs e) \<Longrightarrow> prPc (enProcs e ! i) = PcCommit gen cp \<Longrightarrow> recheckStep env i e (recheckCommit now i gen cp e)"
| retired: "i < length (enProcs e) \<Longrightarrow> prPc (enProcs e ! i) = PcRetired gen cp \<Longrightarrow> recheckStep env i e (recheckRetired i gen cp e)"
| publish: "i < length (enProcs e) \<Longrightarrow> prPc (enProcs e ! i) = PcPublish gen cp \<Longrightarrow> recheckStep env i e (recheckPublish env w i gen cp e)"
| panic: "i < length (enProcs e) \<Longrightarrow> prFlight (enProcs e ! i) = Some f \<Longrightarrow>
    running (prPc (enProcs e ! i)) \<Longrightarrow> recheckStep env i e (recheckPanic i e)"
| fire_return: "i < length (enProcs e) \<Longrightarrow> prPc (enProcs e ! i) = PcReturn r \<Longrightarrow> prFlight (enProcs e ! i) = None \<Longrightarrow>
    recheckStep env i e (fireReturn i r e)"
| flight_return: "i < length (enProcs e) \<Longrightarrow> prPc (enProcs e ! i) = PcReturn r \<Longrightarrow> prFlight (enProcs e ! i) = Some f \<Longrightarrow>
    recheckStep env i e (flightDone i f r e)"
| unregister: "i < length (enProcs e) \<Longrightarrow> prPc (enProcs e ! i) = PcUnregister \<Longrightarrow> prFlight (enProcs e ! i) = Some f \<Longrightarrow>
    recheckStep env i e (flightUnregister i f e)"

inductive requestStep :: "'a check_env \<Rightarrow> nat \<Rightarrow> ('a, 'p) engine \<Rightarrow> ('a, 'p) engine \<Rightarrow> bool" for env j e where
  note_info: "j < length (enGets e) \<Longrightarrow> enGets e ! j = GtRecord key pi \<Longrightarrow> requestStep env j e (getUnitRecord j key pi e)"
| hash: "j < length (enGets e) \<Longrightarrow> enGets e ! j = GtHash key pi \<Longrightarrow> requestStep env j e (getUnitHash env w j key pi e)"
| lookup: "j < length (enGets e) \<Longrightarrow> enGets e ! j = GtLookup key hash \<Longrightarrow> requestStep env j e (getUnitLookup now j key hash e)"
| join: "j < length (enGets e) \<Longrightarrow> enGets e ! j = GtJoin key hash \<Longrightarrow> requestStep env j e (getOrStartFlight j key hash e)"
| spawn: "j < length (enGets e) \<Longrightarrow> enGets e ! j = GtSpawn f \<Longrightarrow> requestStep env j e (spawnFlight j f e)"
| result: "j < length (enGets e) \<Longrightarrow> enGets e ! j = GtWait key hash f \<Longrightarrow> flDone (enFlights e ! f) \<Longrightarrow>
    flResult (enFlights e ! f) = Some r \<Longrightarrow> requestStep env j e (setGet j (GtReturn r) e)"

inductive engineStep :: "'a check_env \<Rightarrow> ('a, 'p) engine \<Rightarrow> ('a, 'p) engine \<Rightarrow> bool" for env e where
  recheck: "recheckStep env i e e' \<Longrightarrow> engineStep env e e'"
| request: "requestStep env j e e' \<Longrightarrow> engineStep env e e'"
| fire: "isArmed e t \<Longrightarrow> engineStep env e (fireTimer t e)"
| cancel: "j < length (enGets e) \<Longrightarrow> enGets e ! j = GtWait key hash f \<Longrightarrow>
    engineStep env e (setGet j (GtReturn (Err CtxCanceled)) e)"
| get: "engineStep env e (engineGet canceled pkgForFile filePath e)"
| get_package: "engineStep env e (GetPackage canceled pkgDir pkgPath e)"
| focus: "engineStep env e (SetFocus pkg e)"
| invalidate: "engineStep env e (Invalidate dir e)"
| invalidate_dependency: "engineStep env e (InvalidateDependency dirs e)"
| set_retired: "engineStep env e (setRetired e)"
| retire: "enRetired e \<Longrightarrow> engineStep env e (retireLocked ks e)"
| stop: "enRetired e \<Longrightarrow> engineStep env e (stopLocked ks e)"

abbreviation engineRun :: "'a check_env \<Rightarrow> ('a, 'p) engine \<Rightarrow> ('a, 'p) engine \<Rightarrow> bool" where
  "engineRun env \<equiv> (engineStep env)\<^sup>*\<^sup>*"

end
