(* ===== verification/Check_Content.thy ===== *)
theory Check_Content
  imports Check_Files
begin

text \<open>
  What the reads, the content hash and the package lookup of \<open>Check_Files\<close> guarantee: the
  memoised read gives what the reader would have given, two passes with the same content hash have
  seen the same files, and a file is resolved to its package whatever the order of a map.
\<close>

section \<open>Memoised reads are transparent\<close>

text \<open>
  The memo rests on the modification time and the size to identify the content of a file: \<open>C\<close>
  gives that content. A read is \<open>steady\<close> when the file still has it at the moment of the read.
\<close>

type_synonym disk_content = "path \<Rightarrow> instant \<times> int \<Rightarrow> bytes"

definition openAt :: "world \<Rightarrow> path \<Rightarrow> bool" where
  "openAt w p = (case woIsOpen w of Some isOpen \<Rightarrow> isOpen p | None \<Rightarrow> False)"

definition steady :: "disk_content \<Rightarrow> world \<Rightarrow> world \<Rightarrow> path \<Rightarrow> bool" where
  "steady C w1 w2 p \<longleftrightarrow> openAt w1 p \<or> (case woStat w1 p of None \<Rightarrow> True | Some info \<Rightarrow> woRead w2 p = Ok (C p info))"

definition fcSound :: "disk_content \<Rightarrow> file_cache \<Rightarrow> bool" where
  "fcSound C fc \<longleftrightarrow> list_all (\<lambda>(p, e). fcData e = C p (fcModTime e, fcSize e)) fc"

lemma fcSound_update:
  "fcSound C fc \<Longrightarrow> fcData e = C p (fcModTime e, fcSize e) \<Longrightarrow> fcSound C (AList.update p e fc)"
  by (induction fc) (auto simp: fcSound_def)

lemma fcSound_delete: "fcSound C fc \<Longrightarrow> fcSound C (AList.delete p fc)"
  by (simp add: fcSound_def list_all_iff AList.delete_eq)

lemma fcSound_lookup: "fcSound C fc \<Longrightarrow> map_of fc p = Some e \<Longrightarrow> fcData e = C p (fcModTime e, fcSize e)"
  by (drule map_of_SomeD) (auto simp: fcSound_def list_all_iff)

lemma fcSound_evict: "fcSound C fc \<Longrightarrow> fcSound C (evictFileCacheLocked fc)"
  by (simp add: evictFileCacheLocked_def fcSound_delete split: option.split)

lemma readAndStore_steady:
  assumes "fcSound C fc" "woRead w2 p = Ok (C p info)"
  shows "fst (readAndStore w1 w2 p info fc) = woRead w2 p \<and> fcSound C (snd (readAndStore w1 w2 p info fc))"
  using assms by (auto simp: readAndStore_def fcSound_update fcSound_evict)

lemma readFile_steady:
  assumes "fcSound C fc" "steady C w1 w2 p"
  shows "fst (readFile w1 w2 p fc) = woRead w2 p \<and> fcSound C (snd (readFile w1 w2 p fc))"
proof (cases "openAt w1 p \<or> woStat w1 p = None")
  case True
  with assms show ?thesis by (auto simp: readFile_def openAt_def)
next
  case False
  then obtain info where I: "woStat w1 p = Some info" and O: "\<not> openAt w1 p" by auto
  with assms(2) have R: "woRead w2 p = Ok (C p info)" by (simp add: steady_def)
  show ?thesis
  proof (cases "map_of fc p")
    case None
    with I O readAndStore_steady [OF assms(1) R] show ?thesis by (simp add: readFile_def openAt_def)
  next
    case (Some e)
    show ?thesis
      using I O Some R readAndStore_steady [OF assms(1) R] fcSound_lookup [OF assms(1) Some]
      by (auto simp: readFile_def openAt_def intro!: fcSound_update [OF assms(1)])
  qed
qed

lemma length_update: "length (AList.update k v xs) = (if map_of xs k = None then Suc (length xs) else length xs)"
  by (induction xs) auto

lemma length_delete_le: "length (AList.delete k xs) \<le> length xs"
  by (simp add: AList.delete_eq)

lemma length_delete: "k \<in> fst ` set xs \<Longrightarrow> length (AList.delete k xs) < length xs"
  by (force simp: AList.delete_eq intro: length_filter_less)

lemma oldestEntry_in:
  "oldestEntry used skip xs best = Some (k, t) \<Longrightarrow>
     best = Some (k, t) \<or> (\<exists>e. (k, e) \<in> set xs \<and> \<not> skip k \<and> used e = t)"
proof (induction used skip xs best arbitrary: k t rule: oldestEntry.induct)
  case (2 used skip k' e' rest best)
  then show ?case by (cases best) (force split: if_splits)+
qed simp

lemma oldestEntry_None: "oldestEntry used skip xs best = None \<longleftrightarrow> best = None \<and> (\<forall>(k, e) \<in> set xs. skip k)"
  by (induction used skip xs best rule: oldestEntry.induct) (auto split: option.splits)

lemma oldestEntry_least:
  "oldestEntry used skip xs best = Some (k, t) \<Longrightarrow>
     (\<forall>(k', e) \<in> set xs. skip k' \<or> t \<le> used e) \<and> (case best of None \<Rightarrow> True | Some (_, t') \<Rightarrow> t \<le> t')"
  by (induction used skip xs best arbitrary: k t rule: oldestEntry.induct) (force split: option.splits if_splits)+

lemma length_evict_file:
  assumes "fc \<noteq> []"
  shows "length (evictFileCacheLocked fc) < length fc"
proof (cases "oldestEntry fcLastUsed (\<lambda>_. False) fc None")
  case None
  then have "\<not> (\<exists>x. x \<in> set fc)" by (auto simp: oldestEntry_None)
  with assms show ?thesis by (meson hd_in_set)
next
  case (Some a)
  then obtain k t where "a = (k, t)" by (cases a)
  with Some oldestEntry_in [of fcLastUsed "\<lambda>_. False" fc None k t] show ?thesis
    by (force simp: evictFileCacheLocked_def intro!: length_delete)
qed

lemma length_readFile:
  assumes "length fc \<le> maxFileCache"
  shows "length (snd (readFile w1 w2 p fc)) \<le> maxFileCache"
proof -
  have "length (snd (readAndStore w1 w2 p info fc)) \<le> maxFileCache" for info
  proof (cases "map_of fc p = None \<and> maxFileCache \<le> length fc")
    case True
    have "0 < maxFileCache" by (simp add: maxFileCache_def)
    then have "fc \<noteq> []" using True by auto
    from length_evict_file [OF this] True assms show ?thesis
      by (auto simp: readAndStore_def length_update split: go.split)
  next
    case False
    with assms show ?thesis by (auto simp: readAndStore_def length_update split: go.split)
  qed
  with assms show ?thesis by (auto simp: readFile_def length_update split: option.split)
qed

fun readRun :: "(world \<times> world \<times> path) list \<Rightarrow> file_cache \<Rightarrow> (nat, bytes) go list \<times> file_cache" where
  "readRun [] fc = ([], fc)"
| "readRun ((w1, w2, p) # cs) fc =
     (let (r, fc') = readFile w1 w2 p fc; (rs, fc'') = readRun cs fc' in (r # rs, fc''))"

lemma readRun_steady:
  assumes "fcSound C fc" "length fc \<le> maxFileCache" "\<forall>(w1, w2, p) \<in> set cs. steady C w1 w2 p"
  shows "fst (readRun cs fc) = map (\<lambda>(w1, w2, p). woRead w2 p) cs \<and> length (snd (readRun cs fc)) \<le> maxFileCache"
  using assms
proof (induction cs fc rule: readRun.induct)
  case (2 w1 w2 p cs fc)
  obtain r fc' where R: "readFile w1 w2 p fc = (r, fc')" by fastforce
  have "r = woRead w2 p" "fcSound C fc'" using readFile_steady [of C fc w1 w2 p] 2(2,4) R by auto
  moreover have "length fc' \<le> maxFileCache" using length_readFile [OF 2(3), of w1 w2 p] R by simp
  ultimately show ?case using 2 R by (simp add: split_beta)
qed simp

text \<open>
  Every run of \<open>readFile\<close> from an empty memo returns, call for call, what the reader itself
  returns, as long as the time and size of a file identify its content and the document is not
  opened between the check and the read; and the memo never holds more than \<open>maxFileCache\<close>
  files.
\<close>

lemma reads_transparent:
  assumes "\<forall>(w1, w2, p) \<in> set calls. steady C w1 w2 p"
  shows "fst (readRun calls []) = map (\<lambda>(w1, w2, p). woRead w2 p) calls
    \<and> length (snd (readRun calls [])) \<le> maxFileCache"
  using readRun_steady [of C "[]" calls] assms by (simp add: fcSound_def)

definition sample_world :: "instant \<Rightarrow> bool \<Rightarrow> bytes \<Rightarrow> world" where
  "sample_world modTime isOpen content =
     \<lparr>woReadDir = (\<lambda>_. Ok [(lit ''a.go'', False)]), woStat = (\<lambda>_. Some (modTime, 7)), woRead = (\<lambda>_. Ok content),
      woIsOpen = Some (\<lambda>_. isOpen), woOpenIn = None, woNow = 0\<rparr>"

lemma reads_transparent_witness:
  "fst (readRun [(sample_world 1 False [65], sample_world 1 False [65], lit ''a.go''),
                 (sample_world 1 False [65], sample_world 1 False [65], lit ''a.go''),
                 (sample_world 2 False [66], sample_world 2 False [66], lit ''a.go'')] []) = [Ok [65], Ok [65], Ok [66]]"
  using reads_transparent [where C = "\<lambda>p info. if fst info = 1 then [65] else [66]" and calls =
    "[(sample_world 1 False [65], sample_world 1 False [65], lit ''a.go''),
      (sample_world 1 False [65], sample_world 1 False [65], lit ''a.go''),
      (sample_world 2 False [66], sample_world 2 False [66], lit ''a.go'')]"]
  by (simp add: steady_def sample_world_def)

text \<open>
  The proviso on opening is needed: a document opened and edited between the two moments leaves its
  unsaved text in the memo under the stat of the file on disk, and a later read, after the document
  has been closed without saving, gets that text.
\<close>

lemma readFile_race:
  "fst (readRun [(sample_world 1 False [65], sample_world 1 True [66], lit ''a.go''),
                 (sample_world 1 False [65], sample_world 1 False [65], lit ''a.go'')] []) = [Ok [66], Ok [66]]"
  by (simp add: readFile_def readAndStore_def sample_world_def maxFileCache_def)

text \<open>A reader that cannot tell open documents is memoised all the same.\<close>

lemma readFile_no_capability_memoised:
  "woIsOpen w = None \<Longrightarrow> woStat w p = Some info \<Longrightarrow> woRead w p = Ok data \<Longrightarrow>
     map_of (snd (readFile w w p [])) p = Some \<lparr>fcModTime = fst info, fcSize = snd info, fcData = data, fcLastUsed = woNow w\<rparr>"
  by (simp add: readFile_def readAndStore_def maxFileCache_def)

section \<open>The content hash identifies the content\<close>

definition fileBytes :: "path \<times> bytes \<Rightarrow> bytes" where
  "fileBytes f = fst f @ [0] @ snd f @ [0]"

definition nulFree :: "path \<times> bytes \<Rightarrow> bool" where
  "nulFree f \<longleftrightarrow> 0 \<notin> set (fst f) \<and> 0 \<notin> set (snd f)"

lemma split_at_nul:
  "0 \<notin> set a \<Longrightarrow> 0 \<notin> set b \<Longrightarrow> a @ (0 :: byte) # x = b @ 0 # y \<Longrightarrow> a = b \<and> x = y"
proof (induction a arbitrary: b)
  case Nil
  then show ?case by (cases b) auto
next
  case (Cons c a)
  then show ?case by (cases b) auto
qed

lemma fileBytes_append_inj:
  assumes "nulFree f" "nulFree g" "fileBytes f @ x = fileBytes g @ y"
  shows "f = g \<and> x = y"
proof -
  from assms have "fst f = fst g" and "snd f @ 0 # x = snd g @ 0 # y"
    using split_at_nul [of "fst f" "fst g" "snd f @ 0 # x" "snd g @ 0 # y"] by (simp_all add: nulFree_def fileBytes_def)
  moreover from this(2) assms(1,2) have "snd f = snd g" "x = y"
    using split_at_nul [of "snd f" "snd g" x y] by (simp_all add: nulFree_def)
  ultimately show ?thesis by (simp add: prod_eq_iff)
qed

lemma concat_fileBytes_inj:
  "list_all nulFree fs \<Longrightarrow> list_all nulFree gs \<Longrightarrow>
     concat (map fileBytes fs) = concat (map fileBytes gs) \<Longrightarrow> fs = gs"
proof (induction fs arbitrary: gs)
  case Nil
  then show ?case by (cases gs) (auto simp: fileBytes_def)
next
  case (Cons f fs)
  from Cons.prems(3) obtain g gs' where G: "gs = g # gs'" by (cases gs) (auto simp: fileBytes_def)
  with Cons.prems have "f = g \<and> concat (map fileBytes fs) = concat (map fileBytes gs')"
    by (intro fileBytes_append_inj) simp_all
  with Cons.IH [of gs'] Cons.prems G show ?case by simp
qed

lemma hexBytes_inj: "hexBytes xs = hexBytes ys \<Longrightarrow> xs = ys"
proof (induction xs arbitrary: ys)
  case Nil
  then show ?case by (cases ys) (auto simp: hexBytes_def numeral_2_eq_2)
next
  case (Cons x xs)
  then obtain y ys' where Y: "ys = y # ys'" by (cases ys) (auto simp: hexBytes_def numeral_2_eq_2)
  with Cons.prems have "hexN 2 (unat x) = hexN 2 (unat y) \<and> hexBytes xs = hexBytes ys'"
    by (simp add: hexBytes_def)
  moreover have "parseHex 0 (hexN 2 (unat b)) = Some (unat b)" for b :: byte
    using parseHex_hexN [of "unat b" 2] unat_byte_less [of b] by simp
  ultimately have "unat x = unat y" "hexBytes xs = hexBytes ys'" by (metis option.inject)+
  then have "x = y" "xs = ys'" using Cons.IH by (simp_all add: word_unat_eq_iff)
  with Y show ?case by simp
qed

text \<open>What a pass over \<open>ps\<close> in world \<open>w\<close> reads.\<close>

definition contentOf :: "world \<Rightarrow> path list \<Rightarrow> (path \<times> bytes) list" where
  "contentOf w ps = map (\<lambda>p. (p, case woRead w p of Ok d \<Rightarrow> d | _ \<Rightarrow> [])) ps"

lemma hashInput_steady:
  assumes "fcSound C fc" "\<And>p. steady C w w p" "hashInput w ps fc = (Ok bs, fc')"
  shows "bs = concat (map fileBytes (contentOf w ps)) \<and> (\<forall>p \<in> set ps. \<exists>d. woRead w p = Ok d)"
  using assms
proof (induction ps arbitrary: fc bs)
  case (Cons p ps)
  obtain r fc1 where R: "readFile w w p fc = (r, fc1)" by fastforce
  then have r: "r = woRead w p" "fcSound C fc1" using readFile_steady [OF Cons.prems(1,2), of p] by auto
  with Cons.prems(3) R obtain d rest where d: "woRead w p = Ok d" "hashInput w ps fc1 = (Ok rest, fc')" "bs = p @ [0] @ d @ [0] @ rest"
    by (cases r) (auto split: prod.splits go.splits)
  from Cons.IH [OF r(2) Cons.prems(2) d(2)] d show ?case by (simp add: contentOf_def fileBytes_def)
qed (simp add: contentOf_def)

text \<open>
  C40. Two passes over the files of a package that compute the same content hash have seen the same
  files with the same content, provided the digest does not collide on the two inputs, the memo is
  faithful and neither paths nor contents hold a NUL byte. This is what makes a cached package with
  the current hash current.
\<close>

theorem content_hash_identifies:
  assumes "fcSound C fc1" "fcSound C fc2" "\<And>p. steady C w1 w1 p" "\<And>p. steady C w2 w2 p"
    and "hashInput w1 fs1 fc1 = (Ok x1, d1)" "hashInput w2 fs2 fc2 = (Ok x2, d2)"
    and "inj_on (ceHash env) {x1, x2}"
    and "list_all nulFree (contentOf w1 fs1)" "list_all nulFree (contentOf w2 fs2)"
    and "engineContentHash env w1 fs1 fc1 = (Ok h, e1)" "engineContentHash env w2 fs2 fc2 = (Ok h, e2)"
  shows "fs1 = fs2 \<and> map (woRead w1) fs1 = map (woRead w2) fs2"
proof -
  note I1 = hashInput_steady [OF assms(1,3,5)] and I2 = hashInput_steady [OF assms(2,4,6)]
  have "hexBytes (ceHash env x1) = hexBytes (ceHash env x2)"
    using assms(5,6,10,11) by (auto simp: engineContentHash_def)
  then have "x1 = x2" using assms(7) by (auto dest!: hexBytes_inj dest: inj_onD)
  then have E: "contentOf w1 fs1 = contentOf w2 fs2"
    using I1 I2 assms(8,9) by (auto intro: concat_fileBytes_inj)
  have F: "map fst (contentOf w fs) = fs" for w fs by (simp add: contentOf_def o_def)
  have "fs1 = fs2" using arg_cong [OF E, of "map fst"] F by metis
  moreover have "map (woRead w) fs = map (Ok \<circ> snd) (contentOf w fs)" if "\<forall>p \<in> set fs. \<exists>d. woRead w p = Ok d" for w fs
    using that by (induction fs) (auto simp: contentOf_def)
  ultimately show ?thesis using I1 I2 E by metis
qed

definition sample_check_env :: "bytes check_env" where
  "sample_check_env = \<lparr>ceJoin = (\<lambda>d n. d @ lit ''/'' @ n), ceBase = drop 2, ceDir = take 1,
     ceClause = (\<lambda>_ src. if src = [] then None else Some [hd src]), ceParse = (\<lambda>_ src. (Some src, None)),
     ceScan = (\<lambda>_. (0, ScanOther)), ceErrText = (\<lambda>_. []), ceHash = id\<rparr>"

theorem content_hash_identifies_witness:
  "map (woRead (sample_world 1 False [65])) [lit ''d/a.go''] = map (woRead (sample_world 2 False [65])) [lit ''d/a.go'']"
  using content_hash_identifies [where C = "\<lambda>_ _. [65]" and ?fc1.0 = "[]" and ?fc2.0 = "[]" and env = sample_check_env
      and ?w1.0 = "sample_world 1 False [65]" and ?w2.0 = "sample_world 2 False [65]"
      and ?fs1.0 = "[lit ''d/a.go'']" and ?fs2.0 = "[lit ''d/a.go'']"
      and ?x1.0 = "fileBytes (lit ''d/a.go'', [65])" and ?x2.0 = "fileBytes (lit ''d/a.go'', [65])"
      and h = "hexBytes (fileBytes (lit ''d/a.go'', [65]))"]
  by (simp add: fcSound_def steady_def sample_world_def readFile_def readAndStore_def maxFileCache_def
      engineContentHash_def sample_check_env_def fileBytes_def contentOf_def nulFree_def lit_def)

text \<open>A NUL byte in a file breaks this: one file and two files give the same bytes.\<close>

lemma nul_content_collides:
  "concat (map fileBytes [(lit ''a'', [1, 0, 98, 0, 2])]) = concat (map fileBytes [(lit ''a'', [1]), (lit ''b'', [2])])"
  by (simp add: fileBytes_def lit_def)

section \<open>Files resolve to their packages\<close>

text \<open>
  The packages of a directory, test variants left out. \<open>tidy\<close> is what \<open>go list\<close> guarantees: a
  directory holds one such package, and a file belongs to one.
\<close>

definition ordinary :: "snapshot \<Rightarrow> path \<Rightarrow> package \<Rightarrow> bool" where
  "ordinary snap p pkg \<longleftrightarrow> snPackages snap p = Some pkg \<and> pkForTest pkg = []"

definition tidy :: "snapshot \<Rightarrow> bool" where
  "tidy snap \<longleftrightarrow> (\<forall>p q a b. ordinary snap p a \<longrightarrow> ordinary snap q b \<longrightarrow>
     (pkDir a = pkDir b \<or> set (pkGoFiles a) \<inter> set (pkGoFiles b) \<noteq> {}) \<longrightarrow> p = q)"

lemma fold_map_upd: "fold (\<lambda>f m. m(f \<mapsto> v)) fs m f' = (if f' \<in> set fs then Some v else m f')"
  by (induction fs arbitrary: m) auto

lemma indexPackage_lookup:
  "giSnap (indexPackage snap p g) = giSnap g"
  "giFileToPkg (indexPackage snap p g) f =
     (if \<exists>pkg. ordinary snap p pkg \<and> f \<in> set (pkGoFiles pkg) then Some p else giFileToPkg g f)"
  "giDirToPkg (indexPackage snap p g) d =
     (if \<exists>pkg. ordinary snap p pkg \<and> pkDir pkg = d then Some p else giDirToPkg g d)"
  by (auto simp: indexPackage_def ordinary_def fold_map_upd split: option.split)

lemma indexPackage_hit:
  "ordinary snap p pkg \<Longrightarrow> f \<in> set (pkGoFiles pkg) \<Longrightarrow> giFileToPkg (indexPackage snap p g) f \<noteq> None"
  "ordinary snap p pkg \<Longrightarrow> pkDir pkg = d \<Longrightarrow> giDirToPkg (indexPackage snap p g) d \<noteq> None"
  unfolding indexPackage_lookup by auto

lemma fold_indexPackage:
  "giSnap (fold (indexPackage snap) ks g) = giSnap g"
  "giFileToPkg (fold (indexPackage snap) ks g) f = Some p \<Longrightarrow>
     (p \<in> set ks \<and> (\<exists>pkg. ordinary snap p pkg \<and> f \<in> set (pkGoFiles pkg))) \<or> giFileToPkg g f = Some p"
  "giDirToPkg (fold (indexPackage snap) ks g) d = Some p \<Longrightarrow>
     (p \<in> set ks \<and> (\<exists>pkg. ordinary snap p pkg \<and> pkDir pkg = d)) \<or> giDirToPkg g d = Some p"
  "p \<in> set ks \<Longrightarrow> ordinary snap p pkg \<Longrightarrow> f \<in> set (pkGoFiles pkg) \<Longrightarrow> giFileToPkg (fold (indexPackage snap) ks g) f \<noteq> None"
  "p \<in> set ks \<Longrightarrow> ordinary snap p pkg \<Longrightarrow> pkDir pkg = d \<Longrightarrow> giDirToPkg (fold (indexPackage snap) ks g) d \<noteq> None"
  "giFileToPkg g f \<noteq> None \<Longrightarrow> giFileToPkg (fold (indexPackage snap) ks g) f \<noteq> None"
  "giDirToPkg g d \<noteq> None \<Longrightarrow> giDirToPkg (fold (indexPackage snap) ks g) d \<noteq> None"
proof (induction ks arbitrary: g)
  case (Cons k ks)
  {
    case 1 then show ?case using Cons.IH(1) by (simp add: indexPackage_lookup)
  next
    case 2 then show ?case using Cons.IH(2) [of "indexPackage snap k g"] by (auto simp: indexPackage_lookup split: if_splits)
  next
    case 3 then show ?case using Cons.IH(3) [of "indexPackage snap k g"] by (auto simp: indexPackage_lookup split: if_splits)
  next
    case 4 then show ?case using Cons.IH(4,6) [of "indexPackage snap k g"] indexPackage_hit(1) [of snap k pkg f g] by (cases "p = k") simp_all
  next
    case 5 then show ?case using Cons.IH(5,7) [of "indexPackage snap k g"] indexPackage_hit(2) [of snap k pkg d g] by (cases "p = k") simp_all
  next
    case 6 then show ?case using Cons.IH(6) [of "indexPackage snap k g"] by (auto simp: indexPackage_lookup)
  next
    case 7 then show ?case using Cons.IH(7) [of "indexPackage snap k g"] by (auto simp: indexPackage_lookup)
  }
qed simp_all

lemma buildGraphIndex_file:
  assumes "tidy snap" "dom (snPackages snap) \<subseteq> set ks"
  shows "giFileToPkg (buildGraphIndex ks snap) f = Some p \<longleftrightarrow> (\<exists>pkg. ordinary snap p pkg \<and> f \<in> set (pkGoFiles pkg))"
proof
  assume "giFileToPkg (buildGraphIndex ks snap) f = Some p"
  then show "\<exists>pkg. ordinary snap p pkg \<and> f \<in> set (pkGoFiles pkg)"
    using fold_indexPackage(2) [of snap ks "\<lparr>giSnap = snap, giFileToPkg = Map.empty, giDirToPkg = Map.empty\<rparr>" f p]
    by (simp add: buildGraphIndex_def)
next
  assume "\<exists>pkg. ordinary snap p pkg \<and> f \<in> set (pkGoFiles pkg)"
  then obtain pkg where P: "ordinary snap p pkg" "f \<in> set (pkGoFiles pkg)" by blast
  then have "p \<in> set ks" using assms(2) by (auto simp: ordinary_def)
  from fold_indexPackage(4) [OF this P] obtain q where q: "giFileToPkg (buildGraphIndex ks snap) f = Some q"
    by (fastforce simp: buildGraphIndex_def)
  then obtain b where "ordinary snap q b" "f \<in> set (pkGoFiles b)"
    using fold_indexPackage(2) [of snap ks "\<lparr>giSnap = snap, giFileToPkg = Map.empty, giDirToPkg = Map.empty\<rparr>" f q]
    by (auto simp: buildGraphIndex_def)
  with assms(1) P have "q = p" unfolding tidy_def by (metis disjoint_iff)
  with q show "giFileToPkg (buildGraphIndex ks snap) f = Some p" by simp
qed

lemma buildGraphIndex_dir:
  assumes "tidy snap" "dom (snPackages snap) \<subseteq> set ks"
  shows "giDirToPkg (buildGraphIndex ks snap) d = Some p \<longleftrightarrow> (\<exists>pkg. ordinary snap p pkg \<and> pkDir pkg = d)"
proof
  assume "giDirToPkg (buildGraphIndex ks snap) d = Some p"
  then show "\<exists>pkg. ordinary snap p pkg \<and> pkDir pkg = d"
    using fold_indexPackage(3) [of snap ks "\<lparr>giSnap = snap, giFileToPkg = Map.empty, giDirToPkg = Map.empty\<rparr>" d p]
    by (simp add: buildGraphIndex_def)
next
  assume "\<exists>pkg. ordinary snap p pkg \<and> pkDir pkg = d"
  then obtain pkg where P: "ordinary snap p pkg" "pkDir pkg = d" by blast
  then have "p \<in> set ks" using assms(2) by (auto simp: ordinary_def)
  from fold_indexPackage(5) [OF this P] obtain q where q: "giDirToPkg (buildGraphIndex ks snap) d = Some q"
    by (fastforce simp: buildGraphIndex_def)
  then obtain b where "ordinary snap q b" "pkDir b = d"
    using fold_indexPackage(3) [of snap ks "\<lparr>giSnap = snap, giFileToPkg = Map.empty, giDirToPkg = Map.empty\<rparr>" d q]
    by (auto simp: buildGraphIndex_def)
  with assms(1) P have "q = p" unfolding tidy_def by metis
  with q show "giDirToPkg (buildGraphIndex ks snap) d = Some p" by simp
qed

lemma giSnap_buildGraphIndex [simp]: "giSnap (buildGraphIndex ks snap) = snap"
  by (simp add: buildGraphIndex_def fold_indexPackage(1))

text \<open>
  Whatever the order in which the packages are enumerated, a file that the graph lists resolves
  to its package; another file of the package's directory joins it, unless its clause makes it part
  of the external test package, which is a unit of its own over the same directory.
\<close>

lemma package_for_file:
  assumes "tidy snap" "dom (snPackages snap) \<subseteq> set ks" "ordinary snap pp pkg"
    and "p \<in> set (pkGoFiles pkg) \<or> (ceDir env p = pkDir pkg \<and> (\<forall>q b. ordinary snap q b \<longrightarrow> p \<notin> set (pkGoFiles b)))"
  shows "PackageForFile env (NewGraphSource ks snap reader) p =
    (case (if p \<in> set (pkGoFiles pkg) then None else externalTestPkgPathFor env (NewGraphSource ks snap reader) p pkg) of
       None \<Rightarrow> Some (pp, pkDir pkg, pkGoFiles pkg)
     | Some ext \<Rightarrow> Some (ext, pkDir pkg, []))
    \<and> (\<forall>ext dir. externalTestPkgPathFor env (NewGraphSource ks snap reader) p pkg = Some ext \<longrightarrow>
        unitKeyFor ext dir = \<lparr>unDir = dir, unVariant = VariantExternalTest\<rparr>
        \<and> externalTestVariant ext = Some (pkImportPath pkg))"
proof
  have S: "snPackages snap pp = Some pkg" using assms(3) by (simp add: ordinary_def)
  show "PackageForFile env (NewGraphSource ks snap reader) p =
    (case (if p \<in> set (pkGoFiles pkg) then None else externalTestPkgPathFor env (NewGraphSource ks snap reader) p pkg) of
       None \<Rightarrow> Some (pp, pkDir pkg, pkGoFiles pkg)
     | Some ext \<Rightarrow> Some (ext, pkDir pkg, []))"
  proof (cases "p \<in> set (pkGoFiles pkg)")
    case True
    then have "giFileToPkg (buildGraphIndex ks snap) p = Some pp"
      using buildGraphIndex_file [OF assms(1,2), of p pp] assms(3) by blast
    with True S show ?thesis by (simp add: PackageForFile_def NewGraphSource_def)
  next
    case False
    then have D: "ceDir env p = pkDir pkg" and N: "\<And>q b. ordinary snap q b \<Longrightarrow> p \<notin> set (pkGoFiles b)" using assms(4) by blast+
    have "giFileToPkg (buildGraphIndex ks snap) p = None"
      using buildGraphIndex_file [OF assms(1,2), of p] N by (metis not_None_eq)
    moreover have "giDirToPkg (buildGraphIndex ks snap) (ceDir env p) = Some pp"
      unfolding buildGraphIndex_dir [OF assms(1,2)] using assms(3) D by (intro exI [of _ pkg]) simp
    ultimately show ?thesis using False S by (simp add: PackageForFile_def NewGraphSource_def split: option.split)
  qed
next
  show "\<forall>ext dir. externalTestPkgPathFor env (NewGraphSource ks snap reader) p pkg = Some ext \<longrightarrow>
        unitKeyFor ext dir = \<lparr>unDir = dir, unVariant = VariantExternalTest\<rparr>
        \<and> externalTestVariant ext = Some (pkImportPath pkg)"
    by (auto simp: externalTestPkgPathFor_def unitKeyFor_def externalTestVariant_def cutSuffix_def suffix_def
        split: if_splits option.splits)
qed

definition sample_node :: package where
  "sample_node = \<lparr>pkImportPath = lit ''m/d'', pkName = lit ''d'', pkDir = lit ''d'', pkGoFiles = [lit ''d/a.go''],
     pkImports = [], pkTestImports = [], pkForTest = [], pkRoot = True\<rparr>"

definition sample_graph :: snapshot where
  "sample_graph = \<lparr>snPackages = [lit ''m/d'' \<mapsto> sample_node], snOrder = [lit ''m/d''], snDir = [], snRevDeps = (\<lambda>_. []),
     snPos = [lit ''m/d'' \<mapsto> 0], snBuildFlagsFP = []\<rparr>"

lemma sample_ordinary: "ordinary sample_graph p pkg \<longleftrightarrow> p = lit ''m/d'' \<and> pkg = sample_node"
  by (auto simp: ordinary_def sample_graph_def sample_node_def split: if_splits)

lemma package_for_file_witness:
  "PackageForFile sample_check_env (NewGraphSource [lit ''m/d''] sample_graph None) (lit ''d/b.go'') =
     Some (lit ''m/d'', lit ''d'', [lit ''d/a.go''])"
proof -
  have D: "tidy sample_graph" "dom (snPackages sample_graph) \<subseteq> set [lit ''m/d'']"
    by (simp_all add: tidy_def sample_ordinary) (simp add: sample_graph_def)
  have F: "lit ''d/b.go'' \<notin> set (pkGoFiles sample_node)" "pkDir sample_node = lit ''d''"
    "pkGoFiles sample_node = [lit ''d/a.go'']" "ceDir sample_check_env (lit ''d/b.go'') = lit ''d''"
    by (simp_all add: sample_node_def sample_check_env_def lit_def)
  have E: "externalTestPkgPathFor sample_check_env (NewGraphSource ks sample_graph None) p sample_node = None" for ks p
    by (simp add: externalTestPkgPathFor_def gsClauseName_def NewGraphSource_def)
  show ?thesis
    using package_for_file [OF D, of "lit ''m/d''" sample_node "lit ''d/b.go''" sample_check_env None] F
    by (simp add: sample_ordinary E)
qed

end
