(* ===== verification/Check_Order.thy ===== *)
theory Check_Order
  imports Check_Engine Check_Content
begin

text \<open>
  The order of the engine's effects: whatever the interleaving of rechecks, requests, timers and
  calls, the cache writes and the published results of a unit follow the order of the rechecks'
  generations, and the cache stays small.
\<close>

section \<open>Generations in use\<close>

text \<open>The generation a recheck holds, and its package once that has been written to the cache.\<close>

fun pcClaim :: "('a, 'p) pc \<Rightarrow> (nat \<times> ('a, 'p) checked option) option" where
  "pcClaim (PcHash pi gen) = Some (gen, None)"
| "pcClaim (PcParse pi gen files hash) = Some (gen, None)"
| "pcClaim (PcTypes pi gen hash out texts errs) = Some (gen, None)"
| "pcClaim (PcCommit gen cp) = Some (gen, None)"
| "pcClaim (PcRetired gen cp) = Some (gen, Some cp)"
| "pcClaim (PcPublish gen cp) = Some (gen, Some cp)"
| "pcClaim _ = None"

definition gensOf :: "('a, 'p) engine \<Rightarrow> unit_key \<Rightarrow> nat \<times> nat \<times> nat" where
  "gensOf e k = (let st = jobStateLocked k e in (dsGen st, dsDoneGen st, dsPubGen st))"

abbreviation claimOf :: "('a, 'p) engine \<Rightarrow> nat \<Rightarrow> (nat \<times> ('a, 'p) checked option) option" where
  "claimOf e i \<equiv> pcClaim (prPc (enProcs e ! i))"

text \<open>A step that hands out no generation and records no effect; it may drop claims and cache entries.\<close>

definition cacheShrinks :: "('k \<times> 'e) list \<Rightarrow> ('k \<times> 'e) list \<Rightarrow> bool" where
  "cacheShrinks xs ys \<longleftrightarrow> (distinct (map fst xs) \<longrightarrow> distinct (map fst ys)) \<and> length ys \<le> length xs"

lemma cacheShrinks_refl [simp]: "cacheShrinks xs xs"
  by (simp add: cacheShrinks_def)

lemma cacheShrinks_delete: "cacheShrinks xs (AList.delete k xs)"
  by (simp add: cacheShrinks_def distinct_delete length_delete_le)

lemma cacheShrinks_touch: "map_of xs k = Some v \<Longrightarrow> cacheShrinks xs (AList.update k v' xs)"
  by (simp add: cacheShrinks_def distinct_update length_update)

definition quiet :: "('a, 'p) engine \<Rightarrow> ('a, 'p) engine \<Rightarrow> bool" where
  "quiet e e' \<longleftrightarrow>
     (\<forall>i < length (enProcs e'). claimOf e' i \<noteq> None \<longrightarrow>
        i < length (enProcs e) \<and> procKey e' i = procKey e i \<and> claimOf e' i = claimOf e i)
     \<and> gensOf e' = gensOf e \<and> enCommitted e' = enCommitted e \<and> enPublished e' = enPublished e
     \<and> enOpts e' = enOpts e \<and> cacheShrinks (enCache e) (enCache e')
     \<and> (\<forall>k en'. map_of (enCache e') k = Some en' \<longrightarrow> (\<exists>en. map_of (enCache e) k = Some en \<and> caPkg en = caPkg en'))"

lemma quiet_refl: "quiet e e"
  by (simp add: quiet_def)

lemma cacheShrinks_trans: "cacheShrinks xs ys \<Longrightarrow> cacheShrinks ys zs \<Longrightarrow> cacheShrinks xs zs"
  by (auto simp: cacheShrinks_def)

lemma quiet_trans:
  assumes "quiet e e'" "quiet e' e''"
  shows "quiet e e''"
  unfolding quiet_def
proof (intro conjI allI impI)
  fix i assume "i < length (enProcs e'')" "claimOf e'' i \<noteq> None"
  with assms(2) have "i < length (enProcs e')" "procKey e'' i = procKey e' i" "claimOf e'' i = claimOf e' i" "claimOf e' i \<noteq> None"
    unfolding quiet_def by auto
  with assms(1) show "i < length (enProcs e)" "procKey e'' i = procKey e i" "claimOf e'' i = claimOf e i"
    unfolding quiet_def by auto
next
  fix k en assume "map_of (enCache e'') k = Some en"
  with assms(2) obtain en' where "map_of (enCache e') k = Some en'" "caPkg en' = caPkg en" unfolding quiet_def by blast
  with assms(1) show "\<exists>en'. map_of (enCache e) k = Some en' \<and> caPkg en' = caPkg en" unfolding quiet_def by metis
qed (use assms in \<open>auto simp: quiet_def intro: cacheShrinks_trans\<close>)

lemma quiet_fold: "(\<And>x e. quiet e (f x e)) \<Longrightarrow> quiet e (fold f xs e)"
  by (induction xs arbitrary: e) (auto intro: quiet_refl quiet_trans)

text \<open>Steps that leave the five fields alone, up to the gens of the jobs.\<close>

lemma quiet_same:
  "enProcs e' = enProcs e \<Longrightarrow> gensOf e' = gensOf e \<Longrightarrow> enCommitted e' = enCommitted e \<Longrightarrow> enPublished e' = enPublished e
     \<Longrightarrow> enCache e' = enCache e \<Longrightarrow> enOpts e' = enOpts e \<Longrightarrow> quiet e e'"
  by (simp add: quiet_def)

lemma jobState_cong: "enJobs e' = enJobs e \<Longrightarrow> jobStateLocked k e' = jobStateLocked k e"
  by (simp add: jobStateLocked_def)

lemma gensOf_cong: "enJobs e' = enJobs e \<Longrightarrow> gensOf e' = gensOf e"
  by (rule ext) (simp add: gensOf_def jobStateLocked_def)

lemma jobState_setJob [simp]:
  "jobStateLocked k (setJob key st e) = (if k = key then st else jobStateLocked k e)"
  by (simp add: jobStateLocked_def setJob_def)

lemma gensOf_setJob:
  "dsGen st = dsGen (jobStateLocked key e) \<Longrightarrow> dsDoneGen st = dsDoneGen (jobStateLocked key e)
     \<Longrightarrow> dsPubGen st = dsPubGen (jobStateLocked key e) \<Longrightarrow> gensOf (setJob key st e) = gensOf e"
  by (auto simp: gensOf_def fun_eq_iff Let_def)

lemmas engine_ops = stopTimerDone_def stopTimerOnly_def stopTimer_def cancelCtx_def setJob_def

lemma timer_ops_frame [simp]:
  "enProcs (stopTimerDone t e) = enProcs e" "enJobs (stopTimerDone t e) = enJobs e" "enCache (stopTimerDone t e) = enCache e"
  "enCommitted (stopTimerDone t e) = enCommitted e" "enPublished (stopTimerDone t e) = enPublished e"
  "enProcs (stopTimerOnly t e) = enProcs e" "enJobs (stopTimerOnly t e) = enJobs e" "enCache (stopTimerOnly t e) = enCache e"
  "enCommitted (stopTimerOnly t e) = enCommitted e" "enPublished (stopTimerOnly t e) = enPublished e"
  "enProcs (cancelCtx c e) = enProcs e" "enJobs (cancelCtx c e) = enJobs e" "enCache (cancelCtx c e) = enCache e"
  "enCommitted (cancelCtx c e) = enCommitted e" "enPublished (cancelCtx c e) = enPublished e"
  "enProcs (setJob key st e) = enProcs e" "enCache (setJob key st e) = enCache e"
  "enCommitted (setJob key st e) = enCommitted e" "enPublished (setJob key st e) = enPublished e"
  "enOpts (stopTimerDone t e) = enOpts e" "enOpts (stopTimerOnly t e) = enOpts e" "enOpts (cancelCtx c e) = enOpts e"
  "enOpts (setJob key st e) = enOpts e"
  by (simp_all add: engine_ops split: option.split)

lemma quiet_setJob:
  "dsGen st = dsGen (jobStateLocked key e) \<Longrightarrow> dsDoneGen st = dsDoneGen (jobStateLocked key e)
     \<Longrightarrow> dsPubGen st = dsPubGen (jobStateLocked key e) \<Longrightarrow> quiet e (setJob key st e)"
  by (rule quiet_same) (simp_all add: gensOf_setJob)

lemma quiet_arm: "quiet e (armDebounceLocked key e)"
proof -
  have J: "jobStateLocked k (stopTimerDone t e\<lparr>enPending := p, enTimers := ts\<rparr>) = jobStateLocked k e" for k t p ts
    by (rule jobState_cong) simp
  show ?thesis unfolding armDebounceLocked_def Let_def
    by (rule quiet_same) (simp_all add: gensOf_def fun_eq_iff J Let_def)
qed

lemma map_of_delete: "map_of (AList.delete k xs) k' = (if k' = k then None else map_of xs k')"
  by (simp add: delete_conv')

lemma map_of_update: "map_of (AList.update k v xs) k' = (if k' = k then Some v else map_of xs k')"
  by (simp add: update_conv')

lemma quiet_evicted: "quiet e (e\<lparr>enCache := AList.delete key (enCache e)\<rparr>)"
  unfolding quiet_def by (intro conjI gensOf_cong) (simp_all add: map_of_delete cacheShrinks_delete)

lemma quiet_invalidateUnit: "quiet e (invalidateUnit key e)"
  unfolding invalidateUnit_def by (auto intro: quiet_refl quiet_trans [OF quiet_evicted quiet_arm])

lemma quiet_retireJob: "quiet e (retireJob key e)"
proof (cases "enJobs e key")
  case (Some st)
  have J: "jobStateLocked k (stopTimerOnly t e) = jobStateLocked k e" for k t by (rule jobState_cong) simp
  have C: "jobStateLocked k (cancelCtx c e) = jobStateLocked k e" for k c and e :: "('a, 'b) engine" by (rule jobState_cong) simp
  show ?thesis unfolding retireJob_def
    by (rule quiet_same) (use Some in \<open>auto simp: gensOf_def fun_eq_iff J C Let_def jobStateLocked_def [of _ e]\<close>)
qed (simp add: retireJob_def quiet_refl)

lemma quiet_stopJob: "quiet e (stopJob key e)"
proof (cases "enJobs e key")
  case (Some st)
  have J: "jobStateLocked k (stopTimerDone t e) = jobStateLocked k e" for k t by (rule jobState_cong) simp
  have C: "jobStateLocked k (cancelCtx c e) = jobStateLocked k e" for k c and e :: "('a, 'b) engine" by (rule jobState_cong) simp
  show ?thesis unfolding stopJob_def
    by (rule quiet_same) (use Some in \<open>auto simp: gensOf_def fun_eq_iff J C Let_def jobStateLocked_def [of _ e]\<close>)
qed (simp add: stopJob_def quiet_refl)

lemma quiet_calls:
  "quiet e (SetFocus pkg e)" "quiet e (Invalidate dir e)" "quiet e (InvalidateDependency dirs e)"
  "quiet e (setRetired e)" "quiet e (retireLocked ks e)" "quiet e (stopLocked ks e)"
  "quiet e (engineGet canceled pkgForFile filePath e)" "quiet e (GetPackage canceled pkgDir pkgPath e)"
proof -
  show "quiet e (SetFocus pkg e)" by (rule quiet_same) (auto simp: SetFocus_def intro: gensOf_cong split: option.split)
  show "quiet e (Invalidate dir e)" unfolding Invalidate_def Let_def by (intro quiet_fold quiet_arm)
  show "quiet e (InvalidateDependency dirs e)" unfolding InvalidateDependency_def
    by (intro quiet_fold quiet_trans [OF quiet_invalidateUnit quiet_invalidateUnit])
  show "quiet e (setRetired e)" by (rule quiet_same) (auto simp: setRetired_def intro: gensOf_cong)
  show "quiet e (retireLocked ks e)" unfolding retireLocked_def by (intro quiet_fold quiet_retireJob)
  have "quiet e (e\<lparr>enStopped := True\<rparr>)" by (rule quiet_same) (auto intro: gensOf_cong)
  then show "quiet e (stopLocked ks e)" unfolding stopLocked_def by (rule quiet_trans) (intro quiet_fold quiet_stopJob)
  show "quiet e (engineGet canceled pkgForFile filePath e)" "quiet e (GetPackage canceled pkgDir pkgPath e)"
    by (rule quiet_same; (rule gensOf_cong)?; simp add: engineGet_def GetPackage_def addGet_def)+
qed

lemma procs_setPc [simp]:
  "length (enProcs (setPc i c e)) = length (enProcs e)"
  "i < length (enProcs e) \<Longrightarrow> j < length (enProcs e) \<Longrightarrow>
     enProcs (setPc i c e) ! j = (if j = i then (enProcs e ! i)\<lparr>prPc := c\<rparr> else enProcs e ! j)"
  "i < length (enProcs e) \<Longrightarrow> enProcs (setPc i c e) ! i = (enProcs e ! i)\<lparr>prPc := c\<rparr>"
  by (simp_all add: setPc_def nth_list_update)

lemma setPc_frame [simp]:
  "enJobs (setPc i c e) = enJobs e" "enCommitted (setPc i c e) = enCommitted e" "enPublished (setPc i c e) = enPublished e"
  "enCache (setPc i c e) = enCache e" "enOpts (setPc i c e) = enOpts e" "enFocus (setPc i c e) = enFocus e"
  by (simp_all add: setPc_def)

lemma gensOf_setPc [simp]: "gensOf (setPc i c e) = gensOf e"
  by (rule gensOf_cong) simp

lemma quiet_setPc:
  "i < length (enProcs e) \<Longrightarrow> pcClaim c = None \<or> pcClaim c = claimOf e i \<Longrightarrow> quiet e (setPc i c e)"
  by (auto simp: quiet_def split: if_splits)

lemma quiet_stageEnd:
  "i < length (enProcs e) \<Longrightarrow> pcClaim c = None \<or> pcClaim c = claimOf e i \<Longrightarrow> quiet e (stageEnd i c e)"
  unfolding stageEnd_def by (rule quiet_setPc) auto

lemma quiet_addProc: "pcClaim (prPc p) = None \<Longrightarrow> enProcs e' = enProcs e @ [p] \<Longrightarrow> gensOf e' = gensOf e
    \<Longrightarrow> enCommitted e' = enCommitted e \<Longrightarrow> enPublished e' = enPublished e \<Longrightarrow> enCache e' = enCache e \<Longrightarrow> enOpts e' = enOpts e \<Longrightarrow> quiet e e'"
  by (auto simp: quiet_def nth_append less_Suc_eq)

text \<open>An operation on other fields, followed by a step of the goroutine.\<close>

lemma quiet_fields:
  "quiet e (e\<lparr>enDirs := d\<rparr>)" "quiet e (e\<lparr>enFiles := fc\<rparr>)" "quiet e (e\<lparr>enPending := p\<rparr>)" "quiet e (e\<lparr>enFlightOf := f\<rparr>)"
  "quiet e (e\<lparr>enFlights := fs\<rparr>)" "quiet e (e\<lparr>enFlights := fs, enFlightOf := f\<rparr>)" "quiet e (e\<lparr>enGets := gs\<rparr>)"
  by (rule quiet_same; (rule gensOf_cong)?; simp)+

lemma quiet_setGet: "quiet e (setGet j g e)"
  unfolding setGet_def by (rule quiet_fields)

lemma quiet_lookup:
  assumes "i < length (enProcs e)"
  shows "quiet e (recheckLookup env w pkgForFile i e)"
proof (cases "enDirs e (procKey e i)")
  case None
  show ?thesis
  proof (cases "resolvePackage env w pkgForFile (procKey e i)")
    case (Ok pi)
    have "quiet e (stageEnd i (PcGen pi) (e\<lparr>enDirs := (enDirs e)(procKey e i \<mapsto> pi)\<rparr>))"
      by (rule quiet_trans [OF quiet_fields(1) quiet_stageEnd]) (use assms in simp_all)
    with None Ok show ?thesis by (simp add: recheckLookup_def)
  qed (use None assms in \<open>simp_all add: recheckLookup_def quiet_setPc\<close>)
qed (use assms in \<open>simp add: recheckLookup_def quiet_stageEnd\<close>)

lemma quiet_hash:
  assumes "i < length (enProcs e)" "prPc (enProcs e ! i) = PcHash pi gen"
  shows "quiet e (recheckHash env w i pi gen e)"
proof -
  obtain r fc where R: "filesAndHash env w pi (unDir (procKey e i)) (enFiles e) = (r, fc)" by fastforce
  have "quiet (e\<lparr>enFiles := fc\<rparr>) (recheckHash env w i pi gen e)"
    by (cases r) (use assms R in \<open>auto simp: recheckHash_def split: prod.split intro!: quiet_setPc quiet_stageEnd\<close>)
  with quiet_fields(2) show ?thesis by (rule quiet_trans)
qed

lemma quiet_startJob:
  assumes i: "i < length (enProcs e)"
  shows "quiet e (startJob i e)"
proof (cases "enStopped e")
  case True
  then show ?thesis using i
    by (auto simp: startJob_def quiet_def nth_list_update Let_def split: if_splits intro!: gensOf_cong)
next
  case False
  let ?st = "jobStateLocked (procKey e i) e"
  let ?e1 = "cancelCtx (dsCancel ?st) (stopTimerOnly (dsTimer ?st) e)"
  have J: "enJobs ?e1 = enJobs e" by simp
  have G: "gensOf (startJob i e) = gensOf e"
    using False by (auto simp: startJob_def gensOf_def fun_eq_iff Let_def jobStateLocked_def setJob_def J split: option.splits)
  show ?thesis using False i
    by (auto simp: quiet_def G nth_list_update split: if_splits) (auto simp: startJob_def Let_def nth_list_update split: if_splits)
qed

lemma quiet_finishJob: "quiet e (finishJob i e)"
  by (auto simp: finishJob_def jobStateLocked_def intro!: quiet_setJob quiet_refl split: option.split)

lemma finishJob_procs [simp]: "enProcs (finishJob i e) = enProcs e"
  by (simp add: finishJob_def split: option.split)

lemma quiet_fireReturn:
  assumes i: "i < length (enProcs e)"
  shows "quiet e (fireReturn i r e)"
proof -
  have "quiet e ((setPc i PcEnd (finishJob i e))\<lparr>enPending := enPending e - 1\<rparr>)"
    by (rule quiet_trans [OF quiet_finishJob quiet_trans [OF quiet_setPc quiet_fields(3)]]) (use i in simp_all)
  moreover have "quiet e (e\<lparr>enProcs := (enProcs e)[i := (enProcs e ! i)\<lparr>prRetry := True, prPc := PcLookup\<rparr>]\<rparr>)"
    using i by (auto simp: quiet_def nth_list_update split: if_splits intro!: gensOf_cong)
  ultimately show ?thesis by (simp add: fireReturn_def)
qed

lemma quiet_flight:
  assumes i: "i < length (enProcs e)"
  shows "quiet e (flightDone i f r e)" "quiet e (flightUnregister i f e)"
proof -
  show "quiet e (flightDone i f r e)" unfolding flightDone_def
    by (rule quiet_trans [OF quiet_fields(5) quiet_setPc]) (use i in simp_all)
  have "quiet e (if b then e\<lparr>enFlightOf := g\<rparr> else e)" for b g by (simp add: quiet_fields quiet_refl)
  then show "quiet e (flightUnregister i f e)" unfolding flightUnregister_def
    by (rule quiet_trans [OF _ quiet_trans [OF quiet_setPc quiet_fields(3)]]) (use i in simp_all)
qed

lemma quiet_getUnitLookup: "quiet e (getUnitLookup now j key hash e)"
proof (cases "map_of (enCache e) key")
  case (Some en)
  have "quiet e (e\<lparr>enCache := AList.update key (en\<lparr>caLastUsed := now\<rparr>) (enCache e)\<rparr>)"
    unfolding quiet_def by (intro conjI gensOf_cong) (use Some in \<open>auto simp: map_of_update cacheShrinks_touch split: if_splits\<close>)
  with Some show ?thesis by (auto simp: getUnitLookup_def intro: quiet_setGet quiet_trans [OF _ quiet_setGet])
qed (simp add: getUnitLookup_def quiet_setGet)

lemma quiet_request:
  assumes "requestStep env j e e'"
  shows "quiet e e'"
  using assms
proof cases
  case (note_info key pi)
  then show ?thesis unfolding getUnitRecord_def by (simp add: quiet_trans [OF quiet_fields(1) quiet_setGet])
next
  case (hash key pi w)
  then show ?thesis unfolding getUnitHash_def by (auto intro: quiet_trans [OF quiet_fields(2) quiet_setGet] split: prod.split)
next
  case (join key hash)
  then show ?thesis
    by (auto simp: getOrStartFlight_def intro: quiet_setGet quiet_trans [OF quiet_fields(6) quiet_setGet] split: option.split)
next
  case (spawn f)
  have "quiet e (e\<lparr>enPending := enPending e + 1,
          enProcs := enProcs e @ [\<lparr>prKey = flKey (enFlights e ! f), prFlight = Some f, prCtx = 0, prEpoch = None,
                                   prRetry = False, prPc = PcLookup\<rparr>]\<rparr>)"
    by (rule quiet_addProc [OF _ _ gensOf_cong]) simp_all
  then show ?thesis unfolding spawn spawnFlight_def by (rule quiet_trans [OF _ quiet_setGet])
qed (simp_all only: quiet_getUnitLookup quiet_setGet)

lemma quiet_fire: "quiet e (fireTimer t e)"
  unfolding fireTimer_def by (rule quiet_addProc [OF _ _ gensOf_cong]) simp_all

section \<open>The invariant\<close>

text \<open>The generations recorded for a unit in a log.\<close>

definition gensIn :: "unit_key \<Rightarrow> (unit_key \<times> nat \<times> 'r) list \<Rightarrow> nat list" where
  "gensIn k log = map (\<lambda>(_, g, _). g) (filter (\<lambda>(k', _). k' = k) log)"

lemma gensIn_append [simp]: "gensIn k (log @ [(k', g, r)]) = gensIn k log @ (if k' = k then [g] else [])"
  by (simp add: gensIn_def)

lemma gensIn_iff: "g \<in> set (gensIn k log) \<longleftrightarrow> (\<exists>r. (k, g, r) \<in> set log)"
  by (force simp: gensIn_def)

text \<open>A log of one unit whose last generation is \<open>newest\<close>.\<close>

definition logOk :: "nat \<Rightarrow> nat list \<Rightarrow> bool" where
  "logOk newest gs \<longleftrightarrow> sorted_wrt (<) gs \<and> (\<forall>g \<in> set gs. 0 < g \<and> g \<le> newest) \<and> (newest \<noteq> 0 \<longrightarrow> newest \<in> set gs)"

lemma logOk_append:
  assumes "logOk newest gs" "0 < g" "newest \<le> g" "g \<notin> set gs"
  shows "logOk g (gs @ [g])"
proof -
  have "h < g" if "h \<in> set gs" for h
  proof -
    have "h \<le> newest" using assms(1) that by (simp add: logOk_def)
    moreover have "h \<noteq> g" using that assms(4) by blast
    ultimately show ?thesis using assms(3) by simp
  qed
  with assms show ?thesis by (auto simp: logOk_def sorted_wrt_append)
qed

definition claimOk :: "('a, 'p) engine \<Rightarrow> unit_key \<Rightarrow> nat \<Rightarrow> ('a, 'p) checked option \<Rightarrow> bool" where
  "claimOk e k g c \<longleftrightarrow> 0 < g \<and> g \<le> fst (gensOf e k)
     \<and> (case c of None \<Rightarrow> g \<notin> set (gensIn k (enCommitted e))
        | Some cp \<Rightarrow> (k, g, cp) \<in> set (enCommitted e) \<and> g \<notin> set (gensIn k (enPublished e)))"

definition claimsOk :: "('a, 'p) engine \<Rightarrow> bool" where
  "claimsOk e \<longleftrightarrow>
     (\<forall>i < length (enProcs e). \<forall>g c. claimOf e i = Some (g, c) \<longrightarrow> claimOk e (procKey e i) g c)
     \<and> (\<forall>i < length (enProcs e). \<forall>j < length (enProcs e). \<forall>g c c'. i \<noteq> j \<longrightarrow> procKey e i = procKey e j \<longrightarrow>
          claimOf e i = Some (g, c) \<longrightarrow> claimOf e j \<noteq> Some (g, c'))"

lemma claimsOkI:
  "(\<And>i g c. i < length (enProcs e) \<Longrightarrow> claimOf e i = Some (g, c) \<Longrightarrow> claimOk e (procKey e i) g c) \<Longrightarrow>
   (\<And>i j g c c'. i < length (enProcs e) \<Longrightarrow> j < length (enProcs e) \<Longrightarrow> i \<noteq> j \<Longrightarrow> procKey e i = procKey e j \<Longrightarrow>
      claimOf e i = Some (g, c) \<Longrightarrow> claimOf e j = Some (g, c') \<Longrightarrow> False) \<Longrightarrow> claimsOk e"
  unfolding claimsOk_def by blast

lemma claimsOkD:
  assumes "claimsOk e" "i < length (enProcs e)" "claimOf e i = Some (g, c)"
  shows "claimOk e (procKey e i) g c"
    and "j < length (enProcs e) \<Longrightarrow> i \<noteq> j \<Longrightarrow> procKey e j = procKey e i \<Longrightarrow> claimOf e j \<noteq> Some (g, c')"
proof -
  show "claimOk e (procKey e i) g c" using assms unfolding claimsOk_def by blast
  show "claimOf e j \<noteq> Some (g, c')" if "j < length (enProcs e)" "i \<noteq> j" "procKey e j = procKey e i"
    using assms that unfolding claimsOk_def by metis
qed

definition unitLogsOk :: "('a, 'p) engine \<Rightarrow> unit_key \<Rightarrow> bool" where
  "unitLogsOk e k \<longleftrightarrow>
     logOk (fst (snd (gensOf e k))) (gensIn k (enCommitted e)) \<and> logOk (snd (snd (gensOf e k))) (gensIn k (enPublished e))
     \<and> fst (snd (gensOf e k)) \<le> fst (gensOf e k) \<and> set (gensIn k (enPublished e)) \<subseteq> set (gensIn k (enCommitted e))
     \<and> (\<forall>en. map_of (enCache e) k = Some en \<longrightarrow> (k, fst (snd (gensOf e k)), caPkg en) \<in> set (enCommitted e))"

lemma quietD:
  assumes "quiet e e'"
  shows "gensOf e' = gensOf e" "enCommitted e' = enCommitted e" "enPublished e' = enPublished e"
    and "enOpts e' = enOpts e" "cacheShrinks (enCache e) (enCache e')"
    and "map_of (enCache e') k = Some en' \<Longrightarrow> \<exists>en. map_of (enCache e) k = Some en \<and> caPkg en = caPkg en'"
    and "i < length (enProcs e') \<Longrightarrow> claimOf e' i = Some c \<Longrightarrow>
       i < length (enProcs e) \<and> procKey e' i = procKey e i \<and> claimOf e i = Some c"
  using assms unfolding quiet_def by (blast | simp)+

lemma claims_quiet:
  assumes "claimsOk e" "quiet e e'"
  shows "claimsOk e'"
proof (rule claimsOkI)
  fix i g c assume "i < length (enProcs e')" "claimOf e' i = Some (g, c)"
  with quietD(7) [OF assms(2)] have "i < length (enProcs e)" "procKey e' i = procKey e i" "claimOf e i = Some (g, c)" by blast+
  with claimsOkD(1) [OF assms(1), of i g c] show "claimOk e' (procKey e' i) g c" by (cases c) (simp_all add: claimOk_def quietD(1-3) [OF assms(2)])
next
  fix i j g c c'
  assume "i < length (enProcs e')" "j < length (enProcs e')" "i \<noteq> j" "procKey e' i = procKey e' j"
    "claimOf e' i = Some (g, c)" "claimOf e' j = Some (g, c')"
  moreover note quietD(7) [OF assms(2), of i "(g, c)"] quietD(7) [OF assms(2), of j "(g, c')"]
  ultimately show False using claimsOkD(2) [OF assms(1), of i g c j c'] by simp
qed

lemma logs_quiet:
  assumes "unitLogsOk e k" "quiet e e'"
  shows "unitLogsOk e' k"
  using assms(1) quietD(6) [OF assms(2), of k] unfolding unitLogsOk_def quietD(1-3) [OF assms(2)] by metis

subsection \<open>A new generation\<close>

lemma nextGen_fields:
  fixes e :: "('a, 'p) engine" and pi :: pkg_info
  assumes i: "i < length (enProcs e)"
  defines "e' \<equiv> nextGenStep i pi e" and "g' \<equiv> Suc (fst (gensOf e (procKey e i)))"
  shows "gensOf e' k = (if k = procKey e i then (g', snd (gensOf e k)) else gensOf e k)"
    and "enCommitted e' = enCommitted e" "enPublished e' = enPublished e" "enCache e' = enCache e"
    and "length (enProcs e') = length (enProcs e)"
    and "j < length (enProcs e) \<Longrightarrow> procKey e' j = procKey e j"
    and "j < length (enProcs e) \<Longrightarrow> claimOf e' j = (if j = i then Some (g', None) else claimOf e j)"
proof -
  show "gensOf e' k = (if k = procKey e i then (g', snd (gensOf e k)) else gensOf e k)"
    unfolding e'_def g'_def nextGenStep_def Let_def gensOf_setPc by (simp add: gensOf_def Let_def)
qed (use i in \<open>simp_all add: e'_def g'_def nextGenStep_def gensOf_def Let_def\<close>)

lemma nextGen_ok:
  assumes C: "claimsOk e" and L: "\<And>k. unitLogsOk e k" and i: "i < length (enProcs e)"
  shows "claimsOk (nextGenStep i pi e)" "unitLogsOk (nextGenStep i pi e) k"
proof -
  let ?e = "nextGenStep i pi e" let ?k = "procKey e i" let ?g = "Suc (fst (gensOf e ?k))"
  note F = nextGen_fields [OF i, where pi = pi]
  show "claimsOk ?e"
  proof (rule claimsOkI)
    fix j g c assume j: "j < length (enProcs ?e)" "claimOf ?e j = Some (g, c)"
    show "claimOk ?e (procKey ?e j) g c"
    proof (cases "j = i")
      case True
      with j F i have "g = ?g" "c = None" "procKey ?e j = ?k" by simp_all
      moreover have "?g \<notin> set (gensIn ?k (enCommitted e))"
        using L [of ?k] by (auto simp: unitLogsOk_def logOk_def)
      ultimately show ?thesis by (simp add: claimOk_def F)
    next
      case False
      with j F claimsOkD(1) [OF C, of j g c] have "claimOk e (procKey e j) g c" by simp
      with j F show ?thesis by (cases c) (auto simp: claimOk_def)
    qed
  next
    fix j l g c c'
    assume j: "j < length (enProcs ?e)" "l < length (enProcs ?e)" "j \<noteq> l" "procKey ?e j = procKey ?e l"
      "claimOf ?e j = Some (g, c)" "claimOf ?e l = Some (g, c')"
    have low: "claimOf e m = Some (g, c'') \<Longrightarrow> m < length (enProcs e) \<Longrightarrow> procKey e m = ?k \<Longrightarrow> g < ?g" for m c''
      using claimsOkD(1) [OF C, of m g c''] by (simp add: claimOk_def)
    show False
    proof (cases "j = i \<or> l = i")
      case True
      with j F low [of j c] low [of l c'] show False by (auto split: if_splits)
    next
      case False
      with j F claimsOkD(2) [OF C, of j g c l c'] show False by simp
    qed
  qed
  show "unitLogsOk ?e k" using L [of k] by (auto simp: unitLogsOk_def F)
qed

subsection \<open>A cache write\<close>

lemma quiet_evictLocked: "quiet e (evictLocked e)"
  by (auto simp: evictLocked_def intro: quiet_refl quiet_evicted split: option.split)

lemma evictLocked_frame [simp]:
  "enProcs (evictLocked e) = enProcs e" "enJobs (evictLocked e) = enJobs e" "enCommitted (evictLocked e) = enCommitted e"
  "enPublished (evictLocked e) = enPublished e" "enOpts (evictLocked e) = enOpts e"
  by (simp_all add: evictLocked_def split: option.split)

lemma commitCache_stale:
  "gen < fst (snd (gensOf e key)) \<Longrightarrow> commitCache now key gen cp e = (False, setJob key (jobStateLocked key e) e)"
  by (simp add: commitCache_def gensOf_def Let_def)

lemma commitCache_fields:
  fixes e :: "('a, 'p) engine" and cp :: "('a, 'p) checked" and now :: instant
  assumes ok: "\<not> gen < fst (snd (gensOf e key))"
  defines "e' \<equiv> snd (commitCache now key gen cp e)"
  shows "fst (commitCache now key gen cp e)"
    and "gensOf e' k = (if k = key then (fst (gensOf e k), gen, snd (snd (gensOf e k))) else gensOf e k)"
    and "enCommitted e' = enCommitted e @ [(key, gen, cp)]" "enPublished e' = enPublished e" "enProcs e' = enProcs e"
    and "enOpts e' = enOpts e"
    and "map_of (enCache e') key = Some \<lparr>caPkg = cp, caLastUsed = now\<rparr>"
    and "k \<noteq> key \<Longrightarrow> map_of (enCache e') k = Some en \<Longrightarrow> map_of (enCache e) k = Some en"
proof -
  have d: "\<not> gen < dsDoneGen (jobStateLocked key e)" using ok by (simp add: gensOf_def Let_def)
  have J: "jobStateLocked k (x\<lparr>enCache := c, enCommitted := l\<rparr>) = jobStateLocked k x" for k c l and x :: "('a, 'p) engine"
    by (rule jobState_cong) simp
  have J': "jobStateLocked k (evictLocked x) = jobStateLocked k x" for k and x :: "('a, 'p) engine"
    by (rule jobState_cong) simp
  have V: "map_of (enCache (evictLocked x)) k = Some en \<Longrightarrow> map_of (enCache x) k = Some en" for x :: "('a, 'p) engine" and k en
    by (auto simp: evictLocked_def map_of_delete split: option.splits if_splits)
  show "fst (commitCache now key gen cp e)" using d by (simp add: commitCache_def Let_def)
  show "gensOf e' k = (if k = key then (fst (gensOf e k), gen, snd (snd (gensOf e k))) else gensOf e k)"
    using d by (simp add: e'_def commitCache_def gensOf_def Let_def J J')
  show "k \<noteq> key \<Longrightarrow> map_of (enCache e') k = Some en \<Longrightarrow> map_of (enCache e) k = Some en"
    using d V [of "setJob key (jobStateLocked key e\<lparr>dsDoneGen := gen\<rparr>) e" k en]
    by (simp add: e'_def commitCache_def Let_def map_of_update split: if_splits)
  show "enCommitted e' = enCommitted e @ [(key, gen, cp)]" "enPublished e' = enPublished e" "enProcs e' = enProcs e"
    "map_of (enCache e') key = Some \<lparr>caPkg = cp, caLastUsed = now\<rparr>" "enOpts e' = enOpts e"
    using d by (simp_all add: e'_def commitCache_def Let_def map_of_update)
qed

text \<open>Writing to the log for the holder of a claim.\<close>

lemma logOk_mono_claim:
  assumes "unitLogsOk e k" "claimOk e k g None" "\<not> g < fst (snd (gensOf e k))"
  shows "logOk g (gensIn k (enCommitted e) @ [g])"
  using assms by (intro logOk_append [of "fst (snd (gensOf e k))"]) (simp_all add: unitLogsOk_def claimOk_def)

lemma commit_ok:
  assumes C: "claimsOk e" and L: "\<And>k. unitLogsOk e k" and i: "i < length (enProcs e)" and p: "prPc (enProcs e ! i) = PcCommit gen cp"
  shows "claimsOk (recheckCommit now i gen cp e) \<and> (\<forall>k. unitLogsOk (recheckCommit now i gen cp e) k)"
proof (cases "gen < fst (snd (gensOf e (procKey e i)))")
  case True
  have "quiet e (setPc i (PcReturn (Ok cp)) (setJob (procKey e i) (jobStateLocked (procKey e i) e) e))"
    by (rule quiet_trans [OF quiet_setJob quiet_setPc]) (use i in simp_all)
  then have "quiet e (recheckCommit now i gen cp e)" by (simp add: recheckCommit_def commitCache_stale [OF True])
  with C L show ?thesis by (blast intro: claims_quiet logs_quiet)
next
  case False
  let ?k = "procKey e i" let ?e = "recheckCommit now i gen cp e"
  note F = commitCache_fields [OF False, where now = now and cp = cp]
  let ?c = "if opOnResult (enOpts e) then PcRetired gen cp else PcReturn (Ok cp)"
  have E: "?e = setPc i ?c (snd (commitCache now ?k gen cp e))"
    using F(1) F(6) by (simp add: recheckCommit_def split_beta)
  have own: "claimOk e ?k gen None" using claimsOkD(1) [OF C i] p by simp
  have P: "length (enProcs ?e) = length (enProcs e)" "j < length (enProcs e) \<Longrightarrow> procKey ?e j = procKey e j"
    "j < length (enProcs e) \<Longrightarrow> claimOf ?e j = (if j = i then pcClaim ?c else claimOf e j)" for j
    using i F(5) by (simp_all add: E)
  have G: "gensOf ?e k = (if k = ?k then (fst (gensOf e k), gen, snd (snd (gensOf e k))) else gensOf e k)"
    "enCommitted ?e = enCommitted e @ [(?k, gen, cp)]" "enPublished ?e = enPublished e"
    "enCache ?e = enCache (snd (commitCache now ?k gen cp e))" for k
    by (simp_all add: E F)
  have "claimsOk ?e"
  proof (rule claimsOkI)
    fix j g c assume j: "j < length (enProcs ?e)" "claimOf ?e j = Some (g, c)"
    show "claimOk ?e (procKey ?e j) g c"
    proof (cases "j = i")
      case True
      with j P have "g = gen" "c = Some cp" "procKey ?e j = ?k" by (auto split: if_splits)
      moreover have "gen \<notin> set (gensIn ?k (enPublished e))"
        using own L [of ?k] by (auto simp: unitLogsOk_def claimOk_def)
      ultimately show ?thesis using own by (simp add: claimOk_def G)
    next
      case False
      with j P have j': "j < length (enProcs e)" "claimOf e j = Some (g, c)" by simp_all
      have "g \<noteq> gen \<or> procKey e j \<noteq> ?k" using claimsOkD(2) [OF C j', of i None] i p False by auto
      with claimsOkD(1) [OF C j'] j' P show ?thesis by (auto simp: claimOk_def G split: option.split)
    qed
  next
    fix j l g c c'
    assume j: "j < length (enProcs ?e)" "l < length (enProcs ?e)" "j \<noteq> l" "procKey ?e j = procKey ?e l"
      "claimOf ?e j = Some (g, c)" "claimOf ?e l = Some (g, c')"
    have "\<exists>d. claimOf e m = Some (g, d)" if "m < length (enProcs e)" "claimOf ?e m = Some (g, d')" for m d'
      using that P p by (auto split: if_splits)
    with j P claimsOkD(2) [OF C, of j g _ l] show False by metis
  qed
  moreover have "unitLogsOk ?e k" for k
  proof (cases "k = ?k")
    case True
    with L [of k] own logOk_mono_claim [OF L own False] F(7) show ?thesis
      by (auto simp: unitLogsOk_def claimOk_def G)
  next
    case False
    with L [of k] F(8) [OF False] show ?thesis by (auto simp: unitLogsOk_def G)
  qed
  ultimately show ?thesis by blast
qed

subsection \<open>A publication\<close>

lemma publish_ok:
  assumes C: "claimsOk e" and L: "\<And>k. unitLogsOk e k" and i: "i < length (enProcs e)" and p: "prPc (enProcs e ! i) = PcPublish gen cp"
  shows "claimsOk (recheckPublish env w i gen cp e) \<and> (\<forall>k. unitLogsOk (recheckPublish env w i gen cp e) k)"
proof (cases "gen < snd (snd (gensOf e (procKey e i)))")
  case True
  then have "recheckPublish env w i gen cp e = setPc i (PcReturn (Ok cp)) e"
    by (simp add: recheckPublish_def commitPublish_def gensOf_def Let_def)
  then have "quiet e (recheckPublish env w i gen cp e)" using i by (simp add: quiet_setPc)
  with C L show ?thesis by (blast intro: claims_quiet logs_quiet)
next
  case False
  let ?k = "procKey e i" let ?e = "recheckPublish env w i gen cp e"
  have own: "claimOk e ?k gen (Some cp)" using claimsOkD(1) [OF C i] p by simp
  have d: "\<not> gen < dsPubGen (jobStateLocked ?k e)" using False by (simp add: gensOf_def Let_def)
  have J: "jobStateLocked k (x\<lparr>enPublished := l\<rparr>) = jobStateLocked k x" for k l and x :: "('a, 'b) engine"
    by (rule jobState_cong) simp
  have G: "gensOf ?e k = (if k = ?k then (fst (gensOf e k), fst (snd (gensOf e k)), gen) else gensOf e k)"
    "enCommitted ?e = enCommitted e" "enPublished ?e = enPublished e @ [(?k, gen, newResult cp (Diagnostics env w cp))]"
    "enCache ?e = enCache e" for k
    using d by (simp_all add: recheckPublish_def commitPublish_def Let_def) (simp add: gensOf_def Let_def J)
  have P: "length (enProcs ?e) = length (enProcs e)" "j < length (enProcs e) \<Longrightarrow> procKey ?e j = procKey e j"
    "j < length (enProcs e) \<Longrightarrow> claimOf ?e j = (if j = i then None else claimOf e j)" for j
    using i by (simp_all add: recheckPublish_def commitPublish_def Let_def)
  have "claimsOk ?e"
  proof (rule claimsOkI)
    fix j g c assume "j < length (enProcs ?e)" "claimOf ?e j = Some (g, c)"
    with P have j: "j \<noteq> i" "j < length (enProcs e)" "claimOf e j = Some (g, c)" by (auto split: if_splits)
    have "g \<noteq> gen \<or> procKey e j \<noteq> ?k" using claimsOkD(2) [OF C j(2,3), of i "Some cp"] i p j(1) by auto
    with claimsOkD(1) [OF C j(2,3)] j P show "claimOk ?e (procKey ?e j) g c" by (auto simp: claimOk_def G split: option.split)
  next
    fix j l g c c'
    assume "j < length (enProcs ?e)" "l < length (enProcs ?e)" "j \<noteq> l" "procKey ?e j = procKey ?e l"
      "claimOf ?e j = Some (g, c)" "claimOf ?e l = Some (g, c')"
    with P claimsOkD(2) [OF C, of j g c l c'] show False by (auto split: if_splits)
  qed
  moreover have "unitLogsOk ?e k" for k
  proof (cases "k = ?k")
    case True
    have "logOk gen (gensIn ?k (enPublished e) @ [gen])"
      using L [of ?k] own False by (intro logOk_append [of "snd (snd (gensOf e ?k))"]) (simp_all add: unitLogsOk_def claimOk_def)
    moreover have "gen \<in> set (gensIn ?k (enCommitted e))" using own by (auto simp: claimOk_def gensIn_iff)
    ultimately show ?thesis using True L [of k] by (simp add: unitLogsOk_def G)
  next
    case False
    with L [of k] show ?thesis by (auto simp: unitLogsOk_def G)
  qed
  ultimately show ?thesis by blast
qed

section \<open>Every step\<close>

lemma recheck_cases:
  assumes "recheckStep env i e e'"
  obtains (quiet) "quiet e e'"
  | (gen) pi where "i < length (enProcs e)" "prPc (enProcs e ! i) = PcGen pi" "e' = nextGenStep i pi e"
  | (commit) gen cp now where "i < length (enProcs e)" "prPc (enProcs e ! i) = PcCommit gen cp" "e' = recheckCommit now i gen cp e"
  | (publish) gen cp w where "i < length (enProcs e)" "prPc (enProcs e ! i) = PcPublish gen cp" "e' = recheckPublish env w i gen cp e"
  using assms
proof cases
  case start
  then show thesis using that(1) quiet_startJob by blast
next
  case lookup
  then show thesis using that(1) quiet_lookup by blast
next
  case hash
  then show thesis using that(1) quiet_hash by blast
next
  case (parse pi gen files hash w)
  then have "quiet e e'" by (auto simp: recheckParse_def split: prod.split intro!: quiet_stageEnd)
  then show thesis by (rule that(1))
next
  case (types pi gen hash out texts errs tc now)
  then have "quiet e e'" by (auto simp: recheckTypes_def intro!: quiet_stageEnd)
  then show thesis by (rule that(1))
next
  case (retired gen cp)
  then have "quiet e e'" by (auto simp: recheckRetired_def intro!: quiet_setPc)
  then show thesis by (rule that(1))
next
  case (panic f)
  then have "quiet e e'" by (auto simp: recheckPanic_def intro!: quiet_setPc)
  then show thesis by (rule that(1))
next
  case fire_return
  then show thesis using that(1) quiet_fireReturn by blast
next
  case flight_return
  then show thesis using that(1) quiet_flight(1) by blast
next
  case unregister
  then show thesis using that(1) quiet_flight(2) by blast
qed (rule that; assumption)+

lemma step_cases:
  assumes "engineStep env e e'"
  obtains (quiet) "quiet e e'"
  | (gen) i pi where "i < length (enProcs e)" "prPc (enProcs e ! i) = PcGen pi" "e' = nextGenStep i pi e"
  | (commit) i gen cp now where "i < length (enProcs e)" "prPc (enProcs e ! i) = PcCommit gen cp" "e' = recheckCommit now i gen cp e"
  | (publish) i gen cp w where "i < length (enProcs e)" "prPc (enProcs e ! i) = PcPublish gen cp" "e' = recheckPublish env w i gen cp e"
  using assms
proof cases
  case (recheck i)
  then show thesis by (cases rule: recheck_cases) (rule that; assumption)+
next
  case (request j)
  then show thesis using that(1) quiet_request by blast
qed (simp_all add: that(1) quiet_fire quiet_calls quiet_setGet)

definition orderInv :: "('a, 'p) engine \<Rightarrow> bool" where
  "orderInv e \<longleftrightarrow> claimsOk e \<and> (\<forall>k. unitLogsOk e k)"

lemma orderInv_step:
  assumes "engineStep env e e'" "orderInv e"
  shows "orderInv e'"
  using assms(1)
proof (cases rule: step_cases)
  case quiet
  with assms(2) show ?thesis by (auto simp: orderInv_def intro: claims_quiet logs_quiet)
next
  case (gen i pi)
  with assms(2) nextGen_ok [of e i pi] show ?thesis by (simp add: orderInv_def)
next
  case (commit i gen cp now)
  with assms(2) commit_ok [of e i gen cp now] show ?thesis by (simp add: orderInv_def)
next
  case (publish i gen cp w)
  with assms(2) publish_ok [of e i gen cp env w] show ?thesis by (simp add: orderInv_def)
qed

lemma orderInv_init: "orderInv (NewEngine opts)"
  by (simp add: orderInv_def claimsOk_def unitLogsOk_def NewEngine_def gensOf_def jobStateLocked_def newDirState_def
      gensIn_def logOk_def)

lemma orderInv_run: "engineRun env e e' \<Longrightarrow> orderInv e \<Longrightarrow> orderInv e'"
  by (induction rule: rtranclp_induct) (auto intro: orderInv_step)

subsection \<open>The size of the cache\<close>

text \<open>At most \<open>MaxLRU\<close> units, or three when the focused directory alone exceeds that.\<close>

definition sizeInv :: "options \<Rightarrow> ('a, 'p) engine \<Rightarrow> bool" where 
  "sizeInv opts e \<longleftrightarrow> enOpts e = opts \<and> distinct (map fst (enCache e)) \<and> 1 \<le> opMaxLRU opts
     \<and> int (length (enCache e)) \<le> max (opMaxLRU opts) 3"

lemma one_dir_two_units:
  assumes "distinct (map fst xs)" "\<forall>(k, v) \<in> set xs. unDir k = d"
  shows "length (xs :: (unit_key \<times> 'e) list) \<le> 2"
proof -
  have S: "unDir k = d" if "k \<in> fst ` set xs" for k using that assms(2) by force
  have U: "UNIV = {VariantBase, VariantExternalTest}" by (auto intro: unit_variant.exhaust)
  have "card (UNIV :: unit_variant set) = 2" unfolding U by simp
  moreover have "inj_on unVariant (fst ` set xs)"
  proof (rule inj_onI)
    fix x y assume "x \<in> fst ` set xs" "y \<in> fst ` set xs" "unVariant x = unVariant y"
    moreover from this have "unDir x = unDir y" using S [of x] S [of y] by metis
    ultimately show "x = y" by (cases x; cases y) (simp only: unit_key.simps)
  qed
  then have "card (fst ` set xs) \<le> card (UNIV :: unit_variant set)"
    by (metis card_inj_on_le subset_UNIV finite_insert finite.emptyI U)
  moreover have "card (fst ` set xs) = length xs"
    using distinct_card [OF assms(1)] by simp
  ultimately show ?thesis by simp
qed

lemma evictLocked_size:
  assumes "distinct (map fst (enCache e))"
  shows "cacheShrinks (enCache e) (enCache (evictLocked e))
    \<and> (length (enCache (evictLocked e)) < length (enCache e) \<or> length (enCache (evictLocked e)) \<le> 2)"
proof (cases "oldestEntry caLastUsed (\<lambda>key. unDir key = enFocus e) (enCache e) None")
  case None
  then have "\<forall>(k, v) \<in> set (enCache e). unDir k = enFocus e" by (simp add: oldestEntry_None)
  from one_dir_two_units [OF assms this] None show ?thesis by (simp add: evictLocked_def)
next
  case (Some a)
  obtain k t where a: "a = (k, t)" by (cases a)
  with Some have "k \<in> fst ` set (enCache e)" by (force dest: oldestEntry_in)
  with Some a show ?thesis by (simp add: evictLocked_def length_delete cacheShrinks_delete)
qed

lemma sizeInv_commit:
  assumes S: "sizeInv opts e"
  shows "sizeInv opts (recheckCommit now i gen cp e)"
proof -
  let ?k = "procKey e i" let ?e1 = "setJob ?k (jobStateLocked ?k e\<lparr>dsDoneGen := gen\<rparr>) e"
  let ?full = "map_of (enCache e) ?k = None \<and> opMaxLRU (enOpts e) \<le> int (length (enCache e))"
  let ?c = "enCache (if ?full then evictLocked ?e1 else ?e1)"
  have E: "cacheShrinks (enCache e) ?c \<and> (?full \<longrightarrow> length ?c < length (enCache e) \<or> length ?c \<le> 2)"
    using S evictLocked_size [of ?e1] by (auto simp: sizeInv_def)
  have M: "map_of ?c ?k \<noteq> None" if "map_of (enCache e) ?k \<noteq> None" using that by auto
  have "distinct (map fst (AList.update ?k v ?c)) \<and> int (length (AList.update ?k v ?c)) \<le> max (opMaxLRU (enOpts e)) 3" for v
    using S E M by (auto simp: sizeInv_def distinct_update length_update cacheShrinks_def)
  then show ?thesis using S
    by (auto simp: recheckCommit_def commitCache_def Let_def sizeInv_def)
qed

lemma sizeInv_step:
  assumes "engineStep env e e'" "sizeInv opts e"
  shows "sizeInv opts e'"
  using assms(1)
proof (cases rule: step_cases)
  case quiet
  then have "enOpts e' = enOpts e" "cacheShrinks (enCache e) (enCache e')" by (simp_all add: quietD)
  with assms(2) show ?thesis by (auto simp: sizeInv_def cacheShrinks_def)
next
  case (gen i pi)
  with assms(2) show ?thesis by (simp add: sizeInv_def nextGenStep_def Let_def)
next
  case (commit i gen cp now)
  with assms(2) show ?thesis by (simp add: sizeInv_commit)
next
  case (publish i gen cp w)
  with assms(2) show ?thesis by (simp add: sizeInv_def recheckPublish_def commitPublish_def Let_def)
qed

lemma sizeInv_run: "engineRun env e e' \<Longrightarrow> sizeInv opts e \<Longrightarrow> sizeInv opts e'"
  by (induction rule: rtranclp_induct) (auto intro: sizeInv_step)

lemma sizeInv_init: "sizeInv (enOpts (NewEngine opts :: ('a, 'p) engine)) (NewEngine opts :: ('a, 'p) engine)"
  by (simp add: sizeInv_def NewEngine_def defaultMaxLRU_def max_def)

lemma evictLocked_victim:
  assumes D: "distinct (map fst (enCache e))" and K: "map_of (enCache e) k = Some en" "map_of (enCache (evictLocked e)) k = None"
  shows "unDir k \<noteq> enFocus e"
    and "map_of (enCache e) k' = Some en' \<Longrightarrow> unDir k' \<noteq> enFocus e \<Longrightarrow> caLastUsed en \<le> caLastUsed en'"
proof -
  obtain t where O: "oldestEntry caLastUsed (\<lambda>key. unDir key = enFocus e) (enCache e) None = Some (k, t)"
    using K by (auto simp: evictLocked_def map_of_delete split: option.splits if_splits)
  from oldestEntry_in [OF O] D K(1) show "unDir k \<noteq> enFocus e" by auto
  obtain en0 where "(k, en0) \<in> set (enCache e)" "caLastUsed en0 = t" using oldestEntry_in [OF O] by blast
  with map_of_is_SomeI [OF D this(1)] K(1) have "t = caLastUsed en" by simp
  then show "caLastUsed en \<le> caLastUsed en'" if "map_of (enCache e) k' = Some en'" "unDir k' \<noteq> enFocus e"
    using oldestEntry_least [OF O] map_of_SomeD [OF that(1)] that(2) by auto
qed

end
