(* ===== verification/Check_Live.thy ===== *)
theory Check_Live
  imports Check_Order
begin

text \<open>
  The engine's bookkeeping of running work: the counter behind \<open>Wait\<close>, the flights that requests
  wait for, and that the engine comes to rest when nothing calls it.
\<close>

section \<open>The counter of \<open>Wait\<close>\<close>

definition armedTimers :: "('a, 'p) engine \<Rightarrow> nat" where
  "armedTimers e = length (filter (\<lambda>t. tmState t = Armed) (enTimers e))"

definition liveProcs :: "('a, 'p) engine \<Rightarrow> nat" where
  "liveProcs e = length (filter (\<lambda>p. prPc p \<noteq> PcEnd) (enProcs e))"

definition surplus :: "('a, 'p) engine \<Rightarrow> int" where
  "surplus e = enPending e - int (armedTimers e) - int (liveProcs e) - int (enDropped e)"

lemma surplus_cong:
  "enPending e' = enPending e \<Longrightarrow> enTimers e' = enTimers e \<Longrightarrow> enProcs e' = enProcs e \<Longrightarrow> enDropped e' = enDropped e
     \<Longrightarrow> surplus e' = surplus e"
  by (simp add: surplus_def armedTimers_def liveProcs_def)

lemma armed_stop:
  assumes "isArmed e t" "s \<noteq> Armed"
  shows "Suc (length (filter (\<lambda>t. tmState t = Armed) ((enTimers e)[t := (enTimers e ! t)\<lparr>tmState := s\<rparr>])))
    = length (filter (\<lambda>t. tmState t = Armed) (enTimers e))"
  using filter_update_length [of t "enTimers e" "\<lambda>t. tmState t = Armed" "(enTimers e ! t)\<lparr>tmState := s\<rparr>"] assms
  by (simp add: isArmed_def)

lemma stopTimer_surplus: "isArmed e t \<Longrightarrow> surplus (stopTimer t e) = surplus e + 1"
  using armed_stop [of e t Stopped] by (simp add: stopTimer_def surplus_def armedTimers_def liveProcs_def)

lemma surplus_counters:
  "surplus (e\<lparr>enPending := p\<rparr>) = surplus e - enPending e + p"
  "surplus (e\<lparr>enDropped := d\<rparr>) = surplus e + int (enDropped e) - int d"
  by (simp_all add: surplus_def armedTimers_def liveProcs_def)

lemma surplus_timers [simp]:
  "surplus (stopTimerDone t e) = surplus e" "surplus (stopTimerOnly t e) = surplus e"
proof -
  have "enPending (stopTimer t e) = enPending e" "enDropped (stopTimer t e) = enDropped e" for t by (simp_all add: stopTimer_def)
  then show "surplus (stopTimerDone t e) = surplus e" "surplus (stopTimerOnly t e) = surplus e"
    by (simp_all add: stopTimerDone_def stopTimerOnly_def surplus_counters stopTimer_surplus split: option.split)
qed

lemma surplus_frame [simp]:
  "surplus (cancelCtx c e) = surplus e" "surplus (setJob key st e) = surplus e" "surplus (setGet j g e) = surplus e"
  "surplus (addGet g e) = surplus e"
  by (rule surplus_cong; simp add: cancelCtx_def setJob_def setGet_def addGet_def split: option.split)+

lemma live_setPc:
  assumes "i < length (enProcs e)" "prPc (enProcs e ! i) \<noteq> PcEnd"
  shows "liveProcs (setPc i c e) + of_bool (c = PcEnd) = liveProcs e"
  using filter_update_length [OF assms(1), of "\<lambda>p. prPc p \<noteq> PcEnd" "(enProcs e ! i)\<lparr>prPc := c\<rparr>"] assms(2)
  by (auto simp: liveProcs_def setPc_def)

lemma surplus_setPc:
  assumes "i < length (enProcs e)" "prPc (enProcs e ! i) \<noteq> PcEnd"
  shows "surplus (setPc i c e) = surplus e + of_bool (c = PcEnd)"
  using live_setPc [OF assms, of c] by (auto simp: surplus_def armedTimers_def setPc_def)

lemma surplus_arm: "surplus (armDebounceLocked key e) = surplus e"
proof -
  have "surplus (x\<lparr>enPending := enPending x + 1, enTimers := enTimers x @ [\<lparr>tmKey = key, tmState = Armed\<rparr>]\<rparr>) = surplus x"
    for x :: "('a, 'b) engine" by (simp add: surplus_def armedTimers_def liveProcs_def)
  then show ?thesis by (simp add: armDebounceLocked_def Let_def)
qed

lemma surplus_fold: "(\<And>x e. surplus (f x e) = surplus e) \<Longrightarrow> surplus (fold f xs e) = surplus e"
  by (induction xs arbitrary: e) simp_all

lemma surplus_calls:
  "surplus (SetFocus pkg e) = surplus e" "surplus (Invalidate dir e) = surplus e" "surplus (InvalidateDependency dirs e) = surplus e"
  "surplus (setRetired e) = surplus e" "surplus (retireLocked ks e) = surplus e" "surplus (stopLocked ks e) = surplus e"
  "surplus (engineGet canceled pkgForFile filePath e) = surplus e" "surplus (GetPackage canceled pkgDir pkgPath e) = surplus e"
proof -
  have C: "surplus (e\<lparr>enCache := c\<rparr>) = surplus e" "surplus (e\<lparr>enStopped := b\<rparr>) = surplus e" for e :: "('a, 'b) engine" and c b
    by (rule surplus_cong; simp)+
  have U: "surplus (invalidateUnit key e) = surplus e" for key and e :: "('a, 'b) engine"
    by (simp add: invalidateUnit_def surplus_arm C)
  show "surplus (Invalidate dir e) = surplus e" unfolding Invalidate_def Let_def by (rule surplus_fold, rule surplus_arm)
  show "surplus (InvalidateDependency dirs e) = surplus e" unfolding InvalidateDependency_def by (rule surplus_fold) (simp add: U)
  show "surplus (retireLocked ks e) = surplus e" unfolding retireLocked_def
    by (rule surplus_fold) (simp add: retireJob_def split: option.split)
  show "surplus (stopLocked ks e) = surplus e" unfolding stopLocked_def
    by (subst surplus_fold) (simp_all add: stopJob_def C split: option.split)
  show "surplus (SetFocus pkg e) = surplus e" "surplus (setRetired e) = surplus e"
    by (rule surplus_cong; simp add: SetFocus_def setRetired_def split: option.split)+
qed (simp_all add: engineGet_def GetPackage_def)

lemma surplus_fire: "isArmed e t \<Longrightarrow> surplus (fireTimer t e) = surplus e"
  using armed_stop [of e t Fired] by (simp add: fireTimer_def surplus_def armedTimers_def liveProcs_def)

lemma surplus_recheck:
  assumes "recheckStep env i e e'"
  shows "surplus e' = surplus e"
  using assms
proof cases
  case start
  have L: "surplus ((x\<lparr>enCtxs := cs, enProcs := (enProcs e)[i := p]\<rparr>) :: ('a, 'b) engine) = surplus x"
    if "enProcs x = enProcs e" "prPc p \<noteq> PcEnd" for x cs p
    using filter_update_length [OF start(2), of "\<lambda>p. prPc p \<noteq> PcEnd" p] start(3) that
    by (simp add: surplus_def armedTimers_def liveProcs_def)
  show ?thesis unfolding start(1) startJob_def by (simp add: Let_def L)
next
  case (lookup w pkgForFile)
  have D: "surplus (e\<lparr>enDirs := d\<rparr>) = surplus e" for d by (rule surplus_cong) simp_all
  show ?thesis using lookup
    by (simp add: recheckLookup_def stageEnd_def surplus_setPc D split: option.split go.split)
next
  case (gen pi)
  then show ?thesis by (simp add: nextGenStep_def Let_def surplus_setPc)
next
  case (hash pi gen w)
  have D: "surplus (e\<lparr>enFiles := d\<rparr>) = surplus e" for d by (rule surplus_cong) simp_all
  obtain r fc where "filesAndHash env w pi (unDir (procKey e i)) (enFiles e) = (r, fc)" by fastforce
  with hash show ?thesis by (cases r) (simp_all add: recheckHash_def stageEnd_def surplus_setPc D split_beta Let_def)
next
  case (parse pi gen files hash w)
  then show ?thesis by (simp add: recheckParse_def stageEnd_def surplus_setPc split: prod.split)
next
  case (types pi gen hash out texts errs tc now)
  then show ?thesis by (simp add: recheckTypes_def stageEnd_def surplus_setPc)
next
  case (commit gen cp now)
  let ?x = "snd (commitCache now (procKey e i) gen cp e)"
  have V: "enPending (evictLocked y) = enPending y" "enTimers (evictLocked y) = enTimers y" "enDropped (evictLocked y) = enDropped y"
    for y :: "('a, 'b) engine" by (simp_all add: evictLocked_def split: option.split)
  have "surplus ?x = surplus e" "enProcs ?x = enProcs e"
    by (rule surplus_cong; simp add: commitCache_def Let_def V; simp add: setJob_def) (simp add: commitCache_def Let_def)
  with commit show ?thesis by (simp add: recheckCommit_def split_beta surplus_setPc)
next
  case (retired gen cp)
  then show ?thesis by (simp add: recheckRetired_def surplus_setPc)
next
  case (publish gen cp w)
  have "surplus (commitPublish env w (procKey e i) gen cp e) = surplus e"
    by (rule surplus_cong) (simp_all add: commitPublish_def Let_def setJob_def)
  with publish show ?thesis by (simp add: recheckPublish_def surplus_setPc) (simp add: commitPublish_def Let_def surplus_setPc)
next
  case (panic f)
  then have "prPc (enProcs e ! i) \<noteq> PcEnd" by (auto simp: running_def)
  with panic show ?thesis by (simp add: recheckPanic_def surplus_setPc)
next
  case (fire_return r)
  have F: "surplus (finishJob i e) = surplus e" "enProcs (finishJob i e) = enProcs e" "enPending (finishJob i e) = enPending e"
    by (simp_all add: finishJob_def split: option.split) (simp add: setJob_def)
  have "surplus (setPc i PcEnd (finishJob i e)) = surplus e + 1" using fire_return F by (simp add: surplus_setPc)
  moreover have "enPending (setPc i PcEnd (finishJob i e)) = enPending e" using F(3) by (simp add: setPc_def)
  ultimately have "surplus ((setPc i PcEnd (finishJob i e))\<lparr>enPending := enPending e - 1\<rparr>) = surplus e"
    by (simp add: surplus_def armedTimers_def liveProcs_def)
  moreover have "surplus (e\<lparr>enProcs := (enProcs e)[i := (enProcs e ! i)\<lparr>prRetry := True, prPc := PcLookup\<rparr>]\<rparr>) = surplus e"
    using filter_update_length [OF fire_return(2), of "\<lambda>p. prPc p \<noteq> PcEnd" "(enProcs e ! i)\<lparr>prRetry := True, prPc := PcLookup\<rparr>"] fire_return(3)
    by (simp add: surplus_def armedTimers_def liveProcs_def)
  ultimately show ?thesis by (simp add: fire_return(1) fireReturn_def)
next
  case (flight_return r f)
  have D: "surplus (e\<lparr>enFlights := d\<rparr>) = surplus e" for d by (rule surplus_cong) simp_all
  show ?thesis using flight_return by (simp add: flightDone_def surplus_setPc D)
next
  case (unregister f)
  let ?x = "if enFlightOf e (procKey e i) = Some f then e\<lparr>enFlightOf := (enFlightOf e)(procKey e i := None)\<rparr> else e"
  have X: "surplus ?x = surplus e" "enProcs ?x = enProcs e" "enPending ?x = enPending e"
    by (auto intro: surplus_cong)
  have "surplus (setPc i PcEnd ?x) = surplus e + 1" using unregister X by (simp add: surplus_setPc del: if_image_distrib)
  moreover have "enPending (setPc i PcEnd ?x) = enPending e" using X(3) by (simp add: setPc_def)
  ultimately have "surplus ((setPc i PcEnd ?x)\<lparr>enPending := enPending e - 1\<rparr>) = surplus e"
    by (simp only: surplus_def armedTimers_def liveProcs_def) simp
  then show ?thesis by (simp only: unregister(1) flightUnregister_def)
qed

lemma surplus_request:
  assumes "requestStep env j e e'"
  shows "surplus e' = surplus e"
  using assms
proof cases
  case (note_info key pi)
  have "surplus (e\<lparr>enDirs := d\<rparr>) = surplus e" for d by (rule surplus_cong) simp_all
  with note_info show ?thesis by (simp add: getUnitRecord_def)
next
  case (hash key pi w)
  have "surplus (e\<lparr>enFiles := d\<rparr>) = surplus e" for d by (rule surplus_cong) simp_all
  with hash show ?thesis by (simp add: getUnitHash_def split_beta Let_def)
next
  case (lookup key hash now)
  have "surplus (e\<lparr>enCache := d\<rparr>) = surplus e" for d by (rule surplus_cong) simp_all
  with lookup show ?thesis by (simp add: getUnitLookup_def split: option.split)
next
  case (join key hash)
  have "surplus (e\<lparr>enFlights := d, enFlightOf := f\<rparr>) = surplus e" for d f by (rule surplus_cong) simp_all
  with join show ?thesis by (simp add: getOrStartFlight_def split: option.split)
next
  case (spawn f)
  then show ?thesis by (simp add: spawnFlight_def) (simp add: surplus_def armedTimers_def liveProcs_def)
qed simp_all

lemma surplus_step:
  assumes "engineStep env e e'"
  shows "surplus e' = surplus e"
  using assms
  by cases (simp_all add: surplus_recheck surplus_request surplus_fire surplus_calls)

lemma surplus_run: "engineRun env e e' \<Longrightarrow> surplus e' = surplus e"
  by (induction rule: rtranclp_induct) (auto simp: surplus_step)

lemma surplus_init: "surplus (NewEngine opts) = 0"
  by (simp add: surplus_def NewEngine_def armedTimers_def liveProcs_def)

section \<open>Flights\<close>

definition finished :: "('a, 'p) pc \<Rightarrow> bool" where
  "finished c \<longleftrightarrow> c = PcUnregister \<or> c = PcEnd"

text \<open>The flight a goroutine runs, and whether it has broadcast the result.\<close>

definition runs :: "('a, 'p) proc \<Rightarrow> (nat \<times> bool) option" where
  "runs p = map_option (\<lambda>f. (f, finished (prPc p))) (prFlight p)"

definition pcOk :: "('a, 'p) proc \<Rightarrow> bool" where
  "pcOk p \<longleftrightarrow> (prFlight p = None \<longrightarrow> prPc p \<noteq> PcUnregister) \<and> (prFlight p \<noteq> None \<longrightarrow> prPc p \<noteq> PcFire)"

definition waiting :: "('a, 'p) get_pc \<Rightarrow> bool" where
  "waiting g \<longleftrightarrow> (case g of GtSpawn _ \<Rightarrow> True | GtWait _ _ _ \<Rightarrow> True | _ \<Rightarrow> False)"

definition spawns :: "('a, 'p) get_pc \<Rightarrow> nat option" where
  "spawns g = (case g of GtSpawn f \<Rightarrow> Some f | _ \<Rightarrow> None)"

text \<open>
  Every flight has one owner: the goroutine that runs it, or the request about to start that
  goroutine. It is done exactly when the goroutine has broadcast its result, and a request waits for
  a flight of its own unit and content hash.
\<close>

definition flRegistered :: "('a, 'p) engine \<Rightarrow> bool" where
  "flRegistered e \<longleftrightarrow> (\<forall>k f. enFlightOf e k = Some f \<longrightarrow> f < length (enFlights e) \<and> flKey (enFlights e ! f) = k)"

definition flResults :: "('a, 'p) engine \<Rightarrow> bool" where
  "flResults e \<longleftrightarrow> (\<forall>f < length (enFlights e). flDone (enFlights e ! f) \<longrightarrow> flResult (enFlights e ! f) \<noteq> None)"

definition flOwned :: "('a, 'p) engine \<Rightarrow> bool" where
  "flOwned e \<longleftrightarrow> (\<forall>f < length (enFlights e). (\<exists>i < length (enProcs e). runs (enProcs e ! i) = Some (f, flDone (enFlights e ! f)))
             \<or> (\<exists>j < length (enGets e). spawns (enGets e ! j) = Some f))"

definition procsOk :: "('a, 'p) engine \<Rightarrow> bool" where
  "procsOk e \<longleftrightarrow> (\<forall>i < length (enProcs e). pcOk (enProcs e ! i))"

definition runsOk :: "('a, 'p) engine \<Rightarrow> bool" where
  "runsOk e \<longleftrightarrow> (\<forall>i < length (enProcs e). \<forall>f b. runs (enProcs e ! i) = Some (f, b) \<longrightarrow> f < length (enFlights e) \<and> b = flDone (enFlights e ! f))"

definition runsNotSpawned :: "('a, 'p) engine \<Rightarrow> bool" where
  "runsNotSpawned e \<longleftrightarrow> (\<forall>i < length (enProcs e). \<forall>f b. runs (enProcs e ! i) = Some (f, b) \<longrightarrow> (\<forall>j < length (enGets e). spawns (enGets e ! j) \<noteq> Some f))"

definition runsDistinct :: "('a, 'p) engine \<Rightarrow> bool" where
  "runsDistinct e \<longleftrightarrow> (\<forall>i < length (enProcs e). \<forall>f b. runs (enProcs e ! i) = Some (f, b) \<longrightarrow>
             (\<forall>i' < length (enProcs e). i' \<noteq> i \<longrightarrow> (\<forall>b'. runs (enProcs e ! i') \<noteq> Some (f, b'))))"

definition spawnsOk :: "('a, 'p) engine \<Rightarrow> bool" where
  "spawnsOk e \<longleftrightarrow> (\<forall>j < length (enGets e). \<forall>f. spawns (enGets e ! j) = Some f \<longrightarrow> f < length (enFlights e) \<and> \<not> flDone (enFlights e ! f))"

definition spawnsDistinct :: "('a, 'p) engine \<Rightarrow> bool" where
  "spawnsDistinct e \<longleftrightarrow> (\<forall>j < length (enGets e). \<forall>f. spawns (enGets e ! j) = Some f \<longrightarrow>
             (\<forall>j' < length (enGets e). j' \<noteq> j \<longrightarrow> spawns (enGets e ! j') \<noteq> Some f))"

definition waitsOk :: "('a, 'p) engine \<Rightarrow> bool" where
  "waitsOk e \<longleftrightarrow> (\<forall>j < length (enGets e). \<forall>k h f. enGets e ! j = GtWait k h f \<longrightarrow>
             f < length (enFlights e) \<and> flKey (enFlights e ! f) = k \<and> flHash (enFlights e ! f) = h)"

definition flightInv :: "('a, 'p) engine \<Rightarrow> bool" where
  "flightInv e \<longleftrightarrow> flRegistered e \<and> flResults e \<and> flOwned e \<and> procsOk e \<and> runsOk e \<and> runsNotSpawned e \<and> runsDistinct e \<and> spawnsOk e \<and> spawnsDistinct e \<and> waitsOk e"

lemma flightInvI:
  assumes "\<And>k f. enFlightOf e k = Some f \<Longrightarrow> f < length (enFlights e) \<and> flKey (enFlights e ! f) = k"
    and "\<And>f. f < length (enFlights e) \<Longrightarrow> flDone (enFlights e ! f) \<Longrightarrow> flResult (enFlights e ! f) \<noteq> None"
    and "\<And>f. f < length (enFlights e) \<Longrightarrow> (\<exists>i < length (enProcs e). runs (enProcs e ! i) = Some (f, flDone (enFlights e ! f)))
             \<or> (\<exists>j < length (enGets e). spawns (enGets e ! j) = Some f)"
    and "\<And>i. i < length (enProcs e) \<Longrightarrow> pcOk (enProcs e ! i)"
    and "\<And>i f b. i < length (enProcs e) \<Longrightarrow> runs (enProcs e ! i) = Some (f, b) \<Longrightarrow> f < length (enFlights e) \<and> b = flDone (enFlights e ! f)"
    and "\<And>i f b j. i < length (enProcs e) \<Longrightarrow> runs (enProcs e ! i) = Some (f, b) \<Longrightarrow> j < length (enGets e) \<Longrightarrow> spawns (enGets e ! j) \<noteq> Some f"
    and "\<And>i f b i' b'. i < length (enProcs e) \<Longrightarrow> runs (enProcs e ! i) = Some (f, b) \<Longrightarrow> i' < length (enProcs e) \<Longrightarrow> i' \<noteq> i \<Longrightarrow>
           runs (enProcs e ! i') \<noteq> Some (f, b')"
    and "\<And>j f. j < length (enGets e) \<Longrightarrow> spawns (enGets e ! j) = Some f \<Longrightarrow> f < length (enFlights e) \<and> \<not> flDone (enFlights e ! f)"
    and "\<And>j f j'. j < length (enGets e) \<Longrightarrow> spawns (enGets e ! j) = Some f \<Longrightarrow> j' < length (enGets e) \<Longrightarrow> j' \<noteq> j \<Longrightarrow> spawns (enGets e ! j') \<noteq> Some f"
    and "\<And>j k h f. j < length (enGets e) \<Longrightarrow> enGets e ! j = GtWait k h f \<Longrightarrow>
           f < length (enFlights e) \<and> flKey (enFlights e ! f) = k \<and> flHash (enFlights e ! f) = h"
  shows "flightInv e"
  unfolding flightInv_def
proof (intro conjI)
  show "flRegistered e" unfolding flRegistered_def using assms(1) by blast
  show "flResults e" unfolding flResults_def using assms(2) by blast
  show "flOwned e" unfolding flOwned_def using assms(3) by blast
  show "procsOk e" unfolding procsOk_def using assms(4) by blast
  show "runsOk e" unfolding runsOk_def using assms(5) by blast
  show "runsNotSpawned e" unfolding runsNotSpawned_def using assms(6) by blast
  show "runsDistinct e" unfolding runsDistinct_def using assms(7) by blast
  show "spawnsOk e" unfolding spawnsOk_def using assms(8) by blast
  show "spawnsDistinct e" unfolding spawnsDistinct_def using assms(9) by blast
  show "waitsOk e" unfolding waitsOk_def using assms(10) by blast
qed

lemma flightInvD:
  assumes "flightInv e"
  shows "enFlightOf e k = Some f \<Longrightarrow> f < length (enFlights e) \<and> flKey (enFlights e ! f) = k"
    and "f < length (enFlights e) \<Longrightarrow> flDone (enFlights e ! f) \<Longrightarrow> flResult (enFlights e ! f) \<noteq> None"
    and "f < length (enFlights e) \<Longrightarrow> (\<exists>i < length (enProcs e). runs (enProcs e ! i) = Some (f, flDone (enFlights e ! f)))
             \<or> (\<exists>j < length (enGets e). spawns (enGets e ! j) = Some f)"
    and "i < length (enProcs e) \<Longrightarrow> pcOk (enProcs e ! i)"
    and "i < length (enProcs e) \<Longrightarrow> runs (enProcs e ! i) = Some (f, b) \<Longrightarrow> f < length (enFlights e) \<and> b = flDone (enFlights e ! f)"
    and "i < length (enProcs e) \<Longrightarrow> runs (enProcs e ! i) = Some (f, b) \<Longrightarrow> j < length (enGets e) \<Longrightarrow> spawns (enGets e ! j) \<noteq> Some f"
    and "i < length (enProcs e) \<Longrightarrow> runs (enProcs e ! i) = Some (f, b) \<Longrightarrow> i' < length (enProcs e) \<Longrightarrow> i' \<noteq> i \<Longrightarrow>
           runs (enProcs e ! i') \<noteq> Some (f, b')"
    and "j < length (enGets e) \<Longrightarrow> spawns (enGets e ! j) = Some f \<Longrightarrow> f < length (enFlights e) \<and> \<not> flDone (enFlights e ! f)"
    and "j < length (enGets e) \<Longrightarrow> spawns (enGets e ! j) = Some f \<Longrightarrow> j' < length (enGets e) \<Longrightarrow> j' \<noteq> j \<Longrightarrow> spawns (enGets e ! j') \<noteq> Some f"
    and "j < length (enGets e) \<Longrightarrow> enGets e ! j = GtWait k h f \<Longrightarrow>
           f < length (enFlights e) \<and> flKey (enFlights e ! f) = k \<and> flHash (enFlights e ! f) = h"
proof -
  have p1: "flRegistered e" using assms by (simp add: flightInv_def)
  have p2: "flResults e" using assms by (simp add: flightInv_def)
  have p3: "flOwned e" using assms by (simp add: flightInv_def)
  have p4: "procsOk e" using assms by (simp add: flightInv_def)
  have p5: "runsOk e" using assms by (simp add: flightInv_def)
  have p6: "runsNotSpawned e" using assms by (simp add: flightInv_def)
  have p7: "runsDistinct e" using assms by (simp add: flightInv_def)
  have p8: "spawnsOk e" using assms by (simp add: flightInv_def)
  have p9: "spawnsDistinct e" using assms by (simp add: flightInv_def)
  have p10: "waitsOk e" using assms by (simp add: flightInv_def)
  show "enFlightOf e k = Some f \<Longrightarrow> f < length (enFlights e) \<and> flKey (enFlights e ! f) = k"
    using p1 unfolding flRegistered_def by blast
  show "f < length (enFlights e) \<Longrightarrow> flDone (enFlights e ! f) \<Longrightarrow> flResult (enFlights e ! f) \<noteq> None"
    using p2 unfolding flResults_def by blast
  show "f < length (enFlights e) \<Longrightarrow> (\<exists>i < length (enProcs e). runs (enProcs e ! i) = Some (f, flDone (enFlights e ! f)))
             \<or> (\<exists>j < length (enGets e). spawns (enGets e ! j) = Some f)"
    using p3 unfolding flOwned_def by blast
  show "i < length (enProcs e) \<Longrightarrow> pcOk (enProcs e ! i)"
    using p4 unfolding procsOk_def by blast
  show "i < length (enProcs e) \<Longrightarrow> runs (enProcs e ! i) = Some (f, b) \<Longrightarrow> f < length (enFlights e) \<and> b = flDone (enFlights e ! f)"
    using p5 unfolding runsOk_def by blast
  show "i < length (enProcs e) \<Longrightarrow> runs (enProcs e ! i) = Some (f, b) \<Longrightarrow> j < length (enGets e) \<Longrightarrow> spawns (enGets e ! j) \<noteq> Some f"
    using p6 unfolding runsNotSpawned_def by blast
  show "i < length (enProcs e) \<Longrightarrow> runs (enProcs e ! i) = Some (f, b) \<Longrightarrow> i' < length (enProcs e) \<Longrightarrow> i' \<noteq> i \<Longrightarrow>
           runs (enProcs e ! i') \<noteq> Some (f, b')"
    using p7 unfolding runsDistinct_def by blast
  show "j < length (enGets e) \<Longrightarrow> spawns (enGets e ! j) = Some f \<Longrightarrow> f < length (enFlights e) \<and> \<not> flDone (enFlights e ! f)"
    using p8 unfolding spawnsOk_def by blast
  show "j < length (enGets e) \<Longrightarrow> spawns (enGets e ! j) = Some f \<Longrightarrow> j' < length (enGets e) \<Longrightarrow> j' \<noteq> j \<Longrightarrow> spawns (enGets e ! j') \<noteq> Some f"
    using p9 unfolding spawnsDistinct_def by blast
  show "j < length (enGets e) \<Longrightarrow> enGets e ! j = GtWait k h f \<Longrightarrow>
           f < length (enFlights e) \<and> flKey (enFlights e ! f) = k \<and> flHash (enFlights e ! f) = h"
    using p10 unfolding waitsOk_def by blast
qed

text \<open>Steps that concern no flight: the goroutines' and the requests' views of them stay.\<close>

definition flightQuiet :: "('a, 'p) engine \<Rightarrow> ('a, 'p) engine \<Rightarrow> bool" where
  "flightQuiet e e' \<longleftrightarrow>
     enFlights e' = enFlights e
     \<and> (\<forall>k f. enFlightOf e' k = Some f \<longrightarrow> enFlightOf e k = Some f)
     \<and> length (enProcs e) \<le> length (enProcs e')
     \<and> (\<forall>i < length (enProcs e'). ((i < length (enProcs e) \<longrightarrow> pcOk (enProcs e ! i)) \<longrightarrow> pcOk (enProcs e' ! i)) \<and>
          runs (enProcs e' ! i) = (if i < length (enProcs e) then runs (enProcs e ! i) else None))
     \<and> length (enGets e) \<le> length (enGets e')
     \<and> (\<forall>j < length (enGets e'). if j < length (enGets e) \<and> (waiting (enGets e ! j) \<or> waiting (enGets e' ! j))
          then spawns (enGets e' ! j) = spawns (enGets e ! j) \<and> (\<forall>k h f. enGets e' ! j = GtWait k h f \<longrightarrow> enGets e ! j = GtWait k h f)
          else \<not> waiting (enGets e' ! j))"

lemma spawns_waiting: "\<not> waiting g \<Longrightarrow> spawns g = None" "\<not> waiting (GtWait k h f) \<Longrightarrow> False"
  by (auto simp: waiting_def spawns_def split: get_pc.splits)

lemma flightQuiet_gets:
  assumes "flightQuiet e e'" "j < length (enGets e')"
  shows "spawns (enGets e' ! j) = (if j < length (enGets e) then spawns (enGets e ! j) else None)"
    and "enGets e' ! j = GtWait k h f \<Longrightarrow> j < length (enGets e) \<and> enGets e ! j = GtWait k h f"
  using assms spawns_waiting unfolding flightQuiet_def by (metis (no_types, lifting))+

lemma flightInv_quiet:
  assumes I: "flightInv e" and Q: "flightQuiet e e'"
  shows "flightInv e'"
proof -
  have F: "enFlights e' = enFlights e" "\<And>k f. enFlightOf e' k = Some f \<Longrightarrow> enFlightOf e k = Some f"
    "length (enProcs e) \<le> length (enProcs e')" "length (enGets e) \<le> length (enGets e')"
    "\<And>i. i < length (enProcs e') \<Longrightarrow> (i < length (enProcs e) \<longrightarrow> pcOk (enProcs e ! i)) \<Longrightarrow> pcOk (enProcs e' ! i)"
    "\<And>i. i < length (enProcs e') \<Longrightarrow> runs (enProcs e' ! i) = (if i < length (enProcs e) then runs (enProcs e ! i) else None)"
    using Q unfolding flightQuiet_def by blast+
  note G = flightQuiet_gets [OF Q]
  note D = flightInvD [OF I]
  have old: "i < length (enProcs e) \<and> runs (enProcs e ! i) = Some (f, b)"
    if "i < length (enProcs e')" "runs (enProcs e' ! i) = Some (f, b)" for i f b using F(6) [OF that(1)] that(2) by (auto split: if_splits)
  have oldG: "j < length (enGets e) \<and> spawns (enGets e ! j) = Some f"
    if "j < length (enGets e')" "spawns (enGets e' ! j) = Some f" for j f using G(1) [OF that(1)] that(2) by (auto split: if_splits)
  show ?thesis
  proof (rule flightInvI, unfold F(1), goal_cases)
    case (1 k f) then show ?case using F(2) D(1) by blast
  next
    case (2 f) then show ?case using D(2) by blast
  next
    case (3 f)
    with D(3) [of f] consider i where "i < length (enProcs e)" "runs (enProcs e ! i) = Some (f, flDone (enFlights e ! f))"
      | j where "j < length (enGets e)" "spawns (enGets e ! j) = Some f" by blast
    then show ?case
    proof cases
      case 1 with F(3) F(6) [of i] show ?thesis by (intro disjI1 exI [of _ i]) simp
    next
      case 2 with F(4) G(1) [of j] show ?thesis by (intro disjI2 exI [of _ j]) simp
    qed
  next
    case (4 i) then show ?case using F(5) [of i] D(4) [of i] by blast
  next
    case (5 i f b) then show ?case using old D(5) by blast
  next
    case (6 i f b j) then show ?case using old oldG D(6) by blast
  next
    case (7 i f b i' b') then show ?case using old D(7) by blast
  next
    case (8 j f) then show ?case using oldG D(8) by blast
  next
    case (9 j f j') then show ?case using oldG D(9) by blast
  next
    case (10 j k h f) then show ?case using G(2) D(10) by blast
  qed
qed

text \<open>What a step must leave alone to be quiet.\<close>

lemma flightQuiet_same:
  "enFlights e' = enFlights e \<Longrightarrow> enFlightOf e' = enFlightOf e \<Longrightarrow> enProcs e' = enProcs e \<Longrightarrow> enGets e' = enGets e
     \<Longrightarrow> flightQuiet e e'"
  by (simp add: flightQuiet_def)

lemma flightQuiet_proc:
  assumes "i < length (enProcs e)" "enFlights e' = enFlights e" "\<And>k f. enFlightOf e' k = Some f \<Longrightarrow> enFlightOf e k = Some f"
    and "enProcs e' = (enProcs e)[i := p]" "enGets e' = enGets e"
    and "pcOk (enProcs e ! i) \<Longrightarrow> pcOk p" "runs p = runs (enProcs e ! i)"
  shows "flightQuiet e e'"
  using assms by (auto simp: flightQuiet_def nth_list_update)

lemma flightQuiet_pc:
  assumes "i < length (enProcs e)" "enFlights x = enFlights e" "\<And>k f. enFlightOf x k = Some f \<Longrightarrow> enFlightOf e k = Some f"
    and "enProcs x = enProcs e" "enGets x = enGets e"
    and "c \<noteq> PcFire" "c \<noteq> PcUnregister" "prFlight (enProcs e ! i) \<noteq> None \<Longrightarrow> finished c = finished (prPc (enProcs e ! i))"
  shows "flightQuiet e (setPc i c x)"
proof (rule flightQuiet_proc [where i = i and p = "(enProcs e ! i)\<lparr>prPc := c\<rparr>"])
  show "runs ((enProcs e ! i)\<lparr>prPc := c\<rparr>) = runs (enProcs e ! i)"
    using assms(8) by (cases "prFlight (enProcs e ! i)") (simp_all add: runs_def)
qed (use assms in \<open>auto simp: setPc_def pcOk_def\<close>)

lemma finished_simps [simp]:
  "\<not> finished PcFire" "\<not> finished PcLookup" "\<not> finished (PcGen pi)" "\<not> finished (PcHash pi g)" "\<not> finished (PcParse pi g fs h)"
  "\<not> finished (PcTypes pi g h out texts errs)" "\<not> finished (PcCommit g cp)" "\<not> finished (PcRetired g cp)"
  "\<not> finished (PcPublish g cp)" "\<not> finished (PcReturn r)" "finished PcUnregister" "finished PcEnd"
  by (simp_all add: finished_def)

lemma job_ops_flight [simp]:
  "enFlights (stopTimerDone t e) = enFlights e" "enFlightOf (stopTimerDone t e) = enFlightOf e" "enGets (stopTimerDone t e) = enGets e"
  "enFlights (stopTimerOnly t e) = enFlights e" "enFlightOf (stopTimerOnly t e) = enFlightOf e" "enGets (stopTimerOnly t e) = enGets e"
  "enFlights (cancelCtx c e) = enFlights e" "enFlightOf (cancelCtx c e) = enFlightOf e" "enGets (cancelCtx c e) = enGets e"
  "enFlights (setJob k st e) = enFlights e" "enFlightOf (setJob k st e) = enFlightOf e" "enGets (setJob k st e) = enGets e"
  "enFlights (evictLocked e) = enFlights e" "enFlightOf (evictLocked e) = enFlightOf e" "enGets (evictLocked e) = enGets e"
  by (simp_all add: engine_ops evictLocked_def split: option.split)

lemma flightQuiet_recheck:
  assumes "recheckStep env i e e'" "\<And>f r. prFlight (enProcs e ! i) = Some f \<Longrightarrow> prPc (enProcs e ! i) = PcReturn r \<Longrightarrow> False"
  shows "flightQuiet e e'"
  using assms(1)
proof cases
  case start
  have "flightQuiet e (startJob i e)" if "pcOk (enProcs e ! i)"
  proof -
    have "prFlight (enProcs e ! i) = None" using that start by (simp add: pcOk_def)
    then show ?thesis using start
      by (cases "enStopped e"; intro flightQuiet_proc [where i = i and p = "enProcs (startJob i e) ! i"])
        (auto simp: startJob_def Let_def pcOk_def runs_def)
  qed
  moreover have "flightQuiet e (startJob i e)" if "\<not> pcOk (enProcs e ! i)"
    using that start
    by (cases "enStopped e"; intro flightQuiet_proc [where i = i and p = "enProcs (startJob i e) ! i"])
      (auto simp: startJob_def Let_def pcOk_def runs_def)
  ultimately show ?thesis using start by blast
next
  case (lookup w pkgForFile)
  then show ?thesis
    by (auto simp: recheckLookup_def stageEnd_def intro!: flightQuiet_pc split: option.split go.split)
next
  case (gen pi)
  then show ?thesis by (auto simp: nextGenStep_def Let_def intro!: flightQuiet_pc)
next
  case (hash pi gen w)
  obtain r fc where "filesAndHash env w pi (unDir (procKey e i)) (enFiles e) = (r, fc)" by fastforce
  with hash show ?thesis
    by (cases r) (auto simp: recheckHash_def stageEnd_def Let_def intro!: flightQuiet_pc split: if_splits)
next
  case (parse pi gen files hash w)
  then show ?thesis by (auto simp: recheckParse_def stageEnd_def split_beta intro!: flightQuiet_pc)
next
  case (types pi gen hash out texts errs tc now)
  then show ?thesis by (auto simp: recheckTypes_def stageEnd_def intro!: flightQuiet_pc)
next
  case (commit gen cp now)
  then show ?thesis
    by (auto simp: recheckCommit_def commitCache_def Let_def split_beta intro!: flightQuiet_pc)
next
  case (retired gen cp)
  then show ?thesis by (auto simp: recheckRetired_def intro!: flightQuiet_pc)
next
  case (publish gen cp w)
  then show ?thesis by (auto simp: recheckPublish_def commitPublish_def Let_def intro!: flightQuiet_pc)
next
  case (panic f)
  then have "\<not> finished (prPc (enProcs e ! i))" by (auto simp: running_def finished_def)
  with panic show ?thesis by (auto simp: recheckPanic_def intro!: flightQuiet_pc)
next
  case (fire_return r)
  have "flightQuiet e (e\<lparr>enProcs := (enProcs e)[i := (enProcs e ! i)\<lparr>prRetry := True, prPc := PcLookup\<rparr>]\<rparr>)"
    by (rule flightQuiet_proc [where i = i and p = "(enProcs e ! i)\<lparr>prRetry := True, prPc := PcLookup\<rparr>"])
      (use fire_return in \<open>auto simp: pcOk_def runs_def\<close>)
  moreover have "flightQuiet e ((setPc i PcEnd (finishJob i e))\<lparr>enPending := enPending e - 1\<rparr>)"
    by (rule flightQuiet_proc [where i = i and p = "(enProcs e ! i)\<lparr>prPc := PcEnd\<rparr>"])
      (use fire_return in \<open>auto simp: setPc_def pcOk_def runs_def finishJob_def split: option.splits if_splits\<close>)
  ultimately show ?thesis by (simp add: fire_return(1) fireReturn_def)
next
  case (flight_return r f)
  with assms(2) show ?thesis by blast
next
  case (unregister f)
  then show ?thesis
    by (intro flightQuiet_proc [where i = i and p = "(enProcs e ! i)\<lparr>prPc := PcEnd\<rparr>"])
      (auto simp: flightUnregister_def setPc_def pcOk_def runs_def finished_def split: if_splits)
qed

lemma flightInv_done:
  assumes I: "flightInv e" and i: "i < length (enProcs e)" and r: "prPc (enProcs e ! i) = PcReturn r"
    and f: "prFlight (enProcs e ! i) = Some f"
  shows "flightInv (flightDone i f r e)"
proof -
  let ?e = "flightDone i f r e"
  note D = flightInvD [OF I]
  have R: "runs (enProcs e ! i) = Some (f, False)" by (simp add: runs_def f r)
  have fl: "f < length (enFlights e)" "\<not> flDone (enFlights e ! f)"
    "\<And>j. j < length (enGets e) \<Longrightarrow> spawns (enGets e ! j) \<noteq> Some f"
    "\<And>i' b'. i' < length (enProcs e) \<Longrightarrow> i' \<noteq> i \<Longrightarrow> runs (enProcs e ! i') \<noteq> Some (f, b')"
    using D(5) [OF i R] D(6) [OF i R] D(7) [OF i R] by blast+
  have L: "length (enFlights ?e) = length (enFlights e)" "length (enProcs ?e) = length (enProcs e)" "enGets ?e = enGets e"
    "enFlightOf ?e = enFlightOf e" by (simp_all add: flightDone_def setPc_def)
  have E: "enFlights ?e ! g = (if g = f then (enFlights e ! f)\<lparr>flDone := True, flResult := Some r\<rparr> else enFlights e ! g)"
    if "g < length (enFlights e)" for g using that by (simp add: flightDone_def setPc_def nth_list_update)
  have P: "enProcs ?e ! m = (if m = i then (enProcs e ! i)\<lparr>prPc := PcUnregister\<rparr> else enProcs e ! m)"
    if "m < length (enProcs e)" for m using that i by (simp add: flightDone_def setPc_def nth_list_update)
  have runs_i: "runs (enProcs ?e ! i) = Some (f, True)" using P [OF i] f by (simp add: runs_def)
  have runs_m: "m < length (enProcs e) \<Longrightarrow> m \<noteq> i \<Longrightarrow> runs (enProcs ?e ! m) = runs (enProcs e ! m)" for m using P by simp
  have old: "m \<noteq> i \<and> runs (enProcs e ! m) = Some (g, b) \<and> g \<noteq> f \<or> m = i \<and> g = f \<and> b"
    if "m < length (enProcs e)" "runs (enProcs ?e ! m) = Some (g, b)" for m g b
  proof (cases "m = i")
    case True
    with that runs_i show ?thesis by simp
  next
    case False
    with runs_m [OF that(1)] that have "runs (enProcs e ! m) = Some (g, b)" by simp
    moreover from this fl(4) [OF that(1) False] have "g \<noteq> f" by metis
    ultimately show ?thesis using False by blast
  qed
  show ?thesis
  proof (rule flightInvI, unfold L, goal_cases)
    case (1 k g) then show ?case using D(1) [of k g] E [of g] by auto
  next
    case (2 g) then show ?case using D(2) [of g] E [of g] by (cases "g = f") simp_all
  next
    case (3 g)
    show ?case
    proof (cases "g = f")
      case True
      with runs_i E [of f] fl(1) i show ?thesis by (intro disjI1 exI [of _ i]) simp
    next
      case False
      from D(3) [OF 3] consider m where "m < length (enProcs e)" "runs (enProcs e ! m) = Some (g, flDone (enFlights e ! g))"
        | "\<exists>j < length (enGets e). spawns (enGets e ! j) = Some g" by blast
      then show ?thesis
      proof cases
        case 1
        with R False have "m \<noteq> i" by auto
        with 1 runs_m E [OF 3] False show ?thesis by (intro disjI1 exI [of _ m]) simp
      qed blast
    qed
  next
    case (4 m) then show ?case using D(4) [of m] P [of m] f by (cases "m = i") (auto simp: pcOk_def)
  next
    case (5 m g b) then show ?case using old [OF 5] D(5) [of m g b] fl(1) E [of g] by auto
  next
    case (6 m g b j) then show ?case using old [OF 6(1,2)] D(6) [of m g b j] fl(3) by auto
  next
    case (7 m g b m' b') then show ?case using old [OF 7(1,2)] old [of m' g b'] D(7) [of m g b m' b'] by auto
  next
    case (8 j g)
    with D(8) [OF 8] fl(3) [of j] E [of g] show ?case by auto
  next
    case (9 j g j') then show ?case by (rule D(9))
  next
    case (10 j k h g) then show ?case using D(10) [OF 10] E [of g] by auto
  qed
qed

subsection \<open>Requests and calls\<close>

lemma flightQuiet_get:
  assumes "j < length (enGets e)" "\<not> waiting g" "spawns (enGets e ! j) = None"
    and "enFlights x = enFlights e" "enFlightOf x = enFlightOf e" "enProcs x = enProcs e" "enGets x = enGets e"
  shows "flightQuiet e (setGet j g x)"
  using assms spawns_waiting(1) [of g]
  by (auto simp: flightQuiet_def setGet_def nth_list_update waiting_def split: if_splits)

lemma flightQuiet_add:
  "\<not> waiting g \<Longrightarrow> flightQuiet e (addGet g e)"
  by (auto simp: flightQuiet_def addGet_def nth_append)

lemma flightQuiet_fire: "flightQuiet e (fireTimer t e)"
  by (auto simp: flightQuiet_def fireTimer_def nth_append pcOk_def runs_def)

text \<open>The calls leave the four fields alone.\<close>

definition flightsSame :: "('a, 'p) engine \<Rightarrow> ('a, 'p) engine \<Rightarrow> bool" where
  "flightsSame e e' \<longleftrightarrow> enFlights e' = enFlights e \<and> enFlightOf e' = enFlightOf e \<and> enProcs e' = enProcs e \<and> enGets e' = enGets e"

lemma flightsSame_quiet: "flightsSame e e' \<Longrightarrow> flightQuiet e e'"
  unfolding flightsSame_def by (rule flightQuiet_same) simp_all

lemma flightsSame_fold: "(\<And>x e. flightsSame e (f x e)) \<Longrightarrow> flightsSame e (fold f xs e)"
proof (induction xs arbitrary: e)
  case (Cons x xs)
  have "flightsSame (f x e) (fold f xs (f x e))" by (rule Cons.IH) (rule Cons.prems)
  with Cons.prems [of e x] show ?case by (simp add: flightsSame_def)
qed (simp add: flightsSame_def)

lemma flightsSame_calls:
  "flightsSame e (SetFocus pkg e)" "flightsSame e (Invalidate dir e)" "flightsSame e (InvalidateDependency dirs e)"
  "flightsSame e (setRetired e)" "flightsSame e (retireLocked ks e)" "flightsSame e (stopLocked ks e)"
proof -
  have A: "flightsSame e (armDebounceLocked key e)" for key and e :: "('a, 'b) engine"
    by (simp add: flightsSame_def armDebounceLocked_def Let_def)
  have U: "flightsSame e (invalidateUnit key e)" for key and e :: "('a, 'b) engine"
    using A [of "e\<lparr>enCache := AList.delete key (enCache e)\<rparr>" key] by (simp add: invalidateUnit_def flightsSame_def)
  show "flightsSame e (Invalidate dir e)" unfolding Invalidate_def Let_def by (rule flightsSame_fold) (rule A)
  have UU: "flightsSame e (invalidateUnit k (invalidateUnit k' e))" for k k' and e :: "('a, 'b) engine"
    using U [of e k'] U [of "invalidateUnit k' e" k] by (simp add: flightsSame_def)
  show "flightsSame e (InvalidateDependency dirs e)" unfolding InvalidateDependency_def by (rule flightsSame_fold) (rule UU)
  show "flightsSame e (retireLocked ks e)" unfolding retireLocked_def
    by (rule flightsSame_fold) (simp add: flightsSame_def retireJob_def split: option.split)
  have "flightsSame (e\<lparr>enStopped := True\<rparr>) (stopLocked ks e)" unfolding stopLocked_def
    by (rule flightsSame_fold) (simp add: flightsSame_def stopJob_def split: option.split)
  then show "flightsSame e (stopLocked ks e)" by (simp add: flightsSame_def)
  show "flightsSame e (SetFocus pkg e)" "flightsSame e (setRetired e)"
    by (simp_all add: flightsSame_def SetFocus_def setRetired_def split: option.split)
qed

lemma flightQuiet_calls:
  "flightQuiet e (SetFocus pkg e)" "flightQuiet e (Invalidate dir e)" "flightQuiet e (InvalidateDependency dirs e)"
  "flightQuiet e (setRetired e)" "flightQuiet e (retireLocked ks e)" "flightQuiet e (stopLocked ks e)"
  "flightQuiet e (engineGet canceled pkgForFile filePath e)" "flightQuiet e (GetPackage canceled pkgDir pkgPath e)"
proof -
  show "flightQuiet e (SetFocus pkg e)" "flightQuiet e (Invalidate dir e)" "flightQuiet e (InvalidateDependency dirs e)"
    "flightQuiet e (setRetired e)" "flightQuiet e (retireLocked ks e)" "flightQuiet e (stopLocked ks e)"
    by (rule flightsSame_quiet, rule flightsSame_calls)+
  show "flightQuiet e (engineGet canceled pkgForFile filePath e)" "flightQuiet e (GetPackage canceled pkgDir pkgPath e)"
    by (auto simp: engineGet_def GetPackage_def waiting_def intro!: flightQuiet_add split: option.split)
qed

lemma flightInv_join:
  assumes I: "flightInv e" and j: "j < length (enGets e)" "enGets e ! j = GtJoin key hash"
    and f: "enFlightOf e key = Some f" "flHash (enFlights e ! f) = hash"
  shows "flightInv (setGet j (GtWait key hash f) e)"
proof -
  note D = flightInvD [OF I]
  have G: "enGets (setGet j (GtWait key hash f) e) ! l = (if l = j then GtWait key hash f else enGets e ! l)"
    "length (enGets (setGet j (GtWait key hash f) e)) = length (enGets e)" if "l < length (enGets e)" for l
    using that by (simp_all add: setGet_def nth_list_update)
  have S: "spawns (enGets (setGet j (GtWait key hash f) e) ! l) = spawns (enGets e ! l)" if "l < length (enGets e)" for l
    using G(1) [OF that] j by (simp add: spawns_def)
  have F: "enFlights (setGet j (GtWait key hash f) e) = enFlights e" "enFlightOf (setGet j (GtWait key hash f) e) = enFlightOf e"
    "enProcs (setGet j (GtWait key hash f) e) = enProcs e" "length (enGets (setGet j (GtWait key hash f) e)) = length (enGets e)"
    by (simp_all add: setGet_def)
  show ?thesis
  proof (rule flightInvI, unfold F, goal_cases)
    case (3 g) with D(3) [of g] S show ?case by metis
  next
    case (6 i g b l) with D(6) [of i g b l] S [of l] show ?case by simp
  next
    case (8 l g) with D(8) [of l g] S [of l] show ?case by simp
  next
    case (9 l g l') with D(9) [of l g l'] S [of l] S [of l'] show ?case by simp
  next
    case (10 l k h g)
    with D(10) [of l k h g] D(1) [OF f(1)] G(1) [of l] f(2) show ?case by (auto split: if_splits)
  next
    case (1 k g) then show ?case by (rule D(1))
  next
    case (2 g) then show ?case by (rule D(2))
  next
    case (4 i) then show ?case by (rule D(4))
  next
    case (5 i g b) then show ?case by (rule D(5))
  next
    case (7 i g b i' b') then show ?case by (rule D(7))
  qed
qed

lemma flightInv_new:
  assumes I: "flightInv e" and j: "j < length (enGets e)" "enGets e ! j = GtJoin key hash"
  shows "flightInv (setGet j (GtSpawn (length (enFlights e)))
     (e\<lparr>enFlights := enFlights e @ [newFlight key hash], enFlightOf := (enFlightOf e)(key \<mapsto> length (enFlights e))\<rparr>))"
    (is "flightInv ?e")
proof -
  note D = flightInvD [OF I]
  let ?n = "length (enFlights e)"
  have F: "enFlights ?e = enFlights e @ [newFlight key hash]" "enFlightOf ?e = (enFlightOf e)(key \<mapsto> ?n)"
    "enProcs ?e = enProcs e" "length (enGets ?e) = length (enGets e)"
    by (simp_all add: setGet_def)
  have G: "enGets ?e ! l = (if l = j then GtSpawn ?n else enGets e ! l)" if "l < length (enGets e)" for l
    using that by (simp add: setGet_def nth_list_update)
  have S: "spawns (enGets ?e ! l) = (if l = j then Some ?n else spawns (enGets e ! l))" if "l < length (enGets e)" for l
    using G [OF that] by (simp add: spawns_def)
  have N: "(enFlights e @ [newFlight key hash]) ! f = (if f = ?n then newFlight key hash else enFlights e ! f)"
    if "f < Suc ?n" for f using that by (simp add: nth_append)
  have nf: "\<not> flDone (newFlight key hash)" "flKey (newFlight key hash) = key" by (simp_all add: newFlight_def)
  have jn: "spawns (enGets e ! j) = None" using j by (simp add: spawns_def)
  have old: "l < length (enGets e) \<Longrightarrow> spawns (enGets e ! l) \<noteq> Some ?n" for l using D(8) [of l ?n] by blast
  show ?thesis
  proof (rule flightInvI, unfold F length_append_singleton, goal_cases)
    case (1 k f)
    then show ?case using D(1) [of k f] N [of f] nf by (auto split: if_splits)
  next
    case (2 f) with D(2) [of f] N [of f] nf show ?case by (auto split: if_splits)
  next
    case (3 f)
    show ?case
    proof (cases "f = ?n")
      case True with S [OF j(1)] j(1) show ?thesis by auto
    next
      case False
      with 3 N [of f] D(3) [of f] consider i where "i < length (enProcs e)" "runs (enProcs e ! i) = Some (f, flDone (enFlights e ! f))"
        | l where "l < length (enGets e)" "spawns (enGets e ! l) = Some f" by auto
      then show ?thesis
      proof cases
        case 1 with N [of f] 3 False show ?thesis by auto
      next
        case 2 with S [of l] jn show ?thesis by (intro disjI2 exI [of _ l]) (auto split: if_splits)
      qed
    qed
  next
    case (4 i) then show ?case by (rule D(4))
  next
    case (5 i f b) with D(5) [of i f b] N [of f] show ?case by auto
  next
    case (6 i f b l) with D(5,6) [of i f b] S [of l] show ?case by auto
  next
    case (7 i f b i' b') then show ?case by (rule D(7))
  next
    case (8 l f) with D(8) [of l f] S [of l] N [of f] nf show ?case by (auto split: if_splits)
  next
    case (9 l f l')
    show ?case
    proof (cases "l = j \<or> l' = j")
      case True with 9 S [of l] S [of l'] old [of l] old [of l'] show ?thesis by (metis option.inject)
    next
      case False with 9 S [of l] S [of l'] D(9) [of l f l'] show ?thesis by simp
    qed
  next
    case (10 l k h f) with D(10) [of l k h f] G [of l] N [of f] show ?case by (auto split: if_splits)
  qed
qed

lemma flightInv_spawn:
  assumes I: "flightInv e" and j: "j < length (enGets e)" "enGets e ! j = GtSpawn f"
  shows "flightInv (spawnFlight j f e)" (is "flightInv ?e")
proof -
  note D = flightInvD [OF I]
  have sp: "spawns (enGets e ! j) = Some f" using j by (simp add: spawns_def)
  note fl = D(8) [OF j(1) sp]
  let ?p = "\<lparr>prKey = flKey (enFlights e ! f), prFlight = Some f, prCtx = 0, prEpoch = None, prRetry = False, prPc = PcLookup\<rparr> :: ('a, 'b) proc"
  have F: "enFlights ?e = enFlights e" "enFlightOf ?e = enFlightOf e"
    "length (enProcs ?e) = Suc (length (enProcs e))" "length (enGets ?e) = length (enGets e)"
    by (simp_all add: setGet_def spawnFlight_def)
  have G: "enGets ?e ! l = (if l = j then GtWait (flKey (enFlights e ! f)) (flHash (enFlights e ! f)) f else enGets e ! l)"
    if "l < length (enGets e)" for l using that by (simp add: setGet_def spawnFlight_def nth_list_update)
  have S: "spawns (enGets ?e ! l) = (if l = j then None else spawns (enGets e ! l))" if "l < length (enGets e)" for l
    using G [OF that] by (simp add: spawns_def)
  have P: "enProcs ?e ! i = (if i = length (enProcs e) then ?p else enProcs e ! i)" if "i < Suc (length (enProcs e))" for i
    using that by (simp add: setGet_def spawnFlight_def nth_append)
  have R: "runs (enProcs ?e ! i) = (if i = length (enProcs e) then Some (f, False) else runs (enProcs e ! i))"
    if "i < Suc (length (enProcs e))" for i using P [OF that] by (simp add: runs_def)
  have none: "i < length (enProcs e) \<Longrightarrow> runs (enProcs e ! i) \<noteq> Some (f, b)" for i b using D(6) [of i f b j] j(1) sp by blast
  show ?thesis
  proof (rule flightInvI, unfold F, goal_cases)
    case (3 g)
    show ?case
    proof (cases "g = f")
      case True with R [of "length (enProcs e)"] fl show ?thesis by auto
    next
      case False
      with 3 D(3) [of g] consider i where "i < length (enProcs e)" "runs (enProcs e ! i) = Some (g, flDone (enFlights e ! g))"
        | l where "l < length (enGets e)" "spawns (enGets e ! l) = Some g" by blast
      then show ?thesis
      proof cases
        case 1 with R [of i] show ?thesis by (intro disjI1 exI [of _ i]) simp
      next
        case 2 with S [of l] sp False show ?thesis by (intro disjI2 exI [of _ l]) auto
      qed
    qed
  next
    case (4 i) with D(4) [of i] P [of i] show ?case by (auto simp: pcOk_def split: if_splits)
  next
    case (5 i g b) with D(5) [of i g b] R [of i] fl show ?case by (auto split: if_splits)
  next
    case (6 i g b l)
    with D(6) [of i g b l] R [of i] S [of l] D(9) [OF j(1) sp, of l] show ?case by (auto split: if_splits)
  next
    case (7 i g b i' b')
    show ?case
    proof (cases "i = length (enProcs e) \<or> i' = length (enProcs e)")
      case True with 7 R [of i] R [of i'] none show ?thesis by (metis Pair_inject less_SucE option.inject)
    next
      case False with 7 R [of i] R [of i'] D(7) [of i g b i' b'] show ?thesis by simp
    qed
  next
    case (8 l g) with D(8) [of l g] S [of l] show ?case by (auto split: if_splits)
  next
    case (9 l g l') with D(9) [of l g l'] S [of l] S [of l'] show ?case by (auto split: if_splits)
  next
    case (10 l k h g) with D(10) [of l k h g] G [of l] fl show ?case by (auto split: if_splits)
  next
    case (1 k g) then show ?case by (rule D(1))
  next
    case (2 g) then show ?case by (rule D(2))
  qed
qed

lemma flightInv_step:
  assumes S: "engineStep env e e'" and I: "flightInv e"
  shows "flightInv e'"
  using S
proof cases
  case (recheck i)
  show ?thesis
  proof (cases "\<exists>f r. prFlight (enProcs e ! i) = Some f \<and> prPc (enProcs e ! i) = PcReturn r")
    case True
    then obtain f r where f: "prFlight (enProcs e ! i) = Some f" "prPc (enProcs e ! i) = PcReturn r" by blast
    with recheck have "i < length (enProcs e)" "e' = flightDone i f r e"
      by (auto elim!: recheckStep.cases simp: running_def)
    with flightInv_done [OF I] f show ?thesis by simp
  next
    case False
    with recheck have "flightQuiet e e'" by (intro flightQuiet_recheck) blast+
    with I show ?thesis by (rule flightInv_quiet)
  qed
next
  case (request j)
  from request show ?thesis
  proof cases
    case (note_info key pi)
    then have "flightQuiet e e'" unfolding note_info(1) getUnitRecord_def
      by (intro flightQuiet_get) (simp_all add: waiting_def spawns_def)
    with I show ?thesis by (rule flightInv_quiet)
  next
    case (hash key pi w)
    obtain r fc where r: "filesAndHash env w pi (unDir key) (enFiles e) = (r, fc)" by fastforce
    have "flightQuiet e e'" unfolding hash(1) getUnitHash_def r
      using hash(2,3) by (cases r) (auto intro!: flightQuiet_get simp: waiting_def spawns_def Let_def)
    with I show ?thesis by (rule flightInv_quiet)
  next
    case (lookup key hash now)
    have "flightQuiet e e'" unfolding lookup(1) getUnitLookup_def
      using lookup(2,3) by (auto intro!: flightQuiet_get simp: waiting_def spawns_def split: option.split)
    with I show ?thesis by (rule flightInv_quiet)
  next
    case (join key hash)
    then show ?thesis using flightInv_join [OF I join(2,3)] flightInv_new [OF I join(2,3)]
      by (auto simp: getOrStartFlight_def split: option.split)
  next
    case (spawn f)
    then show ?thesis using flightInv_spawn [OF I] by simp
  next
    case (result key hash f r)
    then have "flightQuiet e e'" unfolding result(1) by (intro flightQuiet_get) (simp_all add: waiting_def spawns_def)
    with I show ?thesis by (rule flightInv_quiet)
  qed
next
  case (fire t)
  with I show ?thesis by (auto intro: flightInv_quiet flightQuiet_fire)
next
  case (cancel j key hash f)
  then have "flightQuiet e e'" unfolding cancel(1) by (intro flightQuiet_get) (simp_all add: waiting_def spawns_def)
  with I show ?thesis by (rule flightInv_quiet)
qed (use I in \<open>auto intro: flightInv_quiet flightQuiet_calls\<close>)

lemma flightInv_run: "engineRun env e e' \<Longrightarrow> flightInv e \<Longrightarrow> flightInv e'"
  by (induction rule: rtranclp_induct) (auto intro: flightInv_step)

lemma flightInv_init: "flightInv (NewEngine opts)"
  by (rule flightInvI) (simp_all add: NewEngine_def)

section \<open>The engine comes to rest\<close>

text \<open>The steps the engine takes by itself, and a bound on how many are left.\<close>

inductive internalStep :: "'a check_env \<Rightarrow> ('a, 'p) engine \<Rightarrow> ('a, 'p) engine \<Rightarrow> bool" for env e where
  recheck: "recheckStep env i e e' \<Longrightarrow> internalStep env e e'"
| request: "requestStep env j e e' \<Longrightarrow> internalStep env e e'"
| fire: "isArmed e t \<Longrightarrow> internalStep env e (fireTimer t e)"

fun pcRank :: "('a, 'p) pc \<Rightarrow> nat" where
  "pcRank PcFire = 12"
| "pcRank PcLookup = 11"
| "pcRank (PcGen _) = 10"
| "pcRank (PcHash _ _) = 9"
| "pcRank (PcParse _ _ _ _) = 8"
| "pcRank (PcTypes _ _ _ _ _ _) = 7"
| "pcRank (PcCommit _ _) = 6"
| "pcRank (PcRetired _ _) = 5"
| "pcRank (PcPublish _ _) = 4"
| "pcRank (PcReturn _) = 3"
| "pcRank PcUnregister = 2"
| "pcRank PcEnd = 0"

definition procRank :: "('a, 'p) proc \<Rightarrow> nat" where
  "procRank p = pcRank (prPc p) + (if prFlight p = None \<and> \<not> prRetry p then 12 else 0)"

fun getRank :: "('a, 'p) get_pc \<Rightarrow> nat" where
  "getRank (GtRecord _ _) = 20"
| "getRank (GtHash _ _) = 19"
| "getRank (GtLookup _ _) = 18"
| "getRank (GtJoin _ _) = 17"
| "getRank (GtSpawn _) = 16"
| "getRank (GtWait _ _ _) = 1"
| "getRank (GtReturn _) = 0"

definition work :: "('a, 'p) engine \<Rightarrow> nat" where
  "work e = sum_list (map procRank (enProcs e)) + sum_list (map getRank (enGets e)) + 25 * armedTimers e"

lemma work_cong:
  "enProcs e' = enProcs e \<Longrightarrow> enGets e' = enGets e \<Longrightarrow> enTimers e' = enTimers e \<Longrightarrow> work e' = work e"
  by (simp add: work_def armedTimers_def)

lemma sum_map_update:
  fixes f :: "'x \<Rightarrow> nat"
  assumes "i < length xs"
  shows "sum_list (map f (xs[i := y])) + f (xs ! i) = sum_list (map f xs) + f y"
  using assms
proof (induction xs arbitrary: i)
  case (Cons x xs)
  then show ?case by (cases i) auto
qed simp

lemma work_proc:
  assumes "i < length (enProcs e)" "enProcs e' = (enProcs e)[i := p]" "enGets e' = enGets e" "armedTimers e' \<le> armedTimers e"
    and "procRank p < procRank (enProcs e ! i)"
  shows "work e' < work e"
  using sum_map_update [OF assms(1), of procRank p] assms(2-5) by (simp add: work_def)

lemma work_pc:
  assumes "i < length (enProcs e)" "enProcs x = enProcs e" "enGets x = enGets e" "enTimers x = enTimers e"
    and "pcRank c < pcRank (prPc (enProcs e ! i))"
  shows "work (setPc i c x) < work e"
  by (rule work_proc [where i = i and p = "(enProcs e ! i)\<lparr>prPc := c\<rparr>"])
    (use assms in \<open>simp_all add: setPc_def armedTimers_def procRank_def\<close>)

lemma armed_stop_le:
  "armedTimers (stopTimerOnly t e) \<le> armedTimers e"
proof -
  have "Suc (armedTimers (stopTimer t e)) = armedTimers e" if "isArmed e t" for t
    using armed_stop [OF that, of Stopped] that by (simp add: stopTimer_def armedTimers_def)
  then show ?thesis by (fastforce simp: stopTimerOnly_def armedTimers_def split: option.split)
qed

lemma job_ops_timers [simp]:
  "enTimers (cancelCtx c e) = enTimers e" "enTimers (setJob k st e) = enTimers e" "enTimers (evictLocked e) = enTimers e"
  "enTimers (setPc i pc' e) = enTimers e" "enTimers (finishJob i e) = enTimers e"
  by (simp_all add: cancelCtx_def setJob_def evictLocked_def setPc_def finishJob_def split: option.split)

lemma work_recheck:
  assumes "recheckStep env i e e'"
  shows "work e' < work e"
  using assms
proof cases
  case start
  have A: "armedTimers (startJob i e) \<le> armedTimers e"
    using armed_stop_le [of "dsTimer (jobStateLocked (procKey e i) e)" e]
    by (simp add: startJob_def Let_def armedTimers_def)
  show ?thesis unfolding start(1)
    by (rule work_proc [where i = i and p = "enProcs (startJob i e) ! i"])
      (use start A in \<open>auto simp: startJob_def Let_def procRank_def\<close>)
next
  case (lookup w pkgForFile)
  then show ?thesis by (auto simp: recheckLookup_def stageEnd_def intro!: work_pc split: option.split go.split)
next
  case (gen pi)
  then show ?thesis by (auto simp: nextGenStep_def Let_def intro!: work_pc)
next
  case (hash pi gen w)
  obtain r fc where "filesAndHash env w pi (unDir (procKey e i)) (enFiles e) = (r, fc)" by fastforce
  with hash show ?thesis by (cases r) (auto simp: recheckHash_def stageEnd_def Let_def intro!: work_pc)
next
  case (parse pi gen files hash w)
  then show ?thesis by (auto simp: recheckParse_def stageEnd_def split_beta intro!: work_pc)
next
  case (types pi gen hash out texts errs tc now)
  then show ?thesis by (auto simp: recheckTypes_def stageEnd_def intro!: work_pc)
next
  case (commit gen cp now)
  then show ?thesis by (auto simp: recheckCommit_def commitCache_def Let_def split_beta intro!: work_pc)
next
  case (retired gen cp)
  then show ?thesis by (auto simp: recheckRetired_def intro!: work_pc)
next
  case (publish gen cp w)
  then show ?thesis by (auto simp: recheckPublish_def commitPublish_def Let_def intro!: work_pc)
next
  case (panic f)
  then have "3 < pcRank (prPc (enProcs e ! i))" by (cases "prPc (enProcs e ! i)") (simp_all add: running_def)
  with panic show ?thesis by (auto simp: recheckPanic_def intro!: work_pc)
next
  case (fire_return r)
  have G: "enGets (finishJob i e) = enGets e" by (simp add: finishJob_def split: option.split)
  have "work (e\<lparr>enProcs := (enProcs e)[i := (enProcs e ! i)\<lparr>prRetry := True, prPc := PcLookup\<rparr>]\<rparr>) < work e"
    if "\<not> prRetry (enProcs e ! i)"
    by (rule work_proc [where i = i and p = "(enProcs e ! i)\<lparr>prRetry := True, prPc := PcLookup\<rparr>"])
      (use fire_return that in \<open>simp_all add: armedTimers_def procRank_def\<close>)
  moreover have "work ((setPc i PcEnd (finishJob i e))\<lparr>enPending := enPending e - 1\<rparr>) < work e"
    using work_pc [of i e "finishJob i e" PcEnd] fire_return G by (simp add: work_def armedTimers_def)
  ultimately show ?thesis by (simp add: fire_return(1) fireReturn_def)
next
  case (flight_return r f)
  then show ?thesis by (auto simp: flightDone_def intro!: work_pc)
next
  case (unregister f)
  let ?x = "if enFlightOf e (procKey e i) = Some f then e\<lparr>enFlightOf := (enFlightOf e)(procKey e i := None)\<rparr> else e"
  have "work (setPc i PcEnd ?x) < work e" using unregister by (intro work_pc) auto
  then show ?thesis unfolding unregister(1) flightUnregister_def by (simp add: work_def armedTimers_def)
qed

lemma work_get:
  assumes "j < length (enGets e)" "enProcs x = enProcs e" "enGets x = enGets e" "enTimers x = enTimers e" "getRank g < getRank (enGets e ! j)"
  shows "work (setGet j g x) < work e"
  using sum_map_update [OF assms(1), of getRank g] assms(2-5) by (simp add: work_def armedTimers_def setGet_def)

lemma work_request:
  assumes "requestStep env j e e'"
  shows "work e' < work e"
  using assms
proof cases
  case (note_info key pi)
  then show ?thesis by (auto simp: getUnitRecord_def intro!: work_get)
next
  case (hash key pi w)
  obtain r fc where "filesAndHash env w pi (unDir key) (enFiles e) = (r, fc)" by fastforce
  with hash show ?thesis by (cases r) (auto simp: getUnitHash_def Let_def intro!: work_get)
next
  case (lookup key hash now)
  then show ?thesis by (auto simp: getUnitLookup_def intro!: work_get split: option.split)
next
  case (join key hash)
  then show ?thesis by (auto simp: getOrStartFlight_def intro!: work_get split: option.split)
next
  case (spawn f)
  then show ?thesis
    using sum_map_update [OF spawn(2), of getRank "GtWait (flKey (enFlights e ! f)) (flHash (enFlights e ! f)) f"]
    by (simp add: spawnFlight_def setGet_def work_def armedTimers_def procRank_def)
next
  case (result key hash f r)
  then show ?thesis by (auto intro!: work_get)
qed

lemma work_fire: "isArmed e t \<Longrightarrow> work (fireTimer t e) < work e"
  using armed_stop [of e t Fired] by (simp add: fireTimer_def work_def armedTimers_def procRank_def)

lemma work_internal: "internalStep env e e' \<Longrightarrow> work e' < work e"
  by (cases rule: internalStep.cases) (auto simp: work_recheck work_request work_fire)

lemma internal_engine: "internalStep env e e' \<Longrightarrow> engineStep env e e'"
  by (cases rule: internalStep.cases) (auto intro: engineStep.intros)

lemma proc_can_step:
  assumes i: "i < length (enProcs e)" and p: "prPc (enProcs e ! i) \<noteq> PcEnd" and ok: "pcOk (enProcs e ! i)"
  shows "\<exists>e'. internalStep env e e'"
proof -
  have "\<exists>e'. recheckStep env i e e'"
  proof (cases "prPc (enProcs e ! i)")
    case (PcReturn r)
    then show ?thesis using i by (cases "prFlight (enProcs e ! i)") (blast intro: recheckStep.intros)+
  next
    case PcUnregister
    with ok obtain f where "prFlight (enProcs e ! i) = Some f" by (auto simp: pcOk_def)
    with PcUnregister i show ?thesis by (blast intro: recheckStep.unregister)
  qed (use i p in \<open>auto intro: recheckStep.intros\<close>)
  then show ?thesis by (blast intro: internalStep.recheck)
qed

lemma get_can_step:
  assumes I: "flightInv e" and j: "j < length (enGets e)" and g: "\<forall>r. enGets e ! j \<noteq> GtReturn r"
  shows "\<exists>e'. internalStep env e e'"
proof (cases "enGets e ! j")
  case (GtWait k h f)
  note D = flightInvD [OF I]
  have f: "f < length (enFlights e)" using D(10) [OF j GtWait] by blast
  show ?thesis
  proof (cases "flDone (enFlights e ! f)")
    case True
    with D(2) [OF f] obtain r where "flResult (enFlights e ! f) = Some r" by blast
    with True GtWait j show ?thesis by (blast intro: internalStep.request requestStep.result)
  next
    case False
    from D(3) [OF f] consider i where "i < length (enProcs e)" "runs (enProcs e ! i) = Some (f, False)"
      | l where "l < length (enGets e)" "spawns (enGets e ! l) = Some f" using False by auto
    then show ?thesis
    proof cases
      case 1
      then have "prPc (enProcs e ! i) \<noteq> PcEnd" by (auto simp: runs_def finished_def)
      with 1 D(4) show ?thesis by (blast intro: proc_can_step)
    next
      case 2
      then have "enGets e ! l = GtSpawn f" by (auto simp: spawns_def split: get_pc.splits)
      with 2 show ?thesis by (blast intro: internalStep.request requestStep.spawn)
    qed
  qed
next
  case (GtReturn r)
  with g show ?thesis by blast
qed (use j in \<open>blast intro: internalStep.request requestStep.intros\<close>)+

lemma settled:
  assumes I: "flightInv e" and S: "\<nexists>e'. internalStep env e e'"
  shows "armedTimers e = 0" "liveProcs e = 0" "\<forall>g \<in> set (enGets e). \<exists>r. g = GtReturn r"
proof -
  have "tmState t \<noteq> Armed" if "t \<in> set (enTimers e)" for t
  proof
    assume "tmState t = Armed"
    with that obtain n where "isArmed e n" by (auto simp: isArmed_def in_set_conv_nth)
    then have "internalStep env e (fireTimer n e)" by (rule internalStep.fire)
    with S show False by blast
  qed
  then show "armedTimers e = 0" by (simp add: armedTimers_def filter_empty_conv)
  have "prPc p = PcEnd" if "p \<in> set (enProcs e)" for p
    using that proc_can_step [of _ e env] flightInvD(4) [OF I] S by (metis in_set_conv_nth)
  then show "liveProcs e = 0" by (simp add: liveProcs_def filter_empty_conv)
  show "\<forall>g \<in> set (enGets e). \<exists>r. g = GtReturn r"
    using get_can_step [OF I, of _ env] S by (metis in_set_conv_nth)
qed

end
