(* ===== verification/Check_Sound.thy ===== *)
theory Check_Sound
  imports Check_Live
begin

text \<open>
  What the engine guarantees in every run, and the runs that show where its bookkeeping of shutdown
  falls short of its comments.
\<close>

section \<open>A sample run\<close>

text \<open>A directory with one file, whose package the type checker accepts.\<close>

definition run_key :: unit_key where
  "run_key = \<lparr>unDir = [100], unVariant = VariantBase\<rparr>"

definition run_info :: pkg_info where
  "run_info = \<lparr>piPkgPath = [109], piGoFiles = []\<rparr>"

definition run_opts :: options where
  "run_opts = \<lparr>opMaxLRU = 0, opDebounceDelay = 0, opOnResult = True\<rparr>"

definition run_types :: "(bytes, unit) type_outcome" where
  "run_types = \<lparr>toPkg = (), toErrs = [], toPosition = (\<lambda>_. \<lparr>tpFilename = [], tpOffset = 0, tpLine = 0, tpColumn = 0\<rparr>),
     toFileName = (\<lambda>_. None)\<rparr>"

definition run_env :: "bytes check_env" where
  "run_env = \<lparr>ceJoin = (\<lambda>_ n. n), ceBase = id, ceDir = (\<lambda>_. [100]), ceClause = (\<lambda>_ _. Some [97]),
     ceParse = (\<lambda>_ src. (Some src, None)), ceScan = (\<lambda>_. (0, ScanOther)), ceErrText = (\<lambda>_. []), ceHash = (\<lambda>_. [])\<rparr>"

definition run_file :: path where "run_file = lit ''a.go''"

definition run_world :: world where
  "run_world = \<lparr>woReadDir = (\<lambda>_. Ok [(run_file, False)]), woStat = (\<lambda>_. None), woRead = (\<lambda>_. Ok [65]),
      woIsOpen = None, woOpenIn = None, woNow = 0\<rparr>"

lemma run_candidate: "isCandidateGoFile run_file"
  by (simp add: isCandidateGoFile_def run_file_def lit_def suffix_to_prefix)

lemma run_read: "readFile run_world run_world p fc = (Ok [65], fc)"
  by (simp add: readFile_def run_world_def)

lemma run_clause: "engineClauseName run_env run_world p fc = (Some [97], fc)"
  by (simp add: engineClauseName_def run_read run_env_def)

lemma run_not_test: "\<not> suffix (lit s) [97]" if "length s > 1" for s
  using that by (auto dest!: suffix_length_le)

lemma run_resolve: "resolveFiles run_env run_world run_info [100] fc = (Ok [run_file], fc)"
proof -
  have "listCandidateFiles run_env run_world [100] = Ok [run_file]"
    by (simp add: listCandidateFiles_def run_candidate run_world_def run_env_def)
  moreover have "externalTestVariant (piPkgPath run_info) = None"
    by (auto dest: suffix_length_le simp: externalTestVariant_def cutSuffix_def externalTestPkgPathMarker_def run_info_def)
  ultimately show ?thesis
    by (simp add: resolveFiles_def engineCanonicalName_def run_info_def run_clause run_not_test)
qed

lemma run_hash: "filesAndHash run_env run_world run_info [100] fc = (Ok ([run_file], []), fc)"
proof -
  have "ceHash run_env bs = []" for bs by (simp add: run_env_def)
  then show ?thesis by (simp add: filesAndHash_def run_resolve engineContentHash_def run_read hexBytes_def)
qed


text \<open>An edit, its timer, and the recheck that follows, stage by stage.\<close>

definition run_armed :: "(bytes, unit) engine" where
  "run_armed = Invalidate [100] (SetFocus (Some ([109], [100], [])) (NewEngine run_opts))"

definition run_cp :: "(bytes, unit) checked" where
  "run_cp = checkedOf run_types 0 run_info [100] [] [[65]] [run_file \<mapsto> [65]] []"

definition run_started :: "(bytes, unit) engine" where
  "run_started = startJob 0 (fireTimer 0 run_armed)"

definition run_gen :: "(bytes, unit) engine" where
  "run_gen = nextGenStep 0 run_info (recheckLookup run_env run_world (\<lambda>_. None) 0 run_started)"

definition run_commit :: "(bytes, unit) engine" where
  "run_commit = recheckTypes run_types 0 0 run_info 1 [] [[65]] [run_file \<mapsto> [65]] []
     (recheckParse run_env run_world 0 run_info 1 [run_file] [] (recheckHash run_env run_world 0 run_info 1 run_gen))"

definition run_publish :: "(bytes, unit) engine" where
  "run_publish = recheckRetired 0 1 run_cp (recheckCommit 0 0 1 run_cp run_commit)"

definition run_end :: "(bytes, unit) engine" where
  "run_end = recheckPublish run_env run_world 0 1 run_cp run_publish"

lemma run_unitKey: "unitKeyFor [109] [100] = run_key"
proof -
  have "\<not> suffix externalTestPkgPathMarker [109]"
    by (auto dest: suffix_length_le simp: externalTestPkgPathMarker_def)
  then show ?thesis by (simp add: unitKeyFor_def run_key_def externalTestVariant_def cutSuffix_def)
qed

lemmas run_simps = NewEngine_def SetFocus_def run_unitKey Invalidate_def Let_def armDebounceLocked_def jobStateLocked_def
  newDirState_def setJob_def unitKnownLocked_def stopTimerDone_def fireTimer_def startJob_def stopTimerOnly_def isArmed_def
  cancelCtx_def stopTimer_def setPc_def stageEnd_def ctxErr_def recheckLookup_def nextGenStep_def
  run_opts_def run_key_def

lemma run_started_state:
  "enProcs run_started = [\<lparr>prKey = run_key, prFlight = None, prCtx = 0, prEpoch = Some 1, prRetry = False, prPc = PcLookup\<rparr>]"
  "enDirs run_started = [run_key \<mapsto> run_info]" "enCtxs run_started = [False]"
  by (simp_all add: run_started_def run_armed_def run_simps run_info_def)

lemma run_lookup_state:
  "prPc (enProcs (recheckLookup run_env run_world (\<lambda>_. None) 0 run_started) ! 0) = PcGen run_info"
  by (simp add: recheckLookup_def run_started_state stageEnd_def ctxErr_def setPc_def)

lemma run_gen_state:
  "enProcs run_gen = [\<lparr>prKey = run_key, prFlight = None, prCtx = 0, prEpoch = Some 1, prRetry = False, prPc = PcHash run_info 1\<rparr>]"
  "enCtxs run_gen = [False]" "enJobs run_gen = [run_key \<mapsto> \<lparr>dsTimer = None, dsCancel = Some 0, dsEpoch = 1, dsGen = 1, dsDoneGen = 0, dsPubGen = 0\<rparr>]"
  "enCache run_gen = []" "enFiles run_gen = []" "enPending run_gen = 1" "enCommitted run_gen = []" "enPublished run_gen = []" "enRetired run_gen = False"
  "enOpts run_gen = \<lparr>opMaxLRU = 6, opDebounceDelay = 200000000, opOnResult = True\<rparr>"
  by (simp_all add: run_gen_def run_started_def run_armed_def run_simps defaultMaxLRU_def defaultDebounceDelay_def run_info_def)

lemma run_parse: "parseFiles run_env run_world [run_file] = ([[65]], [run_file \<mapsto> [65]], [])"
  by (simp add: parseFiles_def sortErrors_def run_world_def run_env_def)

lemmas run_stages = run_gen_state recheckHash_def run_hash recheckParse_def run_parse recheckTypes_def stageEnd_def ctxErr_def setPc_def

lemma run_hash_state:
  "prPc (enProcs (recheckHash run_env run_world 0 run_info 1 run_gen) ! 0) = PcParse run_info 1 [run_file] []"
  "prPc (enProcs (recheckParse run_env run_world 0 run_info 1 [run_file] [] (recheckHash run_env run_world 0 run_info 1 run_gen)) ! 0)
     = PcTypes run_info 1 [] [[65]] [run_file \<mapsto> [65]] []"
  by (simp_all add: run_stages run_key_def)

lemma run_commit_state:
  "enProcs run_commit = [\<lparr>prKey = run_key, prFlight = None, prCtx = 0, prEpoch = Some 1, prRetry = False, prPc = PcCommit 1 run_cp\<rparr>]"
  "enJobs run_commit = enJobs run_gen" "enCache run_commit = []" "enOpts run_commit = enOpts run_gen" "enRetired run_commit = False"
  "enCommitted run_commit = []" "enPublished run_commit = []"
  by (simp_all add: run_commit_def run_stages run_key_def run_cp_def)

lemmas run_effects = run_commit_state recheckCommit_def commitCache_def recheckRetired_def setPc_def setJob_def jobStateLocked_def Let_def

lemma run_commit_end: "prPc (enProcs (recheckCommit 0 0 1 run_cp run_commit) ! 0) = PcRetired 1 run_cp"
  by (simp add: run_effects run_gen_state)

lemma run_publish_state:
  "enProcs run_publish = [\<lparr>prKey = run_key, prFlight = None, prCtx = 0, prEpoch = Some 1, prRetry = False, prPc = PcPublish 1 run_cp\<rparr>]"
  "enCommitted run_publish = [(run_key, 1, run_cp)]" "enPublished run_publish = []"
  "enCache run_publish = [(run_key, \<lparr>caPkg = run_cp, caLastUsed = 0\<rparr>)]"
  "enJobs run_publish = [run_key \<mapsto> \<lparr>dsTimer = None, dsCancel = Some 0, dsEpoch = 1, dsGen = 1, dsDoneGen = 1, dsPubGen = 0\<rparr>]"
  by (simp_all add: run_publish_def run_effects run_gen_state)

lemma run_end_state:
  "map (\<lambda>(k, g, _). (k, g)) (enPublished run_end) = [(run_key, 1)]" "enCommitted run_end = [(run_key, 1, run_cp)]"
  "enCache run_end = [(run_key, \<lparr>caPkg = run_cp, caLastUsed = 0\<rparr>)]"
  by (simp_all add: run_end_def recheckPublish_def commitPublish_def run_publish_state setPc_def setJob_def jobStateLocked_def Let_def)

lemma run_step: "engineRun run_env e e' \<Longrightarrow> recheckStep run_env 0 e' e'' \<Longrightarrow> engineRun run_env e e''"
  by (meson engineStep.recheck rtranclp.rtrancl_into_rtrancl)

lemma run_to_armed: "engineRun run_env (NewEngine run_opts) run_armed"
proof -
  have "engineRun run_env (NewEngine run_opts) (SetFocus (Some ([109], [100], [])) (NewEngine run_opts))"
    by (rule r_into_rtranclp, rule engineStep.focus)
  then show ?thesis unfolding run_armed_def by (rule rtranclp.rtrancl_into_rtrancl) (rule engineStep.invalidate)
qed

lemma run_to_started: "engineRun run_env (NewEngine run_opts) run_started"
proof -
  have T: "isArmed run_armed 0" by (simp add: run_armed_def run_simps)
  have "prPc (enProcs (fireTimer 0 run_armed) ! 0) = PcFire" "0 < length (enProcs (fireTimer 0 run_armed))"
    by (simp_all add: run_armed_def run_simps)
  then have "recheckStep run_env 0 (fireTimer 0 run_armed) run_started"
    unfolding run_started_def by (intro recheckStep.start)
  with rtranclp.rtrancl_into_rtrancl [OF run_to_armed engineStep.fire [OF T]] show ?thesis by (rule run_step)
qed

lemma run_to_publish: "engineRun run_env (NewEngine run_opts) run_publish"
proof -
  have L: "0 < length (enProcs run_started)" "prPc (enProcs run_started ! 0) = PcLookup" by (simp_all add: run_started_state)
  note 1 = run_step [OF run_to_started recheckStep.lookup [OF L, where w = run_world and pkgForFile = "\<lambda>_. None"]]
  have "0 < length (enProcs (recheckLookup run_env run_world (\<lambda>_. None) 0 run_started))"
    by (simp add: recheckLookup_def run_started_state stageEnd_def ctxErr_def setPc_def)
  note 2 = run_step [OF 1 recheckStep.gen [OF this run_lookup_state]]
  have "0 < length (enProcs run_gen)" "prPc (enProcs run_gen ! 0) = PcHash run_info 1" by (simp_all add: run_gen_state)
  note 3 = run_step [OF 2 [folded run_gen_def] recheckStep.hash [OF this, where w = run_world]]
  have "0 < length (enProcs (recheckHash run_env run_world 0 run_info 1 run_gen))" by (simp add: run_stages run_key_def)
  note 4 = run_step [OF 3 recheckStep.parse [OF this run_hash_state(1), where w = run_world]]
  have "0 < length (enProcs (recheckParse run_env run_world 0 run_info 1 [run_file] [] (recheckHash run_env run_world 0 run_info 1 run_gen)))"
    by (simp add: run_stages run_key_def)
  note 5 = run_step [OF 4 recheckStep.types [OF this run_hash_state(2), where tc = run_types and now = 0]]
  have "0 < length (enProcs run_commit)" "prPc (enProcs run_commit ! 0) = PcCommit 1 run_cp" by (simp_all add: run_commit_state)
  note 6 = run_step [OF 5 [folded run_commit_def] recheckStep.commit [OF this, where now = 0]]
  have "0 < length (enProcs (recheckCommit 0 0 1 run_cp run_commit))" by (simp add: run_effects run_gen_state)
  from run_step [OF 6 recheckStep.retired [OF this run_commit_end]] show ?thesis by (simp add: run_publish_def)
qed

lemma run_to_end: "engineRun run_env (NewEngine run_opts) run_end"
  unfolding run_end_def
  by (rule run_step [OF run_to_publish recheckStep.publish]) (simp_all add: run_publish_state)

section \<open>Ordered effects\<close>

text \<open>
  C36. In every run, the results of a unit are published in the order in which the rechecks took
  their generations, and the packages are written to the cache in that order: an older recheck that
  ends late neither replaces nor overwrites a newer one. Only committed packages are published, and
  the cached package of a unit is the newest committed one.
\<close>

theorem engine_effects_ordered:
  assumes "engineRun env (NewEngine opts) e"
  shows "sorted_wrt (<) (gensIn k (enPublished e)) \<and> sorted_wrt (<) (gensIn k (enCommitted e))
    \<and> set (gensIn k (enPublished e)) \<subseteq> set (gensIn k (enCommitted e))
    \<and> (\<forall>en. map_of (enCache e) k = Some en \<longrightarrow>
         (\<exists>g. (k, g, caPkg en) \<in> set (enCommitted e) \<and> (\<forall>h \<in> set (gensIn k (enCommitted e)). h \<le> g)))"
proof -
  have U: "unitLogsOk e k" using orderInv_run [OF assms orderInv_init] by (simp add: orderInv_def)
  then have "\<exists>g. (k, g, caPkg en) \<in> set (enCommitted e) \<and> (\<forall>h \<in> set (gensIn k (enCommitted e)). h \<le> g)"
    if "map_of (enCache e) k = Some en" for en
    using that by (intro exI [of _ "fst (snd (gensOf e k))"]) (simp add: unitLogsOk_def logOk_def)
  with U show ?thesis by (simp add: unitLogsOk_def logOk_def)
qed

theorem engine_effects_ordered_witness:
  "sorted_wrt (<) (gensIn run_key (enPublished run_end)) \<and> gensIn run_key (enPublished run_end) = [1]
    \<and> enCommitted run_end = [(run_key, 1, run_cp)]"
proof -
  have "gensIn run_key (enPublished run_end) = map snd (map (\<lambda>(k, g, _). (k, g)) (enPublished run_end))"
    using run_end_state(1) by (auto simp: gensIn_def map_eq_Cons_conv)
  with engine_effects_ordered [OF run_to_end, of run_key] show ?thesis by (simp add: run_end_state)
qed

section \<open>A bounded cache\<close>

text \<open>
  C39. In every run the cache holds at most \<open>MaxLRU\<close> units, the default of six if the option is
  not positive, or three if that is more; a unit is only evicted when it is outside the focused
  directory and no other such unit was used longer ago.
\<close>

theorem engine_cache_bounded:
  assumes "engineRun env (NewEngine opts) e"
  shows "int (length (enCache e)) \<le> max (if opMaxLRU opts \<le> 0 then 6 else opMaxLRU opts) 3
    \<and> distinct (map fst (enCache e))
    \<and> (\<forall>k en. map_of (enCache e) k = Some en \<longrightarrow> map_of (enCache (evictLocked e)) k = None \<longrightarrow>
       unDir k \<noteq> enFocus e
       \<and> (\<forall>k' en'. map_of (enCache e) k' = Some en' \<longrightarrow> unDir k' \<noteq> enFocus e \<longrightarrow> caLastUsed en \<le> caLastUsed en'))"
proof -
  from sizeInv_run [OF assms sizeInv_init]
  have 1: "int (length (enCache e)) \<le> max (if opMaxLRU opts \<le> 0 then 6 else opMaxLRU opts) 3"
    "distinct (map fst (enCache e))"
    by (simp_all add: sizeInv_def NewEngine_def defaultMaxLRU_def split: if_splits)
  then show ?thesis using evictLocked_victim [OF 1(2)] by blast
qed

theorem engine_cache_bounded_witness:
  "length (enCache run_end) = 1 \<and> int (length (enCache run_end)) \<le> 6"
  using engine_cache_bounded [OF run_to_end] by (simp add: run_end_state run_opts_def)

section \<open>Waiting\<close>

text \<open>
  C38. In every run the counter behind \<open>Wait\<close> is the number of armed timers, plus the number of
  goroutines that run a recheck, plus the timers that were dropped without a \<open>Done\<close>: it is never
  negative, so that \<open>WaitGroup\<close> does not panic, and when \<open>Wait\<close> returns nothing is armed or
  running.
\<close>

theorem engine_wait_sound:
  assumes "engineRun env (NewEngine opts) e"
  shows "enPending e = int (armedTimers e) + int (liveProcs e) + int (enDropped e)
    \<and> (waitReturns e \<longrightarrow> armedTimers e = 0 \<and> liveProcs e = 0)"
proof -
  have "surplus e = 0" using surplus_run [OF assms] by (simp add: surplus_init)
  then show ?thesis by (auto simp: surplus_def waitReturns_def)
qed

theorem engine_wait_sound_witness:
  "enPending run_started = int (armedTimers run_started) + int (liveProcs run_started) + int (enDropped run_started)
    \<and> liveProcs run_started = 1"
  using engine_wait_sound [OF run_to_started] by (simp add: liveProcs_def run_started_state)



section \<open>Where the shutdown leaks\<close>

text \<open>
  \<open>Retire\<close> drops an armed timer without a \<open>Done\<close>: the counter stays at one although nothing is
  armed or running, and a \<open>Wait\<close> after it does not return.
\<close>

lemma retire_leaves_counter:
  "engineRun run_env (NewEngine run_opts) (Retire [run_key] run_armed)
    \<and> enPending (Retire [run_key] run_armed) = 1 \<and> armedTimers (Retire [run_key] run_armed) = 0
    \<and> enProcs (Retire [run_key] run_armed) = [] \<and> enGets (Retire [run_key] run_armed) = []"
proof -
  have "enRetired (setRetired run_armed)" by (simp add: setRetired_def)
  then have "engineRun run_env (NewEngine run_opts) (retireLocked [run_key] (setRetired run_armed))"
    by (rule rtranclp.rtrancl_into_rtrancl [OF rtranclp.rtrancl_into_rtrancl [OF run_to_armed engineStep.set_retired] engineStep.retire])
  then show ?thesis
    by (simp add: Retire_def) (simp add: retireLocked_def retireJob_def setRetired_def run_armed_def run_simps armedTimers_def)
qed

text \<open>
  So does \<open>startJob\<close>, when the directory was edited again between the firing of its timer and the
  start of the job: the second timer is stopped without a \<open>Done\<close>.
\<close>

lemma startJob_leaves_counter:
  "enDropped (startJob 0 (Invalidate [100] (fireTimer 0 run_armed))) = 1
    \<and> armedTimers (startJob 0 (Invalidate [100] (fireTimer 0 run_armed))) = 0
    \<and> enPending (startJob 0 (Invalidate [100] (fireTimer 0 run_armed))) = 2
    \<and> liveProcs (startJob 0 (Invalidate [100] (fireTimer 0 run_armed))) = 1"
  by (simp add: run_armed_def run_simps armedTimers_def liveProcs_def)

text \<open>
  A recheck that has read \<open>retired\<close> before \<open>Stop\<close> still publishes after \<open>Stop\<close> has returned.
\<close>

lemma publish_after_stop:
  "engineRun run_env (NewEngine run_opts) (recheckPublish run_env run_world 0 1 run_cp (Stop [run_key] run_publish))
    \<and> enPublished (Stop [run_key] run_publish) = []
    \<and> enPublished (recheckPublish run_env run_world 0 1 run_cp (Stop [run_key] run_publish)) \<noteq> []"
proof -
  have P: "enProcs (Stop [run_key] run_publish) = enProcs run_publish" "enPublished (Stop [run_key] run_publish) = []"
    "enRetired (setRetired run_publish)" "dsPubGen (jobStateLocked run_key (Stop [run_key] run_publish)) = 0"
    by (simp_all add: Stop_def stopLocked_def stopJob_def setRetired_def run_publish_state setJob_def stopTimerDone_def cancelCtx_def jobStateLocked_def)
  have "engineRun run_env (NewEngine run_opts) (Stop [run_key] run_publish)"
    unfolding Stop_def by (meson run_to_publish engineStep.set_retired engineStep.stop [OF P(3)] rtranclp.rtrancl_into_rtrancl)
  then have "engineRun run_env (NewEngine run_opts) (recheckPublish run_env run_world 0 1 run_cp (Stop [run_key] run_publish))"
    by (rule run_step) (rule recheckStep.publish; simp add: P run_publish_state)
  moreover have "enPublished (recheckPublish run_env run_world 0 1 run_cp (Stop [run_key] run_publish)) \<noteq> []"
    by (simp add: recheckPublish_def commitPublish_def P run_publish_state Let_def)
  ultimately show ?thesis using P(2) by blast
qed

end
