(* ===== verification/Xref_Cache.thy ===== *)
theory Xref_Cache
  imports Index_Unit
begin

text \<open>
  The two caches of \<open>internal/xref\<close>: the decoded unit blobs (\<open>unitcache.go\<close>), bounded by a number
  of entries and a number of bytes, and the memo of confirmed candidates (\<open>confirmmemo.go\<close>). Both
  are lists with the most recently used entry in front; the \<open>index\<close> map of the code is the lookup
  of a key in that list. Every operation holds the cache's mutex throughout.
\<close>

section \<open>Lists in order of use\<close>

definition toFront :: "('a \<Rightarrow> 'k) \<Rightarrow> 'k \<Rightarrow> 'a list \<Rightarrow> 'a list" where
  "toFront key k es = (case find (\<lambda>e. key e = k) es of None \<Rightarrow> es | Some e \<Rightarrow> e # filter (\<lambda>e. key e \<noteq> k) es)"

definition touch :: "'k \<Rightarrow> 'k list \<Rightarrow> 'k list" where
  "touch k ks = k # filter (\<lambda>x. x \<noteq> k) ks"

lemma find_key: "find (\<lambda>e. key e = k) es = Some e \<Longrightarrow> e \<in> set es \<and> key e = k"
  by (auto simp: find_Some_iff)

lemma find_key_None: "find (\<lambda>e. key e = k) es = None \<longleftrightarrow> k \<notin> key ` set es"
  by (auto simp: find_None_iff)

lemma find_distinct: "distinct (map key es) \<Longrightarrow> e \<in> set es \<Longrightarrow> find (\<lambda>x. key x = key e) es = Some e"
  by (induction es) force+

lemma map_toFront:
  "find (\<lambda>e. key e = k) es = Some e \<Longrightarrow> map key (toFront key k es) = touch k (map key es)"
  by (auto simp: toFront_def touch_def filter_map comp_def dest: find_key)

lemma toFront_absent: "k \<notin> key ` set es \<Longrightarrow> toFront key k es = es"
  using find_key_None [of key k es] by (simp add: toFront_def)

lemma mset_without: "distinct (map key es) \<Longrightarrow> find (\<lambda>x. key x = k) es = Some e \<Longrightarrow>
    add_mset e (mset (filter (\<lambda>x. key x \<noteq> k) es)) = mset es"
proof (induction es)
  case (Cons x es)
  show ?case
  proof (cases "key x = k")
    case True
    then have "k \<notin> key ` set es" using Cons.prems(1) by auto
    then have "filter (\<lambda>x. key x \<noteq> k) es = es" by (intro filter_True) blast
    then show ?thesis using True Cons.prems by simp
  qed (use Cons in auto)
qed simp

lemma mset_toFront: "distinct (map key es) \<Longrightarrow> mset (toFront key k es) = mset es"
  using mset_without [of key es k] by (auto simp: toFront_def split: option.splits)

lemma distinct_touch: "distinct ks \<Longrightarrow> distinct (touch k ks)"
  by (simp add: touch_def)

lemma prefix_touch: "prefix xs ys \<Longrightarrow> prefix (touch k xs) (touch k ys)"
  by (auto simp: touch_def prefix_def)

lemma prefix_touch_new: "prefix xs ys \<Longrightarrow> k \<notin> set xs \<Longrightarrow> prefix (k # xs) (touch k ys)"
proof -
  assume p: "prefix xs ys" "k \<notin> set xs"
  then have "filter (\<lambda>x. x \<noteq> k) xs = xs" by (auto simp: filter_id_conv)
  then show ?thesis using prefix_touch [OF p(1), of k] by (simp add: touch_def)
qed

section \<open>The cache of unit blobs\<close>

definition unitCacheCapacity :: nat where "unitCacheCapacity = 512"
definition defaultUnitCacheBytes :: int where "defaultUnitCacheBytes = 256 * 2 ^ 20"
definition entrySizeOverhead :: int where "entrySizeOverhead = 64"

record unit_cache_entry =
  uceBlobKey :: u64
  uceFacts :: bytes
  uceExport :: bytes

record unit_cache =
  ucOrder :: "unit_cache_entry list"
  ucMaxBytes :: int
  ucNumBytes :: int
  ucHits :: nat
  ucMisses :: nat

definition entrySize :: "unit_cache_entry \<Rightarrow> int" where
  "entrySize e = int (length (uceFacts e)) + int (length (uceExport e)) + entrySizeOverhead"

definition newUnitCache :: "int \<Rightarrow> unit_cache" where
  "newUnitCache maxBytes = \<lparr>ucOrder = [], ucMaxBytes = maxBytes, ucNumBytes = 0, ucHits = 0, ucMisses = 0\<rparr>"

definition ucIndex :: "unit_cache \<Rightarrow> u64 \<Rightarrow> unit_cache_entry option" where
  "ucIndex c blobKey = find (\<lambda>e. uceBlobKey e = blobKey) (ucOrder c)"

text \<open>\<open>get\<close> returns the facts and the export data only; the other fields of the blob are zero.\<close>

definition cachedBlob :: "unit_cache_entry \<Rightarrow> unit_blob" where
  "cachedBlob e = \<lparr>ubFacts = uceFacts e, ubExport = uceExport e, ubFiles = [],
     ubIndex = \<lparr>pieNames = [], pieMethods = [], pieSymStrs = [], piePostings = []\<rparr>\<rparr>"

definition ucGet :: "u64 \<Rightarrow> unit_cache \<Rightarrow> unit_blob option \<times> unit_cache" where
  "ucGet blobKey c =
     (case ucIndex c blobKey of
        None \<Rightarrow> (None, c\<lparr>ucMisses := ucMisses c + 1\<rparr>)
      | Some e \<Rightarrow> (Some (cachedBlob e), c\<lparr>ucHits := ucHits c + 1, ucOrder := toFront uceBlobKey blobKey (ucOrder c)\<rparr>))"

definition ucStats :: "unit_cache \<Rightarrow> nat \<times> nat" where
  "ucStats c = (ucHits c, ucMisses c)"

definition evictOldestUnit :: "unit_cache \<Rightarrow> unit_cache" where
  "evictOldestUnit c =
     (if ucOrder c = [] then c
      else c\<lparr>ucOrder := butlast (ucOrder c), ucNumBytes := ucNumBytes c - entrySize (last (ucOrder c))\<rparr>)"

function makeRoom :: "int \<Rightarrow> unit_cache \<Rightarrow> unit_cache" where
  "makeRoom sz c =
     (if length (ucOrder c) > 0 \<and> (length (ucOrder c) \<ge> unitCacheCapacity \<or> ucNumBytes c + sz > ucMaxBytes c)
      then makeRoom sz (evictOldestUnit c) else c)"
  by pat_completeness auto
termination
  by (relation "measure (\<lambda>(sz, c). length (ucOrder c))") (auto simp: evictOldestUnit_def)

declare makeRoom.simps [simp del]

definition ucInsert :: "unit_cache_entry \<Rightarrow> unit_cache \<Rightarrow> unit_cache" where
  "ucInsert e c =
     (let c1 = makeRoom (entrySize e) c
      in c1\<lparr>ucOrder := e # ucOrder c1, ucNumBytes := ucNumBytes c1 + entrySize e\<rparr>)"

definition ucPut :: "u64 \<Rightarrow> unit_blob \<Rightarrow> unit_cache \<Rightarrow> unit_cache" where
  "ucPut blobKey u c =
     (case ucIndex c blobKey of
        Some _ \<Rightarrow> c\<lparr>ucOrder := toFront uceBlobKey blobKey (ucOrder c)\<rparr>
      | None \<Rightarrow> ucInsert \<lparr>uceBlobKey = blobKey, uceFacts = ubFacts u, uceExport = ubExport u\<rparr> c)"

section \<open>The memo of confirmed candidates\<close>

definition confirmMemoCapacity :: nat where "confirmMemoCapacity = 4096"

record ('k, 'v) confirm_memo =
  cmOrder :: "('k \<times> 'v) list"
  cmCap :: nat

definition newConfirmMemo :: "nat \<Rightarrow> ('k, 'v) confirm_memo" where
  "newConfirmMemo capacity = \<lparr>cmOrder = [], cmCap = capacity\<rparr>"

definition cmIndex :: "('k, 'v) confirm_memo \<Rightarrow> 'k \<Rightarrow> ('k \<times> 'v) option" where
  "cmIndex m key = find (\<lambda>e. fst e = key) (cmOrder m)"

definition cmGet :: "'k \<Rightarrow> ('k, 'v) confirm_memo \<Rightarrow> 'v option \<times> ('k, 'v) confirm_memo" where
  "cmGet key m =
     (case cmIndex m key of
        None \<Rightarrow> (None, m)
      | Some e \<Rightarrow> (Some (snd e), m\<lparr>cmOrder := toFront fst key (cmOrder m)\<rparr>))"

text \<open>The loop removes the last entry while there are more than \<open>cap\<close>.\<close>

fun dropOldest :: "nat \<Rightarrow> 'a list \<Rightarrow> nat \<Rightarrow> 'a list" where
  "dropOldest cap xs 0 = xs"
| "dropOldest cap xs (Suc k) = (if length xs > cap then dropOldest cap (butlast xs) k else xs)"

definition cmPut :: "'k \<Rightarrow> 'v \<Rightarrow> ('k, 'v) confirm_memo \<Rightarrow> ('k, 'v) confirm_memo" where
  "cmPut key v m =
     (case cmIndex m key of
        Some _ \<Rightarrow> m\<lparr>cmOrder := toFront fst key (cmOrder m)\<rparr>
      | None \<Rightarrow> (let order = (key, v) # cmOrder m in m\<lparr>cmOrder := dropOldest (cmCap m) order (length order)\<rparr>))"

definition cmClear :: "('k, 'v) confirm_memo \<Rightarrow> ('k, 'v) confirm_memo" where
  "cmClear m = m\<lparr>cmOrder := []\<rparr>"

definition cmLen :: "('k, 'v) confirm_memo \<Rightarrow> nat" where
  "cmLen m = length (cmOrder m)"

lemma dropOldest_take: "length xs \<le> k + cap \<Longrightarrow> dropOldest cap xs k = take cap xs"
  by (induction k arbitrary: xs) (auto simp: take_butlast)

section \<open>What the unit cache holds\<close>

definition ucInv :: "unit_cache \<Rightarrow> bool" where
  "ucInv c \<longleftrightarrow> distinct (map uceBlobKey (ucOrder c)) \<and> ucNumBytes c = (\<Sum>e\<leftarrow>ucOrder c. entrySize e)
     \<and> length (ucOrder c) \<le> unitCacheCapacity \<and> (ucNumBytes c \<le> ucMaxBytes c \<or> length (ucOrder c) \<le> 1)"

lemma entrySize_pos: "entrySize e > 0"
  by (simp add: entrySize_def entrySizeOverhead_def)

lemma sum_list_mset_cong: "mset xs = mset ys \<Longrightarrow> (\<Sum>e\<leftarrow>xs. f e) = (\<Sum>e\<leftarrow>ys. f e :: int)"
  by (metis mset_map sum_mset_sum_list)

lemma ucInv_toFront:
  assumes "ucInv c"
  shows "ucInv (c\<lparr>ucOrder := toFront uceBlobKey k (ucOrder c)\<rparr>)"
proof -
  have m: "mset (toFront uceBlobKey k (ucOrder c)) = mset (ucOrder c)"
    using assms by (intro mset_toFront) (simp add: ucInv_def)
  then have "distinct (map uceBlobKey (toFront uceBlobKey k (ucOrder c)))"
    using assms by (metis mset_eq_imp_distinct_iff mset_map ucInv_def)
  then show ?thesis
    using assms m mset_eq_length [OF m] sum_list_mset_cong [OF m, of entrySize] by (auto simp: ucInv_def)
qed

lemma evictOldestUnit_effect:
  assumes "ucOrder c \<noteq> []" "ucNumBytes c = (\<Sum>e\<leftarrow>ucOrder c. entrySize e)"
  shows "ucNumBytes (evictOldestUnit c) = (\<Sum>e\<leftarrow>ucOrder (evictOldestUnit c). entrySize e)"
    "prefix (ucOrder (evictOldestUnit c)) (ucOrder c)" "ucMaxBytes (evictOldestUnit c) = ucMaxBytes c"
proof -
  obtain es e where es: "ucOrder c = es @ [e]" using assms(1) by (metis append_butlast_last_id)
  then show "ucNumBytes (evictOldestUnit c) = (\<Sum>e\<leftarrow>ucOrder (evictOldestUnit c). entrySize e)"
    "prefix (ucOrder (evictOldestUnit c)) (ucOrder c)" "ucMaxBytes (evictOldestUnit c) = ucMaxBytes c"
    using assms(2) by (simp_all add: evictOldestUnit_def)
qed

lemma makeRoom_effect:
  "ucNumBytes c = (\<Sum>e\<leftarrow>ucOrder c. entrySize e) \<Longrightarrow>
    ucNumBytes (makeRoom s c) = (\<Sum>e\<leftarrow>ucOrder (makeRoom s c). entrySize e)
    \<and> prefix (ucOrder (makeRoom s c)) (ucOrder c) \<and> ucMaxBytes (makeRoom s c) = ucMaxBytes c
    \<and> (ucOrder (makeRoom s c) = [] \<or> length (ucOrder (makeRoom s c)) < unitCacheCapacity
        \<and> ucNumBytes (makeRoom s c) + s \<le> ucMaxBytes c)"
proof (induction s c rule: makeRoom.induct)
  case (1 s c)
  show ?case
  proof (cases "length (ucOrder c) > 0 \<and> (length (ucOrder c) \<ge> unitCacheCapacity \<or> ucNumBytes c + s > ucMaxBytes c)")
    case True
    then have ne: "ucOrder c \<noteq> []" by simp
    note e = evictOldestUnit_effect [OF ne 1(2)]
    have "makeRoom s c = makeRoom s (evictOldestUnit c)" by (subst makeRoom.simps) (use True in simp)
    then show ?thesis using 1(1) [OF True e(1)] e(2,3) prefix_order.order_trans by fastforce
  next
    case False
    then have "makeRoom s c = c" using makeRoom.simps [of s c] by (simp only: if_False)
    then show ?thesis using False 1(2) by auto
  qed
qed

lemma distinct_prefix: "prefix xs ys \<Longrightarrow> distinct (map f ys) \<Longrightarrow> distinct (map f xs)"
  by (auto simp: prefix_def)

lemma ucInv_put:
  assumes "ucInv c"
  shows "ucInv (ucPut k u c)"
proof (cases "ucIndex c k")
  case (Some e)
  then show ?thesis using ucInv_toFront [OF assms] by (simp add: ucPut_def)
next
  case None
  let ?e = "\<lparr>uceBlobKey = k, uceFacts = ubFacts u, uceExport = ubExport u\<rparr>"
  let ?c = "makeRoom (entrySize ?e) c"
  have new: "k \<notin> uceBlobKey ` set (ucOrder c)" using None by (simp add: ucIndex_def find_key_None)
  have sum: "ucNumBytes c = (\<Sum>e\<leftarrow>ucOrder c. entrySize e)" using assms by (simp add: ucInv_def)
  have room: "ucNumBytes ?c = (\<Sum>e\<leftarrow>ucOrder ?c. entrySize e)" "prefix (ucOrder ?c) (ucOrder c)"
    "ucMaxBytes ?c = ucMaxBytes c" "ucOrder ?c = [] \<or> length (ucOrder ?c) < unitCacheCapacity
        \<and> ucNumBytes ?c + entrySize ?e \<le> ucMaxBytes c"
    using makeRoom_effect [OF sum, of "entrySize ?e"] by blast+
  have d: "distinct (map uceBlobKey (ucOrder ?c))"
    using assms room(2) distinct_prefix by (auto simp: ucInv_def)
  have "k \<notin> uceBlobKey ` set (ucOrder ?c)" using new set_mono_prefix [OF room(2)] by blast
  then show ?thesis
    using None room(1,3,4) d by (auto simp: ucPut_def ucInsert_def Let_def ucInv_def unitCacheCapacity_def)
qed

lemma ucInv_get: "ucInv c \<Longrightarrow> ucInv (snd (ucGet k c))"
  using ucInv_toFront [of c k] by (auto simp: ucGet_def ucInv_def split: option.splits)

text \<open>What a cache may answer: \<open>P k facts export\<close> for every entry.\<close>

definition ucSound :: "(u64 \<Rightarrow> bytes \<Rightarrow> bytes \<Rightarrow> bool) \<Rightarrow> unit_cache \<Rightarrow> bool" where
  "ucSound P c \<longleftrightarrow> (\<forall>e \<in> set (ucOrder c). P (uceBlobKey e) (uceFacts e) (uceExport e))"

lemma set_toFront: "set (toFront key k es) \<subseteq> set es"
  by (auto simp: toFront_def split: option.splits dest: find_key)

lemma makeRoom_subset: "set (ucOrder (makeRoom s c)) \<subseteq> set (ucOrder c)"
proof (induction s c rule: makeRoom.induct)
  case (1 s c)
  have "set (ucOrder (evictOldestUnit c)) \<subseteq> set (ucOrder c)" by (auto simp: evictOldestUnit_def dest: in_set_butlastD)
  then show ?case using 1 makeRoom.simps [of s c] by (auto split: if_splits)
qed

lemma ucSound_new [simp]: "ucSound P (newUnitCache m)"
  by (simp add: ucSound_def newUnitCache_def)

lemma ucSound_get: "ucSound P c \<Longrightarrow> ucSound P (snd (ucGet k c))"
  using set_toFront [of uceBlobKey k "ucOrder c"] by (auto simp: ucSound_def ucGet_def split: option.splits)

lemma ucSound_put: "ucSound P c \<Longrightarrow> P k (ubFacts u) (ubExport u) \<Longrightarrow> ucSound P (ucPut k u c)"
  using set_toFront [of uceBlobKey k "ucOrder c"]
    makeRoom_subset [of "entrySize \<lparr>uceBlobKey = k, uceFacts = ubFacts u, uceExport = ubExport u\<rparr>" c]
  by (auto simp: ucSound_def ucPut_def ucInsert_def Let_def split: option.splits)

lemma ucGet_sound: "ucSound P c \<Longrightarrow> fst (ucGet k c) = Some u \<Longrightarrow> P k (ubFacts u) (ubExport u)"
  by (auto simp: ucGet_def ucSound_def cachedBlob_def ucIndex_def split: option.splits dest: find_key)

section \<open>Runs of the unit cache\<close>

datatype uc_op = UcGet u64 | UcPut u64 unit_blob

fun ucStep :: "uc_op \<Rightarrow> unit_cache \<Rightarrow> unit_cache" where
  "ucStep (UcGet k) c = snd (ucGet k c)"
| "ucStep (UcPut k u) c = ucPut k u c"

text \<open>The keys in the order of their last use: a use is a \<open>put\<close>, or a \<open>get\<close> that hits.\<close>

fun ucUse :: "uc_op \<Rightarrow> unit_cache \<times> u64 list \<Rightarrow> unit_cache \<times> u64 list" where
  "ucUse (UcGet k) (c, ks) = (ucStep (UcGet k) c, if ucIndex c k = None then ks else touch k ks)"
| "ucUse (UcPut k u) (c, ks) = (ucStep (UcPut k u) c, touch k ks)"

lemma put_prefix:
  assumes "ucInv c" "prefix (map uceBlobKey (ucOrder c)) ks"
  shows "prefix (map uceBlobKey (ucOrder (ucPut k u c))) (touch k ks)"
proof (cases "ucIndex c k")
  case (Some e)
  then show ?thesis
    using prefix_touch [OF assms(2)] by (simp add: ucPut_def ucIndex_def map_toFront)
next
  case None
  let ?e = "\<lparr>uceBlobKey = k, uceFacts = ubFacts u, uceExport = ubExport u\<rparr>"
  let ?O = "ucOrder (makeRoom (entrySize ?e) c)"
  have "prefix ?O (ucOrder c)" using makeRoom_effect [of c] assms(1) by (simp add: ucInv_def)
  then have p: "prefix (map uceBlobKey ?O) ks" using assms(2) map_mono_prefix prefix_order.order_trans by blast
  have "k \<notin> set (map uceBlobKey ?O)"
    using None makeRoom_subset [of "entrySize ?e" c] by (auto simp: ucIndex_def find_key_None)
  then show ?thesis using None prefix_touch_new [OF p] by (simp add: ucPut_def ucInsert_def Let_def)
qed

lemma ucUse_inv:
  assumes "ucInv c" "prefix (map uceBlobKey (ucOrder c)) ks" "ucMaxBytes c = m"
  shows "case ucUse op (c, ks) of (c', ks') \<Rightarrow>
    ucInv c' \<and> prefix (map uceBlobKey (ucOrder c')) ks' \<and> ucMaxBytes c' = m"
proof (cases op)
  case (UcGet k)
  have "prefix (map uceBlobKey (toFront uceBlobKey k (ucOrder c))) (touch k ks)" if "ucIndex c k = Some e" for e
    using that prefix_touch [OF assms(2)] by (simp add: ucIndex_def map_toFront)
  then show ?thesis
    using UcGet assms ucInv_get [OF assms(1), of k] by (auto simp: ucGet_def split: option.splits)
next
  case (UcPut k u)
  have "ucMaxBytes (ucPut k u c) = m"
    using makeRoom_effect [of c] assms by (auto simp: ucPut_def ucInsert_def Let_def ucInv_def split: option.splits)
  then show ?thesis using UcPut ucInv_put [OF assms(1)] put_prefix [OF assms(1,2)] by simp
qed

lemma ucUses_inv:
  assumes "ucInv c" "prefix (map uceBlobKey (ucOrder c)) ks" "ucMaxBytes c = m"
  shows "case fold ucUse ops (c, ks) of (c', ks') \<Rightarrow>
    ucInv c' \<and> prefix (map uceBlobKey (ucOrder c')) ks' \<and> ucMaxBytes c' = m"
  using assms
proof (induction ops arbitrary: c ks)
  case (Cons op ops)
  obtain c1 ks1 where "ucUse op (c, ks) = (c1, ks1)" by (cases "ucUse op (c, ks)")
  then show ?case using Cons ucUse_inv [OF Cons.prems, of op] by simp
qed simp

lemma ucPut_get:
  assumes "ucInv c"
  shows "\<exists>b. fst (ucGet k (ucPut k u c)) = Some b
    \<and> (ucIndex c k = None \<longrightarrow> ubFacts b = ubFacts u \<and> ubExport b = ubExport u)
    \<and> (\<forall>e. ucIndex c k = Some e \<longrightarrow> b = cachedBlob e)"
proof (cases "ucIndex c k")
  case None
  then show ?thesis by (simp add: ucPut_def ucInsert_def Let_def ucGet_def ucIndex_def cachedBlob_def)
next
  case (Some e)
  have "uceBlobKey e = k" using Some find_key [of uceBlobKey k "ucOrder c" e] by (simp add: ucIndex_def)
  then show ?thesis using Some by (simp add: ucPut_def ucGet_def ucIndex_def toFront_def)
qed

text \<open>
  C27. The cache of unit blobs stays within its bounds and evicts by recency: after any sequence of
  \<open>get\<close> and \<open>put\<close> it holds at most 512 entries, the byte counter is the sum of the sizes and exceeds
  the limit only when a single entry does, and the keys it holds are the most recently used ones. A
  \<open>put\<close> is answered by the next \<open>get\<close> of its key, with the blob already held if there was one.\<close>
theorem unit_cache_bounded:
  "case fold ucUse ops (newUnitCache m, []) of (c, ks) \<Rightarrow>
     length (ucOrder c) \<le> 512 \<and> ucNumBytes c = (\<Sum>e\<leftarrow>ucOrder c. entrySize e)
     \<and> (ucNumBytes c \<le> m \<or> length (ucOrder c) \<le> 1)
     \<and> prefix (map uceBlobKey (ucOrder c)) ks
     \<and> (\<exists>b. fst (ucGet k (ucPut k u c)) = Some b
          \<and> (if ucIndex c k = None then ubFacts b = ubFacts u \<and> ubExport b = ubExport u
             else map_option cachedBlob (ucIndex c k) = Some b))"
proof -
  have "ucInv (newUnitCache m)" by (simp add: ucInv_def newUnitCache_def)
  moreover have "ucMaxBytes (newUnitCache m) = m" "ucOrder (newUnitCache m) = []" by (simp_all add: newUnitCache_def)
  ultimately have I: "case fold ucUse ops (newUnitCache m, []) of (c, ks) \<Rightarrow>
      ucInv c \<and> prefix (map uceBlobKey (ucOrder c)) ks \<and> ucMaxBytes c = m"
    by (intro ucUses_inv) simp_all
  obtain c ks where c: "fold ucUse ops (newUnitCache m, []) = (c, ks)" by (cases "fold ucUse ops (newUnitCache m, [])")
  then have "ucInv c" using I by simp
  from ucPut_get [OF this, of k u] I show ?thesis
    by (cases "ucIndex c k") (auto simp: c ucInv_def unitCacheCapacity_def)
qed

section \<open>What the memo holds\<close>

definition cmInv :: "('k, 'v) confirm_memo \<Rightarrow> bool" where
  "cmInv m \<longleftrightarrow> distinct (map fst (cmOrder m)) \<and> cmLen m \<le> cmCap m"

lemma cmInv_new: "cmInv (newConfirmMemo n)"
  by (simp add: cmInv_def newConfirmMemo_def cmLen_def)

lemma cmInv_toFront: "cmInv m \<Longrightarrow> cmInv (m\<lparr>cmOrder := toFront fst k (cmOrder m)\<rparr>)"
  using mset_toFront [of fst "cmOrder m" k]
  by (auto simp: cmInv_def cmLen_def dest: mset_eq_length) (metis mset_eq_imp_distinct_iff mset_map)

lemma cmPut_absent: "cmIndex m k = None \<Longrightarrow> cmPut k v m = m\<lparr>cmOrder := take (cmCap m) ((k, v) # cmOrder m)\<rparr>"
  by (simp add: cmPut_def Let_def dropOldest_take del: dropOldest.simps)

lemma cmInv_put: "cmInv m \<Longrightarrow> cmInv (cmPut k v m)"
proof (cases "cmIndex m k")
  case None
  assume "cmInv m"
  then have "distinct (map fst ((k, v) # cmOrder m))"
    using None find_key_None [of fst k "cmOrder m"] by (simp add: cmIndex_def cmInv_def)
  then show ?thesis
    using None distinct_take [of "map fst ((k, v) # cmOrder m)" "cmCap m"]
    by (simp add: cmPut_absent cmInv_def cmLen_def take_map del: list.map)
qed (simp add: cmInv_toFront cmPut_def)

lemma cmGet_cmPut: "cmCap m > 0 \<Longrightarrow> fst (cmGet k (cmPut k v m)) = Some (case cmIndex m k of None \<Rightarrow> v | Some e \<Rightarrow> snd e)"
proof (cases "cmIndex m k")
  case None
  assume "cmCap m > 0"
  then show ?thesis using None by (cases "cmCap m") (simp_all add: cmPut_absent cmGet_def cmIndex_def)
next
  case (Some e)
  then show ?thesis using find_key [of fst k "cmOrder m" e] by (simp add: cmPut_def cmGet_def cmIndex_def toFront_def)
qed

end
