(* ===== verification/Facts_Blob.thy ===== *)
theory Facts_Blob
  imports Byte_Codec "HOL-Library.Product_Lexorder"
begin

text \<open>
  The facts blob of one package: \<open>Builder\<close> (\<open>blob.go\<close>) interns strings, sorts
  the references and lays the tables out behind a fixed header (\<open>layout.go\<close>);
  \<open>View\<close> (\<open>view.go\<close>) answers queries by computing offsets into the raw bytes.
  The main result is that every query of a view over a built blob returns what was added to
  the builder, with no panic and no wrap-around in the uint32 offset arithmetic.
\<close>

section \<open>Layout constants\<close>

definition blobMagic :: bytes where "blobMagic = lit ''GLFB''"
definition blobMagicLen :: nat where "blobMagicLen = 4"
definition currentVersion :: u16 where "currentVersion = 1"
definition symbolRecordSize :: nat where "symbolRecordSize = 48"
definition refsRecordSize :: nat where "refsRecordSize = 32"
definition fileRecordSize :: nat where "fileRecordSize = 8"

definition offMagic :: nat where "offMagic = 0"
definition offVersion :: nat where "offVersion = 4"
definition offSymbolCount :: nat where "offSymbolCount = 8"
definition offRefsCount :: nat where "offRefsCount = 12"
definition offFileCount :: nat where "offFileCount = 16"
definition offSymTblOff :: nat where "offSymTblOff = 24"
definition offSymTblLen :: nat where "offSymTblLen = 32"
definition offRefsTblOff :: nat where "offRefsTblOff = 40"
definition offRefsTblLen :: nat where "offRefsTblLen = 48"
definition offFileTblOff :: nat where "offFileTblOff = 56"
definition offFileTblLen :: nat where "offFileTblLen = 64"
definition offStrTblOff :: nat where "offStrTblOff = 72"
definition offStrTblLen :: nat where "offStrTblLen = 80"
definition headerSize :: nat where "headerSize = 88"

definition symOffIDHash :: nat where "symOffIDHash = 0"
definition symOffKind :: nat where "symOffKind = 8"
definition symOffFlags :: nat where "symOffFlags = 9"
definition symOffNameOff :: nat where "symOffNameOff = 12"
definition symOffNameLen :: nat where "symOffNameLen = 16"
definition symOffDocOff :: nat where "symOffDocOff = 20"
definition symOffDocLen :: nat where "symOffDocLen = 24"
definition symOffSigOff :: nat where "symOffSigOff = 28"
definition symOffSigLen :: nat where "symOffSigLen = 32"
definition symOffFileIdx :: nat where "symOffFileIdx = 36"
definition symOffLine :: nat where "symOffLine = 40"
definition symOffCol :: nat where "symOffCol = 44"

definition refOffFileIdx :: nat where "refOffFileIdx = 0"
definition refOffLine :: nat where "refOffLine = 4"
definition refOffCol :: nat where "refOffCol = 8"
definition refOffEndCol :: nat where "refOffEndCol = 12"
definition refOffToSymbolIDHash :: nat where "refOffToSymbolIDHash = 16"
definition refOffToPkgHash :: nat where "refOffToPkgHash = 24"

definition fileOffPathOff :: nat where "fileOffPathOff = 0"
definition fileOffPathLen :: nat where "fileOffPathLen = 4"

lemmas record_sizes = symbolRecordSize_def refsRecordSize_def fileRecordSize_def headerSize_def

lemmas sym_offsets = symOffIDHash_def symOffKind_def symOffFlags_def symOffNameOff_def
  symOffNameLen_def symOffDocOff_def symOffDocLen_def symOffSigOff_def symOffSigLen_def
  symOffFileIdx_def symOffLine_def symOffCol_def

lemmas ref_offsets = refOffFileIdx_def refOffLine_def refOffCol_def refOffEndCol_def
  refOffToSymbolIDHash_def refOffToPkgHash_def

lemmas header_offsets = offMagic_def offVersion_def offSymbolCount_def offRefsCount_def
  offFileCount_def offSymTblOff_def offSymTblLen_def offRefsTblOff_def offRefsTblLen_def
  offFileTblOff_def offFileTblLen_def offStrTblOff_def offStrTblLen_def

section \<open>The builder\<close>

record symbol_input =
  siIDHash :: u64
  siKind :: byte
  siFlags :: byte
  siName :: bytes
  siDoc :: bytes
  siSig :: bytes
  siFileIdx :: u32
  siLine :: u32
  siCol :: u32

record ref_input =
  riFileIdx :: u32
  riLine :: u32
  riCol :: u32
  riEndCol :: u32
  riToSymbolIDHash :: u64
  riToPkgHash :: u64

record builder =
  bSymbols :: "symbol_input list"
  bRefs :: "ref_input list"
  bFiles :: "bytes list"

definition NewBuilder :: builder where
  "NewBuilder = \<lparr>bSymbols = [], bRefs = [], bFiles = []\<rparr>"

definition AddSymbol :: "symbol_input \<Rightarrow> builder \<Rightarrow> builder" where
  "AddSymbol s b = b\<lparr>bSymbols := bSymbols b @ [s]\<rparr>"

definition AddRef :: "ref_input \<Rightarrow> builder \<Rightarrow> builder" where
  "AddRef r b = b\<lparr>bRefs := bRefs b @ [r]\<rparr>"

definition SetFiles :: "bytes list \<Rightarrow> builder \<Rightarrow> builder" where
  "SetFiles fs b = b\<lparr>bFiles := fs\<rparr>"

subsection \<open>Interning\<close>

record interner =
  itTable :: bytes
  itSeen :: "bytes \<rightharpoonup> u32"

definition newInterner :: interner where
  "newInterner = \<lparr>itTable = [], itSeen = Map.empty\<rparr>"

definition intern :: "bytes \<Rightarrow> interner \<Rightarrow> (store_error, u32 \<times> u32 \<times> interner) go" where
  "intern s it =
     (if s = [] then Ok (0, 0, it)
      else let n = length s in
        if n > 2 ^ 32 - 1 then Err TooLarge
        else case itSeen it s of
          Some off \<Rightarrow> Ok (off, of_nat n, it)
        | None \<Rightarrow>
            let curLen = length (itTable it) in
            if curLen + n > 2 ^ 32 - 1 then Err TooLarge
            else if curLen > 2 ^ 32 - 1 then Err TooLarge
            else let off = of_nat curLen in
              Ok (off, of_nat n, it\<lparr>itTable := itTable it @ s, itSeen := (itSeen it)(s \<mapsto> off)\<rparr>))"

subsection \<open>Records and tables\<close>

definition zero_rec :: "nat \<Rightarrow> bytes" where
  "zero_rec n = replicate n 0"

definition put_fields :: "(nat \<times> bytes) list \<Rightarrow> bytes \<Rightarrow> bytes" where
  "put_fields fs rec = fold (\<lambda>(off, x) b. store_at b off x) fs rec"

definition file_rec :: "u32 \<Rightarrow> u32 \<Rightarrow> bytes" where
  "file_rec off ln = put_fields [(fileOffPathOff, put_u32 off), (fileOffPathLen, put_u32 ln)]
     (zero_rec fileRecordSize)"

fun buildFileTable :: "bytes list \<Rightarrow> interner \<Rightarrow> (store_error, bytes \<times> interner) go" where
  "buildFileTable [] it = Ok ([], it)"
| "buildFileTable (f # fs) it =
     go_bind (intern f it) (\<lambda>(off, ln, it).
     go_bind (buildFileTable fs it) (\<lambda>(rest, it). Ok (file_rec off ln @ rest, it)))"

definition sym_rec :: "symbol_input \<Rightarrow> u32 \<times> u32 \<Rightarrow> u32 \<times> u32 \<Rightarrow> u32 \<times> u32 \<Rightarrow> bytes" where
  "sym_rec s nm dc sg = put_fields [
     (symOffIDHash, put_u64 (siIDHash s)), (symOffKind, [siKind s]), (symOffFlags, [siFlags s]),
     (symOffNameOff, put_u32 (fst nm)), (symOffNameLen, put_u32 (snd nm)),
     (symOffDocOff, put_u32 (fst dc)), (symOffDocLen, put_u32 (snd dc)),
     (symOffSigOff, put_u32 (fst sg)), (symOffSigLen, put_u32 (snd sg)),
     (symOffFileIdx, put_u32 (siFileIdx s)), (symOffLine, put_u32 (siLine s)),
     (symOffCol, put_u32 (siCol s))] (zero_rec symbolRecordSize)"

fun buildSymTable :: "symbol_input list \<Rightarrow> interner \<Rightarrow> (store_error, bytes \<times> interner) go" where
  "buildSymTable [] it = Ok ([], it)"
| "buildSymTable (s # ss) it =
     go_bind (intern (siName s) it) (\<lambda>(nameOff, nameLen, it).
     go_bind (intern (siDoc s) it) (\<lambda>(docOff, docLen, it).
     go_bind (intern (siSig s) it) (\<lambda>(sigOff, sigLen, it).
     go_bind (buildSymTable ss it) (\<lambda>(rest, it).
     Ok (sym_rec s (nameOff, nameLen) (docOff, docLen) (sigOff, sigLen) @ rest, it)))))"

definition ref_rec :: "ref_input \<Rightarrow> bytes" where
  "ref_rec r = put_fields [
     (refOffFileIdx, put_u32 (riFileIdx r)), (refOffLine, put_u32 (riLine r)),
     (refOffCol, put_u32 (riCol r)), (refOffEndCol, put_u32 (riEndCol r)),
     (refOffToSymbolIDHash, put_u64 (riToSymbolIDHash r)),
     (refOffToPkgHash, put_u64 (riToPkgHash r))] (zero_rec refsRecordSize)"

definition buildRefsTable :: "ref_input list \<Rightarrow> bytes" where
  "buildRefsTable refs = concat (map ref_rec refs)"

definition refLess :: "ref_input \<Rightarrow> ref_input \<Rightarrow> bool" where
  "refLess a b =
     (if riFileIdx a \<noteq> riFileIdx b then riFileIdx a < riFileIdx b
      else if riLine a \<noteq> riLine b then riLine a < riLine b
      else riCol a < riCol b)"

subsection \<open>Build\<close>

definition header_fields :: "nat \<Rightarrow> nat \<Rightarrow> nat \<Rightarrow> bytes \<Rightarrow> bytes \<Rightarrow> bytes \<Rightarrow> bytes \<Rightarrow> (nat \<times> bytes) list" where
  "header_fields nSymbols nRefs nFiles symTable refsTable fileTable strTable =
     (let symOff = of_nat headerSize;
          refsOff = symOff + of_nat (length symTable);
          fileOff = refsOff + of_nat (length refsTable);
          strOff = fileOff + of_nat (length fileTable)
      in [(offMagic, blobMagic), (offVersion, put_u16 currentVersion),
          (offSymbolCount, put_u32 (of_nat nSymbols)), (offRefsCount, put_u32 (of_nat nRefs)),
          (offFileCount, put_u32 (of_nat nFiles)),
          (offSymTblOff, put_u64 symOff), (offSymTblLen, put_u64 (of_nat (length symTable))),
          (offRefsTblOff, put_u64 refsOff), (offRefsTblLen, put_u64 (of_nat (length refsTable))),
          (offFileTblOff, put_u64 fileOff), (offFileTblLen, put_u64 (of_nat (length fileTable))),
          (offStrTblOff, put_u64 strOff), (offStrTblLen, put_u64 (of_nat (length strTable))),
          (unat (symOff :: u64), symTable), (unat refsOff, refsTable), (unat fileOff, fileTable),
          (unat strOff, strTable)])"

definition Build :: "builder \<Rightarrow> (store_error, bytes) go" where
  "Build b =
     (let refs = sort_by refLess (bRefs b);
          nSymbols = length (bSymbols b); nRefs = length refs; nFiles = length (bFiles b)
      in if nSymbols > 2 ^ 32 - 1 then Err TooLarge
         else if nRefs > 2 ^ 32 - 1 then Err TooLarge
         else if nFiles > 2 ^ 32 - 1 then Err TooLarge
         else go_bind (buildFileTable (bFiles b) newInterner) (\<lambda>(fileTable, it).
           go_bind (buildSymTable (bSymbols b) it) (\<lambda>(symTable, it).
             let refsTable = buildRefsTable refs;
                 total = headerSize + length symTable + length refsTable + length fileTable
                   + length (itTable it)
             in Ok (put_fields (header_fields nSymbols nRefs nFiles symTable refsTable fileTable
                  (itTable it)) (zero_rec total)))))"

section \<open>The view\<close>

record view =
  vSymTable :: bytes
  vRefsTable :: bytes
  vFileTable :: bytes
  vStrTable :: bytes
  vSymbolCount :: nat
  vRefsCount :: nat
  vFileCount :: nat

definition section_of :: "bytes \<Rightarrow> u64 \<Rightarrow> u64 \<Rightarrow> (store_error, bytes) go" where
  "section_of data off ln =
     (if off > of_nat (length data) \<or> ln > of_nat (length data) - off then Err BadTable
      else slice data (unat off) (unat (off + ln)))"

definition NewView :: "bytes \<Rightarrow> (store_error, view) go" where
  "NewView data =
     (if length data < headerSize then Err BadHeader
      else go_bind (slice data offMagic (offMagic + blobMagicLen)) (\<lambda>magic.
        if magic \<noteq> blobMagic then Err BadHeader else
        go_bind (rd_u16 data offVersion) (\<lambda>version.
        if version \<noteq> currentVersion then Err (BadVersion (unat version)) else
        go_bind (rd_u32 data offSymbolCount) (\<lambda>symbolCount.
        go_bind (rd_u32 data offRefsCount) (\<lambda>refsCount.
        go_bind (rd_u32 data offFileCount) (\<lambda>fileCount.
        go_bind (rd_u64 data offSymTblOff) (\<lambda>symOff.
        go_bind (rd_u64 data offSymTblLen) (\<lambda>symLen.
        go_bind (rd_u64 data offRefsTblOff) (\<lambda>refsOff.
        go_bind (rd_u64 data offRefsTblLen) (\<lambda>refsLen.
        go_bind (rd_u64 data offFileTblOff) (\<lambda>fileOff.
        go_bind (rd_u64 data offFileTblLen) (\<lambda>fileLen.
        go_bind (rd_u64 data offStrTblOff) (\<lambda>strOff.
        go_bind (rd_u64 data offStrTblLen) (\<lambda>strLen.
        if symLen \<noteq> ucast symbolCount * of_nat symbolRecordSize then Err BadTable
        else if refsLen \<noteq> ucast refsCount * of_nat refsRecordSize then Err BadTable
        else if fileLen \<noteq> ucast fileCount * of_nat fileRecordSize then Err BadTable
        else go_bind (section_of data symOff symLen) (\<lambda>symTable.
          go_bind (section_of data refsOff refsLen) (\<lambda>refsTable.
          go_bind (section_of data fileOff fileLen) (\<lambda>fileTable.
          go_bind (section_of data strOff strLen) (\<lambda>strTable.
          Ok \<lparr>vSymTable = symTable, vRefsTable = refsTable, vFileTable = fileTable,
              vStrTable = strTable, vSymbolCount = unat symbolCount, vRefsCount = unat refsCount,
              vFileCount = unat fileCount\<rparr>))))))))))))))))))"

record symbol =
  syRec :: bytes
  syStr :: bytes

definition symbolRecordAt :: "view \<Rightarrow> nat \<Rightarrow> (store_error, symbol) go" where
  "symbolRecordAt v i =
     (let off = i * symbolRecordSize in
      go_bind (slice (vSymTable v) off (off + symbolRecordSize)) (\<lambda>rec.
      Ok \<lparr>syRec = rec, syStr = vStrTable v\<rparr>))"

definition SymbolAt :: "view \<Rightarrow> int \<Rightarrow> (store_error, symbol) go" where
  "SymbolAt v i =
     (if i < 0 \<or> i \<ge> int (vSymbolCount v) then Err BadIndex else symbolRecordAt v (nat i))"

definition symIDHash :: "symbol \<Rightarrow> (store_error, u64) go" where
  "symIDHash s = rd_u64 (syRec s) symOffIDHash"

definition byte_at :: "bytes \<Rightarrow> nat \<Rightarrow> (store_error, byte) go" where
  "byte_at b i = (if i < length b then Ok (b ! i) else Panic)"

definition symKind :: "symbol \<Rightarrow> (store_error, byte) go" where
  "symKind s = byte_at (syRec s) symOffKind"

definition symFlags :: "symbol \<Rightarrow> (store_error, byte) go" where
  "symFlags s = byte_at (syRec s) symOffFlags"

text \<open>\<open>string(str[off : off+ln])\<close> with uint32 arithmetic on the bounds.\<close>

definition str_slice :: "bytes \<Rightarrow> u32 \<Rightarrow> u32 \<Rightarrow> (store_error, bytes) go" where
  "str_slice str off ln = slice str (unat off) (unat (off + ln))"

definition strField :: "symbol \<Rightarrow> nat \<Rightarrow> nat \<Rightarrow> (store_error, bytes) go" where
  "strField s offOff lenOff =
     go_bind (rd_u32 (syRec s) offOff) (\<lambda>off.
     go_bind (rd_u32 (syRec s) lenOff) (\<lambda>ln. str_slice (syStr s) off ln))"

definition symName :: "symbol \<Rightarrow> (store_error, bytes) go" where
  "symName s = strField s symOffNameOff symOffNameLen"

definition symDoc :: "symbol \<Rightarrow> (store_error, bytes) go" where
  "symDoc s = strField s symOffDocOff symOffDocLen"

definition symSig :: "symbol \<Rightarrow> (store_error, bytes) go" where
  "symSig s = strField s symOffSigOff symOffSigLen"

definition symFileIdx :: "symbol \<Rightarrow> (store_error, u32) go" where
  "symFileIdx s = rd_u32 (syRec s) symOffFileIdx"

definition symLine :: "symbol \<Rightarrow> (store_error, u32) go" where
  "symLine s = rd_u32 (syRec s) symOffLine"

definition symCol :: "symbol \<Rightarrow> (store_error, u32) go" where
  "symCol s = rd_u32 (syRec s) symOffCol"

text \<open>The scan of \<open>LookupSymbol\<close> from index \<open>i\<close>, with \<open>k\<close> records left.\<close>

fun lookupSymbolFrom :: "view \<Rightarrow> u64 \<Rightarrow> nat \<Rightarrow> nat \<Rightarrow> (store_error, symbol option) go" where
  "lookupSymbolFrom v idHash i 0 = Ok None"
| "lookupSymbolFrom v idHash i (Suc k) =
     go_bind (symbolRecordAt v i) (\<lambda>s.
     go_bind (symIDHash s) (\<lambda>h.
     if h = idHash then Ok (Some s) else lookupSymbolFrom v idHash (Suc i) k))"

definition LookupSymbol :: "view \<Rightarrow> u64 \<Rightarrow> (store_error, symbol option) go" where
  "LookupSymbol v idHash = lookupSymbolFrom v idHash 0 (vSymbolCount v)"

definition FileAt :: "view \<Rightarrow> int \<Rightarrow> (store_error, bytes) go" where
  "FileAt v i =
     (if i < 0 \<or> i \<ge> int (vFileCount v) then Err BadIndex
      else let off = nat i * fileRecordSize in
        go_bind (slice (vFileTable v) off (off + fileRecordSize)) (\<lambda>rec.
        go_bind (rd_u32 rec fileOffPathOff) (\<lambda>pathOff.
        go_bind (rd_u32 rec fileOffPathLen) (\<lambda>pathLen.
        str_slice (vStrTable v) pathOff pathLen))))"

text \<open>A \<open>Ref\<close> is its fixed-size record; the accessors decode one field.\<close>

definition refRecordAt :: "view \<Rightarrow> nat \<Rightarrow> (store_error, bytes) go" where
  "refRecordAt v i = (let off = i * refsRecordSize in slice (vRefsTable v) off (off + refsRecordSize))"

definition RefAt :: "view \<Rightarrow> int \<Rightarrow> (store_error, bytes) go" where
  "RefAt v i = (if i < 0 \<or> i \<ge> int (vRefsCount v) then Err BadIndex else refRecordAt v (nat i))"

definition refFileIdx :: "bytes \<Rightarrow> u32" where "refFileIdx r = get_u32 (drop refOffFileIdx r)"
definition refLine :: "bytes \<Rightarrow> u32" where "refLine r = get_u32 (drop refOffLine r)"
definition refCol :: "bytes \<Rightarrow> u32" where "refCol r = get_u32 (drop refOffCol r)"
definition refEndCol :: "bytes \<Rightarrow> u32" where "refEndCol r = get_u32 (drop refOffEndCol r)"
definition refToSymbolIDHash :: "bytes \<Rightarrow> u64" where
  "refToSymbolIDHash r = get_u64 (drop refOffToSymbolIDHash r)"
definition refToPkgHash :: "bytes \<Rightarrow> u64" where
  "refToPkgHash r = get_u64 (drop refOffToPkgHash r)"

definition refKeyGreater :: "bytes \<Rightarrow> u32 \<Rightarrow> u32 \<Rightarrow> u32 \<Rightarrow> bool" where
  "refKeyGreater r fileIdx line col =
     (if refFileIdx r \<noteq> fileIdx then refFileIdx r > fileIdx
      else if refLine r \<noteq> line then refLine r > line
      else refCol r > col)"

text \<open>
  \<open>RefsAt\<close>: \<open>sort.Search\<close> calls the predicate on indices below \<open>refsCount\<close>
  only, where \<open>refRecordAt\<close> does not panic.
\<close>

definition RefsAt :: "view \<Rightarrow> u32 \<Rightarrow> u32 \<Rightarrow> u32 \<Rightarrow> (store_error, bytes option) go" where
  "RefsAt v fileIdx line col =
     (let n = vRefsCount v;
          idx = int (search (\<lambda>i. case refRecordAt v i of
                    Ok r \<Rightarrow> refKeyGreater r fileIdx line col | _ \<Rightarrow> True) 0 n) - 1
      in if idx < 0 then Ok None
         else go_bind (refRecordAt v (nat idx)) (\<lambda>r.
           if refFileIdx r = fileIdx \<and> refLine r = line \<and> col \<ge> refCol r \<and> col < refEndCol r
           then Ok (Some r) else Ok None))"

fun refsToFrom :: "view \<Rightarrow> u64 \<Rightarrow> nat \<Rightarrow> nat \<Rightarrow> (store_error, bytes list) go" where
  "refsToFrom v idHash i 0 = Ok []"
| "refsToFrom v idHash i (Suc k) =
     go_bind (refRecordAt v i) (\<lambda>r.
     go_bind (refsToFrom v idHash (Suc i) k) (\<lambda>rest.
     Ok (if refToSymbolIDHash r = idHash then r # rest else rest)))"

definition RefsTo :: "view \<Rightarrow> u64 \<Rightarrow> (store_error, bytes list) go" where
  "RefsTo v idHash = refsToFrom v idHash 0 (vRefsCount v)"

section \<open>Records as byte sequences\<close>

lemma put_fields_simps [simp]:
  "put_fields [] b = b"
  "put_fields ((off, x) # fs) b = put_fields fs (store_at b off x)"
  by (simp_all add: put_fields_def)

lemma file_rec_bytes: "file_rec off ln = put_u32 off @ put_u32 ln"
  by (simp add: file_rec_def zero_rec_def store_at_def fileOffPathOff_def fileOffPathLen_def
      fileRecordSize_def)

lemma ref_rec_bytes:
  "ref_rec r = put_u32 (riFileIdx r) @ put_u32 (riLine r) @ put_u32 (riCol r) @ put_u32 (riEndCol r)
     @ put_u64 (riToSymbolIDHash r) @ put_u64 (riToPkgHash r)"
  by (simp add: ref_rec_def zero_rec_def store_at_def ref_offsets refsRecordSize_def)

lemma sym_rec_bytes:
  "sym_rec s nm dc sg = put_u64 (siIDHash s) @ [siKind s] @ [siFlags s] @ replicate 2 0
     @ put_u32 (fst nm) @ put_u32 (snd nm) @ put_u32 (fst dc) @ put_u32 (snd dc)
     @ put_u32 (fst sg) @ put_u32 (snd sg)
     @ put_u32 (siFileIdx s) @ put_u32 (siLine s) @ put_u32 (siCol s)"
  by (simp add: sym_rec_def zero_rec_def store_at_def sym_offsets symbolRecordSize_def)

lemma length_recs [simp]:
  "length (file_rec off ln) = fileRecordSize"
  "length (ref_rec r) = refsRecordSize"
  "length (sym_rec s nm dc sg) = symbolRecordSize"
  by (simp_all add: file_rec_bytes ref_rec_bytes sym_rec_bytes record_sizes)

text \<open>Decoding one reference record field by field.\<close>

lemma ref_fields [simp]:
  "refFileIdx (ref_rec r) = riFileIdx r" "refLine (ref_rec r) = riLine r"
  "refCol (ref_rec r) = riCol r" "refEndCol (ref_rec r) = riEndCol r"
  "refToSymbolIDHash (ref_rec r) = riToSymbolIDHash r" "refToPkgHash (ref_rec r) = riToPkgHash r"
  by (simp_all add: ref_rec_bytes refFileIdx_def refLine_def refCol_def refEndCol_def
      refToSymbolIDHash_def refToPkgHash_def ref_offsets)

section \<open>Interning is sound\<close>

definition interned :: "bytes \<Rightarrow> u32 \<times> u32 \<Rightarrow> bytes \<Rightarrow> bool" where
  "interned tbl ol s \<longleftrightarrow> unat (fst ol) + unat (snd ol) \<le> length tbl \<and> length tbl < 2 ^ 32
     \<and> take (unat (snd ol)) (drop (unat (fst ol)) tbl) = s"

definition interner_ok :: "interner \<Rightarrow> bool" where
  "interner_ok it \<longleftrightarrow> length (itTable it) < 2 ^ 32
     \<and> (\<forall>s off. itSeen it s = Some off \<longrightarrow> interned (itTable it) (off, of_nat (length s)) s
          \<and> length s < 2 ^ 32)"

lemma newInterner_ok: "interner_ok newInterner"
  by (simp add: interner_ok_def newInterner_def)

lemma interned_extend: "interned tbl ol s \<Longrightarrow> length (tbl @ r) < 2 ^ 32 \<Longrightarrow> interned (tbl @ r) ol s"
  by (auto simp: interned_def)

lemma interned_str_slice: "interned tbl ol s \<Longrightarrow> str_slice tbl (fst ol) (snd ol) = Ok s"
proof -
  assume i: "interned tbl ol s"
  then have "unat (fst ol) + unat (snd ol) < 2 ^ 32" by (simp add: interned_def)
  then have "unat (fst ol + snd ol) = unat (fst ol) + unat (snd ol)"
    by (simp add: unat_add_lem [symmetric] unat_word_ariths)
  with i show ?thesis by (simp add: str_slice_def slice_def interned_def)
qed

lemma intern_sound:
  assumes ok: "interner_ok it" and res: "intern s it = Ok (off, ln, it')"
  shows "interner_ok it' \<and> prefix (itTable it) (itTable it') \<and> interned (itTable it') (off, ln) s
    \<and> length (itTable it') \<le> length (itTable it) + length s"
proof (cases "s = [] \<or> itSeen it s \<noteq> None")
  case True
  then show ?thesis
    using ok res by (auto simp: intern_def interner_ok_def interned_def Let_def split: if_splits)
next
  case False
  then have fits: "length (itTable it) + length s < 2 ^ 32"
    and new: "off = of_nat (length (itTable it))" "ln = of_nat (length s)"
      "it' = it\<lparr>itTable := itTable it @ s, itSeen := (itSeen it)(s \<mapsto> off)\<rparr>"
    using res by (auto simp: intern_def Let_def split: if_splits)
  have here: "interned (itTable it') (off, ln) s"
    using fits by (simp add: new interned_def unat_of_nat)
  have "interned (itTable it') (o', of_nat (length s')) s' \<and> length s' < 2 ^ 32"
    if "itSeen it' s' = Some o'" for s' o'
    using that ok here fits
    by (cases "s' = s") (auto simp: new interner_ok_def intro!: interned_extend)
  then show ?thesis using here fits by (auto simp: interner_ok_def new)
qed

lemma intern_succeeds:
  assumes "interner_ok it" and "length (itTable it) + length s < 2 ^ 32"
  shows "\<exists>off ln it'. intern s it = Ok (off, ln, it')"
  using assms by (auto simp: intern_def Let_def split: option.splits)

lemma intern_step:
  assumes ok: "interner_ok it" and room: "length (itTable it) + length s < 2 ^ 32"
  obtains off ln it' where "intern s it = Ok (off, ln, it')" "interner_ok it'"
    "prefix (itTable it) (itTable it')" "interned (itTable it') (off, ln) s"
    "length (itTable it') \<le> length (itTable it) + length s"
  using intern_succeeds [OF assms] intern_sound [OF ok] by blast

lemma interned_prefix:
  "interned tbl ol s \<Longrightarrow> prefix tbl tbl' \<Longrightarrow> length tbl' < 2 ^ 32 \<Longrightarrow> interned tbl' ol s"
  by (auto simp: prefix_def intro: interned_extend)

lemma buildFileTable_ok:
  assumes "interner_ok it" and "length (itTable it) + (\<Sum>f\<leftarrow>fs. length f) < 2 ^ 32"
  shows "\<exists>rs it'. buildFileTable fs it = Ok (concat (map (\<lambda>(o', l). file_rec o' l) rs), it')
    \<and> interner_ok it' \<and> prefix (itTable it) (itTable it')
    \<and> length (itTable it') \<le> length (itTable it) + (\<Sum>f\<leftarrow>fs. length f)
    \<and> list_all2 (interned (itTable it')) rs fs"
  using assms
proof (induction fs arbitrary: it)
  case Nil
  then show ?case by auto
next
  case (Cons f fs)
  have room: "length (itTable it) + length f < 2 ^ 32" using Cons.prems(2) by simp
  obtain off ln it1 where 1: "intern f it = Ok (off, ln, it1)" "interner_ok it1"
    "prefix (itTable it) (itTable it1)" "interned (itTable it1) (off, ln) f"
    "length (itTable it1) \<le> length (itTable it) + length f"
    by (rule intern_step [OF Cons.prems(1) room])
  have "length (itTable it1) + (\<Sum>f\<leftarrow>fs. length f) < 2 ^ 32" using 1(5) Cons.prems(2) by simp
  from Cons.IH [OF 1(2) this] obtain rs it2 where 2:
    "buildFileTable fs it1 = Ok (concat (map (\<lambda>(o', l). file_rec o' l) rs), it2)"
    "interner_ok it2" "prefix (itTable it1) (itTable it2)"
    "length (itTable it2) \<le> length (itTable it1) + (\<Sum>f\<leftarrow>fs. length f)"
    "list_all2 (interned (itTable it2)) rs fs" by blast
  have "interned (itTable it2) (off, ln) f"
    using 1(4) 2(2,3) by (auto intro: interned_prefix simp: interner_ok_def)
  then show ?case
    using 1 2 by (intro exI [of _ "(off, ln) # rs"] exI [of _ it2])
      (auto intro: prefix_order.trans)
qed

definition sym_strings :: "symbol_input \<Rightarrow> nat" where
  "sym_strings s = length (siName s) + length (siDoc s) + length (siSig s)"

definition sym_interned :: "bytes \<Rightarrow> (u32 \<times> u32) \<times> (u32 \<times> u32) \<times> (u32 \<times> u32) \<Rightarrow> symbol_input \<Rightarrow> bool" where
  "sym_interned tbl r s \<longleftrightarrow> interned tbl (fst r) (siName s) \<and> interned tbl (fst (snd r)) (siDoc s)
     \<and> interned tbl (snd (snd r)) (siSig s)"

fun sym_recs :: "((u32 \<times> u32) \<times> (u32 \<times> u32) \<times> (u32 \<times> u32)) list \<Rightarrow> symbol_input list \<Rightarrow> bytes list" where
  "sym_recs (r # rs) (s # ss) = sym_rec s (fst r) (fst (snd r)) (snd (snd r)) # sym_recs rs ss"
| "sym_recs _ _ = []"

lemma buildSymTable_ok:
  assumes "interner_ok it" and "length (itTable it) + (\<Sum>s\<leftarrow>ss. sym_strings s) < 2 ^ 32"
  shows "\<exists>rs it'. buildSymTable ss it = Ok (concat (sym_recs rs ss), it')
    \<and> interner_ok it' \<and> prefix (itTable it) (itTable it')
    \<and> list_all2 (sym_interned (itTable it')) rs ss
    \<and> length (itTable it') \<le> length (itTable it) + (\<Sum>s\<leftarrow>ss. sym_strings s)"
  using assms
proof (induction ss arbitrary: it)
  case Nil
  then show ?case by auto
next
  case (Cons s ss)
  have room: "length (itTable it) + length (siName s) < 2 ^ 32"
    using Cons.prems(2) by (simp add: sym_strings_def)
  obtain nm it1 where 1: "intern (siName s) it = Ok (fst nm, snd nm, it1)" "interner_ok it1"
    "prefix (itTable it) (itTable it1)" "interned (itTable it1) nm (siName s)"
    "length (itTable it1) \<le> length (itTable it) + length (siName s)"
    by (rule intern_step [OF Cons.prems(1) room]) (metis fst_conv snd_conv)
  have room: "length (itTable it1) + length (siDoc s) < 2 ^ 32"
    using 1(5) Cons.prems(2) by (simp add: sym_strings_def)
  obtain dc it2 where 2: "intern (siDoc s) it1 = Ok (fst dc, snd dc, it2)" "interner_ok it2"
    "prefix (itTable it1) (itTable it2)" "interned (itTable it2) dc (siDoc s)"
    "length (itTable it2) \<le> length (itTable it1) + length (siDoc s)"
    by (rule intern_step [OF 1(2) room]) (metis fst_conv snd_conv)
  have room: "length (itTable it2) + length (siSig s) < 2 ^ 32"
    using 1(5) 2(5) Cons.prems(2) by (simp add: sym_strings_def)
  obtain sg it3 where 3: "intern (siSig s) it2 = Ok (fst sg, snd sg, it3)" "interner_ok it3"
    "prefix (itTable it2) (itTable it3)" "interned (itTable it3) sg (siSig s)"
    "length (itTable it3) \<le> length (itTable it2) + length (siSig s)"
    by (rule intern_step [OF 2(2) room]) (metis fst_conv snd_conv)
  have "length (itTable it3) + (\<Sum>s\<leftarrow>ss. sym_strings s) < 2 ^ 32"
    using 1(5) 2(5) 3(5) Cons.prems(2) by (simp add: sym_strings_def)
  from Cons.IH [OF 3(2) this] obtain rs it4 where 4:
    "buildSymTable ss it3 = Ok (concat (sym_recs rs ss), it4)" "interner_ok it4"
    "prefix (itTable it3) (itTable it4)" "list_all2 (sym_interned (itTable it4)) rs ss"
    "length (itTable it4) \<le> length (itTable it3) + (\<Sum>s\<leftarrow>ss. sym_strings s)" by blast
  have len: "length (itTable it4) < 2 ^ 32" using 4(2) by (simp add: interner_ok_def)
  have "sym_interned (itTable it4) (nm, dc, sg) s"
    using 1(4) 2(3,4) 3(3,4) 4(3) len
    by (auto simp: sym_interned_def intro: interned_prefix prefix_order.trans)
  moreover have "length (itTable it4) \<le> length (itTable it) + (\<Sum>s\<leftarrow>s # ss. sym_strings s)"
    using 1(5) 2(5) 3(5) 4(5) by (simp add: sym_strings_def)
  ultimately show ?case
    using 1 2 3 4(1-4) by (intro exI [of _ "(nm, dc, sg) # rs"] exI [of _ it4])
      (auto intro: prefix_order.trans)
qed

section \<open>The blob layout\<close>

definition blob_header :: "nat \<Rightarrow> nat \<Rightarrow> nat \<Rightarrow> nat \<Rightarrow> nat \<Rightarrow> nat \<Rightarrow> nat \<Rightarrow> bytes" where
  "blob_header nS nR nF sl rl fl xl = blobMagic @ put_u16 currentVersion @ replicate 2 0
     @ put_u32 (of_nat nS) @ put_u32 (of_nat nR) @ put_u32 (of_nat nF) @ replicate 4 0
     @ put_u64 (of_nat 88) @ put_u64 (of_nat sl)
     @ put_u64 (of_nat (88 + sl)) @ put_u64 (of_nat rl)
     @ put_u64 (of_nat (88 + sl + rl)) @ put_u64 (of_nat fl)
     @ put_u64 (of_nat (88 + sl + rl + fl)) @ put_u64 (of_nat xl)"

lemma length_blob_header [simp]: "length (blob_header nS nR nF sl rl fl xl) = 88"
  by (simp add: blob_header_def blobMagic_def)

lemma length_blobMagic [simp]: "length blobMagic = 4"
  by (simp add: blobMagic_def)

lemma unat_of_nat_u64: "n < 2 ^ 64 \<Longrightarrow> unat (of_nat n :: u64) = n"
  by (simp add: unat_of_nat)

lemma header_fields_eq:
  assumes "88 + length syms + length refs + length file < 2 ^ 64"
  shows "header_fields nS nR nF syms refs file str =
    [(0, blobMagic), (4, put_u16 currentVersion), (8, put_u32 (of_nat nS)),
     (12, put_u32 (of_nat nR)), (16, put_u32 (of_nat nF)),
     (24, put_u64 (of_nat 88)), (32, put_u64 (of_nat (length syms))),
     (40, put_u64 (of_nat (88 + length syms))), (48, put_u64 (of_nat (length refs))),
     (56, put_u64 (of_nat (88 + length syms + length refs))), (64, put_u64 (of_nat (length file))),
     (72, put_u64 (of_nat (88 + length syms + length refs + length file))),
     (80, put_u64 (of_nat (length str))),
     (88, syms), (88 + length syms, refs), (88 + length syms + length refs, file),
     (88 + length syms + length refs + length file, str)]"
proof -
  have "unat (of_nat 88 :: u64) = 88" "unat (of_nat (88 + length syms) :: u64) = 88 + length syms"
    "unat (of_nat (88 + length syms + length refs) :: u64) = 88 + length syms + length refs"
    "unat (of_nat (88 + length syms + length refs + length file) :: u64)
      = 88 + length syms + length refs + length file"
    by (rule unat_of_nat_u64, use assms in linarith)+
  then show ?thesis
    unfolding header_fields_def headerSize_def Let_def header_offsets of_nat_add [symmetric]
    by simp
qed

lemma put_fields_layout:
  assumes "88 + length syms + length refs + length file < 2 ^ 64"
  shows "put_fields (header_fields nS nR nF syms refs file str)
      (zero_rec (88 + length syms + length refs + length file + length str))
    = blob_header nS nR nF (length syms) (length refs) (length file) (length str)
      @ syms @ refs @ file @ str"
  unfolding header_fields_eq [OF assms] zero_rec_def blob_header_def
  by (simp add: store_at_def del: of_nat_add of_nat_numeral)

section \<open>Parsing the layout back\<close>

lemma section_of_layout:
  assumes "length data < 2 ^ 64" and "off + ln \<le> length data"
  shows "section_of data (of_nat off) (of_nat ln) = Ok (take ln (drop off data))"
proof -
  have u: "unat (of_nat off :: u64) = off" "unat (of_nat ln :: u64) = ln"
    "unat (of_nat (length data) :: u64) = length data"
    "unat (of_nat (off + ln) :: u64) = off + ln"
    using assms by (simp_all only: unat_of_nat_u64)
  have "unat (of_nat (length data) - of_nat off :: u64) = length data - off"
    using assms u by (simp add: unat_sub word_le_nat_alt)
  with u assms show ?thesis
    by (simp add: section_of_def slice_def word_less_nat_alt of_nat_add [symmetric]
        del: of_nat_add)
qed

lemma record_table_len:
  assumes "n < 2 ^ 32" and "k < 2 ^ 16"
  shows "ucast (of_nat n :: u32) * of_nat k = (of_nat (n * k) :: u64)"
proof -
  have "ucast (of_nat n :: u32) = (of_nat n :: u64)"
    using assms by (simp add: unsigned_of_nat take_bit_nat_eq_self)
  then show ?thesis by simp
qed

lemma NewView_layout:
  assumes n: "nS < 2 ^ 32" "nR < 2 ^ 32" "nF < 2 ^ 32" "length str < 2 ^ 32"
    and len: "length syms = nS * symbolRecordSize" "length refs = nR * refsRecordSize"
      "length file = nF * fileRecordSize"
  shows "NewView (blob_header nS nR nF (length syms) (length refs) (length file) (length str)
      @ syms @ refs @ file @ str) =
    Ok \<lparr>vSymTable = syms, vRefsTable = refs, vFileTable = file, vStrTable = str,
        vSymbolCount = nS, vRefsCount = nR, vFileCount = nF\<rparr>"
proof -
  let ?d = "blob_header nS nR nF (length syms) (length refs) (length file) (length str)
      @ syms @ refs @ file @ str"
  have total: "length ?d = 88 + length syms + length refs + length file + length str" by simp
  have bound: "length ?d < 2 ^ 64" using n len by (simp add: record_sizes)
  have hdr: "take 4 ?d = blobMagic" "get_u16 (drop 4 ?d) = currentVersion"
    "get_u32 (drop 8 ?d) = of_nat nS" "get_u32 (drop 12 ?d) = of_nat nR"
    "get_u32 (drop 16 ?d) = of_nat nF"
    "get_u64 (drop 24 ?d) = of_nat 88" "get_u64 (drop 32 ?d) = of_nat (length syms)"
    "get_u64 (drop 40 ?d) = of_nat (88 + length syms)" "get_u64 (drop 48 ?d) = of_nat (length refs)"
    "get_u64 (drop 56 ?d) = of_nat (88 + length syms + length refs)"
    "get_u64 (drop 64 ?d) = of_nat (length file)"
    "get_u64 (drop 72 ?d) = of_nat (88 + length syms + length refs + length file)"
    "get_u64 (drop 80 ?d) = of_nat (length str)"
    by (simp_all add: blob_header_def del: of_nat_add of_nat_numeral)
  have rd: "rd_u16 ?d off = Ok (get_u16 (drop off ?d))" "rd_u32 ?d off = Ok (get_u32 (drop off ?d))"
    "rd_u64 ?d off = Ok (get_u64 (drop off ?d))" if "off \<le> 80" for off
    using that by (simp_all add: rd_u16_def rd_u32_def rd_u64_def)
  have tabs: "ucast (of_nat nS :: u32) * of_nat symbolRecordSize = (of_nat (length syms) :: u64)"
    "ucast (of_nat nR :: u32) * of_nat refsRecordSize = (of_nat (length refs) :: u64)"
    "ucast (of_nat nF :: u32) * of_nat fileRecordSize = (of_nat (length file) :: u64)"
    unfolding len by (rule record_table_len; use n in \<open>simp add: record_sizes\<close>)+
  have secs: "section_of ?d (of_nat 88) (of_nat (length syms)) = Ok syms"
    "section_of ?d (of_nat (88 + length syms)) (of_nat (length refs)) = Ok refs"
    "section_of ?d (of_nat (88 + length syms + length refs)) (of_nat (length file)) = Ok file"
    "section_of ?d (of_nat (88 + length syms + length refs + length file)) (of_nat (length str)) = Ok str"
    by (subst section_of_layout [OF bound]; simp)+
  have "slice ?d 0 4 = Ok blobMagic" "\<not> length ?d < 88"
    using hdr(1) by (simp_all add: slice_def)
  then show ?thesis
    unfolding NewView_def header_offsets headerSize_def blobMagicLen_def
    using n by (simp only: hdr rd tabs secs go_bind.simps if_False if_True refl not_True_eq_False
        add_0 unat_of_nat_u32 numeral_le_iff semiring_norm)
qed

section \<open>Views over built blobs\<close>

definition facts_fit :: "builder \<Rightarrow> bool" where
  "facts_fit b \<longleftrightarrow> length (bSymbols b) < 2 ^ 32 \<and> length (bRefs b) < 2 ^ 32
     \<and> length (bFiles b) < 2 ^ 32
     \<and> (\<Sum>f\<leftarrow>bFiles b. length f) + (\<Sum>s\<leftarrow>bSymbols b. sym_strings s) < 2 ^ 32"

definition sorted_refs :: "builder \<Rightarrow> ref_input list" where
  "sorted_refs b = sort_by refLess (bRefs b)"

text \<open>\<open>v\<close> is a view whose tables hold exactly what \<open>b\<close> was given.\<close>

definition view_of :: "builder \<Rightarrow> view \<Rightarrow> bool" where
  "view_of b v \<longleftrightarrow> vSymbolCount v = length (bSymbols b) \<and> vRefsCount v = length (bRefs b)
     \<and> vFileCount v = length (bFiles b)
     \<and> (\<exists>rs. vSymTable v = concat (sym_recs rs (bSymbols b))
          \<and> list_all2 (sym_interned (vStrTable v)) rs (bSymbols b))
     \<and> vRefsTable v = concat (map ref_rec (sorted_refs b))
     \<and> (\<exists>fs. vFileTable v = concat (map (\<lambda>(o', l). file_rec o' l) fs)
          \<and> list_all2 (interned (vStrTable v)) fs (bFiles b))"

lemma refLess_key:
  "refLess a b \<longleftrightarrow> (riFileIdx a, riLine a, riCol a) < (riFileIdx b, riLine b, riCol b)"
  by (auto simp: refLess_def less_prod_def)

lemma sorted_refs_key:
  "sorted_refs b = sort_key (\<lambda>r. (riFileIdx r, riLine r, riCol r)) (bRefs b)"
  unfolding sorted_refs_def by (rule sort_by_key) (rule refLess_key)

lemma length_sorted_refs [simp]: "length (sorted_refs b) = length (bRefs b)"
  by (simp add: sorted_refs_key)

lemma set_sorted_refs [simp]: "set (sorted_refs b) = set (bRefs b)"
  by (simp add: sorted_refs_key)

lemma length_sym_recs: "list_all2 P rs ss \<Longrightarrow> length (sym_recs rs ss) = length ss"
  by (induction rule: list_all2_induct) simp_all

lemma sym_recs_sizes: "list_all (\<lambda>x. length x = symbolRecordSize) (sym_recs rs ss)"
  by (induction rs ss rule: sym_recs.induct) simp_all

lemma sym_recs_nth:
  "list_all2 P rs ss \<Longrightarrow> i < length ss \<Longrightarrow>
    sym_recs rs ss ! i = sym_rec (ss ! i) (fst (rs ! i)) (fst (snd (rs ! i))) (snd (snd (rs ! i)))"
proof (induction arbitrary: i rule: list_all2_induct)
  case (Cons r rs s ss)
  then show ?case by (cases i) simp_all
qed simp

lemma ref_recs_sizes: "list_all (\<lambda>x. length x = refsRecordSize) (map ref_rec rs)"
  by (simp add: list_all_iff)

lemma file_recs_sizes:
  "list_all (\<lambda>x. length x = fileRecordSize) (map (\<lambda>(o', l). file_rec o' l) fs)"
  by (auto simp: list_all_iff)

lemma Build_layout:
  assumes fit: "facts_fit b"
  shows "\<exists>blob v. Build b = Ok blob \<and> NewView blob = Ok v \<and> view_of b v
    \<and> length blob \<le> 88 + 48 * length (bSymbols b) + 32 * length (bRefs b) + 8 * length (bFiles b)
        + (\<Sum>f\<leftarrow>bFiles b. length f) + (\<Sum>s\<leftarrow>bSymbols b. sym_strings s)"
proof -
  have room: "length (itTable newInterner) + (\<Sum>f\<leftarrow>bFiles b. length f) < 2 ^ 32"
    using fit by (simp add: facts_fit_def newInterner_def)
  from buildFileTable_ok [OF newInterner_ok room] obtain fs it1 where 1:
    "buildFileTable (bFiles b) newInterner = Ok (concat (map (\<lambda>(o', l). file_rec o' l) fs), it1)"
    "interner_ok it1" "length (itTable it1) \<le> (\<Sum>f\<leftarrow>bFiles b. length f)"
    "list_all2 (interned (itTable it1)) fs (bFiles b)"
    by (auto simp: newInterner_def)
  have "length (itTable it1) + (\<Sum>s\<leftarrow>bSymbols b. sym_strings s) < 2 ^ 32"
    using fit 1(3) by (simp add: facts_fit_def)
  from buildSymTable_ok [OF 1(2) this] obtain rs it2 where 2:
    "buildSymTable (bSymbols b) it1 = Ok (concat (sym_recs rs (bSymbols b)), it2)"
    "interner_ok it2" "prefix (itTable it1) (itTable it2)"
    "list_all2 (sym_interned (itTable it2)) rs (bSymbols b)"
    "length (itTable it2) \<le> length (itTable it1) + (\<Sum>s\<leftarrow>bSymbols b. sym_strings s)" by blast
  let ?sym = "concat (sym_recs rs (bSymbols b))"
  let ?refs = "concat (map ref_rec (sorted_refs b))"
  let ?file = "concat (map (\<lambda>(o', l). file_rec o' l) fs)"
  let ?str = "itTable it2"
  have str: "length ?str < 2 ^ 32" using 2(2) by (simp add: interner_ok_def)
  have files: "list_all2 (interned ?str) fs (bFiles b)"
    using 1(4) by (rule list_all2_mono) (auto intro: interned_prefix [OF _ 2(3)] str)
  have len: "length ?sym = length (bSymbols b) * symbolRecordSize"
    "length ?refs = length (bRefs b) * refsRecordSize"
    "length ?file = length (bFiles b) * fileRecordSize"
    using length_chunks [OF sym_recs_sizes, of rs "bSymbols b"] length_sym_recs [OF 2(4)]
      length_chunks [OF ref_recs_sizes, of "sorted_refs b"]
      length_chunks [OF file_recs_sizes, of fs] list_all2_lengthD [OF files]
    by simp_all
  have n: "length (bSymbols b) < 2 ^ 32" "length (bRefs b) < 2 ^ 32" "length (bFiles b) < 2 ^ 32"
    using fit by (simp_all add: facts_fit_def)
  have small: "88 + length ?sym + length ?refs + length ?file < 2 ^ 64"
    unfolding len record_sizes using n by simp
  let ?blob = "blob_header (length (bSymbols b)) (length (bRefs b)) (length (bFiles b))
    (length ?sym) (length ?refs) (length ?file) (length ?str) @ ?sym @ ?refs @ ?file @ ?str"
  have "Build b = Ok ?blob"
    using n put_fields_layout [OF small] 1(1) 2(1)
    by (simp add: Build_def Let_def headerSize_def buildRefsTable_def flip: sorted_refs_def)
  moreover have "NewView ?blob = Ok \<lparr>vSymTable = ?sym, vRefsTable = ?refs, vFileTable = ?file,
      vStrTable = ?str, vSymbolCount = length (bSymbols b), vRefsCount = length (bRefs b),
      vFileCount = length (bFiles b)\<rparr>" (is "_ = Ok ?v")
    by (rule NewView_layout [OF n str len])
  moreover have "view_of b ?v"
    using files 2(4) by (auto simp: view_of_def)
  moreover have "length ?blob \<le> 88 + 48 * length (bSymbols b) + 32 * length (bRefs b) + 8 * length (bFiles b)
        + (\<Sum>f\<leftarrow>bFiles b. length f) + (\<Sum>s\<leftarrow>bSymbols b. sym_strings s)"
    using len 1(3) 2(5) by (simp add: record_sizes)
  ultimately show ?thesis by blast
qed

lemma Build_view: "facts_fit b \<Longrightarrow> \<exists>blob v. Build b = Ok blob \<and> NewView blob = Ok v \<and> view_of b v"
  using Build_layout by blast

subsection \<open>Symbols and files\<close>

definition symbol_reads :: "symbol \<Rightarrow> symbol_input \<Rightarrow> bool" where
  "symbol_reads sy s \<longleftrightarrow> symIDHash sy = Ok (siIDHash s) \<and> symKind sy = Ok (siKind s)
     \<and> symFlags sy = Ok (siFlags s) \<and> symName sy = Ok (siName s) \<and> symDoc sy = Ok (siDoc s)
     \<and> symSig sy = Ok (siSig s) \<and> symFileIdx sy = Ok (siFileIdx s) \<and> symLine sy = Ok (siLine s)
     \<and> symCol sy = Ok (siCol s)"

lemma symbol_reads_rec:
  assumes "sym_interned tbl (nm, dc, sg) s"
  shows "symbol_reads \<lparr>syRec = sym_rec s nm dc sg, syStr = tbl\<rparr> s"
  using assms
  by (simp add: symbol_reads_def symIDHash_def symKind_def symFlags_def symName_def symDoc_def
      symSig_def symFileIdx_def symLine_def symCol_def strField_def rd_u64_def rd_u32_def
      byte_at_def sym_offsets sym_rec_bytes sym_interned_def interned_str_slice nth_append)

lemma symbolRecordAt_view:
  assumes v: "view_of b v" and i: "i < length (bSymbols b)"
  shows "\<exists>sy. symbolRecordAt v i = Ok sy \<and> symbol_reads sy (bSymbols b ! i)"
proof -
  obtain rs where rs: "vSymTable v = concat (sym_recs rs (bSymbols b))"
    "list_all2 (sym_interned (vStrTable v)) rs (bSymbols b)"
    using v by (auto simp: view_of_def)
  obtain nm dc sg where r: "rs ! i = (nm, dc, sg)" by (metis prod.collapse)
  have "take symbolRecordSize (drop (i * symbolRecordSize) (vSymTable v))
      = sym_rec (bSymbols b ! i) nm dc sg"
    using chunk_nth [OF sym_recs_sizes] length_sym_recs [OF rs(2)] sym_recs_nth [OF rs(2) i] i r
    by (simp add: rs(1))
  moreover have "Suc i * symbolRecordSize \<le> length (vSymTable v)"
    using i length_chunks [OF sym_recs_sizes, of rs "bSymbols b"] length_sym_recs [OF rs(2)]
    by (simp add: rs(1) del: mult_Suc)
  moreover have "sym_interned (vStrTable v) (nm, dc, sg) (bSymbols b ! i)"
    using list_all2_nthD2 [OF rs(2) i] r by simp
  ultimately show ?thesis
    by (auto simp: symbolRecordAt_def slice_def Let_def intro: symbol_reads_rec)
qed

lemma lookupSymbolFrom_view:
  assumes v: "view_of b v"
  shows "i + k = length (bSymbols b) \<Longrightarrow>
    \<exists>r. lookupSymbolFrom v h i k = Ok r
      \<and> rel_option symbol_reads r (find (\<lambda>s. siIDHash s = h) (drop i (bSymbols b)))"
proof (induction k arbitrary: i)
  case 0
  then show ?case by simp
next
  case (Suc k)
  then obtain sy where sy: "symbolRecordAt v i = Ok sy" "symbol_reads sy (bSymbols b ! i)"
    using symbolRecordAt_view [OF v, of i] by auto
  have drop: "drop i (bSymbols b) = bSymbols b ! i # drop (Suc i) (bSymbols b)"
    using Suc.prems by (simp add: Cons_nth_drop_Suc)
  have h: "symIDHash sy = Ok (siIDHash (bSymbols b ! i))" using sy(2) by (simp add: symbol_reads_def)
  show ?case
    using Suc.IH [of "Suc i"] Suc.prems sy h by (auto simp: drop)
qed

lemma FileAt_view:
  assumes v: "view_of b v" and i: "i < length (bFiles b)"
  shows "FileAt v (int i) = Ok (bFiles b ! i)"
proof -
  obtain fs where fs: "vFileTable v = concat (map (\<lambda>(o', l). file_rec o' l) fs)"
    "list_all2 (interned (vStrTable v)) fs (bFiles b)" and n: "vFileCount v = length (bFiles b)"
    using v by (auto simp: view_of_def)
  have len: "length fs = length (bFiles b)" using fs(2) by (rule list_all2_lengthD)
  obtain o' l where r: "fs ! i = (o', l)" by (metis prod.collapse)
  have rec: "take fileRecordSize (drop (i * fileRecordSize) (vFileTable v)) = file_rec o' l"
    using chunk_nth [OF file_recs_sizes, of i fs] i len r by (simp add: fs(1))
  have "Suc i * fileRecordSize \<le> length (vFileTable v)"
    using i len length_chunks [OF file_recs_sizes, of fs] by (simp add: fs(1) del: mult_Suc)
  moreover have "interned (vStrTable v) (o', l) (bFiles b ! i)"
    using list_all2_nthD2 [OF fs(2) i] r by simp
  ultimately show ?thesis
    using i rec n interned_str_slice [of "vStrTable v" "(o', l)"]
    by (simp add: FileAt_def Let_def slice_def rd_u32_def file_rec_bytes fileOffPathOff_def
        fileOffPathLen_def fileRecordSize_def)
qed

subsection \<open>References\<close>

lemma refRecordAt_view:
  assumes v: "view_of b v" and i: "i < length (bRefs b)"
  shows "refRecordAt v i = Ok (ref_rec (sorted_refs b ! i))"
proof -
  have tab: "vRefsTable v = concat (map ref_rec (sorted_refs b))"
    using v by (simp add: view_of_def)
  have "Suc i * refsRecordSize \<le> length (vRefsTable v)"
    using i length_chunks [OF ref_recs_sizes, of "sorted_refs b"] by (simp add: tab del: mult_Suc)
  then show ?thesis
    using i chunk_nth [OF ref_recs_sizes, of i "sorted_refs b"]
    by (simp add: refRecordAt_def slice_def Let_def tab)
qed

lemma refsToFrom_view:
  assumes v: "view_of b v"
  shows "i + k = length (bRefs b) \<Longrightarrow> refsToFrom v h i k =
    Ok (map ref_rec (filter (\<lambda>r. riToSymbolIDHash r = h) (drop i (sorted_refs b))))"
proof (induction k arbitrary: i)
  case 0
  then show ?case by simp
next
  case (Suc k)
  have "drop i (sorted_refs b) = sorted_refs b ! i # drop (Suc i) (sorted_refs b)"
    using Suc.prems by (simp add: Cons_nth_drop_Suc)
  then show ?case
    using Suc.IH [of "Suc i"] Suc.prems refRecordAt_view [OF v, of i] by simp
qed

definition span_contains :: "ref_input \<Rightarrow> u32 \<Rightarrow> u32 \<Rightarrow> u32 \<Rightarrow> bool" where
  "span_contains r fileIdx line col \<longleftrightarrow> riFileIdx r = fileIdx \<and> riLine r = line
     \<and> riCol r \<le> col \<and> col < riEndCol r"

text \<open>
  What identifier occurrences of one package satisfy: spans are not empty, and two different
  ones on the same line do not overlap.
\<close>

definition spans_disjoint :: "ref_input list \<Rightarrow> bool" where
  "spans_disjoint rs \<longleftrightarrow> list_all (\<lambda>r. riCol r < riEndCol r) rs \<and>
     list_all (\<lambda>r. list_all (\<lambda>r'. r = r' \<or> riFileIdx r \<noteq> riFileIdx r' \<or> riLine r \<noteq> riLine r'
        \<or> riEndCol r \<le> riCol r' \<or> riEndCol r' \<le> riCol r) rs) rs"

lemma refKeyGreater_rec:
  "refKeyGreater (ref_rec r) f l c \<longleftrightarrow> (f, l, c) < (riFileIdx r, riLine r, riCol r)"
  by (auto simp: refKeyGreater_def less_prod_def)

lemma sorted_refs_mono:
  assumes "i \<le> j" and "j < length (bRefs b)"
  shows "(riFileIdx (sorted_refs b ! i), riLine (sorted_refs b ! i), riCol (sorted_refs b ! i))
    \<le> (riFileIdx (sorted_refs b ! j), riLine (sorted_refs b ! j), riCol (sorted_refs b ! j))"
proof -
  have "sorted (map (\<lambda>r. (riFileIdx r, riLine r, riCol r)) (sorted_refs b))"
    by (simp add: sorted_refs_key)
  from sorted_nth_mono [OF this assms(1)] assms show ?thesis by simp
qed

text \<open>The index the binary search of \<open>RefsAt\<close> finds: one past the last key not after the query.\<close>

lemma RefsAt_search:
  fixes f l c :: u32 and b :: builder and v :: view
  assumes v: "view_of b v"
  defines "s \<equiv> search (\<lambda>i. case refRecordAt v i of
      Ok r \<Rightarrow> refKeyGreater r f l c | _ \<Rightarrow> True) 0 (vRefsCount v)"
  shows "s \<le> length (bRefs b)"
    and "i < s \<Longrightarrow> (riFileIdx (sorted_refs b ! i), riLine (sorted_refs b ! i),
        riCol (sorted_refs b ! i)) \<le> (f, l, c)"
    and "s \<le> i \<Longrightarrow> i < length (bRefs b) \<Longrightarrow>
      (f, l, c) < (riFileIdx (sorted_refs b ! i), riLine (sorted_refs b ! i),
        riCol (sorted_refs b ! i))"
proof -
  let ?p = "\<lambda>i. case refRecordAt v i of Ok r \<Rightarrow> refKeyGreater r f l c | _ \<Rightarrow> True"
  let ?key = "\<lambda>i. (riFileIdx (sorted_refs b ! i), riLine (sorted_refs b ! i), riCol (sorted_refs b ! i))"
  have p: "?p i \<longleftrightarrow> (f, l, c) < ?key i" if "i < length (bRefs b)" for i
    using refRecordAt_view [OF v that] by (simp add: refKeyGreater_rec)
  have n: "vRefsCount v = length (bRefs b)" using v by (simp add: view_of_def)
  have mono: "?p l'" if "k \<le> l'" "l' < length (bRefs b)" "?p k" for k l'
  proof -
    have "(f, l, c) < ?key k" using that p [of k] by simp
    also have "?key k \<le> ?key l'" using that(1,2) by (rule sorted_refs_mono)
    finally show ?thesis using p [OF that(2)] by simp
  qed
  have "s \<le> length (bRefs b) \<and> (\<forall>k < s. \<not> ?p k) \<and> (\<forall>k. s \<le> k \<and> k < length (bRefs b) \<longrightarrow> ?p k)"
    unfolding s_def n by (rule search_correct) (use mono in auto)
  then show "s \<le> length (bRefs b)"
    and "i < s \<Longrightarrow> ?key i \<le> (f, l, c)"
    and "s \<le> i \<Longrightarrow> i < length (bRefs b) \<Longrightarrow> (f, l, c) < ?key i"
    using p [of i] by (auto simp: not_less)
qed

lemma RefsAt_sound:
  assumes v: "view_of b v"
  shows "\<exists>o'. RefsAt v f l c = Ok o' \<and>
    (\<forall>x. o' = Some x \<longrightarrow> (\<exists>r \<in> set (bRefs b). x = ref_rec r \<and> span_contains r f l c))"
proof -
  let ?s = "search (\<lambda>i. case refRecordAt v i of
      Ok r \<Rightarrow> refKeyGreater r f l c | _ \<Rightarrow> True) 0 (vRefsCount v)"
  show ?thesis
  proof (cases ?s)
    case 0
    then show ?thesis by (simp add: RefsAt_def Let_def)
  next
    case (Suc k)
    have k: "k < length (bRefs b)" using RefsAt_search(1) [OF v, of f l c] Suc by simp
    have "sorted_refs b ! k \<in> set (bRefs b)"
      using k nth_mem [of k "sorted_refs b"] by simp
    then show ?thesis
      using refRecordAt_view [OF v k] Suc
      by (auto simp: RefsAt_def Let_def span_contains_def)
  qed
qed

lemma RefsAt_complete:
  assumes v: "view_of b v" and dis: "spans_disjoint (bRefs b)"
    and r: "r \<in> set (bRefs b)" and c: "span_contains r f l c"
  shows "RefsAt v f l c = Ok (Some (ref_rec r))"
proof -
  let ?s = "search (\<lambda>i. case refRecordAt v i of
      Ok r \<Rightarrow> refKeyGreater r f l c | _ \<Rightarrow> True) 0 (vRefsCount v)"
  let ?R = "sorted_refs b"
  obtain i where i: "i < length (bRefs b)" "?R ! i = r"
    using r by (metis in_set_conv_nth length_sorted_refs set_sorted_refs)
  have "\<not> (f, l, c) < (riFileIdx r, riLine r, riCol r)"
    using c by (simp add: span_contains_def not_less)
  then have "i < ?s" using RefsAt_search(3) [OF v, of f l c i] i by (meson not_less)
  then obtain k where k: "?s = Suc k" "i \<le> k" by (cases ?s) auto
  have kn: "k < length (bRefs b)" using RefsAt_search(1) [OF v, of f l c] k by simp
  let ?q = "?R ! k"
  have q: "?q \<in> set (bRefs b)" using kn nth_mem [of k ?R] by simp
  have "(riFileIdx r, riLine r, riCol r) \<le> (riFileIdx ?q, riLine ?q, riCol ?q)"
    using sorted_refs_mono [OF k(2) kn] i(2) by simp
  moreover have "(riFileIdx ?q, riLine ?q, riCol ?q) \<le> (f, l, c)"
    using RefsAt_search(2) [OF v, of k f l c] k by simp
  ultimately have same: "riFileIdx ?q = f" "riLine ?q = l" "riCol r \<le> riCol ?q" "riCol ?q \<le> c"
    using c by (auto simp: span_contains_def)
  have "?q = r"
    using dis r q same c by (fastforce simp: spans_disjoint_def list_all_iff span_contains_def)
  then show ?thesis
    using refRecordAt_view [OF v kn] k(1) c
    by (simp add: RefsAt_def Let_def span_contains_def)
qed

section \<open>Building and reading back\<close>

lemma SymbolAt_view:
  "view_of b v \<Longrightarrow> i < length (bSymbols b) \<Longrightarrow>
    \<exists>sy. SymbolAt v (int i) = Ok sy \<and> symbol_reads sy (bSymbols b ! i)"
  using symbolRecordAt_view [of b v i] by (simp add: SymbolAt_def view_of_def)

lemma LookupSymbol_view:
  "view_of b v \<Longrightarrow> \<exists>r. LookupSymbol v h = Ok r
    \<and> rel_option symbol_reads r (find (\<lambda>s. siIDHash s = h) (bSymbols b))"
  using lookupSymbolFrom_view [of b v 0 "length (bSymbols b)" h]
  by (simp add: LookupSymbol_def view_of_def)

lemma RefsTo_view:
  "view_of b v \<Longrightarrow>
    RefsTo v h = Ok (map ref_rec (filter (\<lambda>r. riToSymbolIDHash r = h) (sorted_refs b)))"
  using refsToFrom_view [of b v 0 "length (bRefs b)" h] by (simp add: RefsTo_def view_of_def)

text \<open>
  C9. Building a facts blob and reading it back loses nothing: a builder whose counts and
  strings fit the 32-bit fields builds, the blob parses, every symbol record and every file
  path comes back at its index with all its fields, and \<open>LookupSymbol\<close> finds exactly the
  first symbol with the wanted id hash.
\<close>

theorem facts_symbols_roundtrip:
  assumes "facts_fit b"
  shows "\<exists>blob v. Build b = Ok blob \<and> NewView blob = Ok v
    \<and> vSymbolCount v = length (bSymbols b) \<and> vFileCount v = length (bFiles b)
    \<and> (\<forall>i. i < length (bSymbols b) \<longrightarrow>
         (\<exists>sy. SymbolAt v (int i) = Ok sy \<and> symbol_reads sy (bSymbols b ! i)))
    \<and> (\<forall>i. i < length (bFiles b) \<longrightarrow> FileAt v (int i) = Ok (bFiles b ! i))
    \<and> (\<forall>h. \<exists>r. LookupSymbol v h = Ok r
         \<and> rel_option symbol_reads r (find (\<lambda>s. siIDHash s = h) (bSymbols b)))"
proof -
  obtain blob v where 1: "Build b = Ok blob" "NewView blob = Ok v" and v: "view_of b v"
    using Build_view [OF assms] by blast
  have "vSymbolCount v = length (bSymbols b) \<and> vFileCount v = length (bFiles b)"
    using v by (simp add: view_of_def)
  then show ?thesis
    using 1 SymbolAt_view [OF v] FileAt_view [OF v] LookupSymbol_view [OF v] by blast
qed

definition sample_builder :: builder where
  "sample_builder = AddRef \<lparr>riFileIdx = 0, riLine = 9, riCol = 4, riEndCol = 7,
       riToSymbolIDHash = 11, riToPkgHash = 5\<rparr>
     (AddRef \<lparr>riFileIdx = 0, riLine = 3, riCol = 2, riEndCol = 5,
       riToSymbolIDHash = 11, riToPkgHash = 5\<rparr>
     (AddSymbol \<lparr>siIDHash = 11, siKind = 1, siFlags = 0, siName = lit ''Run'', siDoc = [],
       siSig = lit ''func()'', siFileIdx = 0, siLine = 3, siCol = 2\<rparr>
     (SetFiles [lit ''a.go''] NewBuilder)))"

lemma sample_builder_fields:
  "bFiles sample_builder = [lit ''a.go'']"
  "bSymbols sample_builder = [\<lparr>siIDHash = 11, siKind = 1, siFlags = 0, siName = lit ''Run'',
      siDoc = [], siSig = lit ''func()'', siFileIdx = 0, siLine = 3, siCol = 2\<rparr>]"
  "bRefs sample_builder = [\<lparr>riFileIdx = 0, riLine = 3, riCol = 2, riEndCol = 5,
       riToSymbolIDHash = 11, riToPkgHash = 5\<rparr>, \<lparr>riFileIdx = 0, riLine = 9, riCol = 4,
       riEndCol = 7, riToSymbolIDHash = 11, riToPkgHash = 5\<rparr>]"
  by (simp_all add: sample_builder_def AddRef_def AddSymbol_def SetFiles_def NewBuilder_def)

lemma sample_builder_fit: "facts_fit sample_builder"
  by (simp add: facts_fit_def sample_builder_fields sym_strings_def lit_def)

theorem facts_symbols_roundtrip_witness:
  "facts_fit sample_builder \<and> (\<exists>blob v. Build sample_builder = Ok blob \<and> NewView blob = Ok v
    \<and> FileAt v 0 = Ok (lit ''a.go''))"
  using facts_symbols_roundtrip [OF sample_builder_fit] sample_builder_fit
  by (force simp: sample_builder_fields)

text \<open>
  \<open>RefsTo\<close> on a built blob answers with exactly the references whose target is the
  wanted symbol, each with all its fields, in (file, line, column) order and with equal keys
  in insertion order.
\<close>

lemma facts_refs_to:
  assumes "facts_fit b"
  shows "\<exists>blob v. Build b = Ok blob \<and> NewView blob = Ok v
    \<and> (\<forall>h. RefsTo v h = Ok (map ref_rec (filter (\<lambda>r. riToSymbolIDHash r = h)
         (sort_key (\<lambda>r. (riFileIdx r, riLine r, riCol r)) (bRefs b)))))"
  using Build_view [OF assms] RefsTo_view unfolding sorted_refs_key by blast

lemma facts_refs_to_witness:
  "facts_fit sample_builder \<and> (\<exists>blob v. Build sample_builder = Ok blob \<and> NewView blob = Ok v
    \<and> RefsTo v 11 = Ok (map ref_rec (bRefs sample_builder)) \<and> RefsTo v 12 = Ok [])"
  using facts_refs_to [OF sample_builder_fit] sample_builder_fit
  by (force simp: sample_builder_fields)

text \<open>
  C10. \<open>RefsAt\<close> on a built blob whose reference spans are non-empty and do not overlap
  answers a position query exactly: it returns the reference whose span contains the position,
  and nothing when there is none.
\<close>

theorem facts_refs_at:
  assumes "facts_fit b" and "spans_disjoint (bRefs b)"
  shows "\<exists>blob v. Build b = Ok blob \<and> NewView blob = Ok v
    \<and> (\<forall>f l c r. r \<in> set (bRefs b) \<and> span_contains r f l c
          \<longrightarrow> RefsAt v f l c = Ok (Some (ref_rec r)))
    \<and> (\<forall>f l c. \<not> (\<exists>r \<in> set (bRefs b). span_contains r f l c) \<longrightarrow> RefsAt v f l c = Ok None)"
proof -
  obtain blob v where 1: "Build b = Ok blob" "NewView blob = Ok v" and v: "view_of b v"
    using Build_view [OF assms(1)] by blast
  have "RefsAt v f l c = Ok None" if "\<not> (\<exists>r \<in> set (bRefs b). span_contains r f l c)" for f l c
    using RefsAt_sound [OF v, of f l c] that by (metis not_None_eq)
  then show ?thesis using 1 RefsAt_complete [OF v assms(2)] by blast
qed

theorem facts_refs_at_witness:
  "facts_fit sample_builder \<and> spans_disjoint (bRefs sample_builder)
    \<and> (\<exists>blob v. Build sample_builder = Ok blob \<and> NewView blob = Ok v
        \<and> RefsAt v 0 9 6 = Ok (Some (ref_rec (bRefs sample_builder ! 1)))
        \<and> RefsAt v 0 9 7 = Ok None)"
proof -
  have d: "spans_disjoint (bRefs sample_builder)"
    by (simp add: sample_builder_fields spans_disjoint_def)
  obtain blob v where 1: "Build sample_builder = Ok blob" "NewView blob = Ok v"
    and hit: "\<forall>f l c r. r \<in> set (bRefs sample_builder) \<and> span_contains r f l c
      \<longrightarrow> RefsAt v f l c = Ok (Some (ref_rec r))"
    and miss: "\<forall>f l c. \<not> (\<exists>r \<in> set (bRefs sample_builder). span_contains r f l c)
      \<longrightarrow> RefsAt v f l c = Ok None"
    using facts_refs_at [OF sample_builder_fit d] by blast
  have "bRefs sample_builder ! 1 \<in> set (bRefs sample_builder)"
    and "span_contains (bRefs sample_builder ! 1) 0 9 6"
    and "\<not> (\<exists>r \<in> set (bRefs sample_builder). span_contains r 0 9 7)"
    by (simp_all add: sample_builder_fields span_contains_def)
  then show ?thesis using 1 hit miss sample_builder_fit d by blast
qed

end
