(* ===== verification/Xref.thy ===== *)
theory Xref
  imports Xref_Cache Facts_Blob Overlay
begin

text \<open>
  The queries over the index of \<open>internal/xref\<close>: the resolver with its maps from files to packages
  (\<open>resolver.go\<close>, \<open>paths.go\<close>), \<open>Definition\<close>, \<open>References\<close>, \<open>WorkspaceSymbol\<close> and \<open>Rename\<close>
  (\<open>xref.go\<close>) and the lookups of \<open>symbollookup.go\<close>.

  A query runs against one state of the database and the blob store; what it changes is the cache
  of unit blobs and the number of times it has asked whether its context is cancelled. A context
  becomes cancelled at the \<open>n\<close>-th such question, for some \<open>n\<close>, or never.
\<close>

section \<open>Errors, locations and the state of a query\<close>

datatype xref_error =
    NegativeLine int | LineRange int | NegativeCol int | ColRange int
  | UnknownFile bytes                     \<comment> \<open>not part of any known package; wraps \<open>ErrNoSymbolAt\<close>\<close>
  | NoFileEntry bytes path                \<comment> \<open>no entry in the facts; wraps \<open>ErrNoSymbolAt\<close>\<close>
  | NoSymbolAt bytes u32 u32              \<comment> \<open>wraps \<open>ErrNoSymbolAt\<close>\<close>
  | ReadFacts path xref_error             \<comment> \<open>wraps its argument\<close>
  | NoFacts bytes                         \<comment> \<open>no pointer recorded; wraps \<open>ErrNotFound\<close>\<close>
  | BlobMissing u64 bytes                 \<comment> \<open>no blob for the pointer; wraps \<open>ErrNotFound\<close>\<close>
  | SymbolNotFound                        \<comment> \<open>\<open>errSymbolNotFound\<close>\<close>
  | NoDefinition bytes
  | InStore store_error
  | OtherXref nat

text \<open>\<open>errors.Is(err, ctx.Err())\<close>\<close>

fun isCancelled :: "xref_error \<Rightarrow> bool" where
  "isCancelled (InStore Cancelled) = True"
| "isCancelled (ReadFacts p e) = isCancelled e"
| "isCancelled _ = False"

record resolved_symbol =
  rsyPkgHash :: u64
  rsyIDHash :: u64
  rsyKind :: byte
  rsyName :: bytes

record symbol_info =
  sinName :: bytes
  sinKind :: byte
  sinContainer :: path
  sinLocation :: xref_location

record xref_edit =
  xdLine :: u32
  xdCol :: u32
  xdEndCol :: u32
  xdNewText :: bytes

definition KindFunc :: byte where "KindFunc = 0"
definition KindMethod :: byte where "KindMethod = 1"
definition KindType :: byte where "KindType = 2"
definition KindInterface :: byte where "KindInterface = 3"
definition KindField :: byte where "KindField = 6"

record 't query_state =
  qsDB :: 't
  qsCAS :: cas_files
  qsUnits :: unit_cache
  qsTicks :: nat
  qsCancelAt :: "nat option"

type_synonym ('t, 'a) query = "'t query_state \<Rightarrow> (xref_error, 'a) go \<times> 't query_state"

definition ctxDone :: "'t query_state \<Rightarrow> bool" where
  "ctxDone s = (case qsCancelAt s of None \<Rightarrow> False | Some n \<Rightarrow> n \<le> qsTicks s)"

section \<open>Sequencing\<close>

definition q_ret :: "'a \<Rightarrow> ('t, 'a) query" where
  "q_ret x = (\<lambda>s. (Ok x, s))"

definition q_err :: "xref_error \<Rightarrow> ('t, 'a) query" where
  "q_err e = (\<lambda>s. (Err e, s))"

text \<open>\<open>x, err := m; if err != nil { h } ; f\<close>\<close>

definition q_try :: "('t, 'a) query \<Rightarrow> ('a \<Rightarrow> ('t, 'b) query) \<Rightarrow> (xref_error \<Rightarrow> ('t, 'b) query) \<Rightarrow> ('t, 'b) query" where
  "q_try m f h = (\<lambda>s. case m s of
       (Ok x, s') \<Rightarrow> f x s'
     | (Err e, s') \<Rightarrow> h e s'
     | (Panic, s') \<Rightarrow> (Panic, s'))"

definition q_bind :: "('t, 'a) query \<Rightarrow> ('a \<Rightarrow> ('t, 'b) query) \<Rightarrow> ('t, 'b) query" where
  "q_bind m f = q_try m f q_err"

text \<open>A call into the store package that does not look at the context.\<close>

definition q_store :: "(store_error, 'a) go \<Rightarrow> ('t, 'a) query" where
  "q_store r = (\<lambda>s. (case r of Ok x \<Rightarrow> Ok x | Err e \<Rightarrow> Err (InStore e) | Panic \<Rightarrow> Panic, s))"

text \<open>A call into the store package that first asks \<open>ctx.Err()\<close>.\<close>

definition q_ctx :: "(bool \<Rightarrow> 't query_state \<Rightarrow> (store_error, 'a) go) \<Rightarrow> ('t, 'a) query" where
  "q_ctx f = (\<lambda>s. q_store (f (ctxDone s) s) (s\<lparr>qsTicks := qsTicks s + 1\<rparr>))"

text \<open>\<open>if err := ctx.Err(); err != nil { return err }\<close>\<close>

definition q_check :: "('t, unit) query" where
  "q_check = q_ctx (\<lambda>done' s. if done' then Err Cancelled else Ok ())"

fun q_concat :: "('a \<Rightarrow> ('t, 'b list) query) \<Rightarrow> 'a list \<Rightarrow> ('t, 'b list) query" where
  "q_concat f [] = q_ret []"
| "q_concat f (x # xs) = q_bind (f x) (\<lambda>ys. q_bind (q_concat f xs) (\<lambda>zs. q_ret (ys @ zs)))"

section \<open>The resolver\<close>

text \<open>
  What a resolver is made with. \<open>xvCorresponding\<close> stands for \<open>correspondingMethodSymbols\<close>
  (\<open>implementation.go\<close>), which compares method sets through \<open>go/types\<close>; \<open>xvDocEdits\<close> for
  \<open>docCommentEdits\<close>, which parses the declaring file.
\<close>

record 't resolver =
  xvBolt :: "'t bolt"
  xvLower :: "bytes \<Rightarrow> bytes"
  xvRel :: "bytes \<Rightarrow> bytes \<Rightarrow> bytes option"
  xvJoin :: "bytes \<Rightarrow> bytes \<Rightarrow> bytes"
  xvIsAbs :: "bytes \<Rightarrow> bool"
  xvFileDir :: "bytes \<Rightarrow> bytes"
  xvReadErr :: "u64 \<Rightarrow> nat option"
  xvFileToPkg :: "bytes \<rightharpoonup> path"
  xvDirToPkg :: "bytes \<rightharpoonup> path"
  xvPkgPathByHash :: "u64 \<rightharpoonup> path"
  xvRoot :: bytes
  xvRelative :: bool
  xvCorresponding :: "resolved_symbol \<Rightarrow> ('t, resolved_symbol list) query"
  xvDocEdits :: "bytes \<Rightarrow> u32 \<Rightarrow> u32 \<Rightarrow> bytes \<Rightarrow> bytes \<Rightarrow> (xref_error, xref_edit list) go"

definition xrefExternalTestOfRoot :: "snapshot \<Rightarrow> package \<Rightarrow> bool" where
  "xrefExternalTestOfRoot snap pkg \<longleftrightarrow> pkForTest pkg \<noteq> []
     \<and> (case snPackages snap (pkForTest pkg) of
          None \<Rightarrow> False
        | Some base \<Rightarrow> pkRoot base \<and> pkDir base = pkDir pkg)"

definition setFiles :: "path \<Rightarrow> bytes list \<Rightarrow> (bytes \<rightharpoonup> path) \<Rightarrow> (bytes \<rightharpoonup> path)" where
  "setFiles path files m = fold (\<lambda>f m. m(f \<mapsto> path)) files m"

text \<open>One iteration of the loop of \<open>New\<close> over the packages.\<close>

definition registerPackage :: "snapshot \<Rightarrow> path \<Rightarrow> 't resolver \<Rightarrow> 't resolver" where
  "registerPackage snap path r =
     (case snPackages snap path of
        None \<Rightarrow> r
      | Some pkg \<Rightarrow>
          let r = r\<lparr>xvPkgPathByHash := (xvPkgPathByHash r)(Hash path \<mapsto> path)\<rparr> in
          if pkRoot pkg
          then r\<lparr>xvFileToPkg := setFiles path (pkGoFiles pkg) (xvFileToPkg r),
                 xvDirToPkg := (xvDirToPkg r)(pkDir pkg \<mapsto> path)\<rparr>
          else if xrefExternalTestOfRoot snap pkg
          then r\<lparr>xvFileToPkg := setFiles path (pkGoFiles pkg) (xvFileToPkg r)\<rparr>
          else r)"

text \<open>\<open>New\<close>; \<open>ks\<close> is the order in which Go enumerates \<open>snap.Packages\<close>, and \<open>r\<close> holds the other fields.\<close>

definition NewResolver :: "path list \<Rightarrow> snapshot \<Rightarrow> bool \<Rightarrow> 't resolver \<Rightarrow> 't resolver" where
  "NewResolver ks snap relative r =
     fold (registerPackage snap) ks
       (r\<lparr>xvFileToPkg := Map.empty, xvDirToPkg := Map.empty, xvPkgPathByHash := Map.empty,
          xvRoot := snDir snap, xvRelative := relative\<rparr>)"

definition xrefRelPath :: "'t resolver \<Rightarrow> bytes \<Rightarrow> bytes \<Rightarrow> bytes" where
  "xrefRelPath r root path =
     (case xvRel r root path of
        None \<Rightarrow> path
      | Some rel \<Rightarrow> if prefix (lit ''..'') rel then path else rel)"

definition absPath :: "'t resolver \<Rightarrow> bytes \<Rightarrow> bytes \<Rightarrow> bool \<Rightarrow> bytes" where
  "absPath r root stored relative =
     (if \<not> relative \<or> xvIsAbs r stored then stored else xvJoin r root stored)"

definition pkgPathForFile :: "'t resolver \<Rightarrow> bytes \<Rightarrow> path option" where
  "pkgPathForFile r file =
     (case xvFileToPkg r file of
        Some p \<Rightarrow> Some p
      | None \<Rightarrow> xvDirToPkg r (xvFileDir r file))"

text \<open>\<open>fmt.Sprintf("pkg#%x", h)\<close>: the digits without leading zeros.\<close>

definition hexTrim :: "u64 \<Rightarrow> bytes" where
  "hexTrim h = (if h = 0 then lit ''0'' else dropWhile (\<lambda>c. c = 48) (hex16 h))"

definition pkgPathForHash :: "'t resolver \<Rightarrow> u64 \<Rightarrow> bytes" where
  "pkgPathForHash r h =
     (case xvPkgPathByHash r h of Some p \<Rightarrow> p | None \<Rightarrow> lit ''pkg#'' @ hexTrim h)"

section \<open>Reading a package's facts\<close>

definition decodeUnitBlob :: "'t resolver \<Rightarrow> u64 \<Rightarrow> u64 \<Rightarrow> ('t, unit_blob) query" where
  "decodeUnitBlob r pkgHash blobKey =
     q_bind (q_ctx (\<lambda>done' s. casGet done' (xvReadErr r blobKey) (qsCAS s) blobKey)) (\<lambda>b.
       case b of
         None \<Rightarrow> q_err (BlobMissing blobKey (pkgPathForHash r pkgHash))
       | Some blob \<Rightarrow> q_store (DecodeUnitBlob blob))"

definition unitPointer :: "'t resolver \<Rightarrow> u64 \<Rightarrow> ('t, unit_pointer) query" where
  "unitPointer r pkgHash =
     q_try (q_ctx (\<lambda>done' s. GetUnit (xvBolt r) done' pkgHash (qsDB s))) q_ret
       (\<lambda>e. if e = InStore NotFound then q_err (NoFacts (pkgPathForHash r pkgHash)) else q_err e)"

definition unitsGet :: "u64 \<Rightarrow> ('t, unit_blob option) query" where
  "unitsGet blobKey = (\<lambda>s. case ucGet blobKey (qsUnits s) of (u, c) \<Rightarrow> (Ok u, s\<lparr>qsUnits := c\<rparr>))"

definition unitsPut :: "u64 \<Rightarrow> unit_blob \<Rightarrow> ('t, unit) query" where
  "unitsPut blobKey u = (\<lambda>s. (Ok (), s\<lparr>qsUnits := ucPut blobKey u (qsUnits s)\<rparr>))"

definition unitBlob :: "'t resolver \<Rightarrow> u64 \<Rightarrow> ('t, unit_blob) query" where
  "unitBlob r pkgHash =
     q_bind (unitPointer r pkgHash) (\<lambda>ptr.
     q_bind (unitsGet (upBlobKey ptr)) (\<lambda>hit.
       case hit of
         Some u \<Rightarrow> q_ret u
       | None \<Rightarrow>
           q_bind (decodeUnitBlob r pkgHash (upBlobKey ptr)) (\<lambda>u.
           q_bind (unitsPut (upBlobKey ptr) u) (\<lambda>_. q_ret u))))"

text \<open>\<open>fileIndexOf\<close> from index \<open>i\<close>, with \<open>k\<close> entries left.\<close>

fun fileIndexFrom :: "view \<Rightarrow> bytes \<Rightarrow> nat \<Rightarrow> nat \<Rightarrow> (store_error, u32 option) go" where
  "fileIndexFrom v key i 0 = Ok None"
| "fileIndexFrom v key i (Suc k) =
     (case FileAt v (int i) of
        Ok f \<Rightarrow> if f = key then Ok (Some (of_nat i)) else fileIndexFrom v key (Suc i) k
      | Err e \<Rightarrow> fileIndexFrom v key (Suc i) k
      | Panic \<Rightarrow> Panic)"

definition fileKey :: "'t resolver \<Rightarrow> bytes \<Rightarrow> bytes" where
  "fileKey r file = (if xvRelative r then xrefRelPath r (xvRoot r) file else file)"

definition fileIndexOf :: "'t resolver \<Rightarrow> view \<Rightarrow> bytes \<Rightarrow> (store_error, u32 option) go" where
  "fileIndexOf r v file = fileIndexFrom v (fileKey r file) 0 (vFileCount v)"

text \<open>\<open>u32len\<close> of this package panics where that of the store returns an error.\<close>

definition nameLen :: "bytes \<Rightarrow> (store_error, u32) go" where
  "nameLen name = (if length name \<ge> 2 ^ 32 then Panic else Ok (of_nat (length name)))"

definition symEndCol :: "symbol \<Rightarrow> (store_error, u32) go" where
  "symEndCol s =
     go_bind (symCol s) (\<lambda>col. go_bind (symName s) (\<lambda>name. go_bind (nameLen name) (\<lambda>n. Ok (col + n))))"

definition symbolHit :: "symbol \<Rightarrow> u32 \<Rightarrow> u32 \<Rightarrow> u32 \<Rightarrow> (store_error, bool) go" where
  "symbolHit s fileIdx line col =
     go_bind (symFileIdx s) (\<lambda>f. if f \<noteq> fileIdx then Ok False else
     go_bind (symLine s) (\<lambda>l. if l \<noteq> line then Ok False else
     go_bind (symEndCol s) (\<lambda>end'. go_bind (symCol s) (\<lambda>c. Ok (col \<ge> c \<and> col < end')))))"

fun symbolAtFrom :: "view \<Rightarrow> u32 \<Rightarrow> u32 \<Rightarrow> u32 \<Rightarrow> nat \<Rightarrow> nat \<Rightarrow> (store_error, symbol option) go" where
  "symbolAtFrom v fileIdx line col i 0 = Ok None"
| "symbolAtFrom v fileIdx line col i (Suc k) =
     (case SymbolAt v (int i) of
        Ok s \<Rightarrow> go_bind (symbolHit s fileIdx line col) (\<lambda>hit.
          if hit then Ok (Some s) else symbolAtFrom v fileIdx line col (Suc i) k)
      | Err e \<Rightarrow> symbolAtFrom v fileIdx line col (Suc i) k
      | Panic \<Rightarrow> Panic)"

definition symbolAtPosition :: "view \<Rightarrow> u32 \<Rightarrow> u32 \<Rightarrow> u32 \<Rightarrow> (store_error, symbol option) go" where
  "symbolAtPosition v fileIdx line col = symbolAtFrom v fileIdx line col 0 (vSymbolCount v)"

definition symbolLocation :: "'t resolver \<Rightarrow> symbol \<Rightarrow> bytes \<Rightarrow> (store_error, xref_location) go" where
  "symbolLocation r s path =
     go_bind (symLine s) (\<lambda>line. go_bind (symCol s) (\<lambda>col. go_bind (symEndCol s) (\<lambda>endCol.
       Ok \<lparr>xlFile = absPath r (xvRoot r) path (xvRelative r), xlLine = line, xlCol = col, xlEndCol = endCol\<rparr>)))"

text \<open>
  The part of \<open>symbolByHash\<close> after the blob has been read: every error becomes
  \<open>errSymbolNotFound\<close>.
\<close>

definition symbolInFacts :: "'t resolver \<Rightarrow> u64 \<Rightarrow> bytes \<Rightarrow> (xref_error, bytes \<times> byte \<times> xref_location) go" where
  "symbolInFacts r idHash facts =
     (case go_bind (NewView facts) (\<lambda>v. go_bind (LookupSymbol v idHash) (\<lambda>found.
             case found of
               None \<Rightarrow> Err NotFound
             | Some s \<Rightarrow> go_bind (symFileIdx s) (\<lambda>f. go_bind (FileAt v (int (unat f))) (\<lambda>path.
                 go_bind (symbolLocation r s path) (\<lambda>loc. go_bind (symName s) (\<lambda>name.
                 go_bind (symKind s) (\<lambda>kind. Ok (name, kind, loc)))))))) of
        Ok x \<Rightarrow> Ok x
      | Err e \<Rightarrow> Err SymbolNotFound
      | Panic \<Rightarrow> Panic)"

definition q_lift :: "(xref_error, 'a) go \<Rightarrow> ('t, 'a) query" where
  "q_lift x = (\<lambda>s. (x, s))"

definition symbolByHash :: "'t resolver \<Rightarrow> u64 \<Rightarrow> u64 \<Rightarrow> ('t, bytes \<times> byte \<times> xref_location) query" where
  "symbolByHash r pkgHash idHash =
     q_try (unitBlob r pkgHash) (\<lambda>u. q_lift (symbolInFacts r idHash (ubFacts u)))
       (\<lambda>e. q_bind q_check (\<lambda>_. q_err SymbolNotFound))"

definition resolveRefTarget :: "'t resolver \<Rightarrow> bytes \<Rightarrow> ('t, resolved_symbol) query" where
  "resolveRefTarget r ref =
     q_try (symbolByHash r (refToPkgHash ref) (refToSymbolIDHash ref))
       (\<lambda>(name, kind, loc). q_ret \<lparr>rsyPkgHash = refToPkgHash ref, rsyIDHash = refToSymbolIDHash ref,
          rsyKind = kind, rsyName = name\<rparr>)
       (\<lambda>e. if e = SymbolNotFound
            then q_ret \<lparr>rsyPkgHash = refToPkgHash ref, rsyIDHash = refToSymbolIDHash ref, rsyKind = 0, rsyName = []\<rparr>
            else q_err e)"

definition symbolResolved :: "u64 \<Rightarrow> symbol \<Rightarrow> (store_error, resolved_symbol) go" where
  "symbolResolved pkgHash s =
     go_bind (symIDHash s) (\<lambda>h. go_bind (symKind s) (\<lambda>k. go_bind (symName s) (\<lambda>n.
       Ok \<lparr>rsyPkgHash = pkgHash, rsyIDHash = h, rsyKind = k, rsyName = n\<rparr>)))"

text \<open>
  \<open>resolveAt\<close>. (The branch for \<open>errSymbolNotFound\<close> after \<open>resolveRefTarget\<close> is never taken, as
  \<open>resolveRefTarget\<close> does not return that error.)
\<close>

definition resolveAt :: "'t resolver \<Rightarrow> bytes \<Rightarrow> u32 \<Rightarrow> u32 \<Rightarrow> ('t, resolved_symbol) query" where
  "resolveAt r file line col =
     (case pkgPathForFile r file of
        None \<Rightarrow> q_err (UnknownFile file)
      | Some pkgPath \<Rightarrow>
          q_try (unitBlob r (Hash pkgPath)) (\<lambda>u.
            q_bind (q_store (NewView (ubFacts u))) (\<lambda>v.
            q_bind (q_store (fileIndexOf r v file)) (\<lambda>idx.
              case idx of
                None \<Rightarrow> q_err (NoFileEntry file pkgPath)
              | Some fileIdx \<Rightarrow>
                  q_bind (q_store (RefsAt v fileIdx line col)) (\<lambda>ref.
                    case ref of
                      Some rf \<Rightarrow> q_try (resolveRefTarget r rf) q_ret
                        (\<lambda>e. if e = SymbolNotFound then q_err (NoSymbolAt file line col) else q_err e)
                    | None \<Rightarrow>
                        q_bind (q_store (symbolAtPosition v fileIdx line col)) (\<lambda>sy.
                          case sy of
                            Some s \<Rightarrow> q_store (symbolResolved (Hash pkgPath) s)
                          | None \<Rightarrow> q_err (NoSymbolAt file line col))))))
            (\<lambda>e. q_err (ReadFacts pkgPath e)))"

section \<open>Queries\<close>

definition toUint32Pos :: "int \<Rightarrow> int \<Rightarrow> (xref_error, u32 \<times> u32) go" where
  "toUint32Pos line col =
     (if line < 0 then Err (NegativeLine line)
      else if line > 2 ^ 32 - 1 then Err (LineRange line)
      else if col < 0 then Err (NegativeCol col)
      else if col > 2 ^ 32 - 1 then Err (ColRange col)
      else Ok (word_of_int line, word_of_int col))"

definition declarationOf :: "'t resolver \<Rightarrow> resolved_symbol \<Rightarrow> ('t, xref_location) query" where
  "declarationOf r target =
     q_try (symbolByHash r (rsyPkgHash target) (rsyIDHash target)) (\<lambda>(name, kind, loc). q_ret loc)
       (\<lambda>e. if e = SymbolNotFound then q_err (NoDefinition (rsyName target)) else q_err e)"

definition Definition :: "'t resolver \<Rightarrow> bytes \<Rightarrow> int \<Rightarrow> int \<Rightarrow> ('t, xref_location list) query" where
  "Definition r file line col =
     q_bind (q_lift (toUint32Pos line col)) (\<lambda>(l, c).
     q_bind (resolveAt r file l c) (\<lambda>target.
     q_bind (declarationOf r target) (\<lambda>loc. q_ret [loc])))"

definition postingLocation :: "'t resolver \<Rightarrow> posting_location \<Rightarrow> xref_location" where
  "postingLocation r l =
     \<lparr>xlFile = absPath r (xvRoot r) (plFile l) (xvRelative r), xlLine = plLine l, xlCol = plCol l, xlEndCol = plEndCol l\<rparr>"

definition postingsFor :: "'t resolver \<Rightarrow> u64 \<Rightarrow> u64 \<Rightarrow> ('t, xref_location list) query" where
  "postingsFor r targetPkgHash targetIDHash =
     q_bind (q_ctx (\<lambda>done' s. PostingsFor (xvBolt r) done' targetPkgHash targetIDHash (qsDB s))) (\<lambda>recs.
       q_ret (concat (map (\<lambda>rec. map (postingLocation r) (prLocations rec)) recs)))"

definition locationLess :: "xref_location \<Rightarrow> xref_location \<Rightarrow> bool" where
  "locationLess a b =
     (if xlFile a \<noteq> xlFile b then xlFile a < xlFile b
      else if xlLine a \<noteq> xlLine b then xlLine a < xlLine b
      else xlCol a < xlCol b)"

text \<open>
  \<open>sort.Slice\<close>, which is free to order two locations of the same start and different ends as it
  likes; the model keeps their order.
\<close>

definition sortLocations :: "xref_location list \<Rightarrow> xref_location list" where
  "sortLocations locs = sort_by locationLess locs"

fun dedupeLoop :: "xref_location set \<Rightarrow> xref_location list \<Rightarrow> xref_location list" where
  "dedupeLoop seen [] = []"
| "dedupeLoop seen (l # ls) = (if l \<in> seen then dedupeLoop seen ls else l # dedupeLoop (insert l seen) ls)"

definition dedupeLocations :: "xref_location list \<Rightarrow> xref_location list" where
  "dedupeLocations locs = dedupeLoop {} locs"

definition locationsForAll :: "'t resolver \<Rightarrow> resolved_symbol list \<Rightarrow> ('t, xref_location list) query" where
  "locationsForAll r wanted =
     q_bind (q_concat (\<lambda>w. q_bind q_check (\<lambda>_. postingsFor r (rsyPkgHash w) (rsyIDHash w))) wanted)
       (\<lambda>out. q_ret (sortLocations out))"

text \<open>\<open>References\<close> from the declaration on.\<close>

definition referencesOf :: "'t resolver \<Rightarrow> bool \<Rightarrow> resolved_symbol \<Rightarrow> resolved_symbol list \<Rightarrow> ('t, xref_location list) query" where
  "referencesOf r includeDecl target wanted =
     q_bind (if includeDecl
             then q_try (symbolByHash r (rsyPkgHash target) (rsyIDHash target)) (\<lambda>(name, kind, loc). q_ret [loc])
                    (\<lambda>e. if e = SymbolNotFound then q_ret [] else q_err e)
             else q_ret []) (\<lambda>decl.
     q_bind (locationsForAll r wanted) (\<lambda>refs.
       q_ret (sortLocations (dedupeLocations (decl @ refs)))))"

definition References :: "'t resolver \<Rightarrow> bytes \<Rightarrow> int \<Rightarrow> int \<Rightarrow> bool \<Rightarrow> ('t, xref_location list) query" where
  "References r file line col includeDecl =
     q_bind (q_lift (toUint32Pos line col)) (\<lambda>(l, c).
     q_bind (resolveAt r file l c) (\<lambda>target.
       if rsyKind target = KindMethod
       then q_try (xvCorresponding r target) (\<lambda>corresponding. referencesOf r includeDecl target (target # corresponding))
              (\<lambda>e. referencesOf r includeDecl target [target])
       else referencesOf r includeDecl target [target]))"

definition defaultWorkspaceSymbolLimit :: nat where "defaultWorkspaceSymbolLimit = 100"

text \<open>The string before the first number sign, and the one after it.\<close>

definition splitSymbolID :: "bytes \<Rightarrow> (bytes \<times> bytes) option" where
  "splitSymbolID sid =
     (if 35 \<in> set sid then Some (takeWhile (\<lambda>c. c \<noteq> 35) sid, tl (dropWhile (\<lambda>c. c \<noteq> 35) sid)) else None)"

fun infoFromStrings :: "'t resolver \<Rightarrow> u64 \<Rightarrow> bytes list \<Rightarrow> ('t, symbol_info option) query" where
  "infoFromStrings r idHash [] = q_ret None"
| "infoFromStrings r idHash (s # strs) =
     (case splitSymbolID s of
        None \<Rightarrow> infoFromStrings r idHash strs
      | Some (pkgPath, objPath) \<Rightarrow>
          q_try (symbolByHash r (Hash pkgPath) idHash)
            (\<lambda>(name, kind, loc). q_ret (Some \<lparr>sinName = name, sinKind = kind, sinContainer = pkgPath, sinLocation = loc\<rparr>))
            (\<lambda>e. if e = SymbolNotFound then infoFromStrings r idHash strs else q_err e))"

definition symbolInfoFromIDHash :: "'t resolver \<Rightarrow> u64 \<Rightarrow> ('t, symbol_info option) query" where
  "symbolInfoFromIDHash r idHash =
     q_bind (q_ctx (\<lambda>done' s. SymbolIDStrings (xvBolt r) done' idHash (qsDB s))) (infoFromStrings r idHash)"

text \<open>The two loops of \<open>WorkspaceSymbol\<close>; the result tells whether the limit ended the query.\<close>

fun symbolsOfName :: "'t resolver \<Rightarrow> u64 list \<Rightarrow> symbol_info list \<Rightarrow> ('t, symbol_info list \<times> bool) query" where
  "symbolsOfName r [] out = q_ret (out, False)"
| "symbolsOfName r (h # hs) out =
     (if length out \<ge> defaultWorkspaceSymbolLimit then q_ret (out, True)
      else q_bind (symbolInfoFromIDHash r h) (\<lambda>info.
        symbolsOfName r hs (case info of Some i \<Rightarrow> out @ [i] | None \<Rightarrow> out)))"

fun symbolsOfNames :: "'t resolver \<Rightarrow> (bytes \<Rightarrow> u64 list) \<Rightarrow> bytes list \<Rightarrow> symbol_info list \<Rightarrow> ('t, symbol_info list) query" where
  "symbolsOfNames r matches [] out = q_ret out"
| "symbolsOfNames r matches (n # ns) out =
     q_bind q_check (\<lambda>_.
     q_bind (symbolsOfName r (matches n) out) (\<lambda>(out, full).
       if full then q_ret out else symbolsOfNames r matches ns out))"

text \<open>
  \<open>LookupNamePrefix\<close> of the model returns a function that is empty outside the names found; \<open>names\<close>
  are the keys of the map.
\<close>

definition WorkspaceSymbol :: "'t resolver \<Rightarrow> bytes \<Rightarrow> ('t, symbol_info list) query" where
  "WorkspaceSymbol r query' =
     q_bind (q_ctx (\<lambda>done' s. LookupNamePrefix (xvBolt r) (xvLower r) done' query' (qsDB s))) (\<lambda>matches.
       symbolsOfNames r matches (sorted_list_of_set {n. matches n \<noteq> []}) [])"

fun embeddedFieldSymbols :: "'t resolver \<Rightarrow> xref_location list \<Rightarrow> ('t, resolved_symbol list) query" where
  "embeddedFieldSymbols r [] = q_ret []"
| "embeddedFieldSymbols r (loc # locs) =
     q_bind q_check (\<lambda>_.
       case pkgPathForFile r (xlFile loc) of
         None \<Rightarrow> embeddedFieldSymbols r locs
       | Some pkgPath \<Rightarrow>
           q_try (unitBlob r (Hash pkgPath)) (\<lambda>u.
             case NewView (ubFacts u) of
               Err e \<Rightarrow> embeddedFieldSymbols r locs
             | Panic \<Rightarrow> q_lift Panic
             | Ok v \<Rightarrow>
                 q_bind (q_store (fileIndexOf r v (xlFile loc))) (\<lambda>idx.
                   case idx of
                     None \<Rightarrow> embeddedFieldSymbols r locs
                   | Some fileIdx \<Rightarrow>
                       q_bind (q_store (symbolAtPosition v fileIdx (xlLine loc) (xlCol loc))) (\<lambda>sy.
                         case sy of
                           None \<Rightarrow> embeddedFieldSymbols r locs
                         | Some s \<Rightarrow>
                             q_bind (q_store (symbolResolved (Hash pkgPath) s)) (\<lambda>w.
                               if rsyKind w \<noteq> KindField then embeddedFieldSymbols r locs
                               else q_bind (embeddedFieldSymbols r locs) (\<lambda>ws. q_ret (w # ws))))))
             (\<lambda>e. embeddedFieldSymbols r locs))"

definition editOf :: "bytes \<Rightarrow> xref_location \<Rightarrow> xref_edit" where
  "editOf newName l = \<lparr>xdLine = xlLine l, xdCol = xlCol l, xdEndCol = xlEndCol l, xdNewText = newName\<rparr>"

definition addEdit :: "bytes \<Rightarrow> xref_location \<Rightarrow> (bytes \<Rightarrow> xref_edit list) \<Rightarrow> (bytes \<Rightarrow> xref_edit list)" where
  "addEdit newName l edits = edits(xlFile l := edits (xlFile l) @ [editOf newName l])"

definition Rename :: "'t resolver \<Rightarrow> bytes \<Rightarrow> int \<Rightarrow> int \<Rightarrow> bytes \<Rightarrow> ('t, bytes \<Rightarrow> xref_edit list) query" where
  "Rename r file line col newName =
     q_bind (q_lift (toUint32Pos line col)) (\<lambda>(l, c).
     q_bind (resolveAt r file l c) (\<lambda>target.
     q_bind (declarationOf r target) (\<lambda>declLoc.
     q_bind (locationsForAll r [target]) (\<lambda>refs.
     q_bind (if rsyKind target = KindType \<or> rsyKind target = KindInterface
             then q_bind (embeddedFieldSymbols r refs) (\<lambda>fields.
                    if fields = [] then q_ret [] else locationsForAll r fields)
             else q_ret []) (\<lambda>fieldRefs.
     let locs = sortLocations (dedupeLocations ((declLoc # refs) @ fieldRefs));
         edits = fold (addEdit newName) locs (\<lambda>_. [])
     in q_bind q_check (\<lambda>_.
        q_bind (q_lift (xvDocEdits r (xlFile declLoc) (xlLine declLoc) (xlCol declLoc) (rsyName target) newName)) (\<lambda>docEdits.
          q_ret (edits(xlFile declLoc := edits (xlFile declLoc) @ docEdits)))))))))"

section \<open>Lookups by object path\<close>

definition TypeDeclaration :: "'t resolver \<Rightarrow> path \<Rightarrow> bytes \<Rightarrow> ('t, xref_location option) query" where
  "TypeDeclaration r pkgPath objPath =
     q_try (symbolByHash r (Hash pkgPath) (Hash (BuildSymbolID pkgPath objPath)))
       (\<lambda>(name, kind, loc). q_ret (Some loc)) (\<lambda>e. q_ret None)"

definition SymbolDoc :: "'t resolver \<Rightarrow> path \<Rightarrow> bytes \<Rightarrow> ('t, bytes option) query" where
  "SymbolDoc r pkgPath objPath =
     q_try (unitBlob r (Hash pkgPath))
       (\<lambda>u. case NewView (ubFacts u) of
              Err e \<Rightarrow> q_ret None
            | Panic \<Rightarrow> q_lift Panic
            | Ok v \<Rightarrow>
                q_bind (q_store (LookupSymbol v (Hash (BuildSymbolID pkgPath objPath)))) (\<lambda>found.
                  case found of
                    None \<Rightarrow> q_ret None
                  | Some s \<Rightarrow> q_bind (q_store (symDoc s)) (\<lambda>d. q_ret (Some d))))
       (\<lambda>e. q_ret None)"

definition ownMethodEntries :: "'t resolver \<Rightarrow> u64 \<Rightarrow> u64 \<Rightarrow> ('t, method_symbol_entry list) query" where
  "ownMethodEntries r pkgHash typeIDHash =
     q_bind (unitPointer r pkgHash) (\<lambda>ptr.
     q_bind (decodeUnitBlob r pkgHash (upBlobKey ptr)) (\<lambda>u.
       q_ret (filter (\<lambda>m. meTypeSymbolIDHash (mseEntry m) = typeIDHash) (pieMethods (ubIndex u)))))"

section \<open>Directive comments\<close>

definition isWordByte :: "byte \<Rightarrow> bool" where
  "isWordByte b \<longleftrightarrow> \<not> ((b < 97 \<or> b > 122) \<and> (b < 48 \<or> b > 57))"

definition indexByte :: "bytes \<Rightarrow> byte \<Rightarrow> int" where
  "indexByte s b = (if b \<in> set s then int (length (takeWhile (\<lambda>c. c \<noteq> b) s)) else -1)"

definition isDirectiveComment :: "bytes \<Rightarrow> bool" where
  "isDirectiveComment text' =
     (if length text' < 3 \<or> text' ! 1 \<noteq> 47 then False
      else let c = drop 2 text'; colon = indexByte c 58 in
        if c = [] then False
        else if prefix (lit ''line '') c then True
        else if colon \<le> 0 \<or> colon + 1 \<ge> int (length c) then False
        else list_all (\<lambda>i. i = nat colon \<or> isWordByte (c ! i)) [0..<nat colon + 2])"

end
