(* ===== verification/Xref_Agree.thy ===== *)
theory Xref_Agree
  imports Xref
begin

text \<open>
  Queries under caching and cancellation. Two runs of a query over the same database and blob store
  differ in what their caches hold and in when their contexts are cancelled. \<open>agrees\<close> says that a
  query has one result that every run returns unless it is cancelled, in which case it returns the
  error of its context; the rules follow the way the code is put together.
\<close>

section \<open>States a query runs in\<close>

text \<open>Every entry of the cache holds the facts and export data of the blob with its key.\<close>

definition cacheOk :: "'t resolver \<Rightarrow> cas_files \<Rightarrow> unit_cache \<Rightarrow> bool" where
  "cacheOk r cas c \<longleftrightarrow> ucSound (\<lambda>k facts export. \<exists>blob u. casGet False (xvReadErr r k) cas k = Ok (Some blob)
     \<and> DecodeUnitBlob blob = Ok u \<and> ubFacts u = facts \<and> ubExport u = export) c"

definition ready :: "'t resolver \<Rightarrow> 't \<Rightarrow> cas_files \<Rightarrow> 't query_state \<Rightarrow> bool" where
  "ready r db cas s \<longleftrightarrow> qsDB s = db \<and> qsCAS s = cas \<and> cacheOk r cas (qsUnits s)"

text \<open>What a query leaves as it was.\<close>

definition kept :: "'t resolver \<Rightarrow> 't query_state \<Rightarrow> 't query_state \<Rightarrow> bool" where
  "kept r s s' \<longleftrightarrow> qsDB s' = qsDB s \<and> qsCAS s' = qsCAS s \<and> (cacheOk r (qsCAS s) (qsUnits s) \<longrightarrow> cacheOk r (qsCAS s) (qsUnits s'))
     \<and> qsCancelAt s' = qsCancelAt s \<and> qsTicks s \<le> qsTicks s'"

lemma kept_refl [simp]: "kept r s s"
  by (simp add: kept_def)

lemma kept_trans: "kept r s s' \<Longrightarrow> kept r s' s'' \<Longrightarrow> kept r s s''"
  by (auto simp: kept_def)

lemma kept_ready: "kept r s s' \<Longrightarrow> ready r db cas s \<Longrightarrow> ready r db cas s'"
  by (auto simp: kept_def ready_def)

lemma kept_done: "kept r s s' \<Longrightarrow> ctxDone s \<Longrightarrow> ctxDone s'"
  by (auto simp: kept_def ctxDone_def split: option.splits)

lemma kept_tick [simp]: "kept r s (s\<lparr>qsTicks := qsTicks s + 1\<rparr>)"
  by (simp add: kept_def)

section \<open>Outcomes\<close>

definition cancelled :: "(xref_error, 'a) go \<times> 't query_state \<Rightarrow> bool" where
  "cancelled z \<longleftrightarrow> ctxDone (snd z) \<and> (\<exists>e. fst z = Err e \<and> isCancelled e)"

text \<open>\<open>keeps\<close>: whatever the result. \<open>stops\<close>: a query begun after its context was cancelled returns that.\<close>

definition keeps :: "'t resolver \<Rightarrow> ('t, 'a) query \<Rightarrow> bool" where
  "keeps r m \<longleftrightarrow> (\<forall>s. kept r s (snd (m s)))"

definition steady :: "((xref_error, 'a) go \<times> 't query_state \<Rightarrow> bool) \<Rightarrow> 't resolver \<Rightarrow> 't \<Rightarrow> cas_files \<Rightarrow> ('t, 'a) query \<Rightarrow> bool" where
  "steady C r db cas m \<longleftrightarrow> keeps r m \<and> (\<exists>x. \<forall>s. ready r db cas s \<longrightarrow> fst (m s) = x \<or> C (m s))"

definition agrees :: "'t resolver \<Rightarrow> 't \<Rightarrow> cas_files \<Rightarrow> ('t, 'a) query \<Rightarrow> bool" where
  "agrees = steady cancelled"

definition stops :: "('t, 'a) query \<Rightarrow> bool" where
  "stops m \<longleftrightarrow> (\<forall>s. ctxDone s \<longrightarrow> cancelled (m s))"

text \<open>The weaker form for a query that may return a part of its result when it is cancelled.\<close>

definition cut :: "(xref_error, 'a) go \<times> 't query_state \<Rightarrow> bool" where
  "cut z \<longleftrightarrow> ctxDone (snd z) \<and> ((\<exists>a. fst z = Ok a) \<or> (\<exists>e. fst z = Err e \<and> isCancelled e))"

definition agreesUpTo :: "'t resolver \<Rightarrow> 't \<Rightarrow> cas_files \<Rightarrow> ('t, 'a) query \<Rightarrow> bool" where
  "agreesUpTo = steady cut"

definition slows :: "('t, 'a) query \<Rightarrow> bool" where
  "slows m \<longleftrightarrow> (\<forall>s. ctxDone s \<longrightarrow> cut (m s))"

lemma cancelled_cut: "cancelled z \<Longrightarrow> cut z"
  by (auto simp: cancelled_def cut_def)

lemma agrees_upTo: "agrees r db cas m \<Longrightarrow> agreesUpTo r db cas m"
  unfolding agrees_def agreesUpTo_def steady_def using cancelled_cut by blast

lemma stops_slows: "stops m \<Longrightarrow> slows m"
  unfolding stops_def slows_def using cancelled_cut by blast

section \<open>Rules\<close>

definition branch :: "('a \<Rightarrow> ('t, 'b) query) \<Rightarrow> (xref_error \<Rightarrow> ('t, 'b) query) \<Rightarrow> (xref_error, 'a) go \<Rightarrow> ('t, 'b) query" where
  "branch f h y = (case y of Ok a \<Rightarrow> f a | Err e \<Rightarrow> h e | Panic \<Rightarrow> q_lift Panic)"

lemma q_try_branch: "q_try m f h s = branch f h (fst (m s)) (snd (m s))"
  by (simp add: q_try_def branch_def q_lift_def split: prod.splits go.splits)

lemma branch_all: "(\<And>a. P (f a)) \<Longrightarrow> (\<And>e. P (h e)) \<Longrightarrow> P (q_lift Panic) \<Longrightarrow> P (branch f h y)"
  by (cases y) (simp_all add: branch_def)

lemma keepsD: "keeps r m \<Longrightarrow> kept r s (snd (m s))"
  by (simp add: keeps_def)

lemma keeps_pair: "keeps r (Pair y)"
  by (simp add: keeps_def)

lemma keeps_lift [simp]: "keeps r (q_lift y)"
  by (simp add: q_lift_def keeps_pair)

lemma keeps_try:
  assumes "keeps r m" "\<And>a. keeps r (f a)" "\<And>e. keeps r (h e)"
  shows "keeps r (q_try m f h)"
proof -
  have "keeps r (branch f h y)" for y by (rule branch_all) (use assms in simp_all)
  then show ?thesis
    unfolding keeps_def q_try_branch using kept_trans keepsD [OF assms(1)] keepsD by blast
qed

lemma keeps_err [simp]: "keeps r (q_err e)"
  and keeps_ret [simp]: "keeps r (q_ret x)"
  and keeps_store [simp]: "keeps r (q_store z)"
  by (simp_all add: q_err_def q_ret_def q_store_def keeps_pair)

lemma keeps_ctx [simp]: "keeps r (q_ctx g)"
  by (simp add: keeps_def q_ctx_def q_store_def kept_def)

lemma keeps_bind: "keeps r m \<Longrightarrow> (\<And>a. keeps r (f a)) \<Longrightarrow> keeps r (q_bind m f)"
  unfolding q_bind_def by (rule keeps_try) simp_all

lemma agrees_keeps: "agrees r db cas m \<Longrightarrow> keeps r m"
  and agreesUpTo_keeps: "agreesUpTo r db cas m \<Longrightarrow> keeps r m"
  by (simp_all add: agrees_def agreesUpTo_def steady_def)

lemma agrees_const: "keeps r m \<Longrightarrow> (\<And>s. ready r db cas s \<Longrightarrow> fst (m s) = x \<or> cancelled (m s)) \<Longrightarrow> agrees r db cas m"
  unfolding agrees_def steady_def by blast

lemma agrees_pair: "agrees r db cas (Pair y)"
  unfolding agrees_def steady_def by (intro conjI keeps_pair exI [of _ y]) simp

lemma agrees_err [simp]: "agrees r db cas (q_err e)"
  and agrees_ret [simp]: "agrees r db cas (q_ret x)"
  and agrees_lift [simp]: "agrees r db cas (q_lift y)"
  and agrees_store [simp]: "agrees r db cas (q_store z)"
  by (simp_all add: q_err_def q_ret_def q_lift_def q_store_def agrees_pair)

lemma stops_err: "isCancelled e \<Longrightarrow> stops (q_err e)"
  by (simp add: stops_def q_err_def cancelled_def)

lemma ctx_done_tick: "ctxDone s \<Longrightarrow> ctxDone (s\<lparr>qsTicks := Suc (qsTicks s)\<rparr>)"
  by (auto simp: ctxDone_def split: option.splits)

text \<open>A store call that first asks the context.\<close>

lemma agrees_ctx:
  assumes "\<And>s. g True s = Err Cancelled"
    and "\<And>s s'. ready r db cas s \<Longrightarrow> ready r db cas s' \<Longrightarrow> g False s = g False s'"
  shows "agrees r db cas (q_ctx g)"
proof -
  have "fst (q_ctx g s) = fst (q_store (g False s0) s0) \<or> cancelled (q_ctx g s)" if "ready r db cas s" "ready r db cas s0" for s s0
    using assms(2) [OF that] by (cases "ctxDone s") (simp_all add: q_ctx_def q_store_def assms(1) cancelled_def ctx_done_tick)
  then have "\<exists>x. \<forall>s. ready r db cas s \<longrightarrow> fst (q_ctx g s) = x \<or> cancelled (q_ctx g s)" by blast
  then show ?thesis unfolding agrees_def steady_def using keeps_ctx by blast
qed

lemma stops_ctx: "(\<And>s. g True s = Err Cancelled) \<Longrightarrow> stops (q_ctx g)"
  by (simp add: stops_def q_ctx_def q_store_def cancelled_def ctx_done_tick)

lemma agrees_check [simp]: "agrees r db cas q_check"
  and stops_check [simp]: "stops q_check"
  unfolding q_check_def by (rule agrees_ctx; simp) (rule stops_ctx, simp)

lemma steady_try:
  assumes m: "steady C r db cas m" and b: "\<And>y. steady D r db cas (branch f h y)"
    and c: "\<And>s. ready r db cas s \<Longrightarrow> C (m s) \<Longrightarrow> D (q_try m f h s)" and k: "keeps r (q_try m f h)"
  shows "steady D r db cas (q_try m f h)"
proof -
  obtain x where x: "\<And>s. ready r db cas s \<Longrightarrow> fst (m s) = x \<or> C (m s)" using m unfolding steady_def by blast
  obtain z where z: "\<And>s. ready r db cas s \<Longrightarrow> fst (branch f h x s) = z \<or> D (branch f h x s)"
    using b [of x] unfolding steady_def by blast
  have "fst (q_try m f h s) = z \<or> D (q_try m f h s)" if s: "ready r db cas s" for s
    using x [OF s]
  proof
    have "keeps r m" using m by (simp add: steady_def)
    then have "ready r db cas (snd (m s))" by (rule kept_ready [OF keepsD s])
    moreover assume "fst (m s) = x"
    ultimately show ?thesis unfolding q_try_branch using z by simp
  next
    assume "C (m s)"
    then show ?thesis by (rule disjI2 [OF c [OF s]])
  qed
  then have "\<exists>z. \<forall>s. ready r db cas s \<longrightarrow> fst (q_try m f h s) = z \<or> D (q_try m f h s)" by (intro exI [of _ z]) simp
  with k show ?thesis by (simp add: steady_def)
qed

lemma stopped_try:
  assumes "cancelled (m s)" "\<And>e. isCancelled e \<Longrightarrow> stops (h e)"
  shows "cancelled (q_try m f h s)"
  using assms by (auto simp: cancelled_def stops_def q_try_branch branch_def)

lemma slowed_try:
  assumes "cancelled (m s)" "\<And>e. isCancelled e \<Longrightarrow> slows (h e)"
  shows "cut (q_try m f h s)"
  using assms by (auto simp: cancelled_def slows_def q_try_branch branch_def)

lemma agrees_try:
  assumes "agrees r db cas m" "\<And>a. agrees r db cas (f a)" "\<And>e. agrees r db cas (h e)"
    and "\<And>e. isCancelled e \<Longrightarrow> stops (h e)"
  shows "agrees r db cas (q_try m f h)"
  unfolding agrees_def
proof (rule steady_try [where C = cancelled])
  fix y show "steady cancelled r db cas (branch f h y)"
    by (rule branch_all) (use assms(2,3) agrees_lift in \<open>simp_all add: agrees_def\<close>)
qed (use assms in \<open>auto intro: stopped_try keeps_try agrees_keeps simp flip: agrees_def\<close>)

lemma upTo_try:
  assumes "agrees r db cas m" "\<And>a. agreesUpTo r db cas (f a)" "\<And>e. agreesUpTo r db cas (h e)"
    and "\<And>e. isCancelled e \<Longrightarrow> slows (h e)"
  shows "agreesUpTo r db cas (q_try m f h)"
  unfolding agreesUpTo_def
proof (rule steady_try [where C = cancelled])
  fix y show "steady cut r db cas (branch f h y)"
    by (rule branch_all) (use assms(2,3) agrees_upTo [OF agrees_lift] in \<open>simp_all add: agreesUpTo_def\<close>)
qed (use assms in \<open>auto intro: slowed_try keeps_try agrees_keeps agreesUpTo_keeps simp flip: agrees_def\<close>)

lemma agrees_bind: "agrees r db cas m \<Longrightarrow> (\<And>a. agrees r db cas (f a)) \<Longrightarrow> agrees r db cas (q_bind m f)"
  unfolding q_bind_def by (rule agrees_try) (simp_all add: stops_err)

lemma upTo_bind: "agrees r db cas m \<Longrightarrow> (\<And>a. agreesUpTo r db cas (f a)) \<Longrightarrow> agreesUpTo r db cas (q_bind m f)"
  unfolding q_bind_def by (rule upTo_try) (simp_all add: stops_err stops_slows agrees_upTo)

text \<open>What comes after a partial result has to ask the context again.\<close>

lemma agrees_after_upTo:
  assumes "agreesUpTo r db cas m" "\<And>a. agrees r db cas (f a)" "\<And>a. stops (f a)"
  shows "agrees r db cas (q_bind m f)"
  unfolding agrees_def q_bind_def
proof (rule steady_try [where C = cut])
  fix y show "steady cancelled r db cas (branch f q_err y)"
    by (rule branch_all) (use assms(2) agrees_lift agrees_err in \<open>simp_all add: agrees_def\<close>)
next
  fix s assume "cut (m s)"
  then show "cancelled (q_try m f q_err s)"
    using assms(3) by (auto simp: cut_def q_try_branch branch_def stops_def q_err_def cancelled_def)
next
  show "steady cut r db cas m" using assms(1) by (simp add: agreesUpTo_def)
  show "keeps r (q_try m f q_err)"
    by (rule keeps_try) (use agreesUpTo_keeps [OF assms(1)] agrees_keeps [OF assms(2)] in simp_all)
qed

lemma upTo_after_upTo:
  assumes "agreesUpTo r db cas m" "\<And>a. agreesUpTo r db cas (f a)" "\<And>a. slows (f a)"
  shows "agreesUpTo r db cas (q_bind m f)"
  unfolding agreesUpTo_def q_bind_def
proof (rule steady_try [where C = cut])
  fix y show "steady cut r db cas (branch f q_err y)"
    by (rule branch_all) (use assms(2) agrees_upTo [OF agrees_lift] agrees_upTo [OF agrees_err] in \<open>simp_all add: agreesUpTo_def\<close>)
next
  fix s assume "cut (m s)"
  then show "cut (q_try m f q_err s)"
  proof (cases "fst (m s)")
    case (Ok a)
    then have "cut (f a (snd (m s)))" using \<open>cut (m s)\<close> assms(3) [of a] by (simp add: cut_def slows_def)
    then show ?thesis using Ok by (simp add: q_try_branch branch_def)
  qed (use \<open>cut (m s)\<close> in \<open>simp_all add: cut_def q_try_branch branch_def q_err_def\<close>)
next
  show "steady cut r db cas m" using assms(1) by (simp add: agreesUpTo_def)
  show "keeps r (q_try m f q_err)"
    by (rule keeps_try) (use agreesUpTo_keeps [OF assms(1)] agreesUpTo_keeps [OF assms(2)] in simp_all)
qed

lemma stops_try: "stops m \<Longrightarrow> (\<And>e. isCancelled e \<Longrightarrow> stops (h e)) \<Longrightarrow> stops (q_try m f h)"
  unfolding stops_def [of "q_try m f h"] using stopped_try [of m _ h f] by (metis stops_def)

lemma stops_bind: "stops m \<Longrightarrow> stops (q_bind m f)"
  unfolding q_bind_def by (rule stops_try) (simp_all add: stops_err)

lemma slows_ret [simp]: "slows (q_ret x)"
  by (simp add: slows_def q_ret_def cut_def)

lemma q_bind_ret [simp]: "q_bind (q_ret x) f = f x"
  by (simp add: q_bind_def q_try_def q_ret_def)

lemma upTo_ret [simp]: "agreesUpTo r db cas (q_ret x)"
  by (simp add: agrees_upTo)

end
