(* ===== verification/Xref_Steady.thy ===== *)
theory Xref_Steady
  imports Xref_Agree
begin

text \<open>
  Every query of \<open>xref.go\<close> agrees with itself over one state of the stores: neither what the cache
  holds nor a cancellation changes its result, except for the error of the context.
\<close>

section \<open>Reading a blob\<close>

definition decodeResult :: "'t resolver \<Rightarrow> cas_files \<Rightarrow> u64 \<Rightarrow> u64 \<Rightarrow> (xref_error, unit_blob) go" where
  "decodeResult r cas pkgHash blobKey =
     (case casGet False (xvReadErr r blobKey) cas blobKey of
        Ok None \<Rightarrow> Err (BlobMissing blobKey (pkgPathForHash r pkgHash))
      | Ok (Some blob) \<Rightarrow> (case DecodeUnitBlob blob of Ok u \<Rightarrow> Ok u | Err e \<Rightarrow> Err (InStore e) | Panic \<Rightarrow> Panic)
      | Err e \<Rightarrow> Err (InStore e)
      | Panic \<Rightarrow> Panic)"

lemma decodeUnitBlob_eq:
  "decodeUnitBlob r h k s =
     (if ctxDone s then Err (InStore Cancelled) else decodeResult r (qsCAS s) h k, s\<lparr>qsTicks := qsTicks s + 1\<rparr>)"
  by (simp add: decodeUnitBlob_def decodeResult_def q_bind_def q_try_def q_ctx_def q_store_def q_err_def casGet_def
      split: go.splits option.splits)

lemma decodeResult_sound:
  "decodeResult r cas h k = Ok u \<Longrightarrow> \<exists>blob. casGet False (xvReadErr r k) cas k = Ok (Some blob) \<and> DecodeUnitBlob blob = Ok u"
  by (auto simp: decodeResult_def split: go.splits option.splits)

text \<open>\<open>unitBlob\<close> after the pointer has been read.\<close>

definition readBlob :: "'t resolver \<Rightarrow> u64 \<Rightarrow> u64 \<Rightarrow> ('t, unit_blob) query" where
  "readBlob r h k =
     q_bind (unitsGet k) (\<lambda>hit. case hit of Some u \<Rightarrow> q_ret u
       | None \<Rightarrow> q_bind (decodeUnitBlob r h k) (\<lambda>u. q_bind (unitsPut k u) (\<lambda>_. q_ret u)))"

lemma unitBlob_eq: "unitBlob r h = q_bind (unitPointer r h) (\<lambda>ptr. readBlob r h (upBlobKey ptr))"
  by (simp add: unitBlob_def readBlob_def)

lemma readBlob_hit:
  "ucGet k (qsUnits s) = (Some u, c) \<Longrightarrow> readBlob r h k s = (Ok u, s\<lparr>qsUnits := c\<rparr>)"
  by (simp add: readBlob_def q_bind_def q_try_def unitsGet_def q_ret_def)

lemma readBlob_miss:
  assumes "ucGet k (qsUnits s) = (None, c)"
  shows "readBlob r h k s =
    (if ctxDone s then (Err (InStore Cancelled), s\<lparr>qsUnits := c, qsTicks := qsTicks s + 1\<rparr>)
     else (decodeResult r (qsCAS s) h k, s\<lparr>qsTicks := qsTicks s + 1,
       qsUnits := (case decodeResult r (qsCAS s) h k of Ok u \<Rightarrow> ucPut k u c | _ \<Rightarrow> c)\<rparr>))"
proof -
  have d: "ctxDone (s\<lparr>qsUnits := c\<rparr>) = ctxDone s" by (simp add: ctxDone_def split: option.split)
  show ?thesis
    by (simp add: readBlob_def q_bind_def q_try_def unitsGet_def unitsPut_def q_ret_def q_err_def assms decodeUnitBlob_eq d
        split: go.splits)
qed

lemma keeps_readBlob:
  fixes r :: "'t resolver"
  shows "keeps r (readBlob r h k)"
  unfolding keeps_def
proof
  fix s :: "'t query_state"
  obtain hit c where g: "ucGet k (qsUnits s) = (hit, c)" by (cases "ucGet k (qsUnits s)")
  have c: "cacheOk r cas (qsUnits s) \<Longrightarrow> cacheOk r cas c" for cas
    using ucSound_get [of _ "qsUnits s" k] g by (simp add: cacheOk_def)
  have p: "cacheOk r (qsCAS s) (ucPut k u c)" if "cacheOk r (qsCAS s) (qsUnits s)" "decodeResult r (qsCAS s) h k = Ok u" for u
    unfolding cacheOk_def
    using c [OF that(1), unfolded cacheOk_def] decodeResult_sound [OF that(2)] by (intro ucSound_put) blast+
  show "kept r s (snd (readBlob r h k s))"
  proof (cases hit)
    case (Some u)
    then show ?thesis using g c by (simp add: readBlob_hit kept_def)
  next
    case None
    then show ?thesis using g c p by (auto simp: readBlob_miss kept_def split: go.splits)
  qed
qed

text \<open>What the queries use of a blob is its facts, which a cached blob has like a decoded one.\<close>

definition factsOf :: "'t resolver \<Rightarrow> u64 \<Rightarrow> ('t, bytes) query" where
  "factsOf r h = q_bind (unitBlob r h) (\<lambda>u. q_ret (ubFacts u))"

lemma bind_assoc_ret: "q_try m (\<lambda>a. f (p a)) h = q_try (q_bind m (\<lambda>a. q_ret (p a))) f h"
  by (rule ext) (simp add: q_try_def q_bind_def q_ret_def q_err_def split: prod.splits go.splits)

lemma try_unitBlob:
  assumes "\<And>u v. ubFacts u = ubFacts v \<Longrightarrow> F u = F v"
  shows "\<exists>f. (\<forall>b. f b \<in> range F) \<and> (\<forall>u. f (ubFacts u) = F u) \<and> q_try (unitBlob r h) F k = q_try (factsOf r h) f k"
proof -
  let ?f = "\<lambda>b. F \<lparr>ubFacts = b, ubExport = [], ubFiles = [],
    ubIndex = \<lparr>pieNames = [], pieMethods = [], pieSymStrs = [], piePostings = []\<rparr>\<rparr>"
  have "F = (\<lambda>u. ?f (ubFacts u))" by (rule ext, rule assms) simp
  then have "q_try (unitBlob r h) F k = q_try (unitBlob r h) (\<lambda>u. ?f (ubFacts u)) k" by simp
  also have "\<dots> = q_try (factsOf r h) ?f k" unfolding factsOf_def by (rule bind_assoc_ret)
  finally have "q_try (unitBlob r h) F k = q_try (factsOf r h) ?f k" .
  moreover have "?f (ubFacts u) = F u" for u by (rule assms) simp
  ultimately show ?thesis by (intro exI [of _ ?f] conjI allI rangeI)
qed

lemma readBlob_facts:
  assumes "ready r db cas s"
  shows "fst (q_bind (readBlob r h k) (\<lambda>u. q_ret (ubFacts u)) s) = (case decodeResult r cas h k of Ok u \<Rightarrow> Ok (ubFacts u) | Err e \<Rightarrow> Err e | Panic \<Rightarrow> Panic)
    \<or> cancelled (q_bind (readBlob r h k) (\<lambda>u. q_ret (ubFacts u)) s)"
proof -
  obtain hit c where g: "ucGet k (qsUnits s) = (hit, c)" by (cases "ucGet k (qsUnits s)")
  have S: "qsCAS s = cas" "cacheOk r cas (qsUnits s)" using assms by (simp_all add: ready_def)
  show ?thesis
  proof (cases hit)
    case (Some u)
    obtain blob v where "casGet False (xvReadErr r k) cas k = Ok (Some blob)" "DecodeUnitBlob blob = Ok v" "ubFacts v = ubFacts u"
      using ucGet_sound [OF S(2) [unfolded cacheOk_def], of k u] g Some by auto
    then show ?thesis
      using readBlob_hit [OF g [unfolded Some]] by (simp add: q_bind_def q_try_def q_lift_def q_ret_def decodeResult_def)
  next
    case None
    then show ?thesis
      using readBlob_miss [OF g [unfolded None], of r h] S(1)
      by (cases "ctxDone s"; cases "decodeResult r cas h k")
        (simp_all add: q_bind_def q_try_def q_lift_def q_ret_def q_err_def cancelled_def ctxDone_def split: option.splits)
  qed
qed

lemma agrees_unitPointer: "agrees r db cas (unitPointer r h)"
  unfolding unitPointer_def
  by (rule agrees_try) (auto intro!: agrees_ctx stops_err simp: GetUnit_def ready_def)

lemma stops_unitPointer: "stops (unitPointer r h)"
  unfolding unitPointer_def by (rule stops_try) (auto intro!: stops_ctx stops_err simp: GetUnit_def)

lemma stops_unitBlob: "stops (unitBlob r h)"
  unfolding unitBlob_eq by (rule stops_bind) (rule stops_unitPointer)

lemma agrees_factsOf: "agrees r db cas (factsOf r h)"
proof -
  have "agrees r db cas (q_bind (readBlob r h k) (\<lambda>u. q_ret (ubFacts u)))" for k
    by (rule agrees_const [OF _ readBlob_facts]) (intro keeps_bind keeps_readBlob keeps_ret)
  then have "agrees r db cas (q_bind (unitPointer r h) (\<lambda>ptr. q_bind (readBlob r h (upBlobKey ptr)) (\<lambda>u. q_ret (ubFacts u))))"
    by (rule agrees_bind [OF agrees_unitPointer])
  also have "q_bind (unitPointer r h) (\<lambda>ptr. q_bind (readBlob r h (upBlobKey ptr)) (\<lambda>u. q_ret (ubFacts u))) = factsOf r h"
    unfolding factsOf_def unitBlob_eq
    by (rule ext) (simp add: q_try_def q_bind_def q_err_def split: prod.splits go.splits)
  finally show ?thesis .
qed

lemma stops_factsOf: "stops (factsOf r h)"
  unfolding factsOf_def by (rule stops_bind) (rule stops_unitBlob)

section \<open>The steps of the queries\<close>

lemma agrees_unitBlob:
  assumes "\<And>u v. ubFacts u = ubFacts v \<Longrightarrow> F u = F v" "\<And>u. agrees r db cas (F u)" "\<And>e. agrees r db cas (k e)"
    and "\<And>e. isCancelled e \<Longrightarrow> stops (k e)"
  shows "agrees r db cas (q_try (unitBlob r h) F k)"
proof -
  obtain f where f: "\<And>b. f b \<in> range F" "q_try (unitBlob r h) F k = q_try (factsOf r h) f k"
    using try_unitBlob [of F r h k] assms(1) by blast
  have "agrees r db cas (f b)" for b using f(1) [of b] assms(2) by auto
  then show ?thesis unfolding f(2) using assms(3,4) by (intro agrees_try agrees_factsOf)
qed

lemma upTo_unitBlob:
  assumes "\<And>u v. ubFacts u = ubFacts v \<Longrightarrow> F u = F v" "\<And>u. agreesUpTo r db cas (F u)" "\<And>e. agreesUpTo r db cas (k e)"
    and "\<And>e. isCancelled e \<Longrightarrow> slows (k e)"
  shows "agreesUpTo r db cas (q_try (unitBlob r h) F k)"
proof -
  obtain f where f: "\<And>b. f b \<in> range F" "q_try (unitBlob r h) F k = q_try (factsOf r h) f k"
    using try_unitBlob [of F r h k] assms(1) by blast
  have "agreesUpTo r db cas (f b)" for b using f(1) [of b] assms(2) by auto
  then show ?thesis unfolding f(2) using assms(3,4) by (intro upTo_try agrees_factsOf)
qed

lemma agrees_symbolByHash: "agrees r db cas (symbolByHash r p h)"
  unfolding symbolByHash_def
  by (rule agrees_unitBlob) (auto intro: agrees_bind stops_bind)

lemma stops_symbolByHash: "stops (symbolByHash r p h)"
  unfolding symbolByHash_def by (intro stops_try stops_unitBlob stops_bind stops_check)

lemma agrees_resolveRefTarget: "agrees r db cas (resolveRefTarget r ref)"
  unfolding resolveRefTarget_def by (rule agrees_try) (auto intro: agrees_symbolByHash stops_err split: prod.split)

lemma agrees_resolveAt: "agrees r db cas (resolveAt r file l c)"
proof -
  have "agrees r db cas (q_try (resolveRefTarget r rf) q_ret
      (\<lambda>e. if e = SymbolNotFound then q_err (NoSymbolAt file l c) else q_err e))" for rf
    by (rule agrees_try) (auto intro: agrees_resolveRefTarget stops_err)
  then show ?thesis
    unfolding resolveAt_def
    by (auto intro!: agrees_unitBlob agrees_bind stops_err split: option.split)
qed

lemma agrees_declarationOf: "agrees r db cas (declarationOf r t)"
  unfolding declarationOf_def by (rule agrees_try) (auto intro: agrees_symbolByHash stops_err split: prod.split)

lemma agrees_postingsFor: "agrees r db cas (postingsFor r p h)"
  unfolding postingsFor_def by (intro agrees_bind agrees_ret agrees_ctx) (auto simp: PostingsFor_def ready_def)

lemma agrees_concat: "(\<And>x. agrees r db cas (f x)) \<Longrightarrow> agrees r db cas (q_concat f xs)"
  by (induction xs) (auto intro!: agrees_bind)

lemma agrees_locationsForAll: "agrees r db cas (locationsForAll r ws)"
  unfolding locationsForAll_def by (intro agrees_bind agrees_concat agrees_check agrees_postingsFor agrees_ret)

lemma stops_locationsForAll: "stops (locationsForAll r (w # ws))"
  unfolding locationsForAll_def by (auto intro!: stops_bind)

lemma agrees_referencesOf: "agrees r db cas (referencesOf r incl t ws)"
  unfolding referencesOf_def
  by (auto intro!: agrees_bind agrees_try agrees_symbolByHash agrees_locationsForAll stops_err split: prod.split)

lemma stops_referencesOf: "stops (referencesOf r incl t (w # ws))"
proof (cases incl)
  case True
  have "stops (q_try (symbolByHash r (rsyPkgHash t) (rsyIDHash t)) (\<lambda>(name, kind, loc). q_ret [loc])
      (\<lambda>e. if e = SymbolNotFound then q_ret [] else q_err e))"
    by (rule stops_try) (auto intro: stops_symbolByHash stops_err)
  then show ?thesis using True by (simp add: referencesOf_def stops_bind)
next
  case False
  then show ?thesis by (simp add: referencesOf_def stops_bind stops_locationsForAll)
qed

lemma agrees_infoFromStrings: "agrees r db cas (infoFromStrings r h strs)"
proof (induction strs)
  case (Cons y strs)
  have "agrees r db cas (q_try (symbolByHash r (Hash p) h)
      (\<lambda>(name, kind, loc). q_ret (Some \<lparr>sinName = name, sinKind = kind, sinContainer = p, sinLocation = loc\<rparr>))
      (\<lambda>e. if e = SymbolNotFound then infoFromStrings r h strs else q_err e))" for p
    by (rule agrees_try) (auto intro: agrees_symbolByHash stops_err Cons split: prod.split)
  then show ?case using Cons by (auto split: option.split)
qed simp

lemma agrees_symbolInfo: "agrees r db cas (symbolInfoFromIDHash r h)"
  unfolding symbolInfoFromIDHash_def
  by (intro agrees_bind agrees_infoFromStrings agrees_ctx) (auto simp: SymbolIDStrings_def ready_def)

lemma agrees_symbolsOfName: "agrees r db cas (symbolsOfName r hs out)"
  by (induction hs arbitrary: out) (auto intro!: agrees_bind agrees_symbolInfo)

lemma agrees_symbolsOfNames: "agrees r db cas (symbolsOfNames r f ns out)"
proof (induction ns arbitrary: out)
  case (Cons n ns)
  show ?case by (auto intro!: agrees_bind agrees_symbolsOfName Cons split: prod.split)
qed simp

text \<open>\<open>embeddedFieldSymbols\<close> passes over a package whose facts it cannot read, also when it was cancelled.\<close>

lemma slows_embedded: "slows (embeddedFieldSymbols r locs)"
  by (cases locs) (auto intro!: stops_slows stops_bind)

lemma upTo_embedded: "agreesUpTo r db cas (embeddedFieldSymbols r locs)"
proof (induction locs)
  case (Cons l ls)
  let ?f = "\<lambda>p v w. if rsyKind w \<noteq> KindField then embeddedFieldSymbols r ls
     else q_bind (embeddedFieldSymbols r ls) (\<lambda>ws. q_ret (w # ws))"
  have f: "agreesUpTo r db cas (?f p v w)" for p v w
    using Cons by (auto intro!: upTo_after_upTo)
  have fields: "agreesUpTo r db cas (q_bind (q_store (fileIndexOf r v (xlFile l))) (\<lambda>idx. case idx of
        None \<Rightarrow> embeddedFieldSymbols r ls
      | Some i \<Rightarrow> q_bind (q_store (symbolAtPosition v i (xlLine l) (xlCol l))) (\<lambda>sy. case sy of
          None \<Rightarrow> embeddedFieldSymbols r ls
        | Some s \<Rightarrow> q_bind (q_store (symbolResolved (Hash p) s)) (?f p v))))" for p v
    by (auto intro!: upTo_bind f Cons split: option.split)
  show ?case
    unfolding embeddedFieldSymbols.simps
    by (rule upTo_bind [OF agrees_check], cases "pkgPathForFile r (xlFile l)")
      (auto intro!: upTo_unitBlob fields Cons slows_embedded agrees_upTo [OF agrees_lift] split: go.split)
qed simp

lemma agrees_Definition: "agrees r db cas (Definition r file line col)"
  unfolding Definition_def
  by (auto intro!: agrees_bind agrees_resolveAt agrees_declarationOf split: prod.split)

lemma agrees_References:
  assumes "\<And>t. agrees r db cas (xvCorresponding r t)"
  shows "agrees r db cas (References r file line col incl)"
proof -
  have "agrees r db cas (q_try (xvCorresponding r t) (\<lambda>ws. referencesOf r incl t (t # ws)) (\<lambda>e. referencesOf r incl t [t]))" for t
    by (intro agrees_try assms agrees_referencesOf stops_referencesOf)
  then show ?thesis
    unfolding References_def
    by (auto intro!: agrees_bind agrees_resolveAt agrees_referencesOf split: prod.split)
qed

lemma agrees_WorkspaceSymbol: "agrees r db cas (WorkspaceSymbol r pre)"
  unfolding WorkspaceSymbol_def
  by (intro agrees_bind agrees_symbolsOfNames agrees_ctx) (auto simp: LookupNamePrefix_def ready_def)

lemma agrees_Rename:
  fixes r :: "'t resolver"
  shows "agrees r db cas (Rename r file line col newName)"
proof -
  let ?fields = "\<lambda>refs. q_bind (embeddedFieldSymbols r refs) (\<lambda>fields. if fields = [] then q_ret [] else locationsForAll r fields)"
  have "slows (if fields = [] then q_ret [] else locationsForAll r fields)" for fields
    by (cases fields) (auto intro: stops_slows stops_locationsForAll)
  then have fields: "agreesUpTo r db cas (?fields refs)" for refs
    by (intro upTo_after_upTo upTo_embedded) (auto intro: agrees_upTo agrees_locationsForAll)
  have rest: "agrees r db cas (q_bind (if typed then ?fields refs else q_ret []) K)"
    if "\<And>x. agrees r db cas (K x)" "\<And>x. stops (K x)" for typed refs and K :: "xref_location list \<Rightarrow> ('t, bytes \<Rightarrow> xref_edit list) query"
  proof (cases typed)
    case True
    show ?thesis unfolding if_P [OF True] by (rule agrees_after_upTo [OF fields that])
  qed (simp add: that)
  show ?thesis
    unfolding Rename_def Let_def split_def
    by (intro agrees_bind [OF agrees_lift] agrees_bind [OF agrees_resolveAt] agrees_bind [OF agrees_declarationOf]
        agrees_bind [OF agrees_locationsForAll] rest agrees_bind [OF agrees_check] agrees_ret stops_bind stops_check)
qed

end
