(* ===== verification/Xref_Exact.thy ===== *)
theory Xref_Exact
  imports Xref_Steady
begin

text \<open>
  What the queries answer. The index holds, for some packages, a facts blob built from a \<open>builder\<close>;
  for the others it holds nothing. \<open>Definition\<close> answers with the declaration recorded for what the
  position names, and \<open>References\<close> with exactly the references recorded for it.
\<close>

section \<open>Results of runs that are not cancelled\<close>

definition yields :: "'t resolver \<Rightarrow> 't \<Rightarrow> cas_files \<Rightarrow> ('t, 'a) query \<Rightarrow> (xref_error, 'a) go \<Rightarrow> bool" where
  "yields r db cas m x \<longleftrightarrow> (\<forall>s. ready r db cas s \<and> qsCancelAt s = None \<longrightarrow> fst (m s) = x)"

lemma yieldsD: "yields r db cas m x \<Longrightarrow> ready r db cas s \<Longrightarrow> qsCancelAt s = None \<Longrightarrow> fst (m s) = x"
  by (simp add: yields_def)

lemma yields_try:
  assumes "keeps r m" "yields r db cas m x" "yields r db cas (branch f h x) z"
  shows "yields r db cas (q_try m f h) z"
  unfolding yields_def
proof (intro allI impI)
  fix s assume s: "ready r db cas s \<and> qsCancelAt s = None"
  then have "kept r s (snd (m s))" "fst (m s) = x" using keepsD [OF assms(1)] assms(2) by (simp_all add: yields_def)
  moreover from this(1) have "ready r db cas (snd (m s))" "qsCancelAt (snd (m s)) = None"
    using s kept_ready [of r s "snd (m s)"] by (simp_all add: kept_def)
  ultimately show "fst (q_try m f h s) = z" using assms(3) by (simp add: q_try_branch yields_def)
qed

lemma yields_try_ok: "keeps r m \<Longrightarrow> yields r db cas m (Ok a) \<Longrightarrow> yields r db cas (f a) z \<Longrightarrow> yields r db cas (q_try m f h) z"
  by (rule yields_try [where x = "Ok a"]) (simp_all add: branch_def)

lemma yields_try_err: "keeps r m \<Longrightarrow> yields r db cas m (Err e) \<Longrightarrow> yields r db cas (h e) z \<Longrightarrow> yields r db cas (q_try m f h) z"
  by (rule yields_try [where x = "Err e"]) (simp_all add: branch_def)

lemma yields_bind: "keeps r m \<Longrightarrow> yields r db cas m (Ok a) \<Longrightarrow> yields r db cas (f a) z \<Longrightarrow> yields r db cas (q_bind m f) z"
  unfolding q_bind_def by (rule yields_try_ok)

lemma yields_ret [simp]: "yields r db cas (q_ret x) (Ok x)"
  and yields_err [simp]: "yields r db cas (q_err e) (Err e)"
  and yields_lift [simp]: "yields r db cas (q_lift y) y"
  by (simp_all add: yields_def q_ret_def q_err_def q_lift_def)

lemma yields_bind_err: "keeps r m \<Longrightarrow> yields r db cas m (Err e) \<Longrightarrow> yields r db cas (q_bind m f) (Err e)"
  unfolding q_bind_def by (erule (1) yields_try_err) (rule yields_err)

lemma store_ok [simp]: "q_store (Ok x) = q_ret x"
  by (simp add: q_store_def q_ret_def)

lemma yields_ctx:
  assumes "\<And>s. ready r db cas s \<Longrightarrow> g False s = y"
  shows "yields r db cas (q_ctx g) (case y of Ok x \<Rightarrow> Ok x | Err e \<Rightarrow> Err (InStore e) | Panic \<Rightarrow> Panic)"
  using assms by (simp add: yields_def q_ctx_def q_store_def ctxDone_def)

lemma yields_check [simp]: "yields r db cas q_check (Ok ())"
  by (simp add: yields_def q_check_def q_ctx_def q_store_def ctxDone_def)

section \<open>The index\<close>

definition hasFacts :: "'t resolver \<Rightarrow> 't \<Rightarrow> cas_files \<Rightarrow> u64 \<Rightarrow> builder \<Rightarrow> bool" where
  "hasFacts r db cas h b \<longleftrightarrow> facts_fit b
     \<and> (\<exists>p blob u. GetUnit (xvBolt r) False h db = Ok p \<and> casGet False (xvReadErr r (upBlobKey p)) cas (upBlobKey p) = Ok (Some blob)
          \<and> DecodeUnitBlob blob = Ok u \<and> Build b = Ok (ubFacts u))"

definition noFacts :: "'t resolver \<Rightarrow> 't \<Rightarrow> u64 \<Rightarrow> bool" where
  "noFacts r db h \<longleftrightarrow> GetUnit (xvBolt r) False h db = Err NotFound"

text \<open>The first symbol of package \<open>p\<close>'s facts with the id hash \<open>h\<close>, and that there is none.\<close>

definition declares :: "'t resolver \<Rightarrow> 't \<Rightarrow> cas_files \<Rightarrow> u64 \<Rightarrow> u64 \<Rightarrow> builder \<Rightarrow> symbol_input \<Rightarrow> bool" where
  "declares r db cas p h b y \<longleftrightarrow> hasFacts r db cas p b \<and> find (\<lambda>s. siIDHash s = h) (bSymbols b) = Some y
     \<and> unat (siFileIdx y) < length (bFiles b)"

definition undeclared :: "'t resolver \<Rightarrow> 't \<Rightarrow> cas_files \<Rightarrow> u64 \<Rightarrow> u64 \<Rightarrow> bool" where
  "undeclared r db cas p h \<longleftrightarrow> noFacts r db p
     \<or> (\<exists>b. hasFacts r db cas p b \<and> find (\<lambda>s. siIDHash s = h) (bSymbols b) = None)"

definition declLocation :: "'t resolver \<Rightarrow> builder \<Rightarrow> symbol_input \<Rightarrow> xref_location" where
  "declLocation r b y = \<lparr>xlFile = absPath r (xvRoot r) (bFiles b ! unat (siFileIdx y)) (xvRelative r),
     xlLine = siLine y, xlCol = siCol y, xlEndCol = siCol y + of_nat (length (siName y))\<rparr>"

text \<open>\<open>file\<close> is the \<open>i\<close>-th file of the facts \<open>b\<close> of package \<open>p\<close>.\<close>

definition opened :: "'t resolver \<Rightarrow> 't \<Rightarrow> cas_files \<Rightarrow> bytes \<Rightarrow> path \<Rightarrow> builder \<Rightarrow> nat \<Rightarrow> bool" where
  "opened r db cas file p b i \<longleftrightarrow> pkgPathForFile r file = Some p \<and> hasFacts r db cas (Hash p) b
     \<and> spans_disjoint (bRefs b) \<and> distinct (bFiles b) \<and> i < length (bFiles b) \<and> bFiles b ! i = fileKey r file"

definition symbol_span :: "symbol_input \<Rightarrow> u32 \<Rightarrow> u32 \<Rightarrow> u32 \<Rightarrow> bool" where
  "symbol_span y f l c \<longleftrightarrow> siFileIdx y = f \<and> siLine y = l \<and> siCol y \<le> c \<and> c < siCol y + of_nat (length (siName y))"

section \<open>Reading symbols and files of a view\<close>

lemma name_short: "facts_fit b \<Longrightarrow> y \<in> set (bSymbols b) \<Longrightarrow> length (siName y) < 2 ^ 32"
proof -
  assume b: "facts_fit b" and y: "y \<in> set (bSymbols b)"
  have "length (siName y) \<le> sym_strings y" by (simp add: sym_strings_def)
  also have "\<dots> \<le> (\<Sum>s\<leftarrow>bSymbols b. sym_strings s)" using y by (auto intro: member_le_sum_list)
  finally show ?thesis using b by (simp add: facts_fit_def)
qed

lemma symEndCol_reads:
  "symbol_reads sy y \<Longrightarrow> length (siName y) < 2 ^ 32 \<Longrightarrow> symEndCol sy = Ok (siCol y + of_nat (length (siName y)))"
  by (simp add: symEndCol_def symbol_reads_def nameLen_def)

lemma symbolHit_reads:
  "symbol_reads sy y \<Longrightarrow> length (siName y) < 2 ^ 32 \<Longrightarrow> symbolHit sy f l c = Ok (symbol_span y f l c)"
  using symEndCol_reads [of sy y] by (auto simp: symbolHit_def symbol_reads_def symbol_span_def)

lemma symbolAtFrom_view:
  assumes v: "view_of b v" and fit: "facts_fit b"
  shows "i + k = length (bSymbols b) \<Longrightarrow>
    \<exists>o'. symbolAtFrom v f l c i k = Ok o' \<and> rel_option symbol_reads o' (find (\<lambda>y. symbol_span y f l c) (drop i (bSymbols b)))"
proof (induction k arbitrary: i)
  case (Suc k)
  then have i: "i < length (bSymbols b)" by simp
  obtain sy where sy: "SymbolAt v (int i) = Ok sy" "symbol_reads sy (bSymbols b ! i)" using SymbolAt_view [OF v i] by blast
  have "symbolHit sy f l c = Ok (symbol_span (bSymbols b ! i) f l c)"
    using symbolHit_reads [OF sy(2) name_short [OF fit nth_mem [OF i]]] .
  then show ?case
    using Suc.IH [of "Suc i"] Suc.prems sy by (auto simp: Cons_nth_drop_Suc [OF i, symmetric])
qed simp

lemma symbolAtPosition_view:
  "view_of b v \<Longrightarrow> facts_fit b \<Longrightarrow>
    \<exists>o'. symbolAtPosition v f l c = Ok o' \<and> rel_option symbol_reads o' (find (\<lambda>y. symbol_span y f l c) (bSymbols b))"
  using symbolAtFrom_view [of b v 0 "length (bSymbols b)"] by (simp add: symbolAtPosition_def view_of_def)

lemma fileIndexFrom_view:
  assumes v: "view_of b v" and d: "distinct (bFiles b)" and i: "i < length (bFiles b)"
  shows "j \<le> i \<Longrightarrow> j + k = length (bFiles b) \<Longrightarrow> fileIndexFrom v (bFiles b ! i) j k = Ok (Some (of_nat i))"
proof (induction k arbitrary: j)
  case (Suc k)
  then have "FileAt v (int j) = Ok (bFiles b ! j)" by (intro FileAt_view [OF v]) simp
  moreover have "bFiles b ! j = bFiles b ! i \<longleftrightarrow> j = i" using d i Suc.prems by (simp add: nth_eq_iff_index_eq)
  ultimately show ?case using Suc.IH [of "Suc j"] Suc.prems by (cases "j = i") auto
qed (use i in simp)

lemma fileIndexOf_view:
  "view_of b v \<Longrightarrow> distinct (bFiles b) \<Longrightarrow> i < length (bFiles b) \<Longrightarrow> bFiles b ! i = fileKey r file \<Longrightarrow>
    fileIndexOf r v file = Ok (Some (of_nat i))"
  using fileIndexFrom_view [of b v i 0 "length (bFiles b)"] by (simp add: fileIndexOf_def view_of_def)

lemma symbolInFacts_view:
  assumes "facts_fit b" "Build b = Ok facts"
  shows "find (\<lambda>s. siIDHash s = h) (bSymbols b) = None \<Longrightarrow> symbolInFacts r h facts = Err SymbolNotFound"
    and "find (\<lambda>s. siIDHash s = h) (bSymbols b) = Some y \<Longrightarrow> unat (siFileIdx y) < length (bFiles b) \<Longrightarrow>
      symbolInFacts r h facts = Ok (siName y, siKind y, declLocation r b y)"
proof -
  obtain v where v: "NewView facts = Ok v" "view_of b v" using Build_view [OF assms(1)] assms(2) by auto
  obtain o' where o': "LookupSymbol v h = Ok o'" "rel_option symbol_reads o' (find (\<lambda>s. siIDHash s = h) (bSymbols b))"
    using LookupSymbol_view [OF v(2)] by blast
  show "find (\<lambda>s. siIDHash s = h) (bSymbols b) = None \<Longrightarrow> symbolInFacts r h facts = Err SymbolNotFound"
    using v(1) o' by (simp add: symbolInFacts_def)
  assume y: "find (\<lambda>s. siIDHash s = h) (bSymbols b) = Some y" "unat (siFileIdx y) < length (bFiles b)"
  then obtain sy where sy: "o' = Some sy" "symbol_reads sy y" using o'(2) by (auto simp: option_rel_Some2)
  have "y \<in> set (bSymbols b)" using y(1) by (auto simp: find_Some_iff)
  then have "symEndCol sy = Ok (siCol y + of_nat (length (siName y)))"
    using symEndCol_reads [OF sy(2)] name_short [OF assms(1)] by blast
  then show "symbolInFacts r h facts = Ok (siName y, siKind y, declLocation r b y)"
    using v(1) o'(1) sy FileAt_view [OF v(2) y(2)]
    by (simp add: symbolInFacts_def symbol_reads_def symbolLocation_def declLocation_def)
qed

section \<open>The steps of a query\<close>

lemma unitPointer_yields:
  "GetUnit (xvBolt r) False h db = Ok p \<Longrightarrow> yields r db cas (unitPointer r h) (Ok p)"
  "noFacts r db h \<Longrightarrow> yields r db cas (unitPointer r h) (Err (NoFacts (pkgPathForHash r h)))"
  by (simp_all add: yields_def unitPointer_def q_try_def q_ctx_def q_store_def ctxDone_def ready_def q_ret_def q_err_def noFacts_def)

lemma keeps_unitBlob: "keeps r (unitBlob r h)"
  unfolding unitBlob_eq by (intro keeps_bind keeps_readBlob agrees_keeps [OF agrees_unitPointer])

lemma unitBlob_none: "noFacts r db h \<Longrightarrow> yields r db cas (unitBlob r h) (Err (NoFacts (pkgPathForHash r h)))"
  unfolding unitBlob_eq by (intro yields_bind_err agrees_keeps [OF agrees_unitPointer] unitPointer_yields)

lemma factsOf_yields:
  assumes "hasFacts r db cas h b" "Build b = Ok facts"
  shows "yields r db cas (factsOf r h) (Ok facts)"
proof -
  obtain p blob u where p: "GetUnit (xvBolt r) False h db = Ok p"
    "casGet False (xvReadErr r (upBlobKey p)) cas (upBlobKey p) = Ok (Some blob)" "DecodeUnitBlob blob = Ok u" "facts = ubFacts u"
    using assms by (auto simp: hasFacts_def)
  then have u: "decodeResult r cas h (upBlobKey p) = Ok u" by (simp add: decodeResult_def)
  have "fst (q_bind (readBlob r h (upBlobKey p)) (\<lambda>u. q_ret (ubFacts u)) s) = Ok facts" if "ready r db cas s" "qsCancelAt s = None" for s
  proof -
    have "kept r s (snd (q_bind (readBlob r h (upBlobKey p)) (\<lambda>u. q_ret (ubFacts u)) s))"
      by (intro keepsD keeps_bind keeps_readBlob keeps_ret)
    then show ?thesis
      using readBlob_facts [OF that(1), of h "upBlobKey p"] that(2) u p(4) by (auto simp: cancelled_def ctxDone_def kept_def)
  qed
  then have "yields r db cas (q_bind (unitPointer r h) (\<lambda>p. q_bind (readBlob r h (upBlobKey p)) (\<lambda>u. q_ret (ubFacts u)))) (Ok facts)"
    by (intro yields_bind [OF agrees_keeps [OF agrees_unitPointer] unitPointer_yields(1) [OF p(1)]]) (simp add: yields_def)
  also have "q_bind (unitPointer r h) (\<lambda>ptr. q_bind (readBlob r h (upBlobKey ptr)) (\<lambda>u. q_ret (ubFacts u))) = factsOf r h"
    unfolding factsOf_def unitBlob_eq
    by (rule ext) (simp add: q_try_def q_bind_def q_err_def split: prod.splits go.splits)
  finally show ?thesis .
qed

lemma yields_unitBlob:
  assumes F: "\<And>u v. ubFacts u = ubFacts v \<Longrightarrow> F u = F v"
    and b: "hasFacts r db cas h b" "Build b = Ok facts" and z: "\<And>u. ubFacts u = facts \<Longrightarrow> yields r db cas (F u) z"
  shows "yields r db cas (q_try (unitBlob r h) F k) z"
proof -
  obtain f where f: "\<And>u. f (ubFacts u) = F u" "q_try (unitBlob r h) F k = q_try (factsOf r h) f k"
    using try_unitBlob [of F r h k] F by blast
  obtain u :: unit_blob where u: "ubFacts u = facts" by (metis unit_blob.select_convs(1))
  have "yields r db cas (f facts) z" using z [OF u] f(1) [of u] u by simp
  then show ?thesis
    unfolding f(2) by (rule yields_try_ok [OF agrees_keeps [OF agrees_factsOf] factsOf_yields [OF b]])
qed

lemma hasFacts_build: "hasFacts r db cas h b \<Longrightarrow> \<exists>facts v. Build b = Ok facts \<and> NewView facts = Ok v \<and> view_of b v \<and> facts_fit b"
  using Build_view by (auto simp: hasFacts_def)

lemma symbolByHash_yields:
  "declares r db cas p h b y \<Longrightarrow> yields r db cas (symbolByHash r p h) (Ok (siName y, siKind y, declLocation r b y))"
  "undeclared r db cas p h \<Longrightarrow> yields r db cas (symbolByHash r p h) (Err SymbolNotFound)"
proof -
  assume d: "declares r db cas p h b y"
  then obtain facts where "Build b = Ok facts" "facts_fit b" "hasFacts r db cas p b"
    using hasFacts_build by (fastforce simp: declares_def)
  then show "yields r db cas (symbolByHash r p h) (Ok (siName y, siKind y, declLocation r b y))"
    using d symbolInFacts_view(2) [of b facts h y r] unfolding symbolByHash_def
    by (intro yields_unitBlob) (auto simp: declares_def)
next
  assume "undeclared r db cas p h"
  then consider "noFacts r db p" | b where "hasFacts r db cas p b" "find (\<lambda>s. siIDHash s = h) (bSymbols b) = None"
    by (auto simp: undeclared_def)
  then show "yields r db cas (symbolByHash r p h) (Err SymbolNotFound)"
  proof cases
    case 1
    show ?thesis unfolding symbolByHash_def
      by (rule yields_try_err [OF keeps_unitBlob unitBlob_none [OF 1]])
        (rule yields_bind [OF agrees_keeps [OF agrees_check] yields_check], simp)
  next
    case 2
    then obtain facts where "Build b = Ok facts" "facts_fit b" using hasFacts_build [OF 2(1)] by blast
    then show ?thesis
      using 2 symbolInFacts_view(1) [of b facts h r] unfolding symbolByHash_def by (intro yields_unitBlob) auto
  qed
qed

lemmas keeps_symbolByHash = agrees_keeps [OF agrees_symbolByHash]

definition targetOf :: "ref_input \<Rightarrow> byte \<Rightarrow> bytes \<Rightarrow> resolved_symbol" where
  "targetOf x kind name = \<lparr>rsyPkgHash = riToPkgHash x, rsyIDHash = riToSymbolIDHash x, rsyKind = kind, rsyName = name\<rparr>"

lemma ref_rec_fields [simp]:
  "refToPkgHash (ref_rec x) = riToPkgHash x" "refToSymbolIDHash (ref_rec x) = riToSymbolIDHash x"
  by simp_all

lemma resolveRefTarget_yields:
  "declares r db cas (riToPkgHash x) (riToSymbolIDHash x) b y \<Longrightarrow>
    yields r db cas (resolveRefTarget r (ref_rec x)) (Ok (targetOf x (siKind y) (siName y)))"
  "undeclared r db cas (riToPkgHash x) (riToSymbolIDHash x) \<Longrightarrow>
    yields r db cas (resolveRefTarget r (ref_rec x)) (Ok (targetOf x 0 []))"
proof -
  assume "declares r db cas (riToPkgHash x) (riToSymbolIDHash x) b y"
  from symbolByHash_yields(1) [OF this]
  show "yields r db cas (resolveRefTarget r (ref_rec x)) (Ok (targetOf x (siKind y) (siName y)))"
    unfolding resolveRefTarget_def ref_rec_fields
    by (rule yields_try_ok [OF keeps_symbolByHash]) (simp add: targetOf_def)
next
  assume "undeclared r db cas (riToPkgHash x) (riToSymbolIDHash x)"
  from symbolByHash_yields(2) [OF this]
  show "yields r db cas (resolveRefTarget r (ref_rec x)) (Ok (targetOf x 0 []))"
    unfolding resolveRefTarget_def ref_rec_fields
    by (rule yields_try_err [OF keeps_symbolByHash]) (simp add: targetOf_def)
qed

end
