(* ===== verification/Xref_World.thy ===== *)
theory Xref_World
  imports Xref_Exact
begin

text \<open>
  A workspace of two packages, indexed: \<open>m\<close> declares a function, \<open>n\<close> calls it and a function of a
  package that is not indexed. The database is written by the code's own batch write and the blobs
  by its own encoders.
\<close>

section \<open>The facts of the packages\<close>

definition lib_facts :: builder where
  "lib_facts = \<lparr>bSymbols = [\<lparr>siIDHash = 11, siKind = KindFunc, siFlags = 0, siName = lit ''Run'',
     siDoc = [], siSig = [], siFileIdx = 0, siLine = 3, siCol = 6\<rparr>], bRefs = [], bFiles = [lit ''/m/a.go'']\<rparr>"

definition app_facts :: builder where
  "app_facts = \<lparr>bSymbols = [\<lparr>siIDHash = 12, siKind = KindFunc, siFlags = 0, siName = lit ''Go'',
     siDoc = [], siSig = [], siFileIdx = 0, siLine = 5, siCol = 6\<rparr>],
     bRefs = [\<lparr>riFileIdx = 0, riLine = 9, riCol = 4, riEndCol = 7, riToSymbolIDHash = 11, riToPkgHash = Hash (lit ''m'')\<rparr>,
       \<lparr>riFileIdx = 0, riLine = 10, riCol = 4, riEndCol = 9, riToSymbolIDHash = 13, riToPkgHash = Hash (lit ''f'')\<rparr>],
     bFiles = [lit ''/n/b.go'']\<rparr>"

definition factsBytes :: "builder \<Rightarrow> bytes" where
  "factsBytes b = (case Build b of Ok x \<Rightarrow> x | _ \<Rightarrow> [])"

definition blobBytes :: "builder \<Rightarrow> bytes" where
  "blobBytes b = (case EncodeUnitBlob \<lparr>ubFacts = factsBytes b, ubExport = [], ubFiles = [],
     ubIndex = \<lparr>pieNames = [], pieMethods = [], pieSymStrs = [], piePostings = []\<rparr>\<rparr> of Ok x \<Rightarrow> x | _ \<Rightarrow> [])"

lemma world_facts:
  assumes "b = lib_facts \<or> b = app_facts"
  shows "facts_fit b" "Build b = Ok (factsBytes b)" "\<exists>u. DecodeUnitBlob (blobBytes b) = Ok u \<and> ubFacts u = factsBytes b"
proof -
  show fit: "facts_fit b" using assms by (auto simp: lib_facts_def app_facts_def facts_fit_def sym_strings_def lit_def)
  obtain blob where blob: "Build b = Ok blob" "length blob \<le> 88 + 48 * length (bSymbols b) + 32 * length (bRefs b)
      + 8 * length (bFiles b) + (\<Sum>f\<leftarrow>bFiles b. length f) + (\<Sum>s\<leftarrow>bSymbols b. sym_strings s)"
    using Build_layout [OF fit] by blast
  then have "factsBytes b = blob" by (simp add: factsBytes_def)
  then show "Build b = Ok (factsBytes b)" using blob(1) by simp
  let ?u = "\<lparr>ubFacts = factsBytes b, ubExport = [], ubFiles = [],
     ubIndex = \<lparr>pieNames = [], pieMethods = [], pieSymStrs = [], piePostings = []\<rparr>\<rparr>"
  have "length (factsBytes b) < 2 ^ 32"
    using blob(2) \<open>factsBytes b = blob\<close> assms by (auto simp: lib_facts_def app_facts_def sym_strings_def lit_def)
  then have "unit_blob_fits ?u" by (simp add: unit_blob_fits_def files_fit_def index_fits_def len_ok_def)
  then obtain x where "EncodeUnitBlob ?u = Ok x" "DecodeUnitBlob x = Ok (norm_blob ?u)" using blob_codec.enc_dec by blast
  then show "\<exists>u. DecodeUnitBlob (blobBytes b) = Ok u \<and> ubFacts u = factsBytes b" by (simp add: blobBytes_def norm_blob_def)
qed

section \<open>The stores\<close>

definition world_pointer :: "u64 \<Rightarrow> unit_pointer" where
  "world_pointer k = \<lparr>upBlobKey = k, upContentHash = 0, upExportHash = 0, upToolchainFingerprint = [], upFiles = []\<rparr>"

definition lib_entry :: unit_entry where
  "lib_entry = \<lparr>uePkgHash = Hash (lit ''m''), uePointer = world_pointer 1,
     ueIndex = \<lparr>pieNames = [\<lparr>neName = lit ''Run'', neIDHash = 11\<rparr>], pieMethods = [],
       pieSymStrs = [\<lparr>ssIDHash = 11, ssSymbolID = lit ''m#Run''\<rparr>], piePostings = []\<rparr>\<rparr>"

definition app_entry :: unit_entry where
  "app_entry = \<lparr>uePkgHash = Hash (lit ''n''), uePointer = world_pointer 2,
     ueIndex = \<lparr>pieNames = [\<lparr>neName = lit ''Go'', neIDHash = 12\<rparr>], pieMethods = [],
       pieSymStrs = [\<lparr>ssIDHash = 12, ssSymbolID = lit ''n#Go''\<rparr>],
       piePostings = [\<lparr>peTargetPkgHash = Hash (lit ''m''), peTargetIDHash = 11, peFile = lit ''/n/b.go'', peLine = 9, peCol = 4, peEndCol = 7\<rparr>,
         \<lparr>peTargetPkgHash = Hash (lit ''f''), peTargetIDHash = 13, peFile = lit ''/n/b.go'', peLine = 10, peCol = 4, peEndCol = 9\<rparr>]\<rparr>\<rparr>"

definition world_db :: mem where
  "world_db = snd (PutUnitsBatch memBolt id [lib_entry, app_entry] (dbBolt freshDB))"

definition world_index :: index_state where
  "world_index = addUnit id app_entry (addUnit id lib_entry emptyIndex)"

definition world_cas :: cas_files where
  "world_cas = [blobPath 1 \<mapsto> \<lparr>cfData = blobBytes lib_facts, cfModTime = 0\<rparr>,
     blobPath 2 \<mapsto> \<lparr>cfData = blobBytes app_facts, cfModTime = 0\<rparr>]"

lemma world_entries: "list_all (entryFits id) [lib_entry, app_entry]"
  by (simp add: entryFits_def lib_entry_def app_entry_def world_pointer_def unit_pointer_fits_def files_fit_def len_ok_def lit_def
      unit_pointer_bytes_def str_bytes_def counted_def maxValueSize_def maxKeySize_def toLower_def asciiLower_def noNul_def
      postings_fit_def)

lemma world_rep: "indexRep memBolt world_db world_index"
  using memory.putUnitEntries_rep [OF freshDB_rep world_entries]
  by (auto simp: world_db_def world_index_def PutUnitsBatch_def memBolt_def)

lemma world_hashes:
  "Hash (lit ''m'') \<noteq> Hash (lit ''n'')" "Hash (lit ''f'') \<noteq> Hash (lit ''m'')" "Hash (lit ''f'') \<noteq> Hash (lit ''n'')"
  by code_simp+

section \<open>The resolver\<close>

definition world_package :: "path \<Rightarrow> bytes \<Rightarrow> package" where
  "world_package p f = \<lparr>pkImportPath = p, pkName = p, pkDir = p, pkGoFiles = [f], pkImports = [], pkTestImports = [],
     pkForTest = [], pkRoot = True\<rparr>"

definition world_graph :: snapshot where
  "world_graph = \<lparr>snPackages = [lit ''m'' \<mapsto> world_package (lit ''m'') (lit ''/m/a.go''), lit ''n'' \<mapsto> world_package (lit ''n'') (lit ''/n/b.go'')],
     snOrder = [lit ''m'', lit ''n''], snDir = [], snRevDeps = (\<lambda>_. []), snPos = Map.empty, snBuildFlagsFP = []\<rparr>"

definition world_resolver :: "mem resolver" where
  "world_resolver = NewResolver [lit ''m'', lit ''n''] world_graph False
     \<lparr>xvBolt = memBolt, xvLower = id, xvRel = (\<lambda>_ _. None), xvJoin = (@), xvIsAbs = (\<lambda>_. True), xvFileDir = (\<lambda>f. f),
      xvReadErr = (\<lambda>_. None), xvFileToPkg = Map.empty, xvDirToPkg = Map.empty, xvPkgPathByHash = Map.empty, xvRoot = [],
      xvRelative = False, xvCorresponding = (\<lambda>t. q_ret []), xvDocEdits = (\<lambda>_ _ _ _ _. Ok [])\<rparr>"

lemma lit_neq: "lit ''m'' \<noteq> lit ''n''" "lit ''/m/a.go'' \<noteq> lit ''/n/b.go''" "lit ''/n/b.go'' \<noteq> lit ''/m/a.go''"
  by (simp_all add: lit_def)

lemma world_resolver_simps [simp]:
  "xvBolt world_resolver = memBolt" "xvLower world_resolver = id" "xvReadErr world_resolver k = None"
  "xvRelative world_resolver = False" "xvCorresponding world_resolver = (\<lambda>t. q_ret [])"
  "xvFileToPkg world_resolver = [lit ''/m/a.go'' \<mapsto> lit ''m'', lit ''/n/b.go'' \<mapsto> lit ''n'']"
  using lit_neq
  by (simp_all add: world_resolver_def NewResolver_def registerPackage_def world_graph_def world_package_def setFiles_def Let_def)

lemma world_GetUnit:
  "GetUnit memBolt False h world_db =
     (if h = Hash (lit ''n'') then Ok (world_pointer 2) else if h = Hash (lit ''m'') then Ok (world_pointer 1) else Err NotFound)"
  using memory.GetUnit_rep [OF world_rep, of h]
  by (auto simp: world_index_def addUnit_def emptyIndex_def lib_entry_def app_entry_def norm_pointer_def world_pointer_def)

lemma world_has:
  "hasFacts world_resolver world_db world_cas (Hash (lit ''m'')) lib_facts"
  "hasFacts world_resolver world_db world_cas (Hash (lit ''n'')) app_facts"
  using world_facts [of lib_facts] world_facts [of app_facts] world_hashes(1)
  by (auto simp: hasFacts_def world_GetUnit casGet_def world_cas_def world_pointer_def)

lemma world_noFacts: "h \<noteq> Hash (lit ''n'') \<Longrightarrow> h \<noteq> Hash (lit ''m'') \<Longrightarrow> noFacts world_resolver world_db h"
  by (simp add: noFacts_def world_GetUnit)

lemma world_opened: "opened world_resolver world_db world_cas (lit ''/n/b.go'') (lit ''n'') app_facts 0"
  using world_has(2)
  by (simp add: opened_def pkgPathForFile_def fileKey_def) (simp add: app_facts_def spans_disjoint_def)

definition lib_symbol :: symbol_input where
  "lib_symbol = \<lparr>siIDHash = 11, siKind = KindFunc, siFlags = 0, siName = lit ''Run'',
     siDoc = [], siSig = [], siFileIdx = 0, siLine = 3, siCol = 6\<rparr>"

definition app_ref :: ref_input where
  "app_ref = \<lparr>riFileIdx = 0, riLine = 9, riCol = 4, riEndCol = 7, riToSymbolIDHash = 11, riToPkgHash = Hash (lit ''m'')\<rparr>"

lemma world_declares: "declares world_resolver world_db world_cas (riToPkgHash app_ref) (riToSymbolIDHash app_ref) lib_facts lib_symbol"
  using world_has(1) by (simp add: declares_def app_ref_def) (simp add: lib_facts_def lib_symbol_def)

lemma app_ref_in: "app_ref \<in> set (bRefs app_facts)" "span_contains app_ref (of_nat 0) 9 5"
  by (simp_all add: app_facts_def app_ref_def span_contains_def)

definition lib_location :: xref_location where
  "lib_location = \<lparr>xlFile = lit ''/m/a.go'', xlLine = 3, xlCol = 6, xlEndCol = 9\<rparr>"

lemma lib_declLocation: "declLocation world_resolver lib_facts lib_symbol = lib_location"
  by (simp add: declLocation_def absPath_def lib_location_def) (simp add: lib_facts_def lib_symbol_def lit_def)

section \<open>States of a query\<close>

definition cold :: "mem query_state" where
  "cold = \<lparr>qsDB = world_db, qsCAS = world_cas, qsUnits = newUnitCache defaultUnitCacheBytes, qsTicks = 0, qsCancelAt = None\<rparr>"

lemma cold_ready: "ready world_resolver world_db world_cas cold" "qsCancelAt cold = None"
  by (simp_all add: ready_def cold_def cacheOk_def)

end
