(* ===== verification/Xref_Answers.thy ===== *)
theory Xref_Answers
  imports Xref_World
begin

text \<open>
  The properties of the queries: which result they give, that caching and cancellation do not
  change it, and a workspace of two packages where they can be observed.
\<close>

section \<open>What a position names\<close>

lemma sorted_distinct_pair:
  assumes "sorted (map f out)" "distinct out" "set out = {a, b}" "a \<noteq> b" "f a < f b"
  shows "out = [a, b]"
proof -
  have "length out = 2" using distinct_card [OF assms(2)] assms(3,4) by simp
  then obtain x y where out: "out = [x, y]" by (auto simp: numeral_2_eq_2 length_Suc_conv)
  then have "x = a \<and> y = b \<or> x = b \<and> y = a" using assms(3,4) by (auto simp: doubleton_eq_iff)
  then show ?thesis using out assms(1,5) by auto
qed

lemma toUint32Pos_uint: "toUint32Pos (uint l) (uint c) = Ok (l, c)"
  using uint_lt2p [of l] uint_lt2p [of c] by (simp add: toUint32Pos_def not_less)

lemma opened_view:
  assumes "opened r db cas file p b i"
  obtains facts v where "Build b = Ok facts" "NewView facts = Ok v" "view_of b v" "facts_fit b"
    "fileIndexOf r v file = Ok (Some (of_nat i))"
proof -
  obtain facts v where v: "Build b = Ok facts" "NewView facts = Ok v" "view_of b v" "facts_fit b"
    using assms hasFacts_build [of r db cas "Hash p" b] by (auto simp: opened_def)
  moreover have "fileIndexOf r v file = Ok (Some (of_nat i))"
    by (rule fileIndexOf_view [OF v(3)]) (use assms in \<open>simp_all add: opened_def\<close>)
  ultimately show thesis by (rule that)
qed

lemma resolveAt_ref:
  assumes o: "opened r db cas file p b i" and x: "x \<in> set (bRefs b)" "span_contains x (of_nat i) l c"
    and t: "yields r db cas (resolveRefTarget r (ref_rec x)) (Ok t)"
  shows "yields r db cas (resolveAt r file l c) (Ok t)"
proof -
  obtain facts v where v: "Build b = Ok facts" "NewView facts = Ok v" "view_of b v" "fileIndexOf r v file = Ok (Some (of_nat i))"
    using o by (rule opened_view)
  have ref: "RefsAt v (of_nat i) l c = Ok (Some (ref_rec x))"
    using RefsAt_complete [OF v(3) _ x] o by (simp add: opened_def)
  have "yields r db cas (q_try (resolveRefTarget r (ref_rec x)) q_ret h) (Ok t)" for h
    by (rule yields_try_ok [OF agrees_keeps [OF agrees_resolveRefTarget] t]) simp
  then show ?thesis
    using o v ref unfolding resolveAt_def opened_def by (auto intro: yields_unitBlob)
qed

lemma resolveAt_symbol:
  assumes o: "opened r db cas file p b i" and x: "\<not> (\<exists>x \<in> set (bRefs b). span_contains x (of_nat i) l c)"
  shows "yields r db cas (resolveAt r file l c)
    (case find (\<lambda>y. symbol_span y (of_nat i) l c) (bSymbols b) of
       None \<Rightarrow> Err (NoSymbolAt file l c)
     | Some y \<Rightarrow> Ok \<lparr>rsyPkgHash = Hash p, rsyIDHash = siIDHash y, rsyKind = siKind y, rsyName = siName y\<rparr>)"
proof -
  obtain facts v where v: "Build b = Ok facts" "NewView facts = Ok v" "view_of b v" "facts_fit b"
    "fileIndexOf r v file = Ok (Some (of_nat i))"
    using o by (rule opened_view)
  have ref: "RefsAt v (of_nat i) l c = Ok None"
    using RefsAt_sound [OF v(3), of "of_nat i" l c] x by (metis not_None_eq)
  obtain o' where o': "symbolAtPosition v (of_nat i) l c = Ok o'"
    "rel_option symbol_reads o' (find (\<lambda>y. symbol_span y (of_nat i) l c) (bSymbols b))"
    using symbolAtPosition_view [OF v(3,4)] by blast
  have s: "symbolResolved (Hash p) sy = Ok \<lparr>rsyPkgHash = Hash p, rsyIDHash = siIDHash y, rsyKind = siKind y, rsyName = siName y\<rparr>"
    if "symbol_reads sy y" for sy y using that by (simp add: symbolResolved_def symbol_reads_def)
  show ?thesis
  proof (cases o')
    case None
    then show ?thesis
      using o v ref o' unfolding resolveAt_def opened_def by (auto intro: yields_unitBlob)
  next
    case (Some sy)
    then obtain y where "find (\<lambda>y. symbol_span y (of_nat i) l c) (bSymbols b) = Some y" "symbol_reads sy y"
      using o'(2) by (auto simp: option_rel_Some1)
    then show ?thesis
      using o v ref o' Some s unfolding resolveAt_def opened_def by (auto intro!: yields_unitBlob)
  qed
qed

text \<open>A query about a position, once the position is resolved.\<close>

lemma at_position:
  assumes "yields r db cas (resolveAt r file l c) (Ok t)" "yields r db cas (K t) z"
  shows "yields r db cas (q_bind (q_lift (toUint32Pos (uint l) (uint c))) (\<lambda>(l, c). q_bind (resolveAt r file l c) K)) z"
proof -
  have "yields r db cas (q_bind (resolveAt r file l c) K) z"
    using agrees_keeps [OF agrees_resolveAt] assms by (rule yields_bind)
  then show ?thesis unfolding toUint32Pos_uint by (intro yields_bind [OF keeps_lift yields_lift]) simp
qed

lemma yields_check_bind: "yields r db cas (f ()) z \<Longrightarrow> yields r db cas (q_bind q_check f) z"
  by (rule yields_bind [OF agrees_keeps [OF agrees_check] yields_check])

lemma Definition_yields:
  assumes t: "yields r db cas (resolveAt r file l c) (Ok t)"
  shows "declares r db cas (rsyPkgHash t) (rsyIDHash t) b y \<Longrightarrow>
      yields r db cas (Definition r file (uint l) (uint c)) (Ok [declLocation r b y])"
    and "undeclared r db cas (rsyPkgHash t) (rsyIDHash t) \<Longrightarrow>
      yields r db cas (Definition r file (uint l) (uint c)) (Err (NoDefinition (rsyName t)))"
proof -
  assume "declares r db cas (rsyPkgHash t) (rsyIDHash t) b y"
  then have "yields r db cas (declarationOf r t) (Ok (declLocation r b y))"
    unfolding declarationOf_def by (intro yields_try_ok [OF keeps_symbolByHash symbolByHash_yields(1)]) auto
  then show "yields r db cas (Definition r file (uint l) (uint c)) (Ok [declLocation r b y])"
    unfolding Definition_def by (intro at_position [OF t] yields_bind [OF agrees_keeps [OF agrees_declarationOf] _ yields_ret])
next
  assume "undeclared r db cas (rsyPkgHash t) (rsyIDHash t)"
  then have "yields r db cas (declarationOf r t) (Err (NoDefinition (rsyName t)))"
    unfolding declarationOf_def by (intro yields_try_err [OF keeps_symbolByHash symbolByHash_yields(2)]) auto
  then show "yields r db cas (Definition r file (uint l) (uint c)) (Err (NoDefinition (rsyName t)))"
    unfolding Definition_def by (intro at_position [OF t] yields_bind_err agrees_keeps [OF agrees_declarationOf])
qed

lemma Definition_yields_err:
  "yields r db cas (resolveAt r file l c) (Err e) \<Longrightarrow> yields r db cas (Definition r file (uint l) (uint c)) (Err e)"
  unfolding Definition_def toUint32Pos_uint
  by (rule yields_bind [OF keeps_lift yields_lift]) (simp add: yields_bind_err agrees_keeps [OF agrees_resolveAt])

text \<open>
  C4. Going to the definition is exact. At a position inside a recorded reference the answer is the
  declaration recorded in the facts of the package the reference points to, and an error when that
  package is not indexed or does not declare the symbol; at a position inside a declaration and no
  reference it is that declaration; anywhere else it is the error that there is no symbol.\<close>
theorem definition_exact:
  assumes "opened r db cas file p b i"
  shows "(\<forall>x \<in> set (bRefs b). span_contains x (of_nat i) l c \<longrightarrow>
       (\<forall>b' y. declares r db cas (riToPkgHash x) (riToSymbolIDHash x) b' y \<longrightarrow>
          yields r db cas (Definition r file (uint l) (uint c)) (Ok [declLocation r b' y]))
     \<and> (undeclared r db cas (riToPkgHash x) (riToSymbolIDHash x) \<longrightarrow>
          yields r db cas (Definition r file (uint l) (uint c)) (Err (NoDefinition []))))
   \<and> ((\<forall>x \<in> set (bRefs b). \<not> span_contains x (of_nat i) l c) \<longrightarrow>
       (case find (\<lambda>y. symbol_span y (of_nat i) l c) (bSymbols b) of
          None \<Rightarrow> yields r db cas (Definition r file (uint l) (uint c)) (Err (NoSymbolAt file l c))
        | Some y \<Rightarrow> (\<forall>b' y'. declares r db cas (Hash p) (siIDHash y) b' y' \<longrightarrow>
            yields r db cas (Definition r file (uint l) (uint c)) (Ok [declLocation r b' y']))))"
proof (intro conjI ballI allI impI)
  fix x b' y
  assume x: "x \<in> set (bRefs b)" "span_contains x (of_nat i) l c"
    and d: "declares r db cas (riToPkgHash x) (riToSymbolIDHash x) b' y"
  show "yields r db cas (Definition r file (uint l) (uint c)) (Ok [declLocation r b' y])"
    using Definition_yields(1) [OF resolveAt_ref [OF assms x resolveRefTarget_yields(1) [OF d]], of b' y] d by (simp add: targetOf_def)
next
  fix x
  assume x: "x \<in> set (bRefs b)" "span_contains x (of_nat i) l c"
    and d: "undeclared r db cas (riToPkgHash x) (riToSymbolIDHash x)"
  show "yields r db cas (Definition r file (uint l) (uint c)) (Err (NoDefinition []))"
    using Definition_yields(2) [OF resolveAt_ref [OF assms x resolveRefTarget_yields(2) [OF d]]] d by (simp add: targetOf_def)
next
  assume "\<forall>x \<in> set (bRefs b). \<not> span_contains x (of_nat i) l c"
  then have t: "yields r db cas (resolveAt r file l c)
    (case find (\<lambda>y. symbol_span y (of_nat i) l c) (bSymbols b) of
       None \<Rightarrow> Err (NoSymbolAt file l c)
     | Some y \<Rightarrow> Ok \<lparr>rsyPkgHash = Hash p, rsyIDHash = siIDHash y, rsyKind = siKind y, rsyName = siName y\<rparr>)"
    by (intro resolveAt_symbol [OF assms]) blast
  show "case find (\<lambda>y. symbol_span y (of_nat i) l c) (bSymbols b) of
          None \<Rightarrow> yields r db cas (Definition r file (uint l) (uint c)) (Err (NoSymbolAt file l c))
        | Some y \<Rightarrow> (\<forall>b' y'. declares r db cas (Hash p) (siIDHash y) b' y' \<longrightarrow>
            yields r db cas (Definition r file (uint l) (uint c)) (Ok [declLocation r b' y']))"
  proof (cases "find (\<lambda>y. symbol_span y (of_nat i) l c) (bSymbols b)")
    case None
    then show ?thesis using t by (simp add: Definition_yields_err)
  next
    case (Some y)
    then show ?thesis using Definition_yields(1) t by fastforce
  qed
qed

theorem definition_exact_witness:
  "fst (Definition world_resolver (lit ''/n/b.go'') 9 5 cold) = Ok [lib_location]
   \<and> fst (Definition world_resolver (lit ''/n/b.go'') 10 8 cold) = Err (NoDefinition [])
   \<and> fst (Definition world_resolver (lit ''/n/b.go'') 9 7 cold) = Err (NoSymbolAt (lit ''/n/b.go'') 9 7)"
proof -
  note exact = definition_exact [OF world_opened]
  have "yields world_resolver world_db world_cas (Definition world_resolver (lit ''/n/b.go'') (uint (9 :: u32)) (uint (5 :: u32))) (Ok [lib_location])"
    using conjunct1 [OF exact, THEN bspec, OF app_ref_in(1), THEN mp, OF app_ref_in(2)] world_declares
    unfolding lib_declLocation [symmetric] by blast
  moreover have "yields world_resolver world_db world_cas (Definition world_resolver (lit ''/n/b.go'') (uint (10 :: u32)) (uint (8 :: u32))) (Err (NoDefinition []))"
    using exact [of 10 8] world_noFacts [OF world_hashes(3,2)] by (simp add: app_facts_def span_contains_def undeclared_def)
  moreover have "yields world_resolver world_db world_cas (Definition world_resolver (lit ''/n/b.go'') (uint (9 :: u32)) (uint (7 :: u32)))
      (Err (NoSymbolAt (lit ''/n/b.go'') 9 7))"
    using exact [of 9 7] by (simp add: app_facts_def span_contains_def symbol_span_def)
  ultimately show ?thesis using yieldsD [OF _ cold_ready] by fastforce
qed

section \<open>References\<close>

definition posted :: "'t resolver \<Rightarrow> index_state \<Rightarrow> resolved_symbol \<Rightarrow> xref_location set" where
  "posted r ix w = {postingLocation r (toLocation q) | src q. q \<in> set (isPostings ix src)
     \<and> groupKey q = \<lparr>pgTargetPkgHash = rsyPkgHash w, pgTargetIDHash = rsyIDHash w\<rparr>}"

lemma postingsFor_yields:
  assumes "bolt (xvBolt r)" "indexRep (xvBolt r) db ix"
  shows "\<exists>ls. yields r db cas (postingsFor r (rsyPkgHash w) (rsyIDHash w)) (Ok ls) \<and> set ls = posted r ix w"
proof -
  let ?k = "\<lparr>pgTargetPkgHash = rsyPkgHash w, pgTargetIDHash = rsyIDHash w\<rparr>"
  have "represents (xvBolt r) db (isPostings ix)" using assms(2) by (simp add: indexRep_def)
  then obtain srcs where srcs: "set srcs = {src. locsOf (isPostings ix src) ?k \<noteq> []}"
    "PostingsFor (xvBolt r) False (rsyPkgHash w) (rsyIDHash w) db = Ok (map (\<lambda>src. \<lparr>prSrcPkgHash = src,
       prBytes = length (counted location_bytes (locsOf (isPostings ix src) ?k)), prLocations = locsOf (isPostings ix src) ?k\<rparr>) srcs)"
    using bolt.PostingsFor_represents [OF assms(1)] by blast
  let ?ls = "concat (map (\<lambda>src. map (postingLocation r) (locsOf (isPostings ix src) ?k)) srcs)"
  have "yields r db cas (q_ctx (\<lambda>done' s. PostingsFor (xvBolt r) done' (rsyPkgHash w) (rsyIDHash w) (qsDB s)))
      (case PostingsFor (xvBolt r) False (rsyPkgHash w) (rsyIDHash w) db of Ok x \<Rightarrow> Ok x | Err e \<Rightarrow> Err (InStore e) | Panic \<Rightarrow> Panic)"
    by (rule yields_ctx) (simp add: ready_def)
  then have "yields r db cas (postingsFor r (rsyPkgHash w) (rsyIDHash w)) (Ok ?ls)"
    unfolding postingsFor_def srcs(2) go.case by (rule yields_bind [OF keeps_ctx]) (simp add: comp_def)
  moreover have "set ?ls = posted r ix w"
    by (force simp: srcs(1) posted_def locsOf_def filter_empty_conv)
  ultimately show ?thesis by blast
qed

lemma set_sortLocations [simp]: "set (sortLocations ls) = set ls"
  using mset_sort_by [of locationLess ls] by (metis set_mset_mset sortLocations_def)

lemma dedupeLoop_set: "set (dedupeLoop seen ls) = set ls - seen \<and> distinct (dedupeLoop seen ls)"
  by (induction ls arbitrary: seen) auto

lemma locationLess_key: "locationLess a b \<longleftrightarrow> (xlFile a, xlLine a, xlCol a) < (xlFile b, xlLine b, xlCol b)"
  by (auto simp: locationLess_def less_prod_def)

lemma sortLocations_key: "sortLocations ls = sort_key (\<lambda>l. (xlFile l, xlLine l, xlCol l)) ls"
  unfolding sortLocations_def by (rule sort_by_key) (rule locationLess_key)

lemma locationsForAll_yields:
  assumes "bolt (xvBolt r)" "indexRep (xvBolt r) db ix"
  shows "\<exists>ls. yields r db cas (locationsForAll r ws) (Ok ls) \<and> set ls = (\<Union>w \<in> set ws. posted r ix w)"
proof -
  let ?f = "\<lambda>w. q_bind q_check (\<lambda>_. postingsFor r (rsyPkgHash w) (rsyIDHash w))"
  have k: "keeps r (?f w)" for w by (intro keeps_bind agrees_keeps [OF agrees_check] agrees_keeps [OF agrees_postingsFor])
  have "\<exists>ls. yields r db cas (q_concat ?f ws) (Ok ls) \<and> set ls = (\<Union>w \<in> set ws. posted r ix w)"
  proof (induction ws)
    case (Cons w ws)
    obtain l1 where l1: "yields r db cas (?f w) (Ok l1)" "set l1 = posted r ix w"
      using postingsFor_yields [OF assms, of cas w] yields_check_bind by fast
    obtain l2 where l2: "yields r db cas (q_concat ?f ws) (Ok l2)" "set l2 = (\<Union>w \<in> set ws. posted r ix w)" using Cons by blast
    have k2: "keeps r (q_concat ?f ws)"
      by (rule agrees_keeps [OF agrees_concat]) (intro agrees_bind agrees_check agrees_postingsFor)
    have "yields r db cas (q_concat ?f (w # ws)) (Ok (l1 @ l2))"
      unfolding q_concat.simps by (rule yields_bind [OF k l1(1) yields_bind [OF k2 l2(1) yields_ret]])
    moreover have "set (l1 @ l2) = (\<Union>w \<in> set (w # ws). posted r ix w)" using l1(2) l2(2) by auto
    ultimately show ?case by blast
  qed auto
  then obtain ls where ls: "yields r db cas (q_concat ?f ws) (Ok ls)" "set ls = (\<Union>w \<in> set ws. posted r ix w)" by blast
  have "keeps r (q_concat ?f ws)" by (rule agrees_keeps [OF agrees_concat]) (intro agrees_bind agrees_check agrees_postingsFor)
  then have "yields r db cas (locationsForAll r ws) (Ok (sortLocations ls))"
    unfolding locationsForAll_def by (rule yields_bind [OF _ ls(1) yields_ret])
  then show ?thesis using ls(2) by (intro exI [of _ "sortLocations ls"]) simp
qed

lemma referencesOf_yields:
  assumes "bolt (xvBolt r)" "indexRep (xvBolt r) db ix"
    and d: "declares r db cas (rsyPkgHash t) (rsyIDHash t) b y \<and> decl = [declLocation r b y]
      \<or> undeclared r db cas (rsyPkgHash t) (rsyIDHash t) \<and> decl = []"
  shows "\<exists>out. yields r db cas (referencesOf r incl t ws) (Ok out) \<and> distinct out
    \<and> sorted (map (\<lambda>l. (xlFile l, xlLine l, xlCol l)) out)
    \<and> set out = (if incl then set decl else {}) \<union> (\<Union>w \<in> set ws. posted r ix w)"
proof -
  let ?d = "if incl then q_try (symbolByHash r (rsyPkgHash t) (rsyIDHash t)) (\<lambda>(name, kind, loc). q_ret [loc])
      (\<lambda>e. if e = SymbolNotFound then q_ret [] else q_err e) else q_ret []"
  have k: "keeps r ?d" by (auto intro!: keeps_try [OF keeps_symbolByHash] split: prod.split)
  have D: "yields r db cas ?d (Ok (if incl then decl else []))"
    using d
  proof
    assume d: "declares r db cas (rsyPkgHash t) (rsyIDHash t) b y \<and> decl = [declLocation r b y]"
    then show ?thesis
      using yields_try_ok [OF keeps_symbolByHash symbolByHash_yields(1) [OF conjunct1 [OF d]], where f = "\<lambda>(name, kind, loc). q_ret [loc]"]
      by (cases incl) simp_all
  next
    assume d: "undeclared r db cas (rsyPkgHash t) (rsyIDHash t) \<and> decl = []"
    have "yields r db cas (q_try (symbolByHash r (rsyPkgHash t) (rsyIDHash t)) (\<lambda>(name, kind, loc). q_ret [loc])
        (\<lambda>e. if e = SymbolNotFound then q_ret [] else q_err e)) (Ok [])"
      by (rule yields_try_err [OF keeps_symbolByHash symbolByHash_yields(2) [OF conjunct1 [OF d]]]) simp
    then show ?thesis using d by (cases incl) simp_all
  qed
  obtain ls where ls: "yields r db cas (locationsForAll r ws) (Ok ls)" "set ls = (\<Union>w \<in> set ws. posted r ix w)"
    using locationsForAll_yields [OF assms(1,2), of cas ws] by auto
  let ?out = "sortLocations (dedupeLocations ((if incl then decl else []) @ ls))"
  have "yields r db cas (referencesOf r incl t ws) (Ok ?out)"
    unfolding referencesOf_def
    by (rule yields_bind [OF k D yields_bind [OF agrees_keeps [OF agrees_locationsForAll] ls(1)]]) simp
  moreover have "distinct ?out"
    using dedupeLoop_set [of "{}"] by (simp add: sortLocations_key dedupeLocations_def)
  moreover have "sorted (map (\<lambda>l. (xlFile l, xlLine l, xlCol l)) ?out)" by (simp add: sortLocations_key)
  moreover have "set ?out = (if incl then set decl else {}) \<union> (\<Union>w \<in> set ws. posted r ix w)"
    using ls(2) dedupeLoop_set [of "{}"] by (auto simp: dedupeLocations_def)
  ultimately show ?thesis by blast
qed

text \<open>
  C5. Finding references is exact: the result holds every location recorded as a reference to the
  symbol at the position by any indexed package, and to the methods that correspond to it, and no
  other; the declaration too when it is asked for and indexed. Each location appears once, in the
  order of files, lines and columns. When the corresponding methods cannot be determined, the
  symbol's own references are still all there.\<close>
theorem references_all_found:
  assumes "bolt (xvBolt r)" "indexRep (xvBolt r) db ix"
    and "yields r db cas (resolveAt r file l c) (Ok t)"
    and "declares r db cas (rsyPkgHash t) (rsyIDHash t) b y \<and> decl = [declLocation r b y]
      \<or> undeclared r db cas (rsyPkgHash t) (rsyIDHash t) \<and> decl = []"
    and "agrees r db cas (xvCorresponding r t)" "yields r db cas (xvCorresponding r t) corr" "corr \<noteq> Panic"
  shows "\<exists>out. yields r db cas (References r file (uint l) (uint c) incl) (Ok out) \<and> distinct out
    \<and> sorted (map (\<lambda>l. (xlFile l, xlLine l, xlCol l)) out)
    \<and> set out = (if incl then set decl else {}) \<union> posted r ix t
        \<union> (if rsyKind t = KindMethod then case corr of Ok ws \<Rightarrow> \<Union>w \<in> set ws. posted r ix w | _ \<Rightarrow> {} else {})"
proof -
  define ws where "ws = (if rsyKind t = KindMethod then (case corr of Ok ws \<Rightarrow> ws | _ \<Rightarrow> []) else [])"
  obtain out where out: "yields r db cas (referencesOf r incl t (t # ws)) (Ok out)" "distinct out"
    "sorted (map (\<lambda>l. (xlFile l, xlLine l, xlCol l)) out)"
    "set out = (if incl then set decl else {}) \<union> (\<Union>w \<in> set (t # ws). posted r ix w)"
    using referencesOf_yields [OF assms(1,2,4), where ws = "t # ws"] by blast
  have k: "keeps r (xvCorresponding r t)" using assms(5) by (rule agrees_keeps)
  let ?K = "\<lambda>t. if rsyKind t = KindMethod
       then q_try (xvCorresponding r t) (\<lambda>corresponding. referencesOf r incl t (t # corresponding)) (\<lambda>e. referencesOf r incl t [t])
       else referencesOf r incl t [t]"
  have "yields r db cas (?K t) (Ok out)"
  proof (cases "rsyKind t = KindMethod")
    case True
    then show ?thesis
      using out(1) assms(6,7) yields_try [OF k assms(6), where z = "Ok out"] by (cases corr) (simp_all add: ws_def branch_def)
  qed (use out(1) in \<open>simp add: ws_def\<close>)
  from at_position [OF assms(3), where K = ?K, OF this]
  have "yields r db cas (References r file (uint l) (uint c) incl) (Ok out)" unfolding References_def .
  moreover have "set out = (if incl then set decl else {}) \<union> posted r ix t
        \<union> (if rsyKind t = KindMethod then case corr of Ok ws \<Rightarrow> \<Union>w \<in> set ws. posted r ix w | _ \<Rightarrow> {} else {})"
  proof (cases corr)
    case (Ok vs)
    then have "ws = (if rsyKind t = KindMethod then vs else [])" by (simp add: ws_def)
    then show ?thesis unfolding out(4) Ok by (cases "rsyKind t = KindMethod") (simp_all add: Un_assoc)
  next
    case (Err e)
    then have "ws = []" by (simp add: ws_def)
    then show ?thesis unfolding out(4) Err by simp
  next
    case Panic
    then show ?thesis using assms(7) by simp
  qed
  ultimately show ?thesis using out(2,3) by blast
qed

theorem references_all_found_witness:
  "fst (References world_resolver (lit ''/n/b.go'') 9 5 True cold) =
     Ok [lib_location, \<lparr>xlFile = lit ''/n/b.go'', xlLine = 9, xlCol = 4, xlEndCol = 7\<rparr>]"
proof -
  let ?t = "targetOf app_ref (siKind lib_symbol) (siName lib_symbol)"
  let ?l = "\<lparr>xlFile = lit ''/n/b.go'', xlLine = 9, xlCol = 4, xlEndCol = 7\<rparr> :: xref_location"
  have t: "yields world_resolver world_db world_cas (resolveAt world_resolver (lit ''/n/b.go'') 9 5) (Ok ?t)"
    by (rule resolveAt_ref [OF world_opened app_ref_in resolveRefTarget_yields(1) [OF world_declares]])
  have d: "declares world_resolver world_db world_cas (rsyPkgHash ?t) (rsyIDHash ?t) lib_facts lib_symbol \<and> [lib_location] = [declLocation world_resolver lib_facts lib_symbol]
      \<or> undeclared world_resolver world_db world_cas (rsyPkgHash ?t) (rsyIDHash ?t) \<and> [lib_location] = []"
    using world_declares lib_declLocation by (simp add: targetOf_def)
  obtain out where out: "yields world_resolver world_db world_cas (References world_resolver (lit ''/n/b.go'') (uint (9 :: u32)) (uint (5 :: u32)) True) (Ok out)"
    "distinct out" "sorted (map (\<lambda>l. (xlFile l, xlLine l, xlCol l)) out)" "set out = {lib_location} \<union> posted world_resolver world_index ?t"
    using references_all_found [OF _ _ t d, of world_index "Ok []" True] memory.bolt_axioms world_rep by (auto simp: targetOf_def lib_symbol_def)
  have P: "isPostings world_index src = (if src = Hash (lit ''n'') then piePostings (ueIndex app_entry) else [])" for src
    by (simp add: world_index_def addUnit_def emptyIndex_def lib_entry_def app_entry_def)
  have "\<exists>src q. q \<in> set (isPostings world_index src) \<and> groupKey q = \<lparr>pgTargetPkgHash = rsyPkgHash ?t, pgTargetIDHash = rsyIDHash ?t\<rparr>
      \<and> ?l = postingLocation world_resolver (toLocation q)"
    by (rule exI [of _ "Hash (lit ''n'')"], rule exI [of _ "hd (piePostings (ueIndex app_entry))"])
      (simp add: P app_entry_def groupKey_def targetOf_def app_ref_def toLocation_def postingLocation_def absPath_def)
  then have "?l \<in> posted world_resolver world_index ?t" unfolding posted_def by blast
  moreover have "posted world_resolver world_index ?t \<subseteq> {?l}"
    using world_hashes
    by (auto simp: posted_def P app_entry_def targetOf_def app_ref_def groupKey_def toLocation_def postingLocation_def absPath_def
        split: if_splits)
  ultimately have "posted world_resolver world_index ?t = {?l}" by blast
  then have S: "set out = {lib_location, ?l}" using out(4) by auto
  have "lib_location \<noteq> ?l" "(xlFile lib_location, xlLine lib_location, xlCol lib_location) < (xlFile ?l, xlLine ?l, xlCol ?l)"
    by (simp_all add: lib_location_def lit_def)
  then have "out = [lib_location, ?l]"
    using sorted_distinct_pair [OF out(3,2) S] by simp
  then show ?thesis using yieldsD [OF out(1) cold_ready] by simp
qed

section \<open>Caching and cancellation\<close>

definition sameUnlessCancelled :: "'t resolver \<Rightarrow> ('t, 'a) query \<Rightarrow> 't query_state \<Rightarrow> 't query_state \<Rightarrow> bool" where
  "sameUnlessCancelled r m s t \<longleftrightarrow> kept r s (snd (m s))
     \<and> (fst (m s) = fst (m t) \<or> qsCancelAt s \<noteq> None \<and> (\<exists>e. fst (m s) = Err e \<and> isCancelled e))"

lemma agrees_same:
  assumes "agrees r db cas m" "ready r db cas s" "ready r db cas t" "qsCancelAt t = None"
  shows "sameUnlessCancelled r m s t"
proof -
  obtain x where x: "\<And>s. ready r db cas s \<Longrightarrow> fst (m s) = x \<or> cancelled (m s)" using assms(1) unfolding agrees_def steady_def by blast
  have k: "kept r s (snd (m s))" for s using agrees_keeps [OF assms(1)] by (rule keepsD)
  have "\<not> cancelled (m t)" using k [of t] assms(4) by (simp add: cancelled_def kept_def ctxDone_def)
  then have "fst (m t) = x" using x [OF assms(3)] by blast
  moreover have "qsCancelAt s \<noteq> None \<and> (\<exists>e. fst (m s) = Err e \<and> isCancelled e)" if "cancelled (m s)"
    using that k [of s] by (auto simp: cancelled_def kept_def ctxDone_def split: option.splits)
  ultimately show ?thesis using x [OF assms(2)] k [of s] by (auto simp: sameUnlessCancelled_def)
qed


definition warm :: "mem query_state" where
  "warm = snd (Definition world_resolver (lit ''/n/b.go'') 9 5 cold)"


end
