(* ===== verification/Xref_Symbols.thy ===== *)
theory Xref_Symbols
  imports Xref_Answers
begin

text \<open>
  The search for workspace symbols: the loop with its limit, and what it finds.
\<close>

section \<open>The loop\<close>

lemma symbolsOfName_yields:
  assumes "\<And>h. yields r db cas (symbolInfoFromIDHash r h) (Ok (info h))"
  shows "length out \<le> 100 \<Longrightarrow> \<exists>full. yields r db cas (symbolsOfName r hs out) (Ok (take 100 (out @ List.map_filter info hs), full))
    \<and> (full \<longrightarrow> length out + length (List.map_filter info hs) \<ge> 100) \<and> (\<not> full \<longrightarrow> length out + length (List.map_filter info hs) \<le> 100)"
proof (induction hs arbitrary: out)
  case Nil
  then show ?case by (intro exI [of _ False]) (simp add: List.map_filter_simps)
next
  case (Cons h hs)
  show ?case
  proof (cases "length out \<ge> 100")
    case True
    then show ?thesis
      using Cons.prems by (intro exI [of _ True]) (simp add: defaultWorkspaceSymbolLimit_def)
  next
    case False
    let ?out = "case info h of Some i \<Rightarrow> out @ [i] | None \<Rightarrow> out"
    have "length ?out \<le> 100" using False by (simp split: option.split)
    from Cons.IH [OF this] obtain full where full:
      "yields r db cas (symbolsOfName r hs ?out) (Ok (take 100 (?out @ List.map_filter info hs), full))"
      "full \<longrightarrow> length ?out + length (List.map_filter info hs) \<ge> 100"
      "\<not> full \<longrightarrow> length ?out + length (List.map_filter info hs) \<le> 100" by blast
    have e: "?out @ List.map_filter info hs = out @ List.map_filter info (h # hs)"
      by (simp add: List.map_filter_simps split: option.split)
    then have n: "length ?out + length (List.map_filter info hs) = length out + length (List.map_filter info (h # hs))"
      by (metis length_append)
    have "yields r db cas (q_bind (symbolInfoFromIDHash r h) (\<lambda>o'. symbolsOfName r hs (case o' of Some i \<Rightarrow> out @ [i] | None \<Rightarrow> out)))
        (Ok (take 100 (?out @ List.map_filter info hs), full))"
      by (rule yields_bind [OF agrees_keeps [OF agrees_symbolInfo] assms [of h]]) (rule full(1))
    then have "yields r db cas (symbolsOfName r (h # hs) out) (Ok (take 100 (?out @ List.map_filter info hs), full))"
      using False by (simp add: defaultWorkspaceSymbolLimit_def)
    then show ?thesis using full(2,3) unfolding e n by blast
  qed
qed

lemma symbolsOfNames_yields:
  assumes "\<And>h. yields r db cas (symbolInfoFromIDHash r h) (Ok (info h))"
  shows "length out \<le> 100 \<Longrightarrow>
    yields r db cas (symbolsOfNames r f ns out) (Ok (take 100 (out @ List.map_filter info (concat (map f ns)))))"
proof (induction ns arbitrary: out)
  case (Cons n ns)
  let ?o = "out @ List.map_filter info (f n)"
  have split: "List.map_filter info (f n @ concat (map f ns)) = List.map_filter info (f n) @ List.map_filter info (concat (map f ns))"
    by (simp add: List.map_filter_def)
  obtain full where full: "yields r db cas (symbolsOfName r (f n) out) (Ok (take 100 ?o, full))"
    "full \<longrightarrow> length ?o \<ge> 100" "\<not> full \<longrightarrow> length ?o \<le> 100"
    using symbolsOfName_yields [of r db cas info out "f n", OF assms Cons.prems] by auto
  let ?z = "Ok (take 100 (out @ List.map_filter info (concat (map f (n # ns))))) :: (xref_error, symbol_info list) go"
  have "yields r db cas (if full then q_ret (take 100 ?o) else symbolsOfNames r f ns (take 100 ?o)) ?z"
  proof (cases full)
    case True
    then show ?thesis using full(2) by (simp add: split)
  next
    case False
    then have o: "length ?o \<le> 100" "take 100 ?o = ?o" using full(3) by simp_all
    show ?thesis using False Cons.IH [OF o(1)] unfolding o(2) by (simp add: split)
  qed
  then have "yields r db cas (q_bind (symbolsOfName r (f n) out) (\<lambda>(out, full). if full then q_ret out else symbolsOfNames r f ns out)) ?z"
    by (intro yields_bind [OF agrees_keeps [OF agrees_symbolsOfName] full(1)]) (simp only: prod.case)
  then show ?case unfolding symbolsOfNames.simps by (rule yields_check_bind)
qed (simp add: List.map_filter_simps)

section \<open>From a hash to a symbol\<close>

text \<open>Every package is indexed, with files for all its symbols, or not indexed at all.\<close>

definition wholeIndex :: "'t resolver \<Rightarrow> 't \<Rightarrow> cas_files \<Rightarrow> bool" where
  "wholeIndex r db cas \<longleftrightarrow> (\<forall>p. noFacts r db p
     \<or> (\<exists>b. hasFacts r db cas p b \<and> (\<forall>y \<in> set (bSymbols b). unat (siFileIdx y) < length (bFiles b))))"

lemma declared_or_not:
  assumes "wholeIndex r db cas"
  shows "undeclared r db cas p h \<or> (\<exists>b y. declares r db cas p h b y)"
proof -
  consider "noFacts r db p" | b where "hasFacts r db cas p b" "\<forall>y \<in> set (bSymbols b). unat (siFileIdx y) < length (bFiles b)"
    using assms by (auto simp: wholeIndex_def)
  then show ?thesis
  proof cases
    case 1
    then show ?thesis by (simp add: undeclared_def)
  next
    case 2
    show ?thesis
    proof (cases "find (\<lambda>s. siIDHash s = h) (bSymbols b)")
      case None
      then show ?thesis using 2(1) by (auto simp: undeclared_def)
    next
      case (Some y)
      then have "y \<in> set (bSymbols b)" by (auto simp: find_Some_iff)
      then show ?thesis using 2 Some by (auto simp: declares_def)
    qed
  qed
qed

text \<open>The description of \<open>h\<close> among the symbol identifiers \<open>strs\<close>, and that there is none.\<close>

definition describes :: "'t resolver \<Rightarrow> 't \<Rightarrow> cas_files \<Rightarrow> u64 \<Rightarrow> bytes set \<Rightarrow> symbol_info option \<Rightarrow> bool" where
  "describes r db cas h strs o' \<longleftrightarrow>
     (case o' of
        Some i \<Rightarrow> \<exists>obj b y. (\<exists>sid \<in> strs. splitSymbolID sid = Some (sinContainer i, obj)) \<and> declares r db cas (Hash (sinContainer i)) h b y
          \<and> i = \<lparr>sinName = siName y, sinKind = siKind y, sinContainer = sinContainer i, sinLocation = declLocation r b y\<rparr>
      | None \<Rightarrow> \<forall>sid \<in> strs. \<forall>p obj. splitSymbolID sid = Some (p, obj) \<longrightarrow> undeclared r db cas (Hash p) h)"

lemma describes_more: "describes r db cas h A (Some i) \<Longrightarrow> A \<subseteq> B \<Longrightarrow> describes r db cas h B (Some i)"
  by (fastforce simp: describes_def)

lemma infoFromStrings_yields:
  assumes "wholeIndex r db cas"
  shows "\<exists>o'. yields r db cas (infoFromStrings r h strs) (Ok o') \<and> describes r db cas h (set strs) o'"
proof (induction strs)
  case Nil
  then show ?case by (auto simp: describes_def intro!: exI [of _ None])
next
  case (Cons sid strs)
  then obtain o' where o': "yields r db cas (infoFromStrings r h strs) (Ok o')" "describes r db cas h (set strs) o'" by blast
  show ?case
  proof (cases "splitSymbolID sid")
    case None
    have "describes r db cas h (set (sid # strs)) o'"
      using o'(2) None describes_more [of r db cas h "set strs" _ "set (sid # strs)"] by (cases o') (auto simp: describes_def)
    then show ?thesis using o'(1) None by auto
  next
    case (Some z)
    obtain p obj where z: "z = (p, obj)" by (cases z)
    have step: "infoFromStrings r h (sid # strs) = q_try (symbolByHash r (Hash p) h)
        (\<lambda>(name, kind, loc). q_ret (Some \<lparr>sinName = name, sinKind = kind, sinContainer = p, sinLocation = loc\<rparr>))
        (\<lambda>e. if e = SymbolNotFound then infoFromStrings r h strs else q_err e)"
      using Some by (simp add: z)
    consider "undeclared r db cas (Hash p) h" | b y where "declares r db cas (Hash p) h b y"
      using declared_or_not [OF assms] by blast
    then show ?thesis
    proof cases
      case 1
      have "yields r db cas (infoFromStrings r h (sid # strs)) (Ok o')"
        unfolding step by (rule yields_try_err [OF keeps_symbolByHash symbolByHash_yields(2) [OF 1]]) (simp add: o'(1))
      moreover have "describes r db cas h (set (sid # strs)) o'"
        using o'(2) Some z 1 describes_more [of r db cas h "set strs" _ "set (sid # strs)"] by (cases o') (auto simp: describes_def)
      ultimately show ?thesis by blast
    next
      case 2
      let ?i = "\<lparr>sinName = siName y, sinKind = siKind y, sinContainer = p, sinLocation = declLocation r b y\<rparr>"
      have "yields r db cas (infoFromStrings r h (sid # strs)) (Ok (Some ?i))"
        unfolding step by (rule yields_try_ok [OF keeps_symbolByHash symbolByHash_yields(1) [OF 2]]) simp
      moreover have "describes r db cas h (set (sid # strs)) (Some ?i)"
        using 2 Some z by (auto simp: describes_def)
      ultimately show ?thesis by blast
    qed
  qed
qed

lemma symbolInfo_yields:
  assumes "wholeIndex r db cas" "bolt (xvBolt r)" "indexRep (xvBolt r) db ix"
  shows "\<exists>o'. yields r db cas (symbolInfoFromIDHash r h) (Ok o') \<and> describes r db cas h {y. (h, y) \<in> isSymStrs ix} o'"
proof -
  obtain ys where ys: "SymbolIDStrings (xvBolt r) False h db = Ok ys" "set ys = {y. (h, y) \<in> isSymStrs ix}"
    using bolt.SymbolIDStrings_rep(1) [OF assms(2,3)] by blast
  obtain o' where o': "yields r db cas (infoFromStrings r h ys) (Ok o')" "describes r db cas h (set ys) o'"
    using infoFromStrings_yields [OF assms(1)] by blast
  have "yields r db cas (q_ctx (\<lambda>done' s. SymbolIDStrings (xvBolt r) done' h (qsDB s)))
      (case SymbolIDStrings (xvBolt r) False h db of Ok x \<Rightarrow> Ok x | Err e \<Rightarrow> Err (InStore e) | Panic \<Rightarrow> Panic)"
    by (rule yields_ctx) (simp add: ready_def)
  then have "yields r db cas (symbolInfoFromIDHash r h) (Ok o')"
    unfolding symbolInfoFromIDHash_def ys(1) go.case by (rule yields_bind [OF keeps_ctx]) (rule o'(1))
  then show ?thesis using o'(2) ys(2) by auto
qed

section \<open>The query\<close>

lemma nameStep_finite:
  "go_foldM nameStep es f = Ok g \<Longrightarrow> finite {n. f n \<noteq> []} \<Longrightarrow> finite {n. g n \<noteq> []}"
proof (induction es arbitrary: f)
  case (Cons e es)
  then obtain f1 where f1: "nameStep e f = Ok f1" "go_foldM nameStep es f1 = Ok g" by (auto simp: go_bind_eq_Ok)
  then obtain n h where "f1 = f(n := f n @ [h])" by (auto simp: nameStep_def go_bind_eq_Ok)
  with f1(2) have "go_foldM nameStep es (f(n := f n @ [h])) = Ok g" by simp
  moreover have "{m. (f(n := f n @ [h])) m \<noteq> []} \<subseteq> insert n {n. f n \<noteq> []}" by auto
  then have "finite {m. (f(n := f n @ [h])) m \<noteq> []}" by (rule finite_subset) (simp add: Cons.prems(2))
  ultimately show ?case using Cons.IH by blast
qed simp

text \<open>
  C26. A search for workspace symbols finds what the index holds. It visits the names with the
  (lowercased) prefix in increasing order, and the symbols of each in increasing order of their
  hashes; the answer is the first hundred of the symbols whose package still declares them, each
  with its declaration, and of the others every one was undeclared.\<close>
theorem workspace_symbols_exact:
  assumes "bolt (xvBolt r)" "indexRep (xvBolt r) db ix" "wholeIndex r db cas" "noNul (toLower (xvLower r) pre)"
  shows "\<exists>f ns info. yields r db cas (WorkspaceSymbol r pre) (Ok (take 100 (List.map_filter info (concat (map f ns)))))
    \<and> sorted_wrt (<) ns \<and> set ns = {n. f n \<noteq> []}
    \<and> (\<forall>n. sorted_wrt (<) (f n) \<and> set (f n) = {h. (n, h) \<in> isNames ix \<and> prefix (toLower (xvLower r) pre) n})
    \<and> (\<forall>h. describes r db cas h {sid. (h, sid) \<in> isSymStrs ix} (info h))"
proof -
  obtain f where f: "LookupNamePrefix (xvBolt r) (xvLower r) False pre db = Ok f"
    "\<forall>n. sorted_wrt (<) (f n) \<and> set (f n) = {h. (n, h) \<in> isNames ix \<and> prefix (toLower (xvLower r) pre) n}"
    using bolt.LookupNamePrefix_rep [OF assms(1,2,4)] by blast
  have "\<forall>h. \<exists>o'. yields r db cas (symbolInfoFromIDHash r h) (Ok o') \<and> describes r db cas h {sid. (h, sid) \<in> isSymStrs ix} o'"
    using symbolInfo_yields [OF assms(3,1,2)] by blast
  from choice [OF this] obtain info where info: "\<And>h. yields r db cas (symbolInfoFromIDHash r h) (Ok (info h))"
    "\<And>h. describes r db cas h {sid. (h, sid) \<in> isSymStrs ix} (info h)" by blast
  have fin: "finite {n. f n \<noteq> []}"
    using f(1) nameStep_finite [of _ "\<lambda>_. []" f] by (auto simp: LookupNamePrefix_def go_bind_eq_Ok)
  let ?ns = "sorted_list_of_set {n. f n \<noteq> []}"
  have "yields r db cas (q_ctx (\<lambda>done' s. LookupNamePrefix (xvBolt r) (xvLower r) done' pre (qsDB s)))
      (case LookupNamePrefix (xvBolt r) (xvLower r) False pre db of Ok x \<Rightarrow> Ok x | Err e \<Rightarrow> Err (InStore e) | Panic \<Rightarrow> Panic)"
    by (rule yields_ctx) (simp add: ready_def)
  moreover have "yields r db cas (symbolsOfNames r f ?ns []) (Ok (take 100 (List.map_filter info (concat (map f ?ns)))))"
    using symbolsOfNames_yields [of r db cas info "[]", OF info(1)] by simp
  ultimately have "yields r db cas (WorkspaceSymbol r pre) (Ok (take 100 (List.map_filter info (concat (map f ?ns)))))"
    unfolding WorkspaceSymbol_def f(1) go.case using yields_bind [OF keeps_ctx, where f = "\<lambda>matches. symbolsOfNames r matches (sorted_list_of_set {n. matches n \<noteq> []}) []"] by blast
  then show ?thesis using f(2) info(2) fin by (intro exI [of _ f] exI [of _ ?ns] exI [of _ info]) simp
qed

lemma world_whole: "wholeIndex world_resolver world_db world_cas"
  unfolding wholeIndex_def
proof
  fix h
  have "unat (siFileIdx y) < length (bFiles lib_facts)" if "y \<in> set (bSymbols lib_facts)" for y using that by (auto simp: lib_facts_def)
  moreover have "unat (siFileIdx y) < length (bFiles app_facts)" if "y \<in> set (bSymbols app_facts)" for y using that by (auto simp: app_facts_def)
  ultimately show "noFacts world_resolver world_db h
      \<or> (\<exists>b. hasFacts world_resolver world_db world_cas h b \<and> (\<forall>y \<in> set (bSymbols b). unat (siFileIdx y) < length (bFiles b)))"
    using world_has world_noFacts [of h] by (cases "h = Hash (lit ''n'')"; cases "h = Hash (lit ''m'')") blast+
qed

theorem workspace_symbols_exact_witness:
  "\<exists>i. fst (WorkspaceSymbol world_resolver (lit ''RU'') cold) = Ok [i] \<and> sinName i = lit ''Run'' \<and> sinLocation i = lib_location"
proof -
  have low: "toLower id (lit ''RU'') = lit ''ru''" "toLower id (lit ''Run'') = lit ''run''" "toLower id (lit ''Go'') = lit ''go''"
    by (simp_all add: toLower_def lit_def asciiLower_def)
  have pre: "noNul (lit ''ru'')" "prefix (lit ''ru'') (lit ''run'')" "\<not> prefix (lit ''ru'') (lit ''go'')" "lit ''run'' \<noteq> lit ''go''"
    by (simp_all add: noNul_def lit_def)
  have names: "isNames world_index = {(lit ''run'', 11), (lit ''go'', 12)}"
    using low by (auto simp: world_index_def addUnit_def emptyIndex_def lib_entry_def app_entry_def)
  obtain f ns info where w: "yields world_resolver world_db world_cas (WorkspaceSymbol world_resolver (lit ''RU''))
      (Ok (take 100 (List.map_filter info (concat (map f ns)))))" "sorted_wrt (<) ns" "set ns = {n. f n \<noteq> []}"
    "\<And>n. sorted_wrt (<) (f n)" "\<And>n. set (f n) = {h. (n, h) \<in> isNames world_index \<and> prefix (lit ''ru'') n}"
    "\<And>h. describes world_resolver world_db world_cas h {sid. (h, sid) \<in> isSymStrs world_index} (info h)"
    using workspace_symbols_exact [of world_resolver world_db world_index world_cas "lit ''RU''", unfolded world_resolver_simps low,
        OF memory.bolt_axioms world_rep world_whole pre(1)] by (elim exE conjE) (rule that, assumption+, (erule allE, erule conjE, assumption)+, erule allE, assumption)
  have run: "set (f n) = (if n = lit ''run'' then {11} else {})" for n using pre by (auto simp: w(5) names)
  have "f (lit ''run'') = [11]" by (rule strict_sorted_equal) (use run w(4) in simp_all)
  moreover have "ns = [lit ''run'']"
  proof (rule strict_sorted_equal)
    have "f n \<noteq> [] \<longleftrightarrow> n = lit ''run''" for n using run [of n] by (cases "n = lit ''run''") auto
    then show "set ns = set [lit ''run'']" using w(3) by simp
  qed (use w(2) in simp_all)
  ultimately have "concat (map f ns) = [11]" by simp
  then have out: "fst (WorkspaceSymbol world_resolver (lit ''RU'') cold) = Ok (List.map_filter info [11])"
    using yieldsD [OF w(1) cold_ready] by (simp add: List.map_filter_simps split: option.split)
  have sid: "isSymStrs world_index = {(11, lit ''m#Run''), (12, lit ''n#Go'')}"
    by (auto simp: world_index_def addUnit_def emptyIndex_def lib_entry_def app_entry_def)
  have split: "splitSymbolID (lit ''m#Run'') = Some (lit ''m'', lit ''Run'')" by (simp add: splitSymbolID_def lit_def)
  have here: "declares world_resolver world_db world_cas (Hash (lit ''m'')) 11 lib_facts lib_symbol"
    using world_declares by (simp add: app_ref_def)
  have D: "describes world_resolver world_db world_cas 11 {lit ''m#Run''} (info 11)" using w(6) [of 11] by (simp add: sid)
  have "yields world_resolver world_db world_cas (symbolByHash world_resolver (Hash (lit ''m'')) 11)
      (Ok (siName lib_symbol, siKind lib_symbol, lib_location))"
    using symbolByHash_yields(1) [OF here] unfolding lib_declLocation .
  then have one: "fst (symbolByHash world_resolver (Hash (lit ''m'')) 11 cold) = Ok (siName lib_symbol, siKind lib_symbol, lib_location)"
    by (rule yieldsD [OF _ cold_ready])
  show ?thesis
  proof (cases "info 11")
    case None
    then have "undeclared world_resolver world_db world_cas (Hash (lit ''m'')) 11" using D split by (simp add: describes_def)
    from yieldsD [OF symbolByHash_yields(2) [OF this] cold_ready] one show ?thesis by simp
  next
    case (Some i)
    then obtain obj b y where i: "splitSymbolID (lit ''m#Run'') = Some (sinContainer i, obj)"
      "declares world_resolver world_db world_cas (Hash (sinContainer i)) 11 b y"
      "i = \<lparr>sinName = siName y, sinKind = siKind y, sinContainer = sinContainer i, sinLocation = declLocation world_resolver b y\<rparr>"
      using D by (auto simp: describes_def)
    have "sinContainer i = lit ''m''" using i(1) split by simp
    with yieldsD [OF symbolByHash_yields(1) [OF i(2)] cold_ready] one
    have "siName y = siName lib_symbol" "declLocation world_resolver b y = lib_location" by simp_all
    then have "sinName i = siName lib_symbol \<and> sinLocation i = lib_location"
      by (subst i(3), subst (2) i(3)) simp
    then show ?thesis using out Some by (simp add: List.map_filter_simps lib_symbol_def)
  qed
qed

end
