(* ===== verification/Spec2Isabelle.thy ===== *)
theory Spec2Isabelle
  imports Line_Diff Overlay Rpc_Server Dep_Provider Revalidate Check_Sound Xref_Symbols
begin

text \<open>
  Verification of golance, a language server for Go.

  \<^bold>\<open>The program.\<close> The server (\<open>internal/server\<close>) reads JSON-RPC messages from an editor
  (\<open>internal/rpc\<close>), keeps the open documents (\<open>internal/overlay\<close>), rechecks the package of an
  edited document (\<open>internal/check\<close>) and answers navigation
  queries from an index on disk. The index is built by \<open>internal/index\<close>: it walks the import
  graph (\<open>internal/graph\<close>) with a scheduler, type-checks every package and writes two things
  through \<open>internal/store\<close>: content-addressed blobs that hold a package's facts, and a bbolt
  database with the pointers to them and the lookup tables. Queries read both back; positions in a
  document with unsaved changes are corrected with the line diff of \<open>internal/diff\<close>.
  Dependencies outside the workspace are type-checked on demand and cached by
  \<open>internal/depcheck\<close>.

  \<^bold>\<open>The theories.\<close>

  \<^item> \<^verbatim>\<open>Golance_Prelude\<close>, \<^verbatim>\<open>Byte_Codec\<close>: results of Go calls (value, error or panic), byte
    strings, fixed-width integers and their encodings, writers into a buffer and readers over an
    offset, with the locale \<^verbatim>\<open>record_codec\<close> of an encoder and its decoder.

  \<^item> \<^verbatim>\<open>Unit_Codec\<close> (\<open>store/unit.go\<close>), \<^verbatim>\<open>Facts_Blob\<close> (\<open>store/layout.go\<close>, \<open>blob.go\<close>,
    \<open>view.go\<close>): the byte formats of the unit blob, the unit pointer and the facts blob. Encoding
    and decoding are inverse; no input makes a decoder panic; the binary searches of the view find
    exactly the symbols and references that were built in.

  \<^item> \<^verbatim>\<open>Bolt\<close>: bbolt as a record of operations with its documented laws as the locale
    \<^verbatim>\<open>bolt\<close>, interpreted on an in-memory instance. \<^verbatim>\<open>Postings\<close> (\<open>store/postings.go\<close>) and
    \<^verbatim>\<open>Store_DB\<close> (\<open>store/store.go\<close>): the index database over any such instance. A batch write
    refines an abstract index, the lookups return exactly what it holds, and opening recovers from
    corrupt and outdated files.

  \<^item> \<^verbatim>\<open>Cas\<close> (\<open>store/cas.go\<close>, \<open>server/casgc.go\<close>): the blob store. A write is atomic, a sweep
    removes exactly the unmarked blobs older than the grace period, and the collection started by
    the server only sweeps after it has read every index database that shares the store.

  \<^item> \<^verbatim>\<open>Graph\<close> (\<open>graph/graph.go\<close>): the snapshot of the import graph. The order of packages is
    topological, does not depend on map iteration order, and the reverse closure is exact.
    \<^verbatim>\<open>Scheduler\<close> (\<open>index/scheduler.go\<close>): the workers as a step relation. A unit is processed
    after its dependencies, and every schedule ends with every unit processed.

  \<^item> \<^verbatim>\<open>Line_Diff\<close> (\<open>diff/diff.go\<close>): Myers' algorithm. The edits turn the old text into the new
    one and are as few as possible.

  \<^item> \<^verbatim>\<open>Position\<close> (\<open>overlay/position.go\<close>, \<open>server/position.go\<close>), \<^verbatim>\<open>Overlay\<close>
    (\<open>overlay/overlay.go\<close>, \<open>server/dirty.go\<close>, the batch conversion of \<open>server/handlers_xref.go\<close>):
    UTF-16 and line/column positions and their inverses, the documents as a refinement of a map of
    buffers, and the correction of positions in unsaved buffers.

  \<^item> \<^verbatim>\<open>Framing\<close> (\<open>rpc/framing.go\<close>) and \<^verbatim>\<open>Rpc_Server\<close> (the rest of \<open>internal/rpc\<close>): the
    stream of frames, and the server as a step relation of its read loop, queues and request
    goroutines. A request's handler runs after the notifications read before it, every request is
    answered once, and the goroutines neither deadlock nor exceed their pools.

  \<^item> \<^verbatim>\<open>Dep_Cache\<close> (\<open>depcheck/lru.go\<close>) and \<^verbatim>\<open>Dep_Provider\<close> (the pins of
    \<open>depcheck/depcheck.go\<close>): the cache of checked dependencies. An entry that is pinned, or that a
    cached entry depends on, is not evicted, and the goroutines that wait for one check all get
    their pin before the result can be evicted.

  \<^item> \<^verbatim>\<open>Index_Unit\<close> (\<open>index/unit.go\<close>, \<open>unitkey.go\<close>, \<open>content_hash.go\<close>, \<open>export_source.go\<close>,
    \<open>testfiles.go\<close>): hashes, unit keys and the processing of one package. \<^verbatim>\<open>Index_Sound\<close>: what the
    index of a build from scratch is, and that processing a package keeps the stores right.
    \<^verbatim>\<open>Index_Build\<close> (\<open>index/index.go\<close>, \<open>results.go\<close>): \<open>Build\<close> with its batches of writes.
    \<^verbatim>\<open>Build_Sound\<close>, \<^verbatim>\<open>Build_Live\<close>: the jobs in the order of any complete run of the scheduler
    leave the index of a build from scratch, whatever the stores held before, and count no error
    where nothing fails. \<^verbatim>\<open>Reindex\<close> (\<open>index/reindex.go\<close>, \<open>generation.go\<close>): reindexing an edited
    package brings the whole index up to date. \<^verbatim>\<open>Revalidate\<close> (\<open>index/revalidate.go\<close>): the check
    for stale packages finds none exactly when every package is up to date.

  \<^item> \<^verbatim>\<open>Check_Files\<close> (the file cache, content hashes and parsing of \<open>check/recheck.go\<close>,
    \<open>check/graphsource.go\<close>), \<^verbatim>\<open>Check_Result\<close> (\<open>check/result.go\<close>, \<open>check/diagnostics.go\<close>) and
    \<^verbatim>\<open>Check_Content\<close>: what the recheck of an open document reads. The file cache never changes what
    a read returns while files do not change behind their stats, and the content hash identifies
    the unit's files. \<^verbatim>\<open>Check_Engine\<close> (\<open>check/recheck.go\<close>, \<open>check/check.go\<close>): the engine as a
    step relation of its callers, debounce timers, recheck jobs and shared flights.
    \<^verbatim>\<open>Check_Order\<close>, \<^verbatim>\<open>Check_Live\<close> and \<^verbatim>\<open>Check_Sound\<close>: results reach the cache and the editor in
    the order of their generations, the cache stays within its limit, \<open>Wait\<close> returns only when
    nothing runs, and every schedule comes to rest with no caller left waiting.

  \<^item> \<^verbatim>\<open>Xref_Cache\<close> (\<open>xref/unitcache.go\<close>, \<open>xref/confirmmemo.go\<close>): the caches of queries, bounded
    and evicted by recency. \<^verbatim>\<open>Xref\<close> (\<open>xref/resolver.go\<close>, \<open>xref/paths.go\<close>, \<open>xref/xref.go\<close>,
    \<open>xref/symbollookup.go\<close>): the queries over the index. A query runs against one state of the
    stores; it changes the cache and may find its context cancelled from any of its checks on.
    \<^verbatim>\<open>Xref_Agree\<close> and \<^verbatim>\<open>Xref_Steady\<close>: the result of every query depends on the stores alone,
    or is the error of its context. \<^verbatim>\<open>Xref_Exact\<close>, \<^verbatim>\<open>Xref_Answers\<close> and \<^verbatim>\<open>Xref_Symbols\<close>:
    going to the definition, finding references and searching the workspace's symbols return exactly
    what the facts and the database record, shown on the workspace of \<^verbatim>\<open>Xref_World\<close>.

  \<^bold>\<open>Assumptions on the index.\<close> The theorems about building assume what the design of the index
  assumes: a unit key determines the result of the check (the function \<open>R\<close>), unchanged file stats
  mean unchanged content, package paths have distinct hashes, and the checker gives the result of a
  key when it is given the export data of the direct dependencies. They are named definitions
  (\<^verbatim>\<open>keying\<close>, \<^verbatim>\<open>checksTo\<close>, \<^verbatim>\<open>honest\<close>, \<^verbatim>\<open>fitsFormat\<close>), and a workspace of two packages
  shows that they can hold.

  \<^bold>\<open>Parameters.\<close> Code outside the repository is an argument: bbolt (the locale \<^verbatim>\<open>bolt\<close>),
  SHA-256, Unicode case mapping and white space beyond ASCII, the conversion of URIs to paths, path
  joining, the parser and type checker behind a recheck, the contents of files and the outcomes of
  system calls. \<open>checkOnePackage\<close>, the parse,
  type check and facts extraction of one package, is the argument \<^verbatim>\<open>enCheck\<close> of the indexer. In the queries
  \<open>correspondingMethodSymbols\<close>, which compares method sets, and \<open>docCommentEdits\<close>, which parses the
  declaring file, are the arguments \<^verbatim>\<open>xvCorresponding\<close> and \<^verbatim>\<open>xvDocEdits\<close>. Machine integers are words where the source
  encodes or hashes them; lengths and counters in memory are natural numbers.

  \<^bold>\<open>Loops.\<close> Every loop of the model is a total function, by structural recursion or a
  termination measure; where the code's own bound is the argument (the rounds of the line diff, the
  binary searches) the theorem includes that the bound is enough. No theorem is conditional on a
  loop's ending.

  \<^bold>\<open>Not modelled.\<close> Whatever consists of calls into \<open>go/types\<close>, \<open>go/ast\<close>, \<open>go/packages\<close>
  and the LSP protocol library: the type-checking of packages (\<open>typecheck\<close>,
  \<open>depexport\<close> and the checks of \<open>depcheck/depcheck.go\<close> beyond its pins), the extraction of facts (\<open>index/facts.go\<close>), the
  language features (\<open>langfeat\<close>), implementations, type hierarchies and the export data of \<open>xref\<close>
  (\<open>xref/implementation.go\<close>, \<open>xref/typehierarchy.go\<close>, \<open>resolveNamed\<close> of \<open>xref/resolver.go\<close>), the
  request handlers and the process management of \<open>server\<close>, and the command line.
\<close>

end
